(* ===== verification/Prelude.thy ===== *)
theory Prelude
  imports Main "HOL-Library.Word"
begin

text \<open>
  Shared vocabulary of the development: outcomes of C functions that may stop the process,
  a small weakest-precondition calculus over them, the C string functions the sources
  call (\<open>strcmp\<close>, \<open>strncmp\<close>, truncating \<open>snprintf\<close>), decimal output and printf arguments.

  A C function that can call \<open>exit()\<close>, \<open>abort()\<close> or run into undefined behaviour is a
  function from the program state to an \<open>outcome\<close>: \<open>Ret a s\<close> when it returns \<open>a\<close> in state
  \<open>s\<close>, \<open>Stop r s\<close> when the process ends for reason \<open>r\<close>.
\<close>

named_theorems wp_rules \<open>weakest preconditions of the operations of the model\<close>
named_theorems frame_simps \<open>fields an operation leaves alone\<close>
named_theorems cstr_simps \<open>facts on C strings\<close>

section \<open>Outcomes\<close>

datatype stop = Exit int | Abort | Undefined string

datatype ('a, 's) outcome = Ret 'a 's | Stop stop 's

fun bnd :: "('a, 's) outcome \<Rightarrow> ('a \<Rightarrow> 's \<Rightarrow> ('b, 's) outcome) \<Rightarrow> ('b, 's) outcome" where
  "bnd (Ret a s) f = f a s"
| "bnd (Stop r s) f = Stop r s"

fun final_state :: "('a, 's) outcome \<Rightarrow> 's" where
  "final_state (Ret a s) = s"
| "final_state (Stop r s) = s"

text \<open>
  \<open>wp m Q E\<close>: if \<open>m\<close> returns then \<open>Q\<close> holds of its result and state, and if it stops
  then \<open>E\<close> holds of the reason and the state.
\<close>

fun wp :: "('a, 's) outcome \<Rightarrow> ('a \<Rightarrow> 's \<Rightarrow> bool) \<Rightarrow> (stop \<Rightarrow> 's \<Rightarrow> bool) \<Rightarrow> bool" where
  "wp (Ret a s) Q E = Q a s"
| "wp (Stop r s) Q E = E r s"

lemma wp_bnd [simp]: "wp (bnd m f) Q E = wp m (\<lambda>a s. wp (f a s) Q E) E"
  by (cases m) auto

lemma wp_mono:
  assumes "wp m Q E" "\<And>a s. Q a s \<Longrightarrow> Q' a s" "\<And>r s. E r s \<Longrightarrow> E' r s"
  shows "wp m Q' E'"
  using assms by (cases m) auto

lemma wp_conj: "wp m Q E \<Longrightarrow> wp m Q' E' \<Longrightarrow> wp m (\<lambda>a s. Q a s \<and> Q' a s) (\<lambda>r s. E r s \<and> E' r s)"
  by (cases m) auto

lemma wp_RetD: "wp m Q E \<Longrightarrow> m = Ret a s \<Longrightarrow> Q a s"
  by simp

lemma wp_StopD: "wp m Q E \<Longrightarrow> m = Stop r s \<Longrightarrow> E r s"
  by simp

lemma wp_final: "wp m (\<lambda>_. P) (\<lambda>_. P) \<longleftrightarrow> P (final_state m)"
  by (cases m) auto

lemma wp_if [simp]: "wp (if b then m else n) Q E = (if b then wp m Q E else wp n Q E)"
  by simp

lemma wp_prod_case [simp]:
  "wp (case p of (a, b) \<Rightarrow> f a b) Q E = (case p of (a, b) \<Rightarrow> wp (f a b) Q E)"
  by (cases p) auto

lemma bnd_assoc: "bnd (bnd m f) g = bnd m (\<lambda>a s. bnd (f a s) g)"
  by (cases m) auto

lemma bnd_Ret_iff: "bnd m f = Ret b t \<longleftrightarrow> (\<exists>a s. m = Ret a s \<and> f a s = Ret b t)"
  by (cases m) auto

section \<open>C strings\<close>

text \<open>
  A C string is the list of its bytes before the terminating NUL.
  \<open>strcmp\<close> and \<open>strncmp\<close> return the difference of the first differing bytes, read as
  unsigned char; the sources use its sign only.
\<close>

definition byte :: "char \<Rightarrow> int" where
  "byte c = int (of_char c)"

fun strcmp :: "string \<Rightarrow> string \<Rightarrow> int" where
  "strcmp [] [] = 0"
| "strcmp (c # cs) [] = byte c"
| "strcmp [] (d # ds) = - byte d"
| "strcmp (c # cs) (d # ds) = (if c = d then strcmp cs ds else byte c - byte d)"

fun strncmp :: "string \<Rightarrow> string \<Rightarrow> nat \<Rightarrow> int" where
  "strncmp s t 0 = 0"
| "strncmp [] [] (Suc n) = 0"
| "strncmp (c # cs) [] (Suc n) = byte c"
| "strncmp [] (d # ds) (Suc n) = - byte d"
| "strncmp (c # cs) (d # ds) (Suc n) = (if c = d then strncmp cs ds n else byte c - byte d)"

text \<open>Strings that C can represent: no NUL byte inside.\<close>

definition cstring :: "string \<Rightarrow> bool" where
  "cstring s \<longleftrightarrow> CHR 0x00 \<notin> set s"

text \<open>The byte at index \<open>i\<close> of a C string, its terminator included.\<close>

definition char_at :: "string \<Rightarrow> nat \<Rightarrow> char" where
  "char_at s i = (if i < length s then s ! i else CHR 0x00)"

text \<open>What \<open>snprintf(buf, size, ...)\<close> leaves in \<open>buf\<close> when the full text is \<open>s\<close>.\<close>

definition snprintf_buf :: "nat \<Rightarrow> string \<Rightarrow> string" where
  "snprintf_buf sz s = take (sz - 1) s"

lemma byte_nonneg [simp]: "0 \<le> byte c"
  by (simp add: byte_def)

lemma byte_inj [simp]: "byte c = byte d \<longleftrightarrow> c = d"
proof
  assume "byte c = byte d"
  then have "(of_char c :: nat) = of_char d" by (simp add: byte_def)
  then show "c = d" by (simp only: of_char_eq_iff)
qed simp

lemma byte_zero_iff [simp]: "byte c = 0 \<longleftrightarrow> c = CHR 0x00"
proof -
  have "byte (CHR 0x00) = 0" by (simp add: byte_def of_char_Char)
  then show ?thesis by (metis byte_inj)
qed

lemma byte_pos: "c \<noteq> CHR 0x00 \<Longrightarrow> 0 < byte c"
  using byte_nonneg [of c] byte_zero_iff [of c] by linarith

lemma cstring_simps [simp]:
  "cstring []" "cstring (c # cs) \<longleftrightarrow> c \<noteq> CHR 0x00 \<and> cstring cs"
  "cstring (s @ t) \<longleftrightarrow> cstring s \<and> cstring t"
  by (auto simp: cstring_def)

lemma cstring_take [simp]: "cstring s \<Longrightarrow> cstring (take n s)"
  by (auto simp: cstring_def dest: in_set_takeD)

lemma strcmp_eq_0 [cstr_simps]:
  "cstring s \<Longrightarrow> cstring t \<Longrightarrow> strcmp s t = 0 \<longleftrightarrow> s = t"
  by (induction s t rule: strcmp.induct) (auto simp: cstring_def)

lemma strcmp_refl [simp]: "strcmp s s = 0"
  by (induction s) auto

lemma strcmp_antisym: "strcmp t s = - strcmp s t"
  by (induction s t rule: strcmp.induct) auto

lemma strcmp_trans:
  "cstring s \<Longrightarrow> cstring t \<Longrightarrow> cstring u \<Longrightarrow> strcmp s t \<le> 0 \<Longrightarrow> strcmp t u \<le> 0 \<Longrightarrow> strcmp s u \<le> 0"
proof (induction s t arbitrary: u rule: strcmp.induct)
  case 1
  then show ?case by (cases u) auto
next
  case (2 c cs)
  then show ?case using byte_pos [of c] by simp
next
  case (3 d ds)
  then show ?case by (cases u) auto
next
  case (4 c cs d ds)
  then show ?case by (cases u) (auto split: if_splits)
qed

text \<open>
  The test the directory cache uses for "\<open>p\<close> is \<open>pre\<close> or lies below it":
  \<open>strncmp(pre, p, strlen(pre)) == 0\<close> and the next byte of \<open>p\<close> is a slash or the end.
\<close>

definition path_below :: "string \<Rightarrow> string \<Rightarrow> bool" where
  "path_below pre p \<longleftrightarrow>
     strncmp pre p (length pre) = 0 \<and>
     (char_at p (length pre) = CHR ''/'' \<or> char_at p (length pre) = CHR 0x00)"

lemma strncmp_prefix:
  "cstring pre \<Longrightarrow> cstring p \<Longrightarrow> strncmp pre p (length pre) = 0 \<longleftrightarrow> (\<exists>t. p = pre @ t)"
proof (induction pre arbitrary: p)
  case Nil
  then show ?case by simp
next
  case (Cons c cs)
  then show ?case by (cases p) auto
qed

lemma strncmp_sym0: "strncmp s t n = 0 \<longleftrightarrow> strncmp t s n = 0"
  by (induction s t n rule: strncmp.induct) auto

lemma strncmp_begins:
  "cstring pre \<Longrightarrow> cstring p \<Longrightarrow> strncmp p pre (length pre) = 0 \<longleftrightarrow> (\<exists>t. p = pre @ t)"
  using strncmp_prefix [of pre p] strncmp_sym0 [of p pre] by simp

lemma path_below_iff [cstr_simps]:
  assumes "cstring pre" "cstring p"
  shows "path_below pre p \<longleftrightarrow> p = pre \<or> (\<exists>t. p = pre @ CHR ''/'' # t)"
proof
  assume "path_below pre p"
  then obtain t where p: "p = pre @ t" and c: "char_at p (length pre) \<in> {CHR ''/'', CHR 0x00}"
    using assms by (auto simp: path_below_def strncmp_prefix)
  show "p = pre \<or> (\<exists>t. p = pre @ CHR ''/'' # t)"
  proof (cases t)
    case Nil
    with p show ?thesis by simp
  next
    case (Cons d ds)
    with p c assms have "d = CHR ''/''" by (auto simp: char_at_def nth_append)
    with p Cons show ?thesis by simp
  qed
next
  assume "p = pre \<or> (\<exists>t. p = pre @ CHR ''/'' # t)"
  then show "path_below pre p"
  proof
    assume "p = pre"
    then show ?thesis
      using assms by (simp add: path_below_def strncmp_prefix char_at_def)
  next
    assume "\<exists>t. p = pre @ CHR ''/'' # t"
    then show ?thesis
      using assms by (auto simp: path_below_def strncmp_prefix char_at_def nth_append)
  qed
qed

section \<open>Formatted output\<close>

text \<open>
  A call of a printf function is recorded as its format and its arguments;
  \<open>ArgP\<close> stands for a pointer printed with \<open>%p\<close>.
\<close>

datatype fmt_arg = ArgI int | ArgS string | ArgP

type_synonym msg = "string \<times> fmt_arg list"

text \<open>Decimal text of a number, as \<open>%u\<close> and \<open>%d\<close> print it.\<close>

fun dec_of_nat :: "nat \<Rightarrow> string" where
  "dec_of_nat n = (if n < 10 then [char_of (48 + n)] else dec_of_nat (n div 10) @ [char_of (48 + n mod 10)])"

declare dec_of_nat.simps [simp del]

definition dec_of_int :: "int \<Rightarrow> string" where
  "dec_of_int i = (if i < 0 then CHR ''-'' # dec_of_nat (nat (- i)) else dec_of_nat (nat i))"

section \<open>Reading numbers\<close>

text \<open>\<open>isspace()\<close> in the C locale, and \<open>atoi()\<close> for values in the range of int.\<close>

definition isspace :: "char \<Rightarrow> bool" where
  "isspace c \<longleftrightarrow> c \<in> {CHR '' '', CHR 0x09, CHR 0x0A, CHR 0x0B, CHR 0x0C, CHR 0x0D}"

definition digit_val :: "char \<Rightarrow> int option" where
  "digit_val c = (let n = byte c - 48 in if 0 \<le> n \<and> n \<le> 9 then Some n else None)"

fun digits_val :: "int \<Rightarrow> string \<Rightarrow> int" where
  "digits_val acc [] = acc"
| "digits_val acc (c # cs) =
     (case digit_val c of None \<Rightarrow> acc | Some d \<Rightarrow> digits_val (10 * acc + d) cs)"

definition atoi :: "string \<Rightarrow> int" where
  "atoi s = (case dropWhile isspace s of
     [] \<Rightarrow> 0
   | c # cs \<Rightarrow> if c = CHR ''-'' then - digits_val 0 cs
               else if c = CHR ''+'' then digits_val 0 cs else digits_val 0 (c # cs))"

section \<open>Reading lines\<close>

text \<open>\<open>fgets()\<close> on a text: at most \<open>m\<close> bytes, up to the end of the line.\<close>

fun fgets :: "nat \<Rightarrow> string \<Rightarrow> string \<times> string" where
  "fgets 0 s = ([], s)"
| "fgets (Suc m) [] = ([], [])"
| "fgets (Suc m) (c # cs) = (if c = CHR 0x0A then ([c], cs) else case fgets m cs of (l, r) \<Rightarrow> (c # l, r))"

lemma fgets_shorter: "s \<noteq> [] \<Longrightarrow> length (snd (fgets (Suc m) s)) < length s"
proof (induction m arbitrary: s)
  case 0
  then show ?case by (cases s) auto
next
  case (Suc m)
  then obtain c cs where s: "s = c # cs" by (cases s) auto
  show ?case
  proof (cases cs)
    case Nil
    then show ?thesis by (simp add: s)
  next
    case (Cons d ds)
    then show ?thesis using Suc.IH [of cs] s by (auto split: prod.splits)
  qed
qed

end
