(* ===== verification/Dtree_State.thy ===== *)
theory Dtree_State
  imports Prelude
begin

text \<open>
  The global state of \<open>inotify_dtree.c\<close> and the operating system it runs on.

  The file-scope variables of the program are the fields of the record \<open>dtree\<close>; the
  array \<open>wlCache\<close> of \<open>cacheSize\<close> slots is the list \<open>wlCache\<close> (\<open>cacheSize\<close> is its length),
  and the array \<open>rootDirPaths\<close> of \<open>numRootDirs\<close> pointers is a list of options (NULL is
  \<open>None\<close>). What is printed is appended to one of three message lists.

  The kernel and the C library services that are not part of the repository are the
  record \<open>kernel\<close> of functions over an abstract kernel state \<open>'k\<close>, which every call may
  change: this is where the activity of other processes enters the model.
\<close>

unbundle bit_operations_syntax

type_synonym u32 = "32 word"

section \<open>Constants of the system headers\<close>

definition PATH_MAX :: nat where "PATH_MAX = 4096"
definition NAME_MAX :: nat where "NAME_MAX = 255"

definition IN_MOVED_FROM :: u32 where "IN_MOVED_FROM = 0x40"
definition IN_MOVED_TO :: u32 where "IN_MOVED_TO = 0x80"
definition IN_CREATE :: u32 where "IN_CREATE = 0x100"
definition IN_DELETE_SELF :: u32 where "IN_DELETE_SELF = 0x400"
definition IN_MOVE_SELF :: u32 where "IN_MOVE_SELF = 0x800"
definition IN_UNMOUNT :: u32 where "IN_UNMOUNT = 0x2000"
definition IN_Q_OVERFLOW :: u32 where "IN_Q_OVERFLOW = 0x4000"
definition IN_IGNORED :: u32 where "IN_IGNORED = 0x8000"
definition IN_ONLYDIR :: u32 where "IN_ONLYDIR = 0x1000000"
definition IN_ISDIR :: u32 where "IN_ISDIR = 0x40000000"

lemmas in_flags =
  IN_MOVED_FROM_def IN_MOVED_TO_def IN_CREATE_def IN_DELETE_SELF_def IN_MOVE_SELF_def
  IN_UNMOUNT_def IN_Q_OVERFLOW_def IN_IGNORED_def IN_ONLYDIR_def IN_ISDIR_def

definition ENOENT :: int where "ENOENT = 2"
definition EINTR :: int where "EINTR = 4"

section \<open>Data\<close>

record watch =
  wd :: int
  path :: string

record fstat =
  st_mode :: u32
  st_dev :: int
  st_ino :: int

definition S_ISDIR :: "u32 \<Rightarrow> bool" where
  "S_ISDIR m \<longleftrightarrow> m AND 0xF000 = 0x4000"

record inotify_event =
  ev_wd :: int
  ev_mask :: u32
  ev_cookie :: u32
  ev_len :: nat
  ev_name :: string

definition sizeof_event :: nat where "sizeof_event = 16"

text \<open>The bytes one event takes in the buffer of a \<open>read()\<close>.\<close>

definition ev_bytes :: "inotify_event \<Rightarrow> int" where
  "ev_bytes e = int (sizeof_event + ev_len e)"

definition has :: "u32 \<Rightarrow> u32 \<Rightarrow> bool" where
  "has m f \<longleftrightarrow> m AND f \<noteq> 0"

section \<open>The operating system\<close>

text \<open>
  Each function is one service: the result the caller sees and the kernel state after.
  \<open>sys_realloc\<close> gives the (unspecified) contents of the memory added to the array or
  fails; \<open>sys_nftw\<close> gives the files visited by the walk, with their modes, and the error
  if \<open>nftw()\<close> returned -1; \<open>sys_read\<close> gives the events read or the error number;
  \<open>sys_stdin\<close> gives the bytes of a \<open>read()\<close> of standard input (\<open>None\<close> for an error).
\<close>

record 'k kernel =
  sys_realloc :: "nat \<Rightarrow> 'k \<Rightarrow> (nat \<Rightarrow> watch) option \<times> 'k"
  sys_alloc :: "'k \<Rightarrow> bool \<times> 'k"
  sys_creat :: "string option \<Rightarrow> 'k \<Rightarrow> 'k"
  sys_sigaction :: "'k \<Rightarrow> bool \<times> 'k"
  sys_lstat :: "string \<Rightarrow> 'k \<Rightarrow> (int + fstat) \<times> 'k"
  sys_nftw :: "string \<Rightarrow> 'k \<Rightarrow> ((string \<times> u32) list \<times> int option) \<times> 'k"
  sys_inotify_init :: "'k \<Rightarrow> int \<times> 'k"
  sys_add_watch :: "int \<Rightarrow> string \<Rightarrow> u32 \<Rightarrow> 'k \<Rightarrow> (int + int) \<times> 'k"
  sys_rm_watch :: "int \<Rightarrow> int \<Rightarrow> 'k \<Rightarrow> int option \<times> 'k"
  sys_close :: "int \<Rightarrow> 'k \<Rightarrow> 'k"
  sys_read :: "int \<Rightarrow> nat \<Rightarrow> 'k \<Rightarrow> (int + inotify_event list) \<times> 'k"
  sys_stdin :: "nat \<Rightarrow> 'k \<Rightarrow> string option \<times> 'k"
  sys_fopen :: "string \<Rightarrow> 'k \<Rightarrow> bool \<times> 'k"
  strerror :: "int \<Rightarrow> string"

section \<open>The program state\<close>

record 'k dtree =
  verboseMask :: int
  checkCache :: bool
  dumpCache :: bool
  readBufferSize :: int
  stopFile :: "string option"
  abortOnCacheProblem :: bool
  logfp :: bool
  inotifyReadCnt :: int
  wlCache :: "watch list"
  rootDirPaths :: "string option list"
  ignoreRootDirs :: nat
  rootDirStat :: "fstat list"
  dirCnt :: int
  ifd :: int
  reinitCnt :: int
  overflowCnt :: int
  err_out :: "msg list"
  log_out :: "msg list"
  std_out :: "msg list"
  file_out :: "string list"
  kern :: 'k

abbreviation cacheSize :: "'k dtree \<Rightarrow> nat" where
  "cacheSize s \<equiv> length (wlCache s)"

abbreviation numRootDirs :: "'k dtree \<Rightarrow> nat" where
  "numRootDirs s \<equiv> length (rootDirPaths s)"

section \<open>Output\<close>

definition fprintf_stderr :: "string \<Rightarrow> fmt_arg list \<Rightarrow> 'k dtree \<Rightarrow> 'k dtree" where
  "fprintf_stderr f as s = s\<lparr>err_out := err_out s @ [(f, as)]\<rparr>"

definition fprintf_log :: "string \<Rightarrow> fmt_arg list \<Rightarrow> 'k dtree \<Rightarrow> 'k dtree" where
  "fprintf_log f as s = s\<lparr>log_out := log_out s @ [(f, as)]\<rparr>"

definition printf_out :: "string \<Rightarrow> fmt_arg list \<Rightarrow> 'k dtree \<Rightarrow> 'k dtree" where
  "printf_out f as s = s\<lparr>std_out := std_out s @ [(f, as)]\<rparr>"

definition VB_BASIC :: int where "VB_BASIC = 1"
definition VB_NOISY :: int where "VB_NOISY = 2"

definition errExit :: "string \<Rightarrow> 'k dtree \<Rightarrow> ('a, 'k dtree) outcome" where
  "errExit m s = Stop (Exit 1) (fprintf_stderr ''%s: perror'' [ArgS m] s)"

definition logMessage :: "int \<Rightarrow> string \<Rightarrow> fmt_arg list \<Rightarrow> 'k dtree \<Rightarrow> 'k dtree" where
  "logMessage vb_mask f as s =
     (let s1 = (if vb_mask = 0 \<or> vb_mask AND verboseMask s \<noteq> 0 then fprintf_stderr f as s else s)
      in if logfp s1 then fprintf_log f as s1 else s1)"

definition log_if :: "bool \<Rightarrow> string \<Rightarrow> 'k dtree \<Rightarrow> 'k dtree" where
  "log_if b f s = (if b then logMessage VB_NOISY f [] s else s)"

definition displayInotifyEvent :: "inotify_event \<Rightarrow> 'k dtree \<Rightarrow> 'k dtree" where
  "displayInotifyEvent ev s =
     (let s = logMessage VB_NOISY ''==> wd = %d; '' [ArgI (ev_wd ev)] s;
          s = (if ev_cookie ev > 0
               then logMessage VB_NOISY ''cookie = %4d; '' [ArgI (sint (ev_cookie ev))] s else s);
          s = logMessage VB_NOISY ''mask = '' [] s;
          s = log_if (has (ev_mask ev) IN_ISDIR) ''IN_ISDIR '' s;
          s = log_if (has (ev_mask ev) IN_CREATE) ''IN_CREATE '' s;
          s = log_if (has (ev_mask ev) IN_DELETE_SELF) ''IN_DELETE_SELF '' s;
          s = log_if (has (ev_mask ev) IN_MOVE_SELF) ''IN_MOVE_SELF '' s;
          s = log_if (has (ev_mask ev) IN_MOVED_FROM) ''IN_MOVED_FROM '' s;
          s = log_if (has (ev_mask ev) IN_MOVED_TO) ''IN_MOVED_TO '' s;
          s = log_if (has (ev_mask ev) IN_IGNORED) ''IN_IGNORED '' s;
          s = log_if (has (ev_mask ev) IN_Q_OVERFLOW) ''IN_Q_OVERFLOW '' s;
          s = log_if (has (ev_mask ev) IN_UNMOUNT) ''IN_UNMOUNT '' s;
          s = logMessage VB_NOISY ''\<newline>'' [] s
      in if ev_len ev > 0
         then logMessage VB_NOISY ''        name = %s\<newline>'' [ArgS (ev_name ev)] s else s)"

section \<open>Output changes nothing but the output\<close>

text \<open>
  \<open>quiet f\<close>: the state transformer \<open>f\<close> only appends messages, so that every other field
  (the bundle \<open>core\<close>) is as before.
\<close>

definition core :: "'k dtree \<Rightarrow> 'k dtree" where
  "core s = s\<lparr>err_out := [], log_out := [], std_out := []\<rparr>"

lemma core_eqD:
  assumes "core s = core t"
  shows "verboseMask s = verboseMask t" "checkCache s = checkCache t" "dumpCache s = dumpCache t"
    "readBufferSize s = readBufferSize t" "abortOnCacheProblem s = abortOnCacheProblem t"
    "logfp s = logfp t" "inotifyReadCnt s = inotifyReadCnt t" "wlCache s = wlCache t"
    "rootDirPaths s = rootDirPaths t" "ignoreRootDirs s = ignoreRootDirs t"
    "rootDirStat s = rootDirStat t" "dirCnt s = dirCnt t" "ifd s = ifd t"
    "reinitCnt s = reinitCnt t" "overflowCnt s = overflowCnt t" "file_out s = file_out t" "kern s = kern t"
  using assms by (cases s; cases t; simp add: core_def)+

lemma core_fprintf [simp]:
  "core (fprintf_stderr f as s) = core s" "core (fprintf_log f as s) = core s"
  "core (printf_out f as s) = core s"
  by (simp_all add: core_def fprintf_stderr_def fprintf_log_def printf_out_def)

lemma core_logMessage [simp]: "core (logMessage m f as s) = core s"
  by (simp add: logMessage_def Let_def)

lemma core_log_if [simp]: "core (log_if b f s) = core s"
  by (simp add: log_if_def)

lemma core_displayInotifyEvent [simp]: "core (displayInotifyEvent ev s) = core s"
  by (simp add: displayInotifyEvent_def Let_def)

lemmas log_frame [simp] = core_eqD [OF core_logMessage]
lemmas display_frame [simp] = core_eqD [OF core_displayInotifyEvent]
lemmas stderr_frame [simp] = core_eqD [OF core_fprintf(1)]
lemmas logfile_frame [simp] = core_eqD [OF core_fprintf(2)]
lemmas stdout_frame [simp] = core_eqD [OF core_fprintf(3)]

end
