(* ===== verification/Watch_Cache.thy ===== *)
theory Watch_Cache
  imports Dtree_State
begin

text \<open>
  The watch list cache of \<open>inotify_dtree.c\<close>: a growing array of slots, each holding a
  watch descriptor and the pathname it watches, searched linearly.

  The operations are given in the order of the source. The invariant \<open>cache_ok\<close> says that
  a slot is either empty (descriptor -1 and empty path) or live with a proper path, and
  that no two live slots share a descriptor. \<open>cache_map\<close> reads the array as the partial map
  from descriptors to paths it stands for; the locale \<open>watch_store\<close> states the laws of that
  map, and the array is an instance.
\<close>

section \<open>Operations\<close>

definition freeCache :: "'k dtree \<Rightarrow> 'k dtree" where
  "freeCache s = s\<lparr>wlCache := []\<rparr>"

text \<open>
  The consistency check. \<open>sb\<close> is the mode in the buffer of the last successful
  \<open>lstat()\<close>, \<open>None\<close> while the buffer is uninitialised. In the source the directory test
  hangs on the outer \<open>if\<close>: it runs for the empty slots, and reads that buffer.
\<close>

fun check_loop :: "'k kernel \<Rightarrow> watch list \<Rightarrow> nat \<Rightarrow> u32 option \<Rightarrow> int \<Rightarrow> 'k dtree
    \<Rightarrow> (int, 'k dtree) outcome" where
  "check_loop K [] j sb failures s = Ret failures s"
| "check_loop K (w # ws) j sb failures s =
     (if wd w \<ge> 0 then
        (case sys_lstat K (path w) (kern s) of (r, k) \<Rightarrow>
           (case r of
              Inl e \<Rightarrow> check_loop K ws (Suc j) sb (failures + 1)
                (logMessage 0 ''checkCacheConsistency: stat: [slot = %d; wd = %d] %s: %s\<newline>''
                   [ArgI (int j), ArgI (wd w), ArgS (path w), ArgS (strerror K e)] (s\<lparr>kern := k\<rparr>))
            | Inr st \<Rightarrow> check_loop K ws (Suc j) (Some (st_mode st)) failures (s\<lparr>kern := k\<rparr>)))
      else
        (case sb of
           None \<Rightarrow> Stop (Undefined ''st_mode of an uninitialised stat buffer'') s
         | Some m \<Rightarrow>
             if \<not> S_ISDIR m
             then Stop (Exit 1) (logMessage 0 ''checkCacheConsistency: %s is not a directory\<newline>''
                    [ArgS (path w)] s)
             else check_loop K ws (Suc j) sb failures s))"

definition checkCacheConsistency :: "'k kernel \<Rightarrow> 'k dtree \<Rightarrow> (unit, 'k dtree) outcome" where
  "checkCacheConsistency K s =
     bnd (check_loop K (wlCache s) 0 None 0 s) (\<lambda>failures s.
       Ret () (if failures > 0
               then logMessage VB_NOISY ''checkCacheConsistency: %d failures\<newline>'' [ArgI failures] s
               else s))"

text \<open>The linear search every lookup shares: the first slot from \<open>j\<close> on that satisfies \<open>P\<close>.\<close>

fun find_slot :: "(watch \<Rightarrow> bool) \<Rightarrow> watch list \<Rightarrow> nat \<Rightarrow> int" where
  "find_slot P [] j = -1"
| "find_slot P (w # ws) j = (if P w then int j else find_slot P ws (Suc j))"

definition findWatch :: "watch list \<Rightarrow> int \<Rightarrow> int" where
  "findWatch ws d = find_slot (\<lambda>w. wd w = d) ws 0"

fun dump_loop :: "watch list \<Rightarrow> nat \<Rightarrow> nat \<Rightarrow> 'k dtree \<Rightarrow> nat \<times> 'k dtree" where
  "dump_loop [] j cnt s = (cnt, s)"
| "dump_loop (w # ws) j cnt s =
     (if wd w \<ge> 0
      then dump_loop ws (Suc j) (Suc cnt)
             (fprintf_log ''%d: wd = %d; %s\<newline>'' [ArgI (int j), ArgI (wd w), ArgS (path w)] s)
      else dump_loop ws (Suc j) cnt s)"

definition dumpCacheToLog :: "'k dtree \<Rightarrow> (unit, 'k dtree) outcome" where
  "dumpCacheToLog s =
     (if \<not> logfp s then Stop (Undefined ''fprintf on a null stream'') s
      else case dump_loop (wlCache s) 0 0 s of (cnt, s) \<Rightarrow>
        Ret () (fprintf_log ''Total entries: %d\<newline>'' [ArgI (int cnt)] s))"

definition createStopFileAndAbort :: "'k kernel \<Rightarrow> 'k dtree \<Rightarrow> ('a, 'k dtree) outcome" where
  "createStopFileAndAbort K s =
     bnd (dumpCacheToLog (s\<lparr>kern := sys_creat K (stopFile s) (kern s)\<rparr>)) (\<lambda>_ s. Stop Abort s)"

definition findWatchChecked :: "'k kernel \<Rightarrow> int \<Rightarrow> 'k dtree \<Rightarrow> (int, 'k dtree) outcome" where
  "findWatchChecked K d s =
     (let slot = findWatch (wlCache s) d in
      if slot \<ge> 0 then Ret slot s
      else
        let s = logMessage 0 ''Could not find watch %d\<newline>'' [ArgI d] s in
        if abortOnCacheProblem s then createStopFileAndAbort K s else Ret (-1) s)"

text \<open>
  \<open>markCacheSlotEmpty()\<close> prints what the slot held. A slot in memory that \<open>realloc()\<close> has just added (\<open>fresh\<close>) holds nothing
  yet: its path is an array of indeterminate bytes, so that printing it is undefined.
\<close>

definition logs_noisy :: "'k dtree \<Rightarrow> bool" where
  "logs_noisy s \<longleftrightarrow> VB_NOISY AND verboseMask s \<noteq> 0 \<or> logfp s"

abbreviation fresh_memory :: stop where
  "fresh_memory \<equiv> Undefined ''path of an uninitialised slot''"

definition markCacheSlotEmpty :: "bool \<Rightarrow> nat \<Rightarrow> 'k dtree \<Rightarrow> (unit, 'k dtree) outcome" where
  "markCacheSlotEmpty fresh slot s =
     (if slot < cacheSize s then
        if fresh \<and> logs_noisy s then Stop fresh_memory s
        else let w = wlCache s ! slot;
            s = logMessage VB_NOISY ''        markCacheSlotEmpty: slot = %d;  wd = %d; path = %s\<newline>''
                  [ArgI (int slot), ArgI (wd w), ArgS (path w)] s
        in Ret () (s\<lparr>wlCache := (wlCache s)[slot := \<lparr>wd = -1, path = []\<rparr>]\<rparr>)
      else Stop (Undefined ''cache slot out of range'') s)"

definition ALLOC_INCR :: nat where "ALLOC_INCR = 200"

fun mark_slots :: "nat \<Rightarrow> nat \<Rightarrow> 'k dtree \<Rightarrow> (unit, 'k dtree) outcome" where
  "mark_slots 0 j s = Ret () s"
| "mark_slots (Suc n) j s = bnd (markCacheSlotEmpty True j s) (\<lambda>_ s. mark_slots n (Suc j) s)"

definition findEmptyCacheSlot :: "'k kernel \<Rightarrow> 'k dtree \<Rightarrow> (nat, 'k dtree) outcome" where
  "findEmptyCacheSlot K s =
     (let j = find_slot (\<lambda>w. wd w = -1) (wlCache s) 0; n = cacheSize s in
      if j \<ge> 0 then Ret (nat j) s
      else case sys_realloc K (n + ALLOC_INCR) (kern s) of (r, k) \<Rightarrow>
        (case r of
           None \<Rightarrow> errExit ''realloc'' (s\<lparr>kern := k, wlCache := []\<rparr>)
         | Some g \<Rightarrow>
             bnd (mark_slots ALLOC_INCR n
                    (s\<lparr>kern := k, wlCache := wlCache s @ map g [0..<ALLOC_INCR]\<rparr>))
               (\<lambda>_ s. Ret n s)))"

definition addWatchToCache :: "'k kernel \<Rightarrow> int \<Rightarrow> string \<Rightarrow> 'k dtree \<Rightarrow> (nat, 'k dtree) outcome" where
  "addWatchToCache K d pathname s =
     bnd (findEmptyCacheSlot K s) (\<lambda>slot s.
       if length pathname < PATH_MAX
       then Ret slot (s\<lparr>wlCache := (wlCache s)[slot := \<lparr>wd = d, path = pathname\<rparr>]\<rparr>)
       else Stop (Undefined ''cached path without terminator'') s)"

definition pathnameToCacheSlot :: "watch list \<Rightarrow> string \<Rightarrow> int" where
  "pathnameToCacheSlot ws pathname = find_slot (\<lambda>w. wd w \<ge> 0 \<and> strcmp (path w) pathname = 0) ws 0"

definition pathnameInCache :: "watch list \<Rightarrow> string \<Rightarrow> bool" where
  "pathnameInCache ws pathname \<longleftrightarrow> pathnameToCacheSlot ws pathname \<ge> 0"

section \<open>The invariant and the map the array stands for\<close>

abbreviation live_slot :: "watch \<Rightarrow> bool" where
  "live_slot w \<equiv> 0 \<le> wd w"

abbreviation empty_slot :: watch where
  "empty_slot \<equiv> \<lparr>wd = -1, path = []\<rparr>"

definition path_ok :: "string \<Rightarrow> bool" where
  "path_ok p \<longleftrightarrow> cstring p \<and> length p < PATH_MAX"

definition slot_ok :: "watch \<Rightarrow> bool" where
  "slot_ok w \<longleftrightarrow> w = empty_slot \<or> (live_slot w \<and> path_ok (path w))"

definition live :: "watch list \<Rightarrow> watch list" where
  "live ws = filter live_slot ws"

definition cache_ok :: "watch list \<Rightarrow> bool" where
  "cache_ok ws \<longleftrightarrow> list_all slot_ok ws \<and> distinct (map wd (live ws))"

definition cache_map :: "watch list \<Rightarrow> int \<rightharpoonup> string" where
  "cache_map ws = map_of (map (\<lambda>w. (wd w, path w)) (live ws))"

lemma watch_eta: "\<lparr>wd = wd w, path = path w\<rparr> = (w :: watch)"
  by (cases w) simp

lemma live_simps [simp]:
  "live [] = []" "live (w # ws) = (if live_slot w then w # live ws else live ws)"
  "live (xs @ ys) = live xs @ live ys"
  by (auto simp: live_def)

lemma set_live [simp]: "set (live ws) = {w \<in> set ws. live_slot w}"
  by (auto simp: live_def)

lemma live_replicate_empty [simp]: "live (replicate n empty_slot) = []"
  by (induction n) auto

lemma slot_ok_empty [simp]: "slot_ok empty_slot"
  by (simp add: slot_ok_def)

lemma slot_ok_new [simp]: "0 \<le> d \<Longrightarrow> slot_ok \<lparr>wd = d, path = p\<rparr> \<longleftrightarrow> path_ok p"
  by (simp add: slot_ok_def)

lemma slot_ok_dead: "slot_ok w \<Longrightarrow> \<not> live_slot w \<longleftrightarrow> w = empty_slot"
  by (auto simp: slot_ok_def)

lemma slot_ok_wd: "slot_ok w \<Longrightarrow> -1 \<le> wd w"
  by (auto simp: slot_ok_def)

lemma cache_okD:
  assumes "cache_ok ws"
  shows "w \<in> set ws \<Longrightarrow> slot_ok w" "distinct (map wd (live ws))"
  using assms by (auto simp: cache_ok_def list_all_iff)

lemma cache_ok_Nil [simp]: "cache_ok []"
  by (simp add: cache_ok_def)

lemma cache_map_Nil [simp]: "cache_map [] = Map.empty"
  by (simp add: cache_map_def)

lemma cache_map_append: "cache_map (xs @ ys) = cache_map ys ++ cache_map xs"
  by (simp add: cache_map_def)

lemma cache_map_Cons:
  "cache_map (w # ws) = (if live_slot w then (cache_map ws)(wd w \<mapsto> path w) else cache_map ws)"
  by (simp add: cache_map_def)

lemma dom_cache_map: "dom (cache_map ws) = wd ` set (live ws)"
  by (simp add: cache_map_def dom_map_of_conv_image_fst image_image del: set_live)

lemma cache_map_Some_iff:
  assumes "cache_ok ws"
  shows "cache_map ws d = Some p \<longleftrightarrow> 0 \<le> d \<and> \<lparr>wd = d, path = p\<rparr> \<in> set ws"
proof -
  have "distinct (map fst (map (\<lambda>w. (wd w, path w)) (live ws)))"
    using assms by (simp add: cache_ok_def comp_def)
  then have "cache_map ws d = Some p \<longleftrightarrow> (d, p) \<in> set (map (\<lambda>w. (wd w, path w)) (live ws))"
    unfolding cache_map_def by (rule map_of_eq_Some_iff)
  also have "\<dots> \<longleftrightarrow> (\<exists>w \<in> set ws. live_slot w \<and> wd w = d \<and> path w = p)" by auto
  also have "\<dots> \<longleftrightarrow> 0 \<le> d \<and> \<lparr>wd = d, path = p\<rparr> \<in> set ws"
    using watch_eta by (metis watch.select_convs(1,2))
  finally show ?thesis .
qed

text \<open>Writing one slot splits the array at that slot.\<close>

lemma live_update_split:
  assumes "i < length ws"
  shows "live ws = live (take i ws) @ live [ws ! i] @ live (drop (Suc i) ws)"
    "live (ws[i := w]) = live (take i ws) @ live [w] @ live (drop (Suc i) ws)"
proof -
  have "live ws = live (take i ws @ ws ! i # drop (Suc i) ws)"
    using id_take_nth_drop [OF assms] by simp
  then show "live ws = live (take i ws) @ live [ws ! i] @ live (drop (Suc i) ws)" by simp
  show "live (ws[i := w]) = live (take i ws) @ live [w] @ live (drop (Suc i) ws)"
    using assms by (simp add: upd_conv_take_nth_drop)
qed

lemma cache_ok_clear:
  assumes "cache_ok ws" "i < length ws"
  shows "cache_ok (ws[i := empty_slot])"
proof -
  have "list_all slot_ok (ws[i := empty_slot])"
    using assms by (auto simp: cache_ok_def list_all_iff dest: set_update_subset_insert [THEN subsetD])
  moreover have "distinct (map wd (live (ws[i := empty_slot])))"
    using cache_okD(2) [OF assms(1)] unfolding live_update_split [OF assms(2)]
    by (auto split: if_splits)
  ultimately show ?thesis by (simp add: cache_ok_def)
qed

lemma cache_ok_put:
  assumes "cache_ok ws" "i < length ws" "\<not> live_slot (ws ! i)" "0 \<le> d" "path_ok p"
    and "cache_map ws d = None"
  shows "cache_ok (ws[i := \<lparr>wd = d, path = p\<rparr>])"
proof -
  have "list_all slot_ok (ws[i := \<lparr>wd = d, path = p\<rparr>])"
    using assms by (auto simp: cache_ok_def list_all_iff dest: set_update_subset_insert [THEN subsetD])
  moreover have "d \<notin> wd ` set (live ws)"
    using assms(6) dom_cache_map [of ws] by auto
  ultimately show ?thesis
    using cache_okD(2) [OF assms(1)] assms(3,4)
    unfolding cache_ok_def live_update_split [OF assms(2)] by auto
qed

lemma cache_map_put:
  assumes "i < length ws" "\<not> live_slot (ws ! i)" "0 \<le> d" "cache_map ws d = None"
  shows "cache_map (ws[i := \<lparr>wd = d, path = p\<rparr>]) = (cache_map ws)(d \<mapsto> p)"
proof -
  have *: "cache_map ws = cache_map (drop (Suc i) ws) ++ cache_map (take i ws)"
    "cache_map (ws[i := \<lparr>wd = d, path = p\<rparr>])
       = (cache_map (drop (Suc i) ws))(d \<mapsto> p) ++ cache_map (take i ws)"
    using assms(2,3) unfolding cache_map_def live_update_split [OF assms(1)] by simp_all
  moreover have "cache_map (take i ws) d = None"
    using assms(4) * by (simp add: map_add_None)
  ultimately show ?thesis by (auto simp: fun_eq_iff map_add_def split: option.splits)
qed

lemma cache_map_clear:
  assumes "cache_ok ws" "i < length ws"
  shows "cache_map (ws[i := empty_slot]) = (cache_map ws)(wd (ws ! i) := None)"
proof (cases "live_slot (ws ! i)")
  case True
  have "distinct (map wd (live (take i ws) @ live [ws ! i] @ live (drop (Suc i) ws)))"
    using cache_okD(2) [OF assms(1)] live_update_split(1) [OF assms(2)] by metis
  then have notin: "wd (ws ! i) \<notin> dom (cache_map (take i ws))" "wd (ws ! i) \<notin> dom (cache_map (drop (Suc i) ws))"
    unfolding dom_cache_map using True by auto
  have "cache_map (ws[i := empty_slot]) = cache_map (drop (Suc i) ws) ++ cache_map (take i ws)"
    "cache_map ws = (cache_map (drop (Suc i) ws))(wd (ws ! i) \<mapsto> path (ws ! i)) ++ cache_map (take i ws)"
    using True unfolding cache_map_def live_update_split [OF assms(2)] by simp_all
  then show ?thesis
    using notin by (auto simp: fun_eq_iff map_add_def domIff split: option.splits)
next
  case False
  then have e: "ws ! i = empty_slot"
    using cache_okD(1) [OF assms(1)] assms(2) slot_ok_dead nth_mem by blast
  have "cache_map ws (-1) = None"
    using cache_map_Some_iff [OF assms(1), of "-1"] by (cases "cache_map ws (-1)") auto
  moreover have "ws[i := empty_slot] = ws" using e by (metis list_update_id)
  ultimately show ?thesis using e by (simp add: fun_upd_idem)
qed

section \<open>The linear search\<close>

lemma find_slot_bound: "find_slot P ws j = -1 \<or> int j \<le> find_slot P ws j"
proof (induction ws arbitrary: j)
  case (Cons w ws)
  then show ?case using Cons [of "Suc j"] by auto
qed simp

lemma find_slot_neg: "find_slot P ws j < 0 \<longleftrightarrow> (\<forall>w \<in> set ws. \<not> P w)"
  by (induction ws arbitrary: j) auto

lemma find_slot_neg_eq: "find_slot P ws j < 0 \<Longrightarrow> find_slot P ws j = -1"
  using find_slot_bound [of P ws j] by linarith

lemma find_slot_found:
  "0 \<le> find_slot P ws j \<Longrightarrow>
     \<exists>i < length ws. find_slot P ws j = int (j + i) \<and> P (ws ! i) \<and> (\<forall>h < i. \<not> P (ws ! h))"
proof (induction ws arbitrary: j)
  case Nil
  then show ?case by simp
next
  case (Cons w ws)
  show ?case
  proof (cases "P w")
    case True
    then show ?thesis by (intro exI [of _ 0]) simp
  next
    case False
    with Cons.prems have "0 \<le> find_slot P ws (Suc j)" by simp
    from Cons.IH [OF this] obtain i where "i < length ws" "find_slot P ws (Suc j) = int (Suc j + i)"
      "P (ws ! i)" "\<forall>h < i. \<not> P (ws ! h)" by blast
    with False show ?thesis
      by (intro exI [of _ "Suc i"]) (auto simp: less_Suc_eq_0_disj)
  qed
qed

lemma findWatch_neg: "findWatch ws d < 0 \<longleftrightarrow> d \<notin> wd ` set ws"
  by (auto simp: findWatch_def find_slot_neg)

lemma findWatch_found:
  assumes "0 \<le> findWatch ws d"
  obtains i where "i < length ws" "findWatch ws d = int i" "wd (ws ! i) = d"
  using find_slot_found [of "\<lambda>w. wd w = d" ws 0] assms by (auto simp: findWatch_def)

lemma findWatch_lookup:
  assumes "0 \<le> d"
  shows "0 \<le> findWatch ws d \<longleftrightarrow> cache_map ws d \<noteq> None"
proof -
  have "0 \<le> findWatch ws d \<longleftrightarrow> d \<in> wd ` set ws"
    using findWatch_neg [of ws d] by linarith
  also have "\<dots> \<longleftrightarrow> d \<in> wd ` set (live ws)" using assms by auto
  also have "\<dots> \<longleftrightarrow> cache_map ws d \<noteq> None" unfolding dom_cache_map [symmetric] by auto
  finally show ?thesis .
qed

section \<open>The interface of the cache\<close>

text \<open>
  What the rest of the program relies on: a finite map from watch descriptors to paths,
  kept in numbered slots, with a search by descriptor, a write into a free slot and the
  emptying of a slot.
\<close>

locale watch_store =
  fixes ok :: "'c \<Rightarrow> bool"
    and lookup :: "'c \<Rightarrow> int \<Rightarrow> string option"
    and find :: "'c \<Rightarrow> int \<Rightarrow> int"
    and slots :: "'c \<Rightarrow> nat"
    and key :: "'c \<Rightarrow> nat \<Rightarrow> int"
    and put :: "nat \<Rightarrow> int \<Rightarrow> string \<Rightarrow> 'c \<Rightarrow> 'c"
    and clear :: "nat \<Rightarrow> 'c \<Rightarrow> 'c"
    and valid :: "string \<Rightarrow> bool"
  assumes find_slot_of: "0 \<le> find c d \<Longrightarrow> nat (find c d) < slots c \<and> key c (nat (find c d)) = d"
    and find_iff: "0 \<le> d \<Longrightarrow> 0 \<le> find c d \<longleftrightarrow> lookup c d \<noteq> None"
    and put_ok: "\<lbrakk>ok c; i < slots c; key c i < 0; 0 \<le> d; lookup c d = None; valid p\<rbrakk> \<Longrightarrow> ok (put i d p c)"
    and put_lookup: "\<lbrakk>ok c; i < slots c; key c i < 0; 0 \<le> d; lookup c d = None\<rbrakk>
        \<Longrightarrow> lookup (put i d p c) = (lookup c)(d \<mapsto> p)"
    and clear_ok: "\<lbrakk>ok c; i < slots c\<rbrakk> \<Longrightarrow> ok (clear i c)"
    and clear_lookup: "\<lbrakk>ok c; i < slots c\<rbrakk> \<Longrightarrow> lookup (clear i c) = (lookup c)(key c i := None)"
    and clear_key: "i < slots c \<Longrightarrow> key (clear i c) i < 0"
    and clear_slots: "slots (clear i c) = slots c"
begin

lemma find_after_put:
  "\<lbrakk>ok c; i < slots c; key c i < 0; 0 \<le> d; lookup c d = None; 0 \<le> e\<rbrakk>
     \<Longrightarrow> 0 \<le> find (put i d p c) e \<longleftrightarrow> e = d \<or> 0 \<le> find c e"
  by (auto simp: find_iff put_lookup)

lemma find_after_clear:
  assumes "ok c" "0 \<le> d" "0 \<le> find c d" "0 \<le> e"
  shows "0 \<le> find (clear (nat (find c d)) c) e \<longleftrightarrow> e \<noteq> d \<and> 0 \<le> find c e"
proof -
  from find_slot_of [OF assms(3)] have *: "nat (find c d) < slots c" "key c (nat (find c d)) = d"
    by auto
  show ?thesis
    using assms(4) clear_lookup [OF assms(1) *(1)] *(2) by (simp add: find_iff)
qed

text \<open>A slot is reused: emptying it and writing a new watch into it replaces one binding.\<close>

lemma reuse_slot:
  assumes "ok c" "i < slots c" "0 \<le> d" "lookup c d = None" "valid p"
  shows "ok (put i d p (clear i c))"
    and "lookup (put i d p (clear i c)) = (lookup c)(key c i := None, d \<mapsto> p)"
proof -
  have c: "ok (clear i c)" "i < slots (clear i c)" "key (clear i c) i < 0"
    "lookup (clear i c) d = None"
    using assms by (simp_all add: clear_ok clear_slots clear_key clear_lookup)
  show "ok (put i d p (clear i c))"
    by (rule put_ok [OF c(1-3) assms(3) c(4) assms(5)])
  show "lookup (put i d p (clear i c)) = (lookup c)(key c i := None, d \<mapsto> p)"
    using put_lookup [OF c(1-3) assms(3) c(4)] clear_lookup [OF assms(1,2)] by simp
qed

end

interpretation wc: watch_store cache_ok cache_map findWatch length "\<lambda>ws i. wd (ws ! i)"
  "\<lambda>i d p ws. ws[i := \<lparr>wd = d, path = p\<rparr>]" "\<lambda>i ws. ws[i := empty_slot]" path_ok
proof (unfold_locales, goal_cases)
  case (1 c d)
  then show ?case by (metis findWatch_found nat_int)
next
  case (2 d c)
  then show ?case by (rule findWatch_lookup)
next
  case (3 c i d p)
  then show ?case by (simp add: cache_ok_put)
next
  case (4 c i d p)
  then show ?case by (simp add: cache_map_put)
next
  case (5 c i)
  then show ?case by (rule cache_ok_clear)
next
  case (6 c i)
  then show ?case by (rule cache_map_clear)
qed simp_all

section \<open>The operations on the program state\<close>

text \<open>
  Each rule gives the state after the call up to output: \<open>core\<close> drops the message lists.
\<close>

lemma core_set [simp]:
  "core (s\<lparr>wlCache := ws\<rparr>) = (core s)\<lparr>wlCache := ws\<rparr>"
  "core (s\<lparr>kern := k\<rparr>) = (core s)\<lparr>kern := k\<rparr>"
  by (simp_all add: core_def)

lemma kern_update_last [simp]: "s\<lparr>kern := k, wlCache := ws\<rparr> = s\<lparr>wlCache := ws, kern := k\<rparr>"
  by simp

lemma core_get [simp]: "wlCache (core s) = wlCache s" "kern (core s) = kern s"
  by (simp_all add: core_def)

lemma core_fieldD:
  assumes "core t = u"
  shows "wlCache t = wlCache u" "kern t = kern u" "rootDirPaths t = rootDirPaths u"
    "ignoreRootDirs t = ignoreRootDirs u" "dirCnt t = dirCnt u" "ifd t = ifd u"
  using assms by (auto simp: core_def)

lemma findWatchChecked_wp:
  "wp (findWatchChecked K d s)
     (\<lambda>r t. r = findWatch (wlCache s) d \<and> core t = core s)
     (\<lambda>r t. findWatch (wlCache s) d = -1 \<and> abortOnCacheProblem s \<and> (logfp s \<longrightarrow> r = Abort))"
proof (cases "0 \<le> findWatch (wlCache s) d")
  case True
  then show ?thesis by (simp add: findWatchChecked_def)
next
  case False
  then have "findWatch (wlCache s) d = -1"
    using find_slot_neg_eq [of "\<lambda>w. wd w = d" "wlCache s" 0] by (simp add: findWatch_def)
  then show ?thesis
    by (auto simp: findWatchChecked_def createStopFileAndAbort_def dumpCacheToLog_def Let_def
        split: prod.splits)
qed

lemma markCacheSlotEmpty_wp:
  "slot < cacheSize s \<Longrightarrow>
     wp (markCacheSlotEmpty fresh slot s)
       (\<lambda>_ t. core t = (core s)\<lparr>wlCache := (wlCache s)[slot := empty_slot]\<rparr>)
       (\<lambda>r t. fresh \<and> logs_noisy s \<and> r = fresh_memory)"
  by (simp add: markCacheSlotEmpty_def Let_def)

lemma logs_noisy_core: "core t = (core s)\<lparr>wlCache := ws\<rparr> \<Longrightarrow> logs_noisy t = logs_noisy s"
  by (cases s; cases t) (simp add: core_def logs_noisy_def)

lemma logs_noisy_set [simp]:
  "logs_noisy (s\<lparr>wlCache := ws\<rparr>) = logs_noisy s" "logs_noisy (s\<lparr>kern := k\<rparr>) = logs_noisy s"
  "logs_noisy (s\<lparr>dirCnt := n\<rparr>) = logs_noisy s" "logs_noisy (s\<lparr>ifd := fd\<rparr>) = logs_noisy s"
  "logs_noisy (s\<lparr>reinitCnt := n\<rparr>) = logs_noisy s" "logs_noisy (s\<lparr>overflowCnt := n\<rparr>) = logs_noisy s"
  "logs_noisy (s\<lparr>inotifyReadCnt := n\<rparr>) = logs_noisy s"
  "logs_noisy (logMessage m f as s) = logs_noisy s" "logs_noisy (displayInotifyEvent ev s) = logs_noisy s"
  by (simp_all add: logs_noisy_def)

lemma update_middle:
  "j + Suc n \<le> length ws \<Longrightarrow>
     take (Suc j) (ws[j := w]) @ replicate n w @ drop (Suc j + n) (ws[j := w])
     = take j ws @ replicate (Suc n) w @ drop (j + Suc n) ws"
  by (simp add: take_Suc_conv_app_nth)

lemma mark_slots_wp:
  "j + n \<le> cacheSize s \<Longrightarrow>
     wp (mark_slots n j s)
       (\<lambda>_ t. core t = (core s)\<lparr>wlCache :=
                take j (wlCache s) @ replicate n empty_slot @ drop (j + n) (wlCache s)\<rparr>)
       (\<lambda>r _. logs_noisy s \<and> r = fresh_memory)"
proof (induction n arbitrary: j s)
  case 0
  then show ?case by simp
next
  case (Suc n)
  have "wp (mark_slots n (Suc j) t)
          (\<lambda>_ u. core u = (core s)\<lparr>wlCache :=
             take j (wlCache s) @ replicate (Suc n) empty_slot @ drop (j + Suc n) (wlCache s)\<rparr>)
          (\<lambda>r _. logs_noisy s \<and> r = fresh_memory)"
    if t: "core t = (core s)\<lparr>wlCache := (wlCache s)[j := empty_slot]\<rparr>" for t
  proof -
    from t have ws: "wlCache t = (wlCache s)[j := empty_slot]"
      using core_fieldD(1) [OF t] by simp
    with Suc.prems have "Suc j + n \<le> cacheSize t" by simp
    from Suc.IH [OF this] show ?thesis
      by (rule wp_mono)
        (simp_all add: t ws update_middle [OF Suc.prems, simplified] logs_noisy_core [OF t])
  qed
  with markCacheSlotEmpty_wp [of j s True] Suc.prems show ?case
    by (auto intro: wp_mono)
qed

lemma core_same [simp]:
  "verboseMask (core s) = verboseMask s" "checkCache (core s) = checkCache s"
  "dumpCache (core s) = dumpCache s" "readBufferSize (core s) = readBufferSize s"
  "abortOnCacheProblem (core s) = abortOnCacheProblem s" "logfp (core s) = logfp s"
  "inotifyReadCnt (core s) = inotifyReadCnt s" "rootDirPaths (core s) = rootDirPaths s"
  "ignoreRootDirs (core s) = ignoreRootDirs s" "rootDirStat (core s) = rootDirStat s"
  "dirCnt (core s) = dirCnt s" "ifd (core s) = ifd s" "reinitCnt (core s) = reinitCnt s"
  "overflowCnt (core s) = overflowCnt s" "file_out (core s) = file_out s"
  by (simp_all add: core_def)

lemma core_slots_id: "(core s)\<lparr>wlCache := wlCache s\<rparr> = core s"
  by (cases s) (simp add: core_def)

lemma core_id: "(core s)\<lparr>wlCache := wlCache s, kern := kern s\<rparr> = core s"
  by (cases s) (simp add: core_def)

lemma ALLOC_INCR_pos: "0 < ALLOC_INCR"
  by (simp add: ALLOC_INCR_def)

text \<open>
  Growing the array adds empty slots at its end and nothing else. It stops when there is no memory, and then the array is lost;
  or in the message about a new slot.
\<close>

definition grow_stops :: "'k dtree \<Rightarrow> stop \<Rightarrow> bool" where
  "grow_stops s r \<longleftrightarrow> r = Exit 1 \<or> logs_noisy s \<and> r = fresh_memory"

lemma findEmptyCacheSlot_wp:
  assumes "list_all slot_ok (wlCache s)"
  shows "wp (findEmptyCacheSlot K s)
     (\<lambda>slot t. \<exists>ws k. core t = (core s)\<lparr>wlCache := ws, kern := k\<rparr> \<and>
        slot < length ws \<and> ws ! slot = empty_slot \<and>
        (ws = wlCache s \<or>
         (\<forall>w \<in> set (wlCache s). live_slot w) \<and> ws = wlCache s @ replicate ALLOC_INCR empty_slot))
     (\<lambda>r t. r = Exit 1 \<and> (\<exists>k. core t = (core s)\<lparr>wlCache := [], kern := k\<rparr>) \<or> logs_noisy s \<and> r = fresh_memory)"
proof (cases "0 \<le> find_slot (\<lambda>w. wd w = -1) (wlCache s) 0")
  case True
  from find_slot_found [OF this] obtain i where
    i: "i < cacheSize s" "find_slot (\<lambda>w. wd w = -1) (wlCache s) 0 = int i" "wd (wlCache s ! i) = -1"
    by auto
  then have "wlCache s ! i = empty_slot"
    using assms by (fastforce simp: list_all_length slot_ok_def)
  with i True show ?thesis by (auto simp: findEmptyCacheSlot_def core_id
          intro!: exI [of _ "wlCache s"] exI [of _ "kern s"])
next
  case False
  then have all: "\<forall>w \<in> set (wlCache s). live_slot w"
    using assms find_slot_neg [of "\<lambda>w. wd w = -1" "wlCache s" 0]
    by (fastforce simp: list_all_iff slot_ok_def)
  obtain r k where rk: "sys_realloc K (cacheSize s + ALLOC_INCR) (kern s) = (r, k)"
    by fastforce
  show ?thesis
  proof (cases r)
    case None
    with False rk show ?thesis
      by (auto simp: findEmptyCacheSlot_def errExit_def core_slots_id intro!: exI [of _ k])
  next
    case (Some g)
    let ?s = "s\<lparr>kern := k, wlCache := wlCache s @ map g [0..<ALLOC_INCR]\<rparr>"
    have "wp (mark_slots ALLOC_INCR (cacheSize s) ?s)
       (\<lambda>_ t. core t = (core s)\<lparr>wlCache := wlCache s @ replicate ALLOC_INCR empty_slot, kern := k\<rparr>)
       (\<lambda>r _. logs_noisy s \<and> r = fresh_memory)"
      using mark_slots_wp [of "cacheSize s" ALLOC_INCR ?s] by simp
    then show ?thesis
      using False rk Some all
      by (auto simp: findEmptyCacheSlot_def Let_def nth_append ALLOC_INCR_pos elim!: wp_mono)
  qed
qed

lemma cache_ok_grow: "cache_ok ws \<Longrightarrow> cache_ok (ws @ replicate n empty_slot)"
  by (auto simp: cache_ok_def list_all_iff)

lemma cache_map_grow [simp]: "cache_map (ws @ replicate n empty_slot) = cache_map ws"
  by (simp add: cache_map_def)

lemma addWatchToCache_wp:
  assumes "cache_ok (wlCache s)" "0 \<le> d" "path_ok p" "cache_map (wlCache s) d = None"
  shows "wp (addWatchToCache K d p s)
     (\<lambda>slot t. \<exists>ws k. core t = (core s)\<lparr>wlCache := ws, kern := k\<rparr> \<and> cache_ok ws \<and>
        cache_map ws = (cache_map (wlCache s))(d \<mapsto> p) \<and>
        slot < length ws \<and> ws ! slot = \<lparr>wd = d, path = p\<rparr>)
     (\<lambda>r t. r = Exit 1 \<and> (\<exists>k. core t = (core s)\<lparr>wlCache := [], kern := k\<rparr>) \<or> logs_noisy s \<and> r = fresh_memory)"
proof -
  have len: "length p < PATH_MAX" using assms(3) by (simp add: path_ok_def)
  have step: "\<exists>ws' k'. core (t\<lparr>wlCache := (wlCache t)[slot := \<lparr>wd = d, path = p\<rparr>]\<rparr>)
        = (core s)\<lparr>wlCache := ws', kern := k'\<rparr> \<and> cache_ok ws' \<and>
      cache_map ws' = (cache_map (wlCache s))(d \<mapsto> p) \<and>
      slot < length ws' \<and> ws' ! slot = \<lparr>wd = d, path = p\<rparr>"
    if t: "core t = (core s)\<lparr>wlCache := ws, kern := k\<rparr>"
      and slot: "slot < length ws" "ws ! slot = empty_slot"
      and ws: "ws = wlCache s \<or> ws = wlCache s @ replicate ALLOC_INCR empty_slot" for t slot ws k
  proof -
    have ok: "cache_ok ws" "cache_map ws = cache_map (wlCache s)"
      using ws assms(1) by (auto simp: cache_ok_grow)
    have neg: "wd (ws ! slot) < 0" using slot by simp
    show ?thesis
      using t core_fieldD(1) [OF t] slot assms ok
        wc.put_ok [OF ok(1) slot(1) neg assms(2) _ assms(3)]
        wc.put_lookup [OF ok(1) slot(1) neg assms(2), of p]
      by (intro exI [of _ "ws[slot := \<lparr>wd = d, path = p\<rparr>]"] exI [of _ k]) simp
  qed
  have "list_all slot_ok (wlCache s)" using assms(1) by (simp add: cache_ok_def)
  from findEmptyCacheSlot_wp [OF this, of K] show ?thesis
    unfolding addWatchToCache_def wp_bnd
    by (rule wp_mono) (use len step in auto)
qed

text \<open>With a log file, or with noisy messages, the first watch already prints an uninitialised path.\<close>

lemma first_watch_logged:
  assumes "wlCache s = []" "logs_noisy s" "sys_realloc K ALLOC_INCR (kern s) = (Some g, k)"
  shows "\<exists>t. addWatchToCache K d p s = Stop fresh_memory t"
proof -
  obtain n where n: "ALLOC_INCR = Suc n" using ALLOC_INCR_pos gr0_implies_Suc by blast
  have "\<exists>t. mark_slots ALLOC_INCR 0 (s\<lparr>wlCache := map g [0..<ALLOC_INCR], kern := k\<rparr>) = Stop fresh_memory t"
    using assms(2) unfolding n by (simp add: markCacheSlotEmpty_def del: upt_Suc)
  then show ?thesis using assms by (auto simp: addWatchToCache_def findEmptyCacheSlot_def)
qed

end
