(* ===== verification/Root_Dirs.thy ===== *)
theory Root_Dirs
  imports Watch_Cache
begin

text \<open>
  The directories named on the command line of \<open>inotify_dtree.c\<close>: the roots of the
  monitored trees. \<open>rootDirPaths\<close> keeps one entry per argument, NULL once the root is no
  longer monitored, and \<open>ignoreRootDirs\<close> counts the NULL entries.
\<close>

section \<open>Operations\<close>

text \<open>First pass over the arguments: each must name a directory.\<close>

fun check_args :: "'k kernel \<Rightarrow> string list \<Rightarrow> 'k dtree \<Rightarrow> (unit, 'k dtree) outcome" where
  "check_args K [] s = Ret () s"
| "check_args K (p # ps) s =
     (case sys_lstat K p (kern s) of (r, k) \<Rightarrow>
        (case r of
           Inl e \<Rightarrow> Stop (Exit 1) (fprintf_stderr ''lstat() failed on '%s'\<newline>'' [ArgS p] (s\<lparr>kern := k\<rparr>))
         | Inr sb \<Rightarrow>
             if \<not> S_ISDIR (st_mode sb)
             then Stop (Exit 1) (fprintf_stderr (CHR 0x27 # ''%s' is not a directory\<newline>'') [ArgS p] (s\<lparr>kern := k\<rparr>))
             else check_args K ps (s\<lparr>kern := k\<rparr>)))"

definition same_object :: "fstat \<Rightarrow> fstat \<Rightarrow> bool" where
  "same_object a b \<longleftrightarrow> st_ino a = st_ino b \<and> st_dev a = st_dev b"

text \<open>
  Second pass: copy the pathname, record its \<open>stat\<close> data and reject an object already
  named by an earlier argument.
\<close>

fun copy_args :: "'k kernel \<Rightarrow> string list \<Rightarrow> 'k dtree \<Rightarrow> (unit, 'k dtree) outcome" where
  "copy_args K [] s = Ret () s"
| "copy_args K (p # ps) s =
     (case sys_alloc K (kern s) of (ok, k) \<Rightarrow>
        if \<not> ok then errExit ''strdup'' (s\<lparr>kern := k\<rparr>)
        else case sys_lstat K p k of (r, k) \<Rightarrow>
          (case r of
             Inl e \<Rightarrow> errExit ''lstat'' (s\<lparr>kern := k\<rparr>)
           | Inr sb \<Rightarrow>
               (case List.find (\<lambda>(st, q). same_object sb st) (zip (rootDirStat s) (rootDirPaths s)) of
                  Some (st, q) \<Rightarrow>
                    Stop (Exit 1) (fprintf_stderr ''Duplicate filesystem objects: %s, %s\<newline>''
                      [ArgS p, ArgS (case q of None \<Rightarrow> [] | Some q \<Rightarrow> q)] (s\<lparr>kern := k\<rparr>))
                | None \<Rightarrow>
                    copy_args K ps (s\<lparr>kern := k, rootDirPaths := rootDirPaths s @ [Some p],
                                     rootDirStat := rootDirStat s @ [sb]\<rparr>))))"

definition copyRootDirPaths :: "'k kernel \<Rightarrow> string list \<Rightarrow> 'k dtree \<Rightarrow> (unit, 'k dtree) outcome" where
  "copyRootDirPaths K argv s =
     bnd (check_args K argv s) (\<lambda>_ s.
       case sys_alloc K (kern s) of (ok1, k) \<Rightarrow>
         if \<not> ok1 then errExit ''calloc'' (s\<lparr>kern := k\<rparr>)
         else case sys_alloc K k of (ok2, k) \<Rightarrow>
           if \<not> ok2 \<and> argv \<noteq> [] then Stop (Undefined ''lstat into a null array'') (s\<lparr>kern := k\<rparr>)
           else bnd (copy_args K argv (s\<lparr>kern := k, rootDirPaths := [], rootDirStat := []\<rparr>))
                  (\<lambda>_ s. Ret () (s\<lparr>ignoreRootDirs := 0\<rparr>)))"

fun findRootDirPath :: "string \<Rightarrow> string option list \<Rightarrow> nat \<Rightarrow> nat option" where
  "findRootDirPath p [] j = None"
| "findRootDirPath p (r # rs) j =
     (case r of
        None \<Rightarrow> findRootDirPath p rs (Suc j)
      | Some q \<Rightarrow> if strcmp p q = 0 then Some j else findRootDirPath p rs (Suc j))"

definition isRootDirPath :: "string \<Rightarrow> 'k dtree \<Rightarrow> bool" where
  "isRootDirPath p s \<longleftrightarrow> findRootDirPath p (rootDirPaths s) 0 \<noteq> None"

definition zapRootDirPath :: "string \<Rightarrow> 'k dtree \<Rightarrow> (unit, 'k dtree) outcome" where
  "zapRootDirPath p s0 =
     (let s = printf_out ''zapRootDirPath: %s\<newline>'' [ArgS p] s0 in
      case findRootDirPath p (rootDirPaths s) 0 of
        None \<Rightarrow> Stop (Exit 1) (fprintf_stderr ''zapRootDirPath(): path not found!\<newline>'' [] s)
      | Some j \<Rightarrow>
          let s = s\<lparr>rootDirPaths := (rootDirPaths s)[j := None],
                    ignoreRootDirs := ignoreRootDirs s + 1\<rparr> in
          if ignoreRootDirs s = numRootDirs s
          then Stop (Exit 0) (fprintf_stderr ''No more root paths left to monitor; bye!\<newline>'' [] s)
          else Ret () s)"

section \<open>The set of roots\<close>

definition roots :: "'k dtree \<Rightarrow> string list" where
  "roots s = List.map_filter id (rootDirPaths s)"

definition roots_ok :: "'k dtree \<Rightarrow> bool" where
  "roots_ok s \<longleftrightarrow> ignoreRootDirs s = length (filter (\<lambda>r. r = None) (rootDirPaths s))
     \<and> (\<forall>p. Some p \<in> set (rootDirPaths s) \<longrightarrow> path_ok p)"

lemma set_roots: "set (roots s) = {p. Some p \<in> set (rootDirPaths s)}"
  by (force simp: roots_def List.map_filter_def image_iff)

lemma findRootDirPath_None:
  "findRootDirPath p rs j = None \<longleftrightarrow> (\<forall>q. Some q \<in> set rs \<longrightarrow> strcmp p q \<noteq> 0)"
  by (induction p rs j rule: findRootDirPath.induct) (auto split: option.splits)

lemma findRootDirPath_Some:
  "findRootDirPath p rs j = Some i \<Longrightarrow>
     \<exists>h < length rs. i = j + h \<and> (\<exists>q. rs ! h = Some q \<and> strcmp p q = 0)"
proof (induction p rs j rule: findRootDirPath.induct)
  case (1 p j)
  then show ?case by simp
next
  case (2 p r rs j)
  show ?case
  proof (cases "\<exists>q. r = Some q \<and> strcmp p q = 0")
    case True
    with 2 show ?thesis by (intro exI [of _ 0]) auto
  next
    case False
    with 2 have "\<exists>h < length rs. i = Suc j + h \<and> (\<exists>q. rs ! h = Some q \<and> strcmp p q = 0)"
      by (auto split: option.splits if_splits)
    then obtain h where "h < length rs" "i = Suc j + h" "\<exists>q. rs ! h = Some q \<and> strcmp p q = 0"
      by blast
    then show ?thesis by (intro exI [of _ "Suc h"]) auto
  qed
qed

lemma isRootDirPath_iff:
  assumes "roots_ok s" "cstring p"
  shows "isRootDirPath p s \<longleftrightarrow> p \<in> set (roots s)"
  using assms unfolding isRootDirPath_def findRootDirPath_None set_roots
  by (auto simp: roots_ok_def path_ok_def strcmp_eq_0)

lemma filter_None_update:
  assumes "i < length rs" "rs ! i \<noteq> None"
  shows "length (filter (\<lambda>r. r = None) (rs[i := None])) = Suc (length (filter (\<lambda>r. r = None) rs))"
proof -
  have "rs = take i rs @ rs ! i # drop (Suc i) rs" using assms(1) by (rule id_take_nth_drop)
  then have "length (filter (\<lambda>r. r = None) rs)
      = length (filter (\<lambda>r. r = None) (take i rs @ rs ! i # drop (Suc i) rs))"
    by simp
  then show ?thesis using assms by (simp add: upd_conv_take_nth_drop)
qed

text \<open>
  What giving up a root does: it leaves the list, the count of abandoned roots stays
  exact, and the process ends with status 0 exactly when no root is left.
\<close>

lemma zapRootDirPath_wp:
  assumes "roots_ok s" "isRootDirPath p s"
  shows "wp (zapRootDirPath p s)
     (\<lambda>_ t. roots_ok t \<and> roots t \<noteq> [] \<and> wlCache t = wlCache s \<and> kern t = kern s \<and> ifd t = ifd s \<and>
            (\<exists>j < numRootDirs s. \<exists>q. rootDirPaths s ! j = Some q \<and> strcmp p q = 0 \<and>
               rootDirPaths t = (rootDirPaths s)[j := None]))
     (\<lambda>r t. r = Exit 0 \<and> roots t = [] \<and> wlCache t = wlCache s)"
proof -
  from assms(2) obtain i where i: "findRootDirPath p (rootDirPaths s) 0 = Some i"
    by (auto simp: isRootDirPath_def)
  from findRootDirPath_Some [OF i] obtain q where
    q: "i < numRootDirs s" "rootDirPaths s ! i = Some q" "strcmp p q = 0" by auto
  let ?rs = "(rootDirPaths s)[i := None]"
  have cnt: "ignoreRootDirs s + 1 = length (filter (\<lambda>r. r = None) ?rs)"
    using assms(1) filter_None_update [of i "rootDirPaths s"] q by (simp add: roots_ok_def)
  have ok: "Some x \<in> set ?rs \<Longrightarrow> path_ok x" for x
    using assms(1) set_update_subset_insert [of "rootDirPaths s" i None] by (auto simp: roots_ok_def)
  have none: "ignoreRootDirs s + 1 = numRootDirs s \<longleftrightarrow> List.map_filter id ?rs = []"
  proof -
    have "ignoreRootDirs s + 1 = numRootDirs s \<longleftrightarrow> filter (\<lambda>r. r = None) ?rs = ?rs"
      unfolding cnt
      by (metis length_list_update length_filter_less filter_id_conv order_less_irrefl)
    also have "\<dots> \<longleftrightarrow> (\<forall>r \<in> set ?rs. r = None)" by (auto simp: filter_id_conv)
    also have "\<dots> \<longleftrightarrow> List.map_filter id ?rs = []"
      by (induction ?rs arbitrary: i) (auto simp: List.map_filter_def filter_empty_conv)
    finally show ?thesis .
  qed
  show ?thesis
    unfolding zapRootDirPath_def
    using i q cnt ok none
    by (auto simp: Let_def roots_ok_def roots_def)
qed

section \<open>Start-up\<close>

lemma check_args_wp:
  "wp (check_args K ps s) (\<lambda>_ t. \<exists>k. t = s\<lparr>kern := k\<rparr>) (\<lambda>r _. r = Exit 1)"
proof (induction ps arbitrary: s)
  case Nil
  then show ?case by (auto intro: exI [of _ "kern s"])
next
  case (Cons p ps)
  show ?case
    by (auto split: prod.splits sum.splits intro!: wp_mono [OF Cons])
qed

abbreviation distinct_objects :: "fstat list \<Rightarrow> bool" where
  "distinct_objects \<equiv> sorted_wrt (\<lambda>a b. \<not> same_object b a)"

lemma copy_args_wp:
  "length (rootDirStat s) = numRootDirs s \<Longrightarrow> distinct_objects (rootDirStat s) \<Longrightarrow>
   wp (copy_args K ps s)
     (\<lambda>_ t. rootDirPaths t = rootDirPaths s @ map Some ps \<and> length (rootDirStat t) = numRootDirs t
        \<and> distinct_objects (rootDirStat t))
     (\<lambda>r _. r = Exit 1)"
proof (induction ps arbitrary: s)
  case Nil
  then show ?case by simp
next
  case (Cons p ps)
  have new: "distinct_objects (rootDirStat s @ [sb])"
    if "List.find (\<lambda>(st, q). same_object sb st) (zip (rootDirStat s) (rootDirPaths s)) = None" for sb
  proof -
    have "\<not> same_object sb st" if "st \<in> set (rootDirStat s)" for st
    proof -
      from that Cons.prems(1) obtain q where "(st, q) \<in> set (zip (rootDirStat s) (rootDirPaths s))"
        by (metis in_set_impl_in_set_zip1)
      with \<open>List.find _ _ = None\<close> show ?thesis by (auto simp: find_None_iff)
    qed
    with Cons.prems(2) show ?thesis by (simp add: sorted_wrt_append)
  qed
  show ?case
    using Cons.prems new
    by (auto simp: errExit_def split: prod.splits sum.splits option.splits intro!: wp_mono [OF Cons.IH])
qed

text \<open>
  Start-up keeps every argument, in order, and only if no two of them are the same
  directory.
\<close>

lemma copyRootDirPaths_wp:
  "wp (copyRootDirPaths K argv s)
     (\<lambda>_ t. rootDirPaths t = map Some argv \<and> ignoreRootDirs t = 0 \<and>
        length (rootDirStat t) = length argv \<and> distinct_objects (rootDirStat t))
     (\<lambda>r _. r = Exit 1 \<or> (\<exists>w. r = Undefined w))"
  unfolding copyRootDirPaths_def wp_bnd
  by (rule wp_mono [OF check_args_wp])
    (auto simp: errExit_def split: prod.splits intro!: wp_mono [OF copy_args_wp])

lemma copyRootDirPaths_stops:
  "wp (copyRootDirPaths K argv s) (\<lambda>_ _. True)
     (\<lambda>r _. r = Exit 1 \<or> (\<exists>w k. r = Undefined w \<and> \<not> fst (sys_alloc K k)))"
proof -
  have copy: "wp (copy_args K ps u) (\<lambda>_ _. True) (\<lambda>r _. r = Exit 1)" for ps u
    by (induction K ps u rule: copy_args.induct)
      (auto simp: errExit_def split: prod.splits sum.splits option.splits)
  have alloc: "\<exists>k. \<not> fst (sys_alloc K k)" if "sys_alloc K k = (False, k')" for k k'
    using that by (intro exI [of _ k]) simp
  show ?thesis
    unfolding copyRootDirPaths_def wp_bnd
    by (rule wp_mono [OF check_args_wp])
      (auto simp: errExit_def split: prod.splits intro!: wp_mono [OF copy] dest: alloc)
qed

lemma roots_ok_start:
  "rootDirPaths t = map Some argv \<Longrightarrow> ignoreRootDirs t = 0 \<Longrightarrow> \<forall>p \<in> set argv. path_ok p \<Longrightarrow> roots_ok t"
  by (auto simp: roots_ok_def filter_empty_conv)

end
