(* ===== verification/Dtree_Watch.thy ===== *)
theory Dtree_Watch
  imports Root_Dirs
begin

text \<open>
  The operations of \<open>inotify_dtree.c\<close> that walk the cache and the file system: watching a
  subtree (\<open>traverseTree\<close>, \<open>watchDir\<close>, \<open>watchSubtree\<close>), following a rename
  (\<open>rewriteCachedPaths\<close>), dropping a subtree (\<open>zapSubtree\<close>) and rebuilding everything
  (\<open>reinitialize\<close>).

  The lemmas give for each the map the cache stands for afterwards. What the program
  relies on of the operating system is the predicate \<open>kernel_ok\<close>: watch descriptors are
  not negative and the paths a tree walk reports fit in the cache.
\<close>

section \<open>Operations\<close>

definition traverseTree :: "'k kernel \<Rightarrow> string \<times> u32 \<Rightarrow> 'k dtree \<Rightarrow> (int, 'k dtree) outcome" where
  "traverseTree K v s = (case v of (pathname, mode) \<Rightarrow>
     if \<not> S_ISDIR mode then Ret 0 s
     else
       let flags = IN_CREATE OR IN_MOVED_FROM OR IN_MOVED_TO OR IN_DELETE_SELF;
           flags = (if isRootDirPath pathname s then flags OR IN_MOVE_SELF else flags)
       in case sys_add_watch K (ifd s) pathname (flags OR IN_ONLYDIR) (kern s) of (r, k) \<Rightarrow>
         (case r of
            Inl e \<Rightarrow>
              (let s = logMessage VB_BASIC ''inotify_add_watch: %s: %s\<newline>''
                         [ArgS pathname, ArgS (strerror K e)] (s\<lparr>kern := k\<rparr>)
               in if e = ENOENT then Ret 0 s else Stop (Exit 1) s)
          | Inr d \<Rightarrow>
              if findWatch (wlCache s) d \<ge> 0
              then Ret 0 (logMessage VB_BASIC ''WD %d already in cache (%s)\<newline>''
                     [ArgI d, ArgS pathname] (s\<lparr>kern := k\<rparr>))
              else
                bnd (addWatchToCache K d pathname (s\<lparr>kern := k, dirCnt := dirCnt s + 1\<rparr>)) (\<lambda>slot s.
                  Ret 0 (logMessage VB_NOISY ''    watchDir: wd = %d [cache slot: %d]; %s\<newline>''
                    [ArgI d, ArgI (int slot), ArgS pathname] s))))"

text \<open>\<open>nftw()\<close> calls \<open>traverseTree\<close> for each file it visits while it returns 0.\<close>

fun nftw_calls :: "'k kernel \<Rightarrow> (string \<times> u32) list \<Rightarrow> 'k dtree \<Rightarrow> (unit, 'k dtree) outcome" where
  "nftw_calls K [] s = Ret () s"
| "nftw_calls K (v # vs) s =
     bnd (traverseTree K v s) (\<lambda>r s. if r = 0 then nftw_calls K vs s else Ret () s)"

definition watchDir :: "'k kernel \<Rightarrow> int \<Rightarrow> string \<Rightarrow> 'k dtree \<Rightarrow> (int, 'k dtree) outcome" where
  "watchDir K inotifyFd pathname s =
     (case sys_nftw K pathname (kern s) of ((vs, e), k) \<Rightarrow>
        bnd (nftw_calls K vs (s\<lparr>kern := k, dirCnt := 0, ifd := inotifyFd\<rparr>)) (\<lambda>_ s.
          let s = (case e of
                     None \<Rightarrow> s
                   | Some err \<Rightarrow> logMessage VB_BASIC
                       ''nftw: %s: %s (directory probably deleted before we could watch)\<newline>''
                       [ArgS pathname, ArgS (strerror K err)] s)
          in Ret (dirCnt s) s))"

definition watchSubtree :: "'k kernel \<Rightarrow> int \<Rightarrow> string \<Rightarrow> 'k dtree \<Rightarrow> (unit, 'k dtree) outcome" where
  "watchSubtree K inotifyFd p s =
     bnd (watchDir K inotifyFd p s) (\<lambda>cnt s.
       Ret () (logMessage VB_BASIC ''    watchSubtree: %s: %d entries added\<newline>'' [ArgS p, ArgI cnt] s))"

text \<open>
  \<open>rewrite_loop\<close> is the loop over the slots; it returns the new slots and the state with
  the messages logged. A path that outgrows \<open>PATH_MAX\<close> is cut, and the message about it
  is logged only when the text is longer than the buffer (\<open>s > sizeof(newPath)\<close>).
\<close>

definition new_path :: "string \<Rightarrow> string \<Rightarrow> string \<Rightarrow> string" where
  "new_path full new p = new @ drop (length full) p"

fun rewrite_loop :: "string \<Rightarrow> string \<Rightarrow> watch list \<Rightarrow> nat \<Rightarrow> 'k dtree \<Rightarrow> watch list \<times> 'k dtree" where
  "rewrite_loop full new [] j s = ([], s)"
| "rewrite_loop full new (w # ws) j s =
     (if path_below full (path w) then
        let newPath = snprintf_buf PATH_MAX (new_path full new (path w));
            s = (if length (new_path full new (path w)) > PATH_MAX
                 then logMessage VB_BASIC ''Truncated pathname: %s\<newline>'' [ArgS newPath] s else s);
            s = logMessage VB_NOISY ''    wd %d [cache slot %d] ==> %s\<newline>''
                  [ArgI (wd w), ArgI (int j), ArgS newPath] s
        in (case rewrite_loop full new ws (Suc j) s of (ws', s) \<Rightarrow> (w\<lparr>path := newPath\<rparr> # ws', s))
      else (case rewrite_loop full new ws (Suc j) s of (ws', s) \<Rightarrow> (w # ws', s)))"

definition rewriteCachedPaths :: "string \<Rightarrow> string \<Rightarrow> string \<Rightarrow> string \<Rightarrow> 'k dtree \<Rightarrow> 'k dtree" where
  "rewriteCachedPaths oldPathPrefix oldName newPathPrefix newName s =
     (let fullPath = snprintf_buf PATH_MAX (oldPathPrefix @ ''/'' @ oldName);
          newPrefix = snprintf_buf PATH_MAX (newPathPrefix @ ''/'' @ newName);
          s = logMessage VB_BASIC ''Rename: %s ==> %s\<newline>'' [ArgS fullPath, ArgS newPrefix] s
      in case rewrite_loop fullPath newPrefix (wlCache s) 0 s of (ws, s) \<Rightarrow> s\<lparr>wlCache := ws\<rparr>)"

text \<open>
  The loop of \<open>zapSubtree\<close> over the slots \<open>j\<close>, \<open>j + 1\<close>, ... (\<open>n\<close> of them remain), in
  place. It stops with -1 at the first watch the kernel refuses to remove.
\<close>

fun zap_loop :: "'k kernel \<Rightarrow> int \<Rightarrow> string \<Rightarrow> nat \<Rightarrow> nat \<Rightarrow> int \<Rightarrow> 'k dtree \<Rightarrow> (int, 'k dtree) outcome" where
  "zap_loop K fd pn 0 j cnt s = Ret cnt s"
| "zap_loop K fd pn (Suc n) j cnt s =
     (let w = wlCache s ! j in
      if wd w \<ge> 0 \<and> path_below pn (path w) then
        let s = logMessage VB_NOISY ''    removing watch: wd = %d (%s)\<newline>'' [ArgI (wd w), ArgS (path w)] s
        in case sys_rm_watch K fd (wd w) (kern s) of (r, k) \<Rightarrow>
          (case r of
             Some e \<Rightarrow> Ret (-1) (logMessage 0 ''inotify_rm_watch wd = %d (%s): %s\<newline>''
                         [ArgI (wd w), ArgS (path w), ArgS (strerror K e)] (s\<lparr>kern := k\<rparr>))
           | None \<Rightarrow>
               bnd (markCacheSlotEmpty False j (s\<lparr>kern := k\<rparr>)) (\<lambda>_ s.
                 zap_loop K fd pn n (Suc j) (cnt + 1) s))
      else zap_loop K fd pn n (Suc j) cnt s)"

definition zapSubtree :: "'k kernel \<Rightarrow> int \<Rightarrow> string \<Rightarrow> 'k dtree \<Rightarrow> (int, 'k dtree) outcome" where
  "zapSubtree K inotifyFd p s =
     (let s = logMessage VB_NOISY ''Zapping subtree: %s\<newline>'' [ArgS p] s
      in zap_loop K inotifyFd p (cacheSize s) 0 0 s)"

fun watch_roots :: "'k kernel \<Rightarrow> int \<Rightarrow> string option list \<Rightarrow> 'k dtree \<Rightarrow> (unit, 'k dtree) outcome" where
  "watch_roots K fd [] s = Ret () s"
| "watch_roots K fd (r # rs) s =
     (case r of
        None \<Rightarrow> watch_roots K fd rs s
      | Some p \<Rightarrow> bnd (watchSubtree K fd p s) (\<lambda>_ s. watch_roots K fd rs s))"

definition reinitialize :: "'k kernel \<Rightarrow> int \<Rightarrow> 'k dtree \<Rightarrow> (int, 'k dtree) outcome" where
  "reinitialize K oldInotifyFd s0 =
     (let s = (if oldInotifyFd \<ge> 0
               then let s = s0\<lparr>kern := sys_close K oldInotifyFd (kern s0), reinitCnt := reinitCnt s0 + 1\<rparr>
                    in logMessage 0 ''Reinitializing cache and inotify FD (reinitCnt = %d)\<newline>''
                         [ArgI (reinitCnt s)] s
               else (logMessage 0 ''Initializing cache\<newline>'' [] s0)\<lparr>reinitCnt := 0\<rparr>)
      in case sys_inotify_init K (kern s) of (fd, k) \<Rightarrow>
        if fd = -1 then errExit ''inotify_init'' (s\<lparr>kern := k\<rparr>)
        else
          let s = logMessage VB_BASIC ''    new inotifyFd = %d\<newline>'' [ArgI fd] (s\<lparr>kern := k\<rparr>);
              s = freeCache s
          in bnd (watch_roots K fd (rootDirPaths s) s) (\<lambda>_ s.
               let cnt = length (live (wlCache s))
               in Ret fd (if oldInotifyFd \<ge> 0
                          then logMessage 0 ''Rebuilt cache with %d entries\<newline>'' [ArgI (int cnt)] s
                          else s)))"

section \<open>The configuration the walks leave alone\<close>

definition same_conf :: "'k dtree \<Rightarrow> 'k dtree \<Rightarrow> bool" where
  "same_conf s t \<longleftrightarrow> rootDirPaths t = rootDirPaths s \<and> ignoreRootDirs t = ignoreRootDirs s
     \<and> rootDirStat t = rootDirStat s \<and> checkCache t = checkCache s \<and> dumpCache t = dumpCache s
     \<and> abortOnCacheProblem t = abortOnCacheProblem s \<and> logfp t = logfp s
     \<and> verboseMask t = verboseMask s \<and> readBufferSize t = readBufferSize s
     \<and> inotifyReadCnt t = inotifyReadCnt s"

lemma same_conf_refl [simp]: "same_conf s s"
  by (simp add: same_conf_def)

lemma same_conf_trans [trans]: "same_conf s t \<Longrightarrow> same_conf t u \<Longrightarrow> same_conf s u"
  by (simp add: same_conf_def)

lemma same_conf_set [simp]:
  "same_conf s (t\<lparr>kern := k\<rparr>) = same_conf s t" "same_conf s (t\<lparr>wlCache := ws\<rparr>) = same_conf s t"
  "same_conf s (t\<lparr>dirCnt := n\<rparr>) = same_conf s t" "same_conf s (t\<lparr>ifd := fd\<rparr>) = same_conf s t"
  "same_conf s (t\<lparr>reinitCnt := n\<rparr>) = same_conf s t" "same_conf s (t\<lparr>overflowCnt := n\<rparr>) = same_conf s t"
  "same_conf s (logMessage m f as t) = same_conf s t"
  "same_conf s (fprintf_stderr f as t) = same_conf s t"
  "same_conf s (displayInotifyEvent ev t) = same_conf s t"
  by (simp_all add: same_conf_def)

lemma same_conf_set_left [simp]:
  "same_conf (s\<lparr>kern := k\<rparr>) t = same_conf s t" "same_conf (s\<lparr>wlCache := ws\<rparr>) t = same_conf s t"
  "same_conf (s\<lparr>dirCnt := n\<rparr>) t = same_conf s t" "same_conf (s\<lparr>ifd := fd\<rparr>) t = same_conf s t"
  "same_conf (s\<lparr>reinitCnt := n\<rparr>) t = same_conf s t" "same_conf (s\<lparr>overflowCnt := n\<rparr>) t = same_conf s t"
  "same_conf (logMessage m f as s) t = same_conf s t"
  "same_conf (displayInotifyEvent ev s) t = same_conf s t"
  by (simp_all add: same_conf_def)

lemma same_conf_core: "core t = (core s)\<lparr>wlCache := ws, kern := k\<rparr> \<Longrightarrow> same_conf s t"
  by (cases s; cases t) (simp add: core_def same_conf_def)

lemma same_conf_core_slots: "core t = (core s)\<lparr>wlCache := ws\<rparr> \<Longrightarrow> same_conf s t"
  by (cases s; cases t) (simp add: core_def same_conf_def)

lemma roots_ok_conf: "same_conf s t \<Longrightarrow> roots_ok t = roots_ok s"
  by (simp add: same_conf_def roots_ok_def)

section \<open>What the operating system guarantees\<close>

definition kernel_ok :: "'k kernel \<Rightarrow> bool" where
  "kernel_ok K \<longleftrightarrow>
     (\<forall>fd p m k d k'. sys_add_watch K fd p m k = (Inr d, k') \<longrightarrow> 0 \<le> d) \<and>
     (\<forall>p k vs e k'. sys_nftw K p k = ((vs, e), k') \<longrightarrow> (\<forall>v \<in> set vs. path_ok (fst v)))"

lemma kernel_okD:
  assumes "kernel_ok K"
  shows "sys_add_watch K fd p m k = (Inr d, k') \<Longrightarrow> 0 \<le> d"
    and "sys_nftw K p k = ((vs, e), k') \<Longrightarrow> v \<in> set vs \<Longrightarrow> path_ok (fst v)"
  using assms unfolding kernel_ok_def by blast+

section \<open>Watching a subtree\<close>

text \<open>
  \<open>grows s t\<close>: from \<open>s\<close> to \<open>t\<close> the cache only gains watches and stays well-formed.
\<close>

definition grows :: "'k dtree \<Rightarrow> 'k dtree \<Rightarrow> bool" where
  "grows s t \<longleftrightarrow> cache_ok (wlCache t) \<and> cache_map (wlCache s) \<subseteq>\<^sub>m cache_map (wlCache t) \<and> same_conf s t"

lemma conf_stops: "same_conf s t \<Longrightarrow> grow_stops t r = grow_stops s r"
  by (simp add: grow_stops_def logs_noisy_def same_conf_def)

lemma grow_stops_set [simp]:
  "grow_stops (s\<lparr>wlCache := ws\<rparr>) r = grow_stops s r" "grow_stops (s\<lparr>kern := k\<rparr>) r = grow_stops s r"
  "grow_stops (s\<lparr>dirCnt := n\<rparr>) r = grow_stops s r" "grow_stops (s\<lparr>ifd := fd\<rparr>) r = grow_stops s r"
  "grow_stops (s\<lparr>reinitCnt := m\<rparr>) r = grow_stops s r" "grow_stops (logMessage v f as s) r = grow_stops s r"
  "grow_stops s (Exit 1)"
  by (simp_all add: grow_stops_def)

lemma grows_refl: "cache_ok (wlCache s) \<Longrightarrow> grows s s"
  by (simp add: grows_def)

lemma grows_trans [trans]: "grows s t \<Longrightarrow> grows t u \<Longrightarrow> grows s u"
  by (auto simp: grows_def intro: map_le_trans same_conf_trans)

lemma grows_set [simp]:
  "grows s (t\<lparr>kern := k\<rparr>) = grows s t" "grows s (t\<lparr>dirCnt := n\<rparr>) = grows s t"
  "grows s (t\<lparr>ifd := fd\<rparr>) = grows s t" "grows s (logMessage m f as t) = grows s t"
  by (simp_all add: grows_def)

lemma grows_set_left [simp]:
  "grows (s\<lparr>kern := k\<rparr>) t = grows s t" "grows (s\<lparr>dirCnt := n\<rparr>) t = grows s t"
  "grows (s\<lparr>ifd := fd\<rparr>) t = grows s t" "grows (logMessage m f as s) t = grows s t"
  by (simp_all add: grows_def)

lemma addWatchToCache_grows:
  assumes "cache_ok (wlCache s)" "0 \<le> d" "path_ok p" "findWatch (wlCache s) d < 0"
  shows "wp (addWatchToCache K d p s)
     (\<lambda>slot t. grows s t \<and> ifd t = ifd s \<and> dirCnt t = dirCnt s \<and>
        cache_map (wlCache t) = (cache_map (wlCache s))(d \<mapsto> p))
     (\<lambda>r t. grow_stops s r)"
proof -
  have none: "cache_map (wlCache s) d = None"
    using assms(2,4) wc.find_iff by (metis not_less)
  show ?thesis
  proof (rule wp_mono [OF addWatchToCache_wp [OF assms(1-3) none]])
    fix slot t
    assume "\<exists>ws k. core t = (core s)\<lparr>wlCache := ws, kern := k\<rparr> \<and> cache_ok ws \<and>
        cache_map ws = (cache_map (wlCache s))(d \<mapsto> p) \<and> slot < length ws \<and> ws ! slot = \<lparr>wd = d, path = p\<rparr>"
    then obtain ws k where t: "core t = (core s)\<lparr>wlCache := ws, kern := k\<rparr>"
      and ws: "cache_ok ws" "cache_map ws = (cache_map (wlCache s))(d \<mapsto> p)" by blast
    then show "grows s t \<and> ifd t = ifd s \<and> dirCnt t = dirCnt s \<and>
        cache_map (wlCache t) = (cache_map (wlCache s))(d \<mapsto> p)"
      using core_fieldD [OF t] same_conf_core [OF t] none
      by (auto simp: grows_def map_le_def)
  next
    fix r t
    assume "r = Exit 1 \<and> (\<exists>k. core t = (core s)\<lparr>wlCache := [], kern := k\<rparr>) \<or> logs_noisy s \<and> r = fresh_memory"
    then show "grow_stops s r" by (auto simp: grow_stops_def)
  qed
qed

lemma traverseTree_grows:
  assumes "kernel_ok K" "cache_ok (wlCache s)" "path_ok (fst v)"
  shows "wp (traverseTree K v s)
     (\<lambda>r t. r = 0 \<and> grows s t \<and> ifd t = ifd s) (\<lambda>r t. grow_stops s r)"
proof -
  obtain p m where v: "v = (p, m)" by fastforce
  let ?fl = "IN_CREATE OR IN_MOVED_FROM OR IN_MOVED_TO OR IN_DELETE_SELF"
  let ?flags = "(if isRootDirPath p s then ?fl OR IN_MOVE_SELF else ?fl) OR IN_ONLYDIR"
  obtain r k where r: "sys_add_watch K (ifd s) p ?flags (kern s) = (r, k)" by fastforce
  show ?thesis
  proof (cases r)
    case (Inl e)
    with r v assms(2) show ?thesis
      by (simp add: traverseTree_def Let_def grows_refl)
  next
    case (Inr d)
    with r assms(1) have "0 \<le> d" by (auto dest: kernel_okD(1))
    let ?s = "s\<lparr>kern := k, dirCnt := dirCnt s + 1\<rparr>"
    have "wp (addWatchToCache K d p ?s)
       (\<lambda>slot t. grows s t \<and> ifd t = ifd s) (\<lambda>r t. grow_stops s r)"
      if "findWatch (wlCache s) d < 0"
      using addWatchToCache_grows [of ?s d p K] that assms v \<open>0 \<le> d\<close>
      by (auto elim!: wp_mono)
    then show ?thesis
      using r Inr v assms(2) by (auto simp: traverseTree_def Let_def grows_refl not_le)
  qed
qed

lemma nftw_calls_grows:
  assumes "kernel_ok K" "cache_ok (wlCache s)" "\<forall>v \<in> set vs. path_ok (fst v)"
  shows "wp (nftw_calls K vs s)
     (\<lambda>_ t. grows s t \<and> ifd t = ifd s) (\<lambda>r t. grow_stops s r)"
  using assms(2,3)
proof (induction vs arbitrary: s)
  case Nil
  then show ?case by (simp add: grows_refl)
next
  case (Cons v vs)
  from Cons.prems have v: "path_ok (fst v)" "\<forall>v \<in> set vs. path_ok (fst v)" by auto
  have "wp (nftw_calls K vs t) (\<lambda>_ u. grows s u \<and> ifd u = ifd s) (\<lambda>r u. grow_stops s r)"
    if "grows s t" "ifd t = ifd s" for t
    using Cons.IH [of t] that v(2) conf_stops [of s t] by (auto simp: grows_def elim!: wp_mono intro: map_le_trans same_conf_trans)
  then show ?case
    using traverseTree_grows [OF assms(1) Cons.prems(1) v(1)] by (auto elim!: wp_mono)
qed

lemma watchSubtree_grows:
  assumes "kernel_ok K" "cache_ok (wlCache s)"
  shows "wp (watchSubtree K fd p s) (\<lambda>_ t. grows s t) (\<lambda>r t. grow_stops s r)"
proof -
  obtain vs e k where n: "sys_nftw K p (kern s) = ((vs, e), k)" by (metis surj_pair)
  with assms(1) have "\<forall>v \<in> set vs. path_ok (fst v)" by (auto dest: kernel_okD(2))
  from nftw_calls_grows [OF assms(1) _ this, of "s\<lparr>kern := k, dirCnt := 0, ifd := fd\<rparr>"] assms(2) n
  show ?thesis
    by (auto simp: watchSubtree_def watchDir_def Let_def split: option.splits elim!: wp_mono)
qed

section \<open>Following a rename\<close>

definition rewrite_slot :: "string \<Rightarrow> string \<Rightarrow> watch \<Rightarrow> watch" where
  "rewrite_slot full new w =
     (if path_below full (path w)
      then w\<lparr>path := snprintf_buf PATH_MAX (new_path full new (path w))\<rparr> else w)"

lemma rewrite_loop_eq:
  "fst (rewrite_loop full new ws j s) = map (rewrite_slot full new) ws"
  "core (snd (rewrite_loop full new ws j s)) = core s"
  by (induction ws arbitrary: j s) (simp_all add: rewrite_slot_def Let_def case_prod_beta)

lemma rewriteCachedPaths_core:
  "core (rewriteCachedPaths op on np nn s) =
     (core s)\<lparr>wlCache := map (rewrite_slot (snprintf_buf PATH_MAX (op @ ''/'' @ on))
                                (snprintf_buf PATH_MAX (np @ ''/'' @ nn))) (wlCache s)\<rparr>"
  by (simp add: rewriteCachedPaths_def Let_def case_prod_beta rewrite_loop_eq)

lemma path_below_not_empty: "cstring pre \<Longrightarrow> pre \<noteq> [] \<Longrightarrow> \<not> path_below pre []"
  by (simp add: path_below_iff)

lemma rewrite_slot_ok:
  assumes "slot_ok w" "cstring full" "full \<noteq> []" "cstring new"
  shows "slot_ok (rewrite_slot full new w)" "wd (rewrite_slot full new w) = wd w"
proof -
  have "cstring (drop n p)" if "cstring p" for n p
    using that by (auto simp: cstring_def dest: in_set_dropD)
  then show "slot_ok (rewrite_slot full new w)"
    using assms path_below_not_empty [OF assms(2,3)]
    by (auto simp: rewrite_slot_def slot_ok_def path_ok_def new_path_def snprintf_buf_def PATH_MAX_def)
  show "wd (rewrite_slot full new w) = wd w" by (simp add: rewrite_slot_def)
qed

lemma cache_map_map_path:
  assumes "\<And>w. w \<in> set ws \<Longrightarrow> wd (f w) = wd w \<and> path (f w) = g (path w)"
  shows "cache_map (map f ws) = (\<lambda>d. map_option g (cache_map ws d))"
  using assms by (induction ws) (auto simp: cache_map_Cons)

lemma live_map_wd:
  assumes "\<And>w. w \<in> set ws \<Longrightarrow> wd (f w) = wd w"
  shows "map wd (live (map f ws)) = map wd (live ws)"
  using assms by (induction ws) auto

lemma cache_ok_rewrite:
  assumes "cache_ok ws" "cstring full" "full \<noteq> []" "cstring new"
  shows "cache_ok (map (rewrite_slot full new) ws)"
  using assms rewrite_slot_ok [OF _ assms(2-4)] live_map_wd [of ws "rewrite_slot full new"]
  by (auto simp: cache_ok_def list_all_iff)

text \<open>
  The intended effect of renaming \<open>a\<close> to \<open>b\<close>: a path at or below \<open>a\<close> moves to the same
  place at or below \<open>b\<close>, any other path stays.
\<close>

definition below :: "string \<Rightarrow> string \<Rightarrow> bool" where
  "below a p \<longleftrightarrow> p = a \<or> (\<exists>t. p = a @ CHR ''/'' # t)"

definition rename_path :: "string \<Rightarrow> string \<Rightarrow> string \<Rightarrow> string" where
  "rename_path a b p = (if below a p then b @ drop (length a) p else p)"

lemma rename_path_spec:
  "rename_path a b a = b" "rename_path a b (a @ CHR ''/'' # t) = b @ CHR ''/'' # t"
  "\<not> below a p \<Longrightarrow> rename_path a b p = p"
  by (auto simp: rename_path_def below_def)

lemma rename_path_below: "below a p \<Longrightarrow> below b (rename_path a b p)"
  by (auto simp: rename_path_def below_def)

section \<open>Dropping a subtree\<close>

definition zap_slot :: "string \<Rightarrow> watch \<Rightarrow> watch" where
  "zap_slot pn w = (if live_slot w \<and> path_below pn (path w) then empty_slot else w)"

definition zapped :: "string \<Rightarrow> watch list \<Rightarrow> watch list" where
  "zapped pn ws = filter (\<lambda>w. live_slot w \<and> path_below pn (path w)) ws"

text \<open>
  \<open>zap_post pn j cnt ws r ws'\<close>: started at slot \<open>j\<close> of \<open>ws\<close> with \<open>cnt\<close> entries removed so far,
  the loop returns \<open>r\<close> and leaves \<open>ws'\<close>: all later slots treated, or the slots up to a failure.
\<close>

definition zap_post :: "string \<Rightarrow> nat \<Rightarrow> int \<Rightarrow> watch list \<Rightarrow> int \<Rightarrow> watch list \<Rightarrow> bool" where
  "zap_post pn j cnt ws r ws' \<longleftrightarrow>
     r = cnt + int (length (zapped pn (drop j ws))) \<and> ws' = take j ws @ map (zap_slot pn) (drop j ws) \<or>
     r = -1 \<and> (\<exists>us vs. drop j ws = us @ vs \<and> ws' = take j ws @ map (zap_slot pn) us @ vs)"

lemma zap_post_done: "j = length ws \<Longrightarrow> zap_post pn j cnt ws cnt ws"
  by (simp add: zap_post_def zapped_def)

lemma zap_post_fail: "zap_post pn j cnt ws (-1) ws"
  by (auto simp: zap_post_def intro: exI [of _ "[]"])

lemma zap_post_step:
  assumes j: "j < length ws" and w: "zap_slot pn (ws ! j) = w"
    and c: "c = cnt + int (length (zapped pn [ws ! j]))"
    and post: "zap_post pn (Suc j) c (ws[j := w]) r ws'"
  shows "zap_post pn j cnt ws r ws'"
proof -
  have d: "drop j ws = ws ! j # drop (Suc j) ws" and tk: "take (Suc j) (ws[j := w]) = take j ws @ [w]"
    using j by (simp_all add: Cons_nth_drop_Suc take_Suc_conv_app_nth)
  from post have "r = c + int (length (zapped pn (drop (Suc j) ws))) \<and>
      ws' = take j ws @ w # map (zap_slot pn) (drop (Suc j) ws) \<or>
      r = -1 \<and> (\<exists>us vs. drop (Suc j) ws = us @ vs \<and> ws' = take j ws @ w # map (zap_slot pn) us @ vs)"
    by (simp add: zap_post_def tk)
  then show ?thesis
  proof (elim disjE conjE exE)
    assume "r = c + int (length (zapped pn (drop (Suc j) ws)))"
      and "ws' = take j ws @ w # map (zap_slot pn) (drop (Suc j) ws)"
    then show ?thesis unfolding zap_post_def d using w c by (simp add: zapped_def)
  next
    fix us vs
    assume "r = -1" "drop (Suc j) ws = us @ vs" "ws' = take j ws @ w # map (zap_slot pn) us @ vs"
    then show ?thesis
      unfolding zap_post_def d using w by (intro disjI2 conjI exI [of _ "ws ! j # us"] exI [of _ vs]) auto
  qed
qed

lemma zap_loop_wp:
  "j + n = cacheSize s \<Longrightarrow>
   wp (zap_loop K fd pn n j cnt s)
     (\<lambda>r t. same_conf s t \<and> zap_post pn j cnt (wlCache s) r (wlCache t)) (\<lambda>_ _. False)"
proof (induction n arbitrary: j cnt s)
  case 0
  then show ?case by (simp add: zap_post_done)
next
  case (Suc n)
  let ?w = "wlCache s ! j" and ?ws = "wlCache s"
  from Suc.prems have j: "j < length ?ws" by simp
  show ?case
  proof (cases "live_slot ?w \<and> path_below pn (path ?w)")
    case False
    then have "zap_slot pn ?w = ?w" "zapped pn [?w] = []" by (auto simp: zap_slot_def zapped_def)
    then have post: "zap_post pn (Suc j) cnt ?ws r ws' \<Longrightarrow> zap_post pn j cnt ?ws r ws'" for r ws'
      using zap_post_step [OF j] by simp
    have "zap_loop K fd pn (Suc n) j cnt s = zap_loop K fd pn n (Suc j) cnt s"
      using False by (auto simp: Let_def)
    with Suc.IH [of "Suc j" s cnt] Suc.prems post show ?thesis by (auto elim: wp_mono)
  next
    case True
    then have "zap_slot pn ?w = empty_slot" "zapped pn [?w] = [?w]"
      by (auto simp: zap_slot_def zapped_def)
    then have post: "zap_post pn (Suc j) (cnt + 1) (?ws[j := empty_slot]) r ws' \<Longrightarrow> zap_post pn j cnt ?ws r ws'"
      for r ws' using zap_post_step [OF j, of pn empty_slot "cnt + 1"] by simp
    obtain r k where r: "sys_rm_watch K fd (wd ?w) (kern s) = (r, k)" by fastforce
    let ?s = "(logMessage VB_NOISY ''    removing watch: wd = %d (%s)\<newline>''
                 [ArgI (wd ?w), ArgS (path ?w)] s)\<lparr>kern := k\<rparr>"
    show ?thesis
    proof (cases r)
      case (Some e)
      with r True show ?thesis by (simp add: Let_def zap_post_fail)
    next
      case None
      have "wp (zap_loop K fd pn n (Suc j) (cnt + 1) u)
         (\<lambda>r t. same_conf s t \<and> zap_post pn j cnt ?ws r (wlCache t)) (\<lambda>_ _. False)"
        if u: "core u = (core s)\<lparr>wlCache := ?ws[j := empty_slot], kern := k\<rparr>" for u
      proof -
        have ws: "wlCache u = ?ws[j := empty_slot]" using core_fieldD(1) [OF u] by simp
        then have "Suc j + n = cacheSize u" using Suc.prems by simp
        from Suc.IH [OF this, of "cnt + 1"] ws post same_conf_trans [OF same_conf_core [OF u]]
        show ?thesis by (auto elim!: wp_mono)
      qed
      moreover have "wp (markCacheSlotEmpty False j ?s)
          (\<lambda>_ u. core u = (core s)\<lparr>wlCache := ?ws[j := empty_slot], kern := k\<rparr>) (\<lambda>_ _. False)"
        using markCacheSlotEmpty_wp [of j ?s False] j by simp
      ultimately show ?thesis
        using None r True by (auto simp: Let_def elim!: wp_mono)
    qed
  qed
qed

lemma zap_slot_live: "live_slot (zap_slot pn w) \<longleftrightarrow> live_slot w \<and> \<not> path_below pn (path w)"
  by (auto simp: zap_slot_def)

lemma live_zap: "live (map (zap_slot pn) ws) = filter (\<lambda>w. \<not> path_below pn (path w)) (live ws)"
  by (induction ws) (auto simp: zap_slot_def)

lemma cache_ok_zap:
  assumes "cache_ok (us @ vs)"
  shows "cache_ok (map (zap_slot pn) us @ vs)"
proof -
  have "slot_ok w \<Longrightarrow> slot_ok (zap_slot pn w)" for w by (simp add: zap_slot_def)
  moreover have "distinct (map wd (live us @ live vs))"
    using assms by (simp add: cache_ok_def)
  then have "distinct (map wd (filter (\<lambda>w. \<not> path_below pn (path w)) (live us) @ live vs))"
    by (auto simp: distinct_map_filter)
  ultimately show ?thesis
    using assms by (auto simp: cache_ok_def list_all_iff live_zap)
qed

lemma cache_map_zap:
  assumes "cache_ok ws"
  shows "cache_map (map (zap_slot pn) ws) d = Some p \<longleftrightarrow> cache_map ws d = Some p \<and> \<not> path_below pn p"
proof -
  have z: "cache_ok (map (zap_slot pn) ws)" using cache_ok_zap [of ws "[]"] assms by simp
  have "\<lparr>wd = d, path = p\<rparr> \<in> set (map (zap_slot pn) ws) \<longleftrightarrow>
      \<lparr>wd = d, path = p\<rparr> \<in> set ws \<and> \<not> path_below pn p" if "0 \<le> d"
    using that by (auto simp: zap_slot_def image_iff split: if_splits)
  then show ?thesis
    using cache_map_Some_iff [OF assms] cache_map_Some_iff [OF z] by auto
qed

lemma zapSubtree_wp:
  assumes "cache_ok (wlCache s)"
  shows "wp (zapSubtree K fd pn s)
     (\<lambda>r t. same_conf s t \<and> cache_ok (wlCache t) \<and>
        (r = int (length (zapped pn (wlCache s))) \<and> wlCache t = map (zap_slot pn) (wlCache s) \<or> r = -1))
     (\<lambda>_ _. False)"
proof -
  let ?s = "logMessage VB_NOISY ''Zapping subtree: %s\<newline>'' [ArgS pn] s"
  have "cache_ok ws' \<and> (r = int (length (zapped pn (wlCache s))) \<and> ws' = map (zap_slot pn) (wlCache s) \<or> r = -1)"
    if "zap_post pn 0 0 (wlCache s) r ws'" for r ws'
    using that assms cache_ok_zap [of "wlCache s" "[]" pn] cache_ok_zap
    by (auto simp: zap_post_def)
  then show ?thesis
    using zap_loop_wp [of 0 "cacheSize s" ?s K fd pn 0]
    by (auto simp: zapSubtree_def Let_def same_conf_def elim!: wp_mono)
qed

section \<open>Rebuilding the cache\<close>

lemma watch_roots_grows:
  assumes "kernel_ok K" "cache_ok (wlCache s)"
  shows "wp (watch_roots K fd rs s) (\<lambda>_ t. grows s t) (\<lambda>r t. grow_stops s r)"
  using assms(2)
proof (induction rs arbitrary: s)
  case Nil
  then show ?case by (simp add: grows_refl)
next
  case (Cons r rs)
  show ?case
  proof (cases r)
    case None
    with Cons show ?thesis by simp
  next
    case (Some p)
    have "wp (watch_roots K fd rs t) (\<lambda>_ u. grows s u) (\<lambda>r u. grow_stops s r)"
      if t: "grows s t" for t
      using Cons.IH [of t] t grows_trans [OF t] conf_stops [of s t] by (auto simp: grows_def elim!: wp_mono)
    with Some watchSubtree_grows [OF assms(1) Cons.prems, of fd p] show ?thesis
      by (auto elim!: wp_mono)
  qed
qed

lemma reinitialize_wp:
  assumes "kernel_ok K"
  shows "wp (reinitialize K old s)
     (\<lambda>fd t. fd \<noteq> -1 \<and> cache_ok (wlCache t) \<and> same_conf s t) (\<lambda>r t. grow_stops s r)"
proof -
  have main: "wp (watch_roots K fd rs (freeCache u))
      (\<lambda>_ t. cache_ok (wlCache t) \<and> same_conf s t) (\<lambda>r t. grow_stops s r)"
    if "same_conf s u" for fd rs u
  proof -
    have "same_conf s (freeCache u)" using that by (simp add: freeCache_def)
    with watch_roots_grows [OF assms, of "freeCache u" fd rs] show ?thesis
      by (auto simp: freeCache_def grows_def conf_stops [OF that] elim!: wp_mono intro: same_conf_trans)
  qed
  show ?thesis
    unfolding reinitialize_def Let_def
    by (auto simp: errExit_def split: prod.splits intro!: main elim!: wp_mono)
qed

end
