(* ===== verification/Dtree_Events.thy ===== *)
theory Dtree_Events
  imports Dtree_Watch
begin

text \<open>
  Event processing in \<open>inotify_dtree.c\<close>: \<open>processNextInotifyEvent\<close>, one definition per
  branch, and the read loop \<open>processInotifyEvents\<close>.

  The buffer a \<open>read()\<close> fills is the list of the events in it, from the current one on,
  beside the number \<open>rem\<close> of bytes the loop believes remain (\<open>buf + numRead - evp\<close>). The two
  agree except after a secondary read interrupted by the alarm, where the code subtracts
  one from the count.
\<close>

definition INOTIFY_READ_BUF_LEN :: int where
  "INOTIFY_READ_BUF_LEN = 100 * (int sizeof_event + int NAME_MAX + 1)"

section \<open>One event\<close>

text \<open>A branch either returns from the function or goes on to its last lines.\<close>

datatype branch = Return int | Continue int

type_synonym 'k branch_outcome = "(int \<times> branch, 'k dtree) outcome"

text \<open>
  Rebuild everything and discard the rest of the buffer. (The same four lines occur
  at each place where the cache is found to be inconsistent.)
\<close>

definition reinit_and_discard :: "'k kernel \<Rightarrow> int \<Rightarrow> 'k dtree \<Rightarrow> 'k branch_outcome" where
  "reinit_and_discard K fd s =
     bnd (reinitialize K fd s) (\<lambda>fd s. Ret (fd, Return INOTIFY_READ_BUF_LEN) s)"

text \<open>\<open>evCacheSlot\<close> is not set when the event was not looked up; using it then is undefined.\<close>

definition with_slot :: "nat option \<Rightarrow> (nat \<Rightarrow> 'k dtree \<Rightarrow> ('a, 'k dtree) outcome) \<Rightarrow> 'k dtree
    \<Rightarrow> ('a, 'k dtree) outcome" where
  "with_slot slot f s =
     (case slot of None \<Rightarrow> Stop (Undefined ''evCacheSlot is uninitialised'') s | Some j \<Rightarrow> f j s)"

definition event_new_dir :: "'k kernel \<Rightarrow> int \<Rightarrow> inotify_event \<Rightarrow> nat \<Rightarrow> 'k dtree \<Rightarrow> 'k branch_outcome" where
  "event_new_dir K fd ev slot s =
     (let fullPath = snprintf_buf (PATH_MAX + NAME_MAX) (path (wlCache s ! slot) @ ''/'' @ ev_name ev);
          s = logMessage VB_BASIC ''Directory creation on wd %d: %s\<newline>'' [ArgI (ev_wd ev), ArgS fullPath] s
      in if \<not> pathnameInCache (wlCache s) fullPath
         then bnd (watchSubtree K fd fullPath s) (\<lambda>_ s. Ret (fd, Continue (ev_bytes ev)) s)
         else Ret (fd, Continue (ev_bytes ev)) s)"

definition event_delete_self :: "int \<Rightarrow> inotify_event \<Rightarrow> nat \<Rightarrow> 'k dtree \<Rightarrow> 'k branch_outcome" where
  "event_delete_self fd ev slot s =
     (let p = path (wlCache s ! slot);
          s = logMessage VB_BASIC ''Clearing watchlist item %d (%s)\<newline>'' [ArgI (ev_wd ev), ArgS p] s
      in bnd (if isRootDirPath p s then zapRootDirPath p s else Ret () s) (\<lambda>_ s.
         bnd (markCacheSlotEmpty False slot s) (\<lambda>_ s. Ret (fd, Continue (ev_bytes ev)) s)))"

definition event_rename :: "'k kernel \<Rightarrow> int \<Rightarrow> inotify_event \<Rightarrow> nat \<Rightarrow> inotify_event \<Rightarrow> 'k dtree
    \<Rightarrow> 'k branch_outcome" where
  "event_rename K fd ev slot nextEv s =
     bnd (findWatchChecked K (ev_wd nextEv) s) (\<lambda>nextSlot s.
       if nextSlot = -1 then reinit_and_discard K fd s
       else Ret (fd, Continue (ev_bytes ev + ev_bytes nextEv))
              (rewriteCachedPaths (path (wlCache s ! slot)) (ev_name ev)
                 (path (wlCache s ! nat nextSlot)) (ev_name nextEv) s))"

definition event_moved_out :: "'k kernel \<Rightarrow> int \<Rightarrow> inotify_event \<Rightarrow> nat \<Rightarrow> int \<Rightarrow> bool \<Rightarrow> 'k dtree
    \<Rightarrow> 'k branch_outcome" where
  "event_moved_out K fd ev slot bufSize firstTry s =
     (let s = logMessage VB_NOISY ''MOVED_OUT: %p %p\<newline>'' [ArgP, ArgP] s;
          s = logMessage VB_NOISY ''firstTry = %d; remaining bytes = %d\<newline>''
                [ArgI (if firstTry then 1 else 0), ArgI (bufSize - ev_bytes ev)] s;
          fullPath = snprintf_buf (PATH_MAX + NAME_MAX) (path (wlCache s ! slot) @ ''/'' @ ev_name ev)
      in bnd (zapSubtree K fd fullPath s) (\<lambda>r s.
           if r = -1 then reinit_and_discard K fd s else Ret (fd, Continue (ev_bytes ev)) s))"

definition event_moved_from :: "'k kernel \<Rightarrow> int \<Rightarrow> inotify_event \<Rightarrow> inotify_event option \<Rightarrow> int \<Rightarrow> bool
    \<Rightarrow> nat \<Rightarrow> 'k dtree \<Rightarrow> 'k branch_outcome" where
  "event_moved_from K fd ev next bufSize firstTry slot s =
     (if ev_bytes ev < bufSize then
        (case next of
           None \<Rightarrow> Stop (Undefined ''event read past the buffer'') s
         | Some nextEv \<Rightarrow>
             if has (ev_mask nextEv) IN_MOVED_TO \<and> ev_cookie nextEv = ev_cookie ev
             then event_rename K fd ev slot nextEv s
             else event_moved_out K fd ev slot bufSize firstTry s)
      else if \<not> firstTry then event_moved_out K fd ev slot bufSize firstTry s
      else Ret (fd, Return (-1)) (logMessage VB_NOISY ''HANGING IN_MOVED_FROM\<newline>'' [] s))"

definition event_overflow :: "'k kernel \<Rightarrow> int \<Rightarrow> 'k dtree \<Rightarrow> 'k branch_outcome" where
  "event_overflow K fd s0 =
     (let s = s0\<lparr>overflowCnt := overflowCnt s0 + 1\<rparr>;
          s = logMessage 0 ''Queue overflow (%d) (inotifyReadCnt = %d)\<newline>''
                [ArgI (overflowCnt s), ArgI (inotifyReadCnt s)] s
      in bnd (reinitialize K fd s) (\<lambda>fd s. Ret (fd, Continue INOTIFY_READ_BUF_LEN) s))"

definition event_unmount :: "int \<Rightarrow> inotify_event \<Rightarrow> nat \<Rightarrow> 'k dtree \<Rightarrow> 'k branch_outcome" where
  "event_unmount fd ev slot s =
     (let s = logMessage 0 ''Filesystem unmounted: %s\<newline>'' [ArgS (path (wlCache s ! slot))] s
      in bnd (markCacheSlotEmpty False slot s) (\<lambda>_ s. Ret (fd, Continue (ev_bytes ev)) s))"

definition event_move_self :: "'k kernel \<Rightarrow> int \<Rightarrow> inotify_event \<Rightarrow> nat \<Rightarrow> 'k dtree \<Rightarrow> 'k branch_outcome" where
  "event_move_self K fd ev slot s =
     (let p = path (wlCache s ! slot) in
      if isRootDirPath p s then
        let s = logMessage 0 ''Root path moved: %s\<newline>'' [ArgS p] s in
        bnd (zapRootDirPath p s) (\<lambda>_ s.
          bnd (zapSubtree K fd (path (wlCache s ! slot)) s) (\<lambda>r s.
            if r = -1 then reinit_and_discard K fd s else Ret (fd, Continue (ev_bytes ev)) s))
      else Ret (fd, Continue (ev_bytes ev)) s)"

text \<open>The chain of tests on the event mask, in the order of the source.\<close>

definition event_branch :: "'k kernel \<Rightarrow> int \<Rightarrow> inotify_event \<Rightarrow> inotify_event option \<Rightarrow> int \<Rightarrow> bool
    \<Rightarrow> nat option \<Rightarrow> 'k dtree \<Rightarrow> 'k branch_outcome" where
  "event_branch K fd ev next bufSize firstTry slot s =
     (let m = ev_mask ev in
      if has m IN_ISDIR \<and> has m (IN_CREATE OR IN_MOVED_TO)
      then with_slot slot (event_new_dir K fd ev) s
      else if has m IN_DELETE_SELF then with_slot slot (event_delete_self fd ev) s
      else if m AND (IN_MOVED_FROM OR IN_ISDIR) = IN_MOVED_FROM OR IN_ISDIR
      then with_slot slot (event_moved_from K fd ev next bufSize firstTry) s
      else if has m IN_Q_OVERFLOW then event_overflow K fd s
      else if has m IN_UNMOUNT then with_slot slot (event_unmount fd ev) s
      else if has m IN_MOVE_SELF then with_slot slot (event_move_self K fd ev) s
      else Ret (fd, Continue (ev_bytes ev)) s)"

definition event_lookup :: "'k kernel \<Rightarrow> inotify_event \<Rightarrow> 'k dtree \<Rightarrow> (int option, 'k dtree) outcome" where
  "event_lookup K ev s =
     (if ev_wd ev \<noteq> -1 \<and> \<not> has (ev_mask ev) IN_IGNORED
      then bnd (findWatchChecked K (ev_wd ev) s) (\<lambda>j s. Ret (Some j) s)
      else Ret None s)"

definition event_checks :: "'k kernel \<Rightarrow> 'k dtree \<Rightarrow> (unit, 'k dtree) outcome" where
  "event_checks K s =
     bnd (if checkCache s then checkCacheConsistency K s else Ret () s) (\<lambda>_ s.
       if dumpCache s then dumpCacheToLog s else Ret () s)"

definition processNextInotifyEvent :: "'k kernel \<Rightarrow> int \<Rightarrow> inotify_event \<Rightarrow> inotify_event option \<Rightarrow> int
    \<Rightarrow> bool \<Rightarrow> 'k dtree \<Rightarrow> (int \<times> int, 'k dtree) outcome" where
  "processNextInotifyEvent K fd ev next bufSize firstTry s =
     bnd (event_lookup K ev (displayInotifyEvent ev s)) (\<lambda>j s.
       bnd (if j = Some (-1) then reinit_and_discard K fd s
            else event_branch K fd ev next bufSize firstTry (map_option nat j) s)
         (\<lambda>(fd, r) s.
            case r of
              Return n \<Rightarrow> Ret (fd, n) s
            | Continue n \<Rightarrow> bnd (event_checks K s) (\<lambda>_ s. Ret (fd, n) s)))"

section \<open>The read loop\<close>

definition buf_bytes :: "inotify_event list \<Rightarrow> int" where
  "buf_bytes evs = sum_list (map ev_bytes evs)"

text \<open>Advance \<open>evp\<close> by \<open>n\<close> bytes.\<close>

fun drop_bytes :: "int \<Rightarrow> inotify_event list \<Rightarrow> inotify_event list" where
  "drop_bytes n [] = []"
| "drop_bytes n (e # es) = (if n \<le> 0 then e # es else drop_bytes (n - ev_bytes e) es)"

definition next_event :: "inotify_event list \<Rightarrow> inotify_event option" where
  "next_event es = (case es of [] \<Rightarrow> None | e # _ \<Rightarrow> Some e)"

text \<open>
  The loop over the events of the buffer. It goes on reading as long as the buffer ends in a
  moved-from event and the kernel delivers more, so it is fuelled: \<open>None\<close> means that the
  fuel ran out. After a secondary read the code tests \<open>errno != -1\<close>, which always holds, so
  an interrupted read also adds \<open>nr\<close> (-1) to the count.
\<close>

fun event_loop :: "nat \<Rightarrow> 'k kernel \<Rightarrow> int \<Rightarrow> inotify_event list \<Rightarrow> int \<Rightarrow> bool \<Rightarrow> 'k dtree
    \<Rightarrow> (int, 'k dtree) outcome option" where
  "event_loop 0 K fd evs rem firstTry s = None"
| "event_loop (Suc n) K fd evs rem firstTry s =
     (if rem \<le> 0 then Some (Ret fd s)
      else case evs of
        [] \<Rightarrow> Some (Stop (Undefined ''event read past the buffer'') s)
      | ev # rest \<Rightarrow>
          (case processNextInotifyEvent K fd ev (next_event rest) rem firstTry s of
             Stop r s \<Rightarrow> Some (Stop r s)
           | Ret (fd, evLen) s \<Rightarrow>
               if evLen > 0 then event_loop n K fd (drop_bytes evLen evs) (rem - evLen) True s
               else case sys_read K fd (nat (INOTIFY_READ_BUF_LEN - rem)) (kern s) of (r, k) \<Rightarrow>
                 (case r of
                    Inl e \<Rightarrow>
                      if e \<noteq> EINTR then Some (errExit ''read'' (s\<lparr>kern := k\<rparr>))
                      else event_loop n K fd evs (rem - 1) False
                             (logMessage VB_NOISY ''\<newline>==========> SECONDARY Read %d: got %zd bytes\<newline>''
                                [ArgI (inotifyReadCnt s + 1), ArgI (-1)]
                                (s\<lparr>kern := k, inotifyReadCnt := inotifyReadCnt s + 1\<rparr>))
                  | Inr new \<Rightarrow>
                      if new = [] then Some (Stop (Exit 1)
                          (fprintf_stderr ''read() from inotify fd returned 0!'' [] (s\<lparr>kern := k\<rparr>)))
                      else event_loop n K fd (evs @ new) (rem + buf_bytes new) False
                             (logMessage VB_NOISY ''\<newline>==========> SECONDARY Read %d: got %zd bytes\<newline>''
                                [ArgI (inotifyReadCnt s + 1), ArgI (buf_bytes new)]
                                (s\<lparr>kern := k, inotifyReadCnt := inotifyReadCnt s + 1\<rparr>)))))"

definition processInotifyEvents :: "nat \<Rightarrow> 'k kernel \<Rightarrow> int \<Rightarrow> 'k dtree \<Rightarrow> (int, 'k dtree) outcome option" where
  "processInotifyEvents fuel K fd s =
     (case sys_sigaction K (kern s) of (ok, k) \<Rightarrow>
        if \<not> ok then Some (errExit ''sigaction'' (s\<lparr>kern := k\<rparr>))
        else
          let cnt = (if readBufferSize s > 0 then readBufferSize s else INOTIFY_READ_BUF_LEN)
          in case sys_read K fd (nat cnt) k of (r, k) \<Rightarrow>
            (case r of
               Inl e \<Rightarrow> Some (errExit ''read'' (s\<lparr>kern := k\<rparr>))
             | Inr evs \<Rightarrow>
                 if evs = [] then Some (Stop (Exit 1)
                      (fprintf_stderr ''read() from inotify fd returned 0!'' [] (s\<lparr>kern := k\<rparr>)))
                 else if buf_bytes evs > INOTIFY_READ_BUF_LEN
                 then Some (Stop (Undefined ''read past the end of buf'') (s\<lparr>kern := k\<rparr>))
                 else event_loop fuel K fd evs (buf_bytes evs) True
                        (logMessage VB_NOISY ''\<newline>==========> Read %d: got %zd bytes\<newline>''
                           [ArgI (inotifyReadCnt s + 1), ArgI (buf_bytes evs)]
                           (s\<lparr>kern := k, inotifyReadCnt := inotifyReadCnt s + 1\<rparr>))))"

section \<open>The invariant of the program state\<close>

definition dt_ok :: "'k dtree \<Rightarrow> bool" where
  "dt_ok s \<longleftrightarrow> cache_ok (wlCache s) \<and> roots_ok s"

definition same_opts :: "'k dtree \<Rightarrow> 'k dtree \<Rightarrow> bool" where
  "same_opts s t \<longleftrightarrow> checkCache t = checkCache s \<and> dumpCache t = dumpCache s
     \<and> abortOnCacheProblem t = abortOnCacheProblem s \<and> logfp t = logfp s \<and> verboseMask t = verboseMask s
     \<and> readBufferSize t = readBufferSize s"

text \<open>
  Options under which the program has no undefined behaviour of its own, apart from the messages about
  uninitialised slots: the faulty consistency check is off, and what needs the log file has one.
\<close>

definition safe_opts :: "'k dtree \<Rightarrow> bool" where
  "safe_opts s \<longleftrightarrow> \<not> checkCache s \<and> (dumpCache s \<longrightarrow> logfp s) \<and> (abortOnCacheProblem s \<longrightarrow> logfp s)"

fun benign :: "stop \<Rightarrow> bool" where
  "benign (Undefined w) = False"
| "benign r = True"

definition stop_ok :: "'k dtree \<Rightarrow> stop \<Rightarrow> bool" where
  "stop_ok s r \<longleftrightarrow> (safe_opts s \<longrightarrow> benign r \<or> logs_noisy s \<and> r = fresh_memory)"

lemma stop_ok_simps [simp]: "stop_ok s (Exit n)" "stop_ok s Abort" "\<not> safe_opts s \<Longrightarrow> stop_ok s (Undefined w)"
  by (simp_all add: stop_ok_def)

definition good :: "'k dtree \<Rightarrow> 'k dtree \<Rightarrow> bool" where
  "good s t \<longleftrightarrow> dt_ok t \<and> same_opts s t"

lemma good_refl: "dt_ok s \<Longrightarrow> good s s"
  by (simp add: good_def same_opts_def)

lemma good_trans [trans]: "good s t \<Longrightarrow> good t u \<Longrightarrow> good s u"
  by (simp add: good_def same_opts_def)

lemma good_safe: "good s t \<Longrightarrow> safe_opts t = safe_opts s"
  by (simp add: good_def same_opts_def safe_opts_def)

lemma good_noisy: "good s t \<Longrightarrow> logs_noisy t = logs_noisy s"
  by (simp add: good_def same_opts_def logs_noisy_def)

lemma good_stops: "good s t \<Longrightarrow> grow_stops t r \<Longrightarrow> stop_ok s r"
  using good_noisy [of s t] by (auto simp: grow_stops_def stop_ok_def)

lemma good_conf: "dt_ok s \<Longrightarrow> same_conf s t \<Longrightarrow> cache_ok (wlCache t) \<Longrightarrow> good s t"
  by (simp add: good_def dt_ok_def same_opts_def same_conf_def roots_ok_def)

lemma good_grows: "dt_ok s \<Longrightarrow> grows s t \<Longrightarrow> good s t"
  by (simp add: grows_def good_conf)

lemma dt_ok_set [simp]:
  "dt_ok (logMessage m f as s) = dt_ok s" "dt_ok (displayInotifyEvent ev s) = dt_ok s"
  "dt_ok (s\<lparr>kern := k\<rparr>) = dt_ok s" "dt_ok (s\<lparr>overflowCnt := n\<rparr>) = dt_ok s"
  "dt_ok (s\<lparr>inotifyReadCnt := n\<rparr>) = dt_ok s"
  by (simp_all add: dt_ok_def roots_ok_def)

lemma good_set [simp]:
  "good (logMessage m f as s) t = good s t" "good (displayInotifyEvent ev s) t = good s t"
  "good (s\<lparr>kern := k\<rparr>) t = good s t" "good (s\<lparr>overflowCnt := n\<rparr>) t = good s t"
  "good (s\<lparr>inotifyReadCnt := n\<rparr>) t = good s t"
  "good s (logMessage m f as t) = good s t" "good s (displayInotifyEvent ev t) = good s t"
  "good s (s'\<lparr>inotifyReadCnt := n\<rparr>) = good s s'" "good s (s'\<lparr>kern := k\<rparr>) = good s s'"
  by (simp_all add: good_def same_opts_def)

lemma good_core: "dt_ok s \<Longrightarrow> core t = core s \<Longrightarrow> good s t"
  by (cases s; cases t) (simp add: core_def good_def dt_ok_def same_opts_def roots_ok_def)

lemma isRootDirPath_log [simp]: "isRootDirPath p (logMessage m f as s) = isRootDirPath p s"
  by (simp add: isRootDirPath_def)

section \<open>What one event does to the state\<close>

text \<open>The results the branches may give: how far the read loop moves.\<close>

definition advance_ok :: "inotify_event \<Rightarrow> inotify_event option \<Rightarrow> int \<Rightarrow> bool \<Rightarrow> int \<Rightarrow> bool" where
  "advance_ok ev next bufSize firstTry n \<longleftrightarrow>
     n = -1 \<and> firstTry \<and> bufSize \<le> ev_bytes ev \<or> n = INOTIFY_READ_BUF_LEN \<or> n = ev_bytes ev \<or>
     (\<exists>e. next = Some e \<and> ev_bytes ev < bufSize \<and> n = ev_bytes ev + ev_bytes e)"

fun amount :: "branch \<Rightarrow> int" where
  "amount (Return n) = n"
| "amount (Continue n) = n"

definition branch_ok :: "'k dtree \<Rightarrow> inotify_event \<Rightarrow> inotify_event option \<Rightarrow> int \<Rightarrow> bool
    \<Rightarrow> int \<times> branch \<Rightarrow> 'k dtree \<Rightarrow> bool" where
  "branch_ok s ev next bufSize firstTry x t \<longleftrightarrow>
     good s t \<and> advance_ok ev next bufSize firstTry (amount (snd x))"

lemma goodD: "good s t \<Longrightarrow> dt_ok t" "good s t \<Longrightarrow> cache_ok (wlCache t)" "good s t \<Longrightarrow> roots_ok t"
  by (simp_all add: good_def dt_ok_def)

lemma reinitialize_good:
  assumes "kernel_ok K" "good s u"
  shows "wp (reinitialize K fd u) (\<lambda>_ t. good s t) (\<lambda>r _. stop_ok s r)"
  using reinitialize_wp [OF assms(1), of fd u]
  by (rule wp_mono) (auto intro: good_trans [OF assms(2)] good_conf [OF goodD(1) [OF assms(2)]] good_stops [OF assms(2)])

lemma watchSubtree_good:
  assumes "kernel_ok K" "good s u"
  shows "wp (watchSubtree K fd p u) (\<lambda>_ t. good s t) (\<lambda>r _. stop_ok s r)"
  using watchSubtree_grows [OF assms(1) goodD(2) [OF assms(2)], of fd p]
  by (rule wp_mono) (auto intro: good_trans [OF assms(2)] good_grows [OF goodD(1) [OF assms(2)]] good_stops [OF assms(2)])

lemma zapSubtree_good:
  assumes "good s u"
  shows "wp (zapSubtree K fd p u) (\<lambda>_ t. good s t) (\<lambda>r _. stop_ok s r)"
  using zapSubtree_wp [OF goodD(2) [OF assms], of K fd p]
  by (rule wp_mono) (auto intro: good_trans [OF assms] good_conf [OF goodD(1) [OF assms]])

lemma findWatchChecked_good:
  assumes "good s u"
  shows "wp (findWatchChecked K d u) (\<lambda>r t. good s t \<and> r = findWatch (wlCache u) d \<and> wlCache t = wlCache u)
           (\<lambda>r _. stop_ok s r)"
  using findWatchChecked_wp [of K d u]
  by (rule wp_mono)
    (use assms good_safe [OF assms(1)] in \<open>auto simp: stop_ok_def safe_opts_def dest: core_eqD(8)
      intro: good_trans [OF assms(1)] good_core [OF goodD(1) [OF assms(1)]]\<close>)

lemma markCacheSlotEmpty_good:
  assumes "good s u" "slot < cacheSize u"
  shows "wp (markCacheSlotEmpty False slot u)
    (\<lambda>_ t. good s t \<and> wlCache t = (wlCache u)[slot := empty_slot]) (\<lambda>r _. stop_ok s r)"
proof (rule wp_mono [OF markCacheSlotEmpty_wp [OF assms(2)]])
  fix a t
  assume t: "core t = (core u)\<lparr>wlCache := (wlCache u)[slot := empty_slot]\<rparr>"
  then have "same_conf u t"
    by (rule same_conf_core_slots)
  then show "good s t \<and> wlCache t = (wlCache u)[slot := empty_slot]"
    using core_fieldD(1) [OF t] cache_ok_clear [OF goodD(2) [OF assms(1)] assms(2)]
      good_trans [OF assms(1)] good_conf [OF goodD(1) [OF assms(1)]] by auto
qed simp

lemma zapRootDirPath_good:
  assumes "good s u" "isRootDirPath p u"
  shows "wp (zapRootDirPath p u) (\<lambda>_ t. good s t \<and> wlCache t = wlCache u) (\<lambda>r _. stop_ok s r)"
proof -
  have "wp (zapRootDirPath p u) (\<lambda>_ t. same_opts u t) (\<lambda>_ _. True)"
    by (simp add: zapRootDirPath_def Let_def same_opts_def split: option.splits)
  from wp_conj [OF zapRootDirPath_wp [OF goodD(3) [OF assms(1)] assms(2)] this] show ?thesis
    by (rule wp_mono) (use assms(1) in \<open>auto simp: good_def dt_ok_def same_opts_def\<close>)
qed

lemma rewriteCachedPaths_good:
  assumes "good s u" "cstring op" "cstring on" "cstring np" "cstring nn"
  shows "good s (rewriteCachedPaths op on np nn u)"
proof -
  let ?full = "snprintf_buf PATH_MAX (op @ ''/'' @ on)" and ?new = "snprintf_buf PATH_MAX (np @ ''/'' @ nn)"
  let ?t = "rewriteCachedPaths op on np nn u"
  have c: "core ?t = (core u)\<lparr>wlCache := map (rewrite_slot ?full ?new) (wlCache u)\<rparr>"
    by (rule rewriteCachedPaths_core)
  have "cache_ok (map (rewrite_slot ?full ?new) (wlCache u))"
    using assms by (intro cache_ok_rewrite goodD(2)) (auto simp: snprintf_buf_def PATH_MAX_def)
  moreover have "same_conf u ?t"
    using c by (rule same_conf_core_slots)
  ultimately show ?thesis
    using core_fieldD(1) [OF c] good_trans [OF assms(1)] good_conf [OF goodD(1) [OF assms(1)]] by auto
qed

lemmas good_rules = reinitialize_good watchSubtree_good zapSubtree_good findWatchChecked_good
  markCacheSlotEmpty_good zapRootDirPath_good

text \<open>
  Each branch, from a good state and a slot that holds the watch of the event, ends in a
  good state and tells the read loop to move by a proper amount; none is undefined.
\<close>

lemma reinit_and_discard_ok:
  assumes "kernel_ok K" "good s u"
  shows "wp (reinit_and_discard K fd u) (branch_ok s ev next bufSize firstTry) (\<lambda>r _. stop_ok s r)"
  unfolding reinit_and_discard_def wp_bnd
  by (rule wp_mono [OF reinitialize_good [OF assms]]) (auto simp: branch_ok_def advance_ok_def)

lemma event_overflow_ok:
  assumes "kernel_ok K" "good s u"
  shows "wp (event_overflow K fd u) (branch_ok s ev next bufSize firstTry) (\<lambda>r _. stop_ok s r)"
  unfolding event_overflow_def Let_def wp_bnd
  by (rule wp_mono [OF reinitialize_good [OF assms(1)]])
    (use assms(2) in \<open>auto simp: branch_ok_def advance_ok_def good_def same_opts_def\<close>)

lemma event_new_dir_ok:
  assumes "kernel_ok K" "good s u"
  shows "wp (event_new_dir K fd ev slot u) (branch_ok s ev next bufSize firstTry) (\<lambda>r _. stop_ok s r)"
  using assms unfolding event_new_dir_def Let_def wp_if wp_bnd
  by (auto simp: branch_ok_def advance_ok_def intro!: watchSubtree_good)

lemma event_unmount_ok:
  assumes "good s u" "slot < cacheSize u"
  shows "wp (event_unmount fd ev slot u) (branch_ok s ev next bufSize firstTry) (\<lambda>r _. stop_ok s r)"
  unfolding event_unmount_def Let_def wp_bnd
  by (rule wp_mono [OF markCacheSlotEmpty_good [of s]])
    (use assms in \<open>auto simp: branch_ok_def advance_ok_def\<close>)

lemma event_delete_self_ok:
  assumes "good s u" "slot < cacheSize u"
  shows "wp (event_delete_self fd ev slot u) (branch_ok s ev next bufSize firstTry) (\<lambda>r _. stop_ok s r)"
proof -
  have "wp (markCacheSlotEmpty False slot t) (\<lambda>_ t. branch_ok s ev next bufSize firstTry (fd, Continue (ev_bytes ev)) t)
      (\<lambda>r _. stop_ok s r)" if "good s t" "wlCache t = wlCache u" for t
    by (rule wp_mono [OF markCacheSlotEmpty_good [OF that(1)]])
      (use that assms(2) in \<open>auto simp: branch_ok_def advance_ok_def\<close>)
  then show ?thesis
    using assms(1) unfolding event_delete_self_def Let_def wp_bnd wp_if
    by (auto intro!: wp_mono [OF zapRootDirPath_good [of s]])
qed

lemma event_moved_out_ok:
  assumes "kernel_ok K" "good s u"
  shows "wp (event_moved_out K fd ev slot bufSize firstTry u)
      (branch_ok s ev next bufSize' firstTry') (\<lambda>r _. stop_ok s r)"
  unfolding event_moved_out_def Let_def wp_bnd wp_if
  by (rule wp_mono [OF zapSubtree_good [of s]])
    (use assms in \<open>auto simp: branch_ok_def advance_ok_def intro!: reinit_and_discard_ok\<close>)

lemma event_move_self_ok:
  assumes "kernel_ok K" "good s u"
  shows "wp (event_move_self K fd ev slot u) (branch_ok s ev next bufSize firstTry) (\<lambda>r _. stop_ok s r)"
  using assms unfolding event_move_self_def Let_def wp_bnd wp_if
  by (auto simp: branch_ok_def advance_ok_def intro!: reinit_and_discard_ok
      wp_mono [OF zapRootDirPath_good [of s]] wp_mono [OF zapSubtree_good [of s]])

lemma slot_path_cstring: "good s u \<Longrightarrow> slot < cacheSize u \<Longrightarrow> cstring (path (wlCache u ! slot))"
  using goodD(2) [of s u] cache_okD(1) [of "wlCache u" "wlCache u ! slot"]
  by (auto simp: slot_ok_def path_ok_def)

lemma event_rename_ok:
  assumes "kernel_ok K" "good s u" "slot < cacheSize u"
    and "cstring (ev_name ev)" "cstring (ev_name e)" "ev_bytes ev < bufSize"
  shows "wp (event_rename K fd ev slot e u) (branch_ok s ev (Some e) bufSize firstTry) (\<lambda>r _. stop_ok s r)"
  unfolding event_rename_def wp_bnd wp_if
proof (rule wp_mono [OF findWatchChecked_good [OF assms(2), of K "ev_wd e"]])
  fix j t
  assume t: "good s t \<and> j = findWatch (wlCache u) (ev_wd e) \<and> wlCache t = wlCache u"
  have slot': "nat j < cacheSize t" if "j \<noteq> -1"
  proof -
    have "0 \<le> findWatch (wlCache u) (ev_wd e)"
      using that t find_slot_neg_eq [of "\<lambda>w. wd w = ev_wd e" "wlCache u" 0]
      by (auto simp: findWatch_def not_less [symmetric])
    then show ?thesis using t by (auto elim: findWatch_found)
  qed
  show "if j = -1 then wp (reinit_and_discard K fd t) (branch_ok s ev (Some e) bufSize firstTry) (\<lambda>r _. stop_ok s r)
    else wp (Ret (fd, Continue (ev_bytes ev + ev_bytes e))
         (rewriteCachedPaths (path (wlCache t ! slot)) (ev_name ev) (path (wlCache t ! nat j)) (ev_name e) t))
       (branch_ok s ev (Some e) bufSize firstTry) (\<lambda>r _. stop_ok s r)"
    using t assms slot' slot_path_cstring [of s t]
    by (auto simp: branch_ok_def advance_ok_def intro!: reinit_and_discard_ok rewriteCachedPaths_good)
qed

lemma event_moved_from_ok:
  assumes "kernel_ok K" "good s u" "slot < cacheSize u"
    and "cstring (ev_name ev)" "\<forall>e. next = Some e \<longrightarrow> cstring (ev_name e)"
    and "ev_bytes ev < bufSize \<longrightarrow> next \<noteq> None"
  shows "wp (event_moved_from K fd ev next bufSize firstTry slot u)
     (branch_ok s ev next bufSize firstTry) (\<lambda>r _. stop_ok s r)"
  unfolding event_moved_from_def
  using assms
  by (auto simp: branch_ok_def advance_ok_def not_less split: option.splits
      intro!: event_rename_ok event_moved_out_ok)

text \<open>
  What the kernel promises of an event: the overflow event is the only one without a
  watch, an \<open>IN_IGNORED\<close> event carries no other flag, and names are C strings.
\<close>

definition event_wf :: "inotify_event \<Rightarrow> bool" where
  "event_wf ev \<longleftrightarrow> cstring (ev_name ev) \<and> (ev_wd ev = -1 \<longrightarrow> ev_mask ev = IN_Q_OVERFLOW)
     \<and> (has (ev_mask ev) IN_IGNORED \<longrightarrow> ev_mask ev = IN_IGNORED)"

lemma event_branch_ok:
  assumes "kernel_ok K" "good s u" "event_wf ev"
    and "\<forall>e. next = Some e \<longrightarrow> event_wf e" "ev_bytes ev < bufSize \<longrightarrow> next \<noteq> None"
    and slot: "case slot of None \<Rightarrow> ev_mask ev = IN_Q_OVERFLOW \<or> ev_mask ev = IN_IGNORED
                | Some j \<Rightarrow> j < cacheSize u"
  shows "wp (event_branch K fd ev next bufSize firstTry slot u)
     (branch_ok s ev next bufSize firstTry) (\<lambda>r _. stop_ok s r)"
proof (cases slot)
  case None
  with slot have "ev_mask ev = IN_Q_OVERFLOW \<or> ev_mask ev = IN_IGNORED" by simp
  then show ?thesis
  proof
    assume "ev_mask ev = IN_Q_OVERFLOW"
    then have "event_branch K fd ev next bufSize firstTry slot u = event_overflow K fd u"
      by (simp add: event_branch_def has_def in_flags)
    with event_overflow_ok [OF assms(1,2)] show ?thesis by simp
  next
    assume "ev_mask ev = IN_IGNORED"
    then have "event_branch K fd ev next bufSize firstTry slot u = Ret (fd, Continue (ev_bytes ev)) u"
      by (simp add: event_branch_def has_def in_flags)
    with assms(2) show ?thesis by (simp add: branch_ok_def advance_ok_def)
  qed
next
  case (Some j)
  with slot have j: "j < cacheSize u" by simp
  have names: "cstring (ev_name ev)" "\<forall>e. next = Some e \<longrightarrow> cstring (ev_name e)"
    using assms(3,4) by (auto simp: event_wf_def)
  note branches = event_new_dir_ok [OF assms(1,2)] event_delete_self_ok [OF assms(2) j]
    event_moved_from_ok [OF assms(1,2) j names assms(5)] event_overflow_ok [OF assms(1,2)]
    event_unmount_ok [OF assms(2) j] event_move_self_ok [OF assms(1,2)]
  have rest: "branch_ok s ev next bufSize firstTry (fd, Continue (ev_bytes ev)) u"
    using assms(2) by (simp add: branch_ok_def advance_ok_def)
  show ?thesis
    unfolding event_branch_def Let_def with_slot_def Some option.case wp_if
    using branches rest by simp
qed

section \<open>One event as a whole\<close>

lemma core_dump_loop [simp]: "core (snd (dump_loop ws j cnt s)) = core s"
  by (induction ws arbitrary: j cnt s) auto

lemma check_loop_good:
  "good s u \<Longrightarrow> wp (check_loop K ws j sb n u) (\<lambda>_ t. good s t) (\<lambda>_ _. True)"
  by (induction K ws j sb n u rule: check_loop.induct) (auto split: prod.splits sum.splits option.splits)

lemma checkCacheConsistency_good:
  "good s u \<Longrightarrow> wp (checkCacheConsistency K u) (\<lambda>_ t. good s t) (\<lambda>_ _. True)"
  unfolding checkCacheConsistency_def wp_bnd
  by (rule wp_mono [OF check_loop_good]) auto

lemma dumpCacheToLog_good:
  assumes "good s u" "dumpCache u"
  shows "wp (dumpCacheToLog u) (\<lambda>_ t. good s t) (\<lambda>r _. stop_ok s r)"
proof -
  have "good s t" if "core t = core u" for t
    using that good_trans [OF assms(1)] good_core [OF goodD(1) [OF assms(1)]] by blast
  then show ?thesis
    using assms good_safe [OF assms(1)] by (auto simp: dumpCacheToLog_def case_prod_beta safe_opts_def stop_ok_def)
qed

lemma event_checks_good:
  assumes "good s u"
  shows "wp (event_checks K u) (\<lambda>_ t. good s t) (\<lambda>r _. stop_ok s r)"
proof -
  have "stop_ok s r" if "checkCache u" for r
    using that good_safe [OF assms] by (auto simp: stop_ok_def safe_opts_def)
  then show ?thesis
    using assms unfolding event_checks_def wp_bnd wp_if
    by (auto intro!: wp_mono [OF checkCacheConsistency_good [of s]] wp_mono [OF dumpCacheToLog_good [of s]])
qed

lemma event_lookup_good:
  assumes "good s u"
  shows "wp (event_lookup K ev u)
     (\<lambda>j t. good s t \<and> wlCache t = wlCache u \<and>
        j = (if ev_wd ev \<noteq> -1 \<and> \<not> has (ev_mask ev) IN_IGNORED
             then Some (findWatch (wlCache u) (ev_wd ev)) else None))
     (\<lambda>r _. stop_ok s r)"
  using findWatchChecked_good [OF assms, of K "ev_wd ev"] assms(1)
  by (auto simp: event_lookup_def elim!: wp_mono)

lemma findWatch_cases:
  obtains "findWatch ws d = -1" | i where "i < length ws" "findWatch ws d = int i" "wd (ws ! i) = d"
proof (cases "0 \<le> findWatch ws d")
  case True
  with that(2) show ?thesis by (auto elim: findWatch_found)
next
  case False
  with that(1) show ?thesis
    using find_slot_neg_eq [of "\<lambda>w. wd w = d" ws 0] by (simp add: findWatch_def)
qed

lemma processNextInotifyEvent_ok:
  assumes "kernel_ok K" "good s u" "event_wf ev"
    and "\<forall>e. next = Some e \<longrightarrow> event_wf e" "ev_bytes ev < bufSize \<longrightarrow> next \<noteq> None"
  shows "wp (processNextInotifyEvent K fd ev next bufSize firstTry u)
     (\<lambda>x t. good s t \<and> advance_ok ev next bufSize firstTry (snd x)) (\<lambda>r _. stop_ok s r)"
proof -
  have u: "good s (displayInotifyEvent ev u)" using assms(2) by simp
  have tail: "wp ((\<lambda>(fd, r) s. case r of Return n \<Rightarrow> Ret (fd, n) s
        | Continue n \<Rightarrow> bnd (event_checks K s) (\<lambda>_ s. Ret (fd, n) s)) x t)
      (\<lambda>x t. good s t \<and> advance_ok ev next bufSize firstTry (snd x)) (\<lambda>r _. stop_ok s r)"
    if "branch_ok s ev next bufSize firstTry x t" for x t
    using that event_checks_good [of s t K]
    by (auto simp: branch_ok_def split: prod.splits branch.splits elim!: wp_mono)
  have slot: "case map_option nat j of None \<Rightarrow> ev_mask ev = IN_Q_OVERFLOW \<or> ev_mask ev = IN_IGNORED
       | Some i \<Rightarrow> i < cacheSize t"
    if "j \<noteq> Some (-1)" "wlCache t = wlCache u"
      "j = (if ev_wd ev \<noteq> -1 \<and> \<not> has (ev_mask ev) IN_IGNORED
             then Some (findWatch (wlCache u) (ev_wd ev)) else None)" for j and t :: "'a dtree"
    using that assms(3) by (cases rule: findWatch_cases [of "wlCache u" "ev_wd ev"])
      (auto simp: event_wf_def split: if_splits)
  show ?thesis
    unfolding processNextInotifyEvent_def wp_bnd
  proof (rule wp_mono [OF event_lookup_good [OF u, of K ev]], goal_cases)
    case (1 j t)
    then have t: "good s t" "wlCache t = wlCache u" by auto
    have "wp (if j = Some (-1) then reinit_and_discard K fd t
            else event_branch K fd ev next bufSize firstTry (map_option nat j) t)
        (branch_ok s ev next bufSize firstTry) (\<lambda>r _. stop_ok s r)"
      using 1 slot [of j t] t
      by (auto intro!: reinit_and_discard_ok event_branch_ok assms)
    then show ?case by (rule wp_mono) (erule tail | assumption)+
  qed simp
qed

section \<open>The read loop keeps the invariant and stays inside its buffer\<close>

lemma ev_bytes_pos [simp]: "0 < ev_bytes e" "\<not> ev_bytes e \<le> 0" "ev_bytes e \<noteq> 0"
  by (simp_all add: ev_bytes_def sizeof_event_def)

lemma buf_bytes_simps [simp]:
  "buf_bytes [] = 0" "buf_bytes (e # es) = ev_bytes e + buf_bytes es"
  "buf_bytes (es @ fs) = buf_bytes es + buf_bytes fs"
  by (simp_all add: buf_bytes_def)

lemma buf_bytes_nonneg [simp]: "0 \<le> buf_bytes es"
  by (induction es) (auto intro: add_nonneg_nonneg less_imp_le [OF ev_bytes_pos(1)])

lemma buf_bytes_zero [simp]: "buf_bytes es = 0 \<longleftrightarrow> es = []"
  using add_pos_nonneg [OF ev_bytes_pos(1) buf_bytes_nonneg]
  by (cases es) (auto simp: less_imp_neq [symmetric])

lemma ev_bytes_tail: "ev_bytes e + b \<le> c \<Longrightarrow> b \<le> c"
  using ev_bytes_pos(1) [of e] by linarith

lemma drop_bytes_0 [simp]: "drop_bytes 0 es = es"
  by (cases es) auto

lemma length_drop_bytes: "length (drop_bytes n es) \<le> length es"
  by (induction n es rule: drop_bytes.induct) auto

text \<open>What \<open>read()\<close> guarantees: whole events, no more bytes than asked for.\<close>

definition read_ok :: "'k kernel \<Rightarrow> bool" where
  "read_ok K \<longleftrightarrow> (\<forall>fd n k evs k'. sys_read K fd n k = (Inr evs, k') \<longrightarrow>
     buf_bytes evs \<le> int n \<and> (\<forall>e \<in> set evs. event_wf e))"

lemma read_okD:
  "read_ok K \<Longrightarrow> sys_read K fd n k = (Inr evs, k') \<Longrightarrow> buf_bytes evs \<le> int n"
  "read_ok K \<Longrightarrow> sys_read K fd n k = (Inr evs, k') \<Longrightarrow> e \<in> set evs \<Longrightarrow> event_wf e"
  unfolding read_ok_def by blast+

text \<open>
  The invariant of the loop: the count of remaining bytes is the size of the remaining
  events, or one less when the last event is looked at for the second time.
\<close>

definition buf_ok :: "inotify_event list \<Rightarrow> int \<Rightarrow> bool \<Rightarrow> bool" where
  "buf_ok evs rem firstTry \<longleftrightarrow> rem \<le> 0 \<or>
     buf_bytes evs \<le> INOTIFY_READ_BUF_LEN \<and> (\<forall>e \<in> set evs. event_wf e) \<and>
     (rem = buf_bytes evs \<or> rem = buf_bytes evs - 1 \<and> length evs = 1 \<and> \<not> firstTry)"

lemma buf_ok_next:
  assumes "buf_ok (ev # rest) rem firstTry" "0 < rem"
  shows "ev_bytes ev < rem \<longrightarrow> next_event rest \<noteq> None"
    "\<forall>e. next_event rest = Some e \<longrightarrow> event_wf e" "event_wf ev"
  using assms by (auto simp: buf_ok_def next_event_def split: list.splits)

lemma buf_ok_advance:
  assumes "buf_ok (ev # rest) rem firstTry" "0 < rem"
    and "advance_ok ev (next_event rest) rem firstTry n" "0 < n"
  shows "buf_ok (drop_bytes n (ev # rest)) (rem - n) True"
proof -
  from assms(1,2) have b: "buf_bytes (ev # rest) \<le> INOTIFY_READ_BUF_LEN" "\<forall>e \<in> set (ev # rest). event_wf e"
    and rem: "rem = buf_bytes (ev # rest) \<or> rem = ev_bytes ev - 1 \<and> rest = []"
    by (auto simp: buf_ok_def)
  from assms(3,4) consider "n = INOTIFY_READ_BUF_LEN" | "n = ev_bytes ev"
    | e where "next_event rest = Some e" "ev_bytes ev < rem" "n = ev_bytes ev + ev_bytes e"
    by (auto simp: advance_ok_def)
  then show ?thesis
  proof cases
    case 1
    with b rem show ?thesis by (auto simp: buf_ok_def)
  next
    case 2
    with b rem show ?thesis by (auto simp: buf_ok_def not_le dest: ev_bytes_tail)
  next
    case 3
    then obtain rest' where "rest = e # rest'" by (auto simp: next_event_def split: list.splits)
    with 3 b rem show ?thesis by (auto simp: buf_ok_def not_le add_pos_pos dest!: ev_bytes_tail)
  qed
qed

lemma buf_ok_hang:
  assumes "buf_ok (ev # rest) rem firstTry" "0 < rem"
    and "advance_ok ev (next_event rest) rem firstTry n" "\<not> 0 < n"
  shows "firstTry" "rest = []" "rem = ev_bytes ev" "rem \<le> INOTIFY_READ_BUF_LEN"
proof -
  have pos: "0 < INOTIFY_READ_BUF_LEN" by (simp add: INOTIFY_READ_BUF_LEN_def sizeof_event_def NAME_MAX_def)
  with assms(3,4) have "firstTry" "rem \<le> ev_bytes ev"
    by (auto simp: advance_ok_def add_pos_pos)
  with assms(1,2) have "rem = ev_bytes ev + buf_bytes rest" and "buf_bytes rest \<le> 0"
    and "ev_bytes ev + buf_bytes rest \<le> INOTIFY_READ_BUF_LEN"
    by (auto simp: buf_ok_def)
  then show "firstTry" "rest = []" "rem = ev_bytes ev" "rem \<le> INOTIFY_READ_BUF_LEN"
    using \<open>firstTry\<close> buf_bytes_nonneg [of rest] buf_bytes_zero [of rest] by auto
qed

text \<open>
  Whatever the fuel, a loop that ends does so in a good state, and it never looks past
  its buffer: the only stops are exits and the requested abort.
\<close>

lemma event_loop_ok:
  assumes K: "kernel_ok K" "read_ok K"
  shows "good s u \<Longrightarrow> buf_ok evs rem firstTry \<Longrightarrow> event_loop n K fd evs rem firstTry u = Some out
    \<Longrightarrow> wp out (\<lambda>_ t. good s t) (\<lambda>r _. stop_ok s r)"
proof (induction n arbitrary: fd evs rem firstTry u)
  case 0
  then show ?case by simp
next
  case (Suc n)
  show ?case
  proof (cases "rem \<le> 0")
    case True
    with Suc.prems show ?thesis by auto
  next
    case rem: False
    with Suc.prems(2) obtain ev rest where evs: "evs = ev # rest"
      by (cases evs) (auto simp: buf_ok_def)
    from rem have pos: "0 < rem" by simp
    note buf = Suc.prems(2) [unfolded evs]
    have ok: "wp (processNextInotifyEvent K fd ev (next_event rest) rem firstTry u)
        (\<lambda>x t. good s t \<and> advance_ok ev (next_event rest) rem firstTry (snd x)) (\<lambda>r _. stop_ok s r)"
      by (intro processNextInotifyEvent_ok K Suc.prems buf_ok_next [OF buf pos])
    show ?thesis
    proof (cases "processNextInotifyEvent K fd ev (next_event rest) rem firstTry u")
      case (Stop r t)
      with ok Suc.prems(3) rem evs show ?thesis by auto
    next
      case (Ret x t)
      obtain fd' len where x: "x = (fd', len)" by fastforce
      with ok Ret have t: "good s t" and adv: "advance_ok ev (next_event rest) rem firstTry len" by auto
      show ?thesis
      proof (cases "0 < len")
        case True
        with Suc.prems(3) rem Ret x evs
        have "event_loop n K fd' (drop_bytes len (ev # rest)) (rem - len) True t = Some out" by simp
        then show ?thesis by (rule Suc.IH [OF t buf_ok_advance [OF buf pos adv True]])
      next
        case False
        note hang = buf_ok_hang [OF buf pos adv False]
        obtain r k where r: "sys_read K fd' (nat (INOTIFY_READ_BUF_LEN - rem)) (kern t) = (r, k)"
          by fastforce
        show ?thesis
        proof (cases r)
          case (Inl e)
          have "buf_ok [ev] (rem - 1) False"
            using buf hang by (auto simp: buf_ok_def)
          with Inl r Suc.prems(3) rem Ret x evs False hang(2) t show ?thesis
            by (auto simp: errExit_def split: if_splits elim!: Suc.IH [rotated 2])
        next
          case (Inr new)
          with r K(2) have new: "buf_bytes new \<le> INOTIFY_READ_BUF_LEN - rem" "\<forall>e \<in> set new. event_wf e"
            using read_okD [OF K(2)] hang(4) by force+
          have "buf_ok (ev # new) (rem + buf_bytes new) False"
            using new buf pos hang by (auto simp: buf_ok_def)
          with Inr r Suc.prems(3) rem Ret x evs False hang(2) t show ?thesis
            by (auto split: if_splits elim!: Suc.IH [rotated 2])
        qed
      qed
    qed
  qed
qed

text \<open>
  When no more events arrive, every event takes at most two rounds: the loop ends within
  \<open>2 * length evs + 2\<close> rounds.
\<close>

lemma event_loop_ends:
  assumes K: "kernel_ok K" "read_ok K"
    and quiet: "\<And>fd m k new k'. sys_read K fd m k = (Inr new, k') \<Longrightarrow> new = []"
  shows "good s u \<Longrightarrow> buf_ok evs rem firstTry \<Longrightarrow> 2 * length evs + (if firstTry then 1 else 0) < n
    \<Longrightarrow> event_loop n K fd evs rem firstTry u \<noteq> None"
proof (induction n arbitrary: fd evs rem firstTry u)
  case 0
  then show ?case by simp
next
  case (Suc n)
  show ?case
  proof (cases "rem \<le> 0 \<or> evs = []")
    case True
    then show ?thesis by auto
  next
    case False
    then obtain ev rest where evs: "evs = ev # rest" and pos: "0 < rem" by (cases evs) auto
    note buf = Suc.prems(2) [unfolded evs]
    have ok: "wp (processNextInotifyEvent K fd ev (next_event rest) rem firstTry u)
        (\<lambda>x t. good s t \<and> advance_ok ev (next_event rest) rem firstTry (snd x)) (\<lambda>r _. stop_ok s r)"
      by (intro processNextInotifyEvent_ok K Suc.prems buf_ok_next [OF buf pos])
    show ?thesis
    proof (cases "processNextInotifyEvent K fd ev (next_event rest) rem firstTry u")
      case (Stop r t)
      with pos evs show ?thesis by simp
    next
      case (Ret x t)
      obtain fd' len where x: "x = (fd', len)" by fastforce
      with ok Ret have t: "good s t" and adv: "advance_ok ev (next_event rest) rem firstTry len" by auto
      show ?thesis
      proof (cases "0 < len")
        case True
        then have "length (drop_bytes len (ev # rest)) \<le> length rest" by (simp add: length_drop_bytes)
        then have "2 * length (drop_bytes len (ev # rest)) + (if True then 1 else 0) < n"
          using Suc.prems(3) evs by auto
        from Suc.IH [OF t buf_ok_advance [OF buf pos adv True] this] show ?thesis
          using pos evs Ret x True by simp
      next
        case False
        note hang = buf_ok_hang [OF buf pos adv False]
        obtain r k where r: "sys_read K fd' (nat (INOTIFY_READ_BUF_LEN - rem)) (kern t) = (r, k)"
          by fastforce
        have "buf_ok evs (rem - 1) False" using buf hang evs by (auto simp: buf_ok_def)
        then show ?thesis
          using pos evs Ret x False r quiet t Suc.IH Suc.prems(3) hang
          by (auto split: sum.splits)
      qed
    qed
  qed
qed

end
