(* ===== verification/Dtree_Mirror.thy ===== *)
theory Dtree_Mirror
  imports Dtree_Events
begin

text \<open>
  What the cache of \<open>inotify_dtree.c\<close> is for: it mirrors the directories below the roots.

  \<open>static_fs K D wdf\<close> describes an operating system whose directory tree does not change
  during the walk: \<open>D\<close> is the set of directories, each watched under one descriptor.
  \<open>mirrors wdf C ws\<close> says that the cache \<open>ws\<close> holds exactly the directories of \<open>C\<close>. The
  lemmas follow the mirror through the tree walk, the rebuild and the handling of events.
\<close>

section \<open>Specification\<close>

definition walk_dirs :: "(string \<times> u32) list \<Rightarrow> string set" where
  "walk_dirs vs = {p. \<exists>m. (p, m) \<in> set vs \<and> S_ISDIR m}"

definition static_fs :: "'k kernel \<Rightarrow> string set \<Rightarrow> (string \<Rightarrow> int) \<Rightarrow> bool" where
  "static_fs K D wdf \<longleftrightarrow> kernel_ok K \<and> inj_on wdf D \<and>
     (\<forall>p k. walk_dirs (fst (fst (sys_nftw K p k))) = {q \<in> D. below p q}) \<and>
     (\<forall>fd p m k. p \<in> D \<longrightarrow> fst (sys_add_watch K fd p m k) = Inr (wdf p))"

definition resources_ok :: "'k kernel \<Rightarrow> bool" where
  "resources_ok K \<longleftrightarrow> (\<forall>n k. fst (sys_realloc K n k) \<noteq> None) \<and> (\<forall>k. fst (sys_inotify_init K k) \<noteq> -1)"

definition mirrors :: "(string \<Rightarrow> int) \<Rightarrow> string set \<Rightarrow> watch list \<Rightarrow> bool" where
  "mirrors wdf C ws \<longleftrightarrow> cache_ok ws \<and> (\<forall>d p. cache_map ws d = Some p \<longleftrightarrow> p \<in> C \<and> d = wdf p)"

definition cached :: "watch list \<Rightarrow> string set" where
  "cached ws = ran (cache_map ws)"

lemma static_fsD:
  assumes "static_fs K D wdf"
  shows "kernel_ok K" "inj_on wdf D" "walk_dirs (fst (fst (sys_nftw K p k))) = {q \<in> D. below p q}"
    "q \<in> D \<Longrightarrow> fst (sys_add_watch K fd q m k) = Inr (wdf q)"
  using assms by (simp_all add: static_fs_def)

lemma static_fs_wd: "static_fs K D wdf \<Longrightarrow> q \<in> D \<Longrightarrow> 0 \<le> wdf q"
  using static_fsD(4) [of K D wdf q 0 0 undefined] kernel_okD(1) [OF static_fsD(1)] by (metis prod.collapse)

lemma mirrors_cached: "mirrors wdf C ws \<Longrightarrow> cached ws = C"
  by (auto simp: mirrors_def cached_def ran_def)

lemma mirrors_Nil [simp]: "mirrors wdf {} []"
  by (simp add: mirrors_def)

lemma mirrors_ok: "mirrors wdf C ws \<Longrightarrow> cache_ok ws"
  by (simp add: mirrors_def)

lemma mirrors_find:
  assumes "static_fs K D wdf" "C \<subseteq> D" "q \<in> D" "mirrors wdf C ws"
  shows "0 \<le> findWatch ws (wdf q) \<longleftrightarrow> q \<in> C"
proof -
  have "0 \<le> findWatch ws (wdf q) \<longleftrightarrow> cache_map ws (wdf q) \<noteq> None"
    by (rule findWatch_lookup [OF static_fs_wd [OF assms(1,3)]])
  also have "\<dots> \<longleftrightarrow> (\<exists>p \<in> C. wdf q = wdf p)" using assms(4) by (auto simp: mirrors_def)
  also have "\<dots> \<longleftrightarrow> q \<in> C"
    using static_fsD(2) [OF assms(1)] assms(2,3) by (auto dest: inj_onD)
  finally show ?thesis .
qed

section \<open>The walk\<close>

lemma conf_noisy: "same_conf s t \<Longrightarrow> logs_noisy t = logs_noisy s"
  by (simp add: logs_noisy_def same_conf_def)

lemma addWatchToCache_returns:
  assumes "resources_ok K" "list_all slot_ok (wlCache s)" "path_ok p"
  shows "wp (addWatchToCache K d p s) (\<lambda>_ _. True) (\<lambda>r _. logs_noisy s \<and> r = fresh_memory)"
proof -
  have "wp (findEmptyCacheSlot K s) (\<lambda>_ _. True) (\<lambda>r _. logs_noisy s \<and> r = fresh_memory)"
  proof (cases "sys_realloc K (cacheSize s + ALLOC_INCR) (kern s)")
    case (Pair r k)
    with assms(1) obtain g where "r = Some g" unfolding resources_ok_def by (metis fst_conv not_None_eq)
    with Pair show ?thesis
      using mark_slots_wp [of "cacheSize s" ALLOC_INCR "s\<lparr>kern := k, wlCache := wlCache s @ map g [0..<ALLOC_INCR]\<rparr>"]
      by (auto simp: findEmptyCacheSlot_def Let_def elim!: wp_mono)
  qed
  then show ?thesis
    unfolding addWatchToCache_def wp_bnd
    by (rule wp_mono) (use assms(3) in \<open>auto simp: path_ok_def\<close>)
qed

lemma traverseTree_mirrors:
  assumes fs: "static_fs K D wdf" "resources_ok K" and C: "C \<subseteq> D" "mirrors wdf C (wlCache s)"
    and v: "S_ISDIR m \<Longrightarrow> p \<in> D" "path_ok p"
  shows "wp (traverseTree K (p, m) s)
     (\<lambda>r t. r = 0 \<and> mirrors wdf (if S_ISDIR m then insert p C else C) (wlCache t) \<and> same_conf s t)
     (\<lambda>r _. logs_noisy s \<and> r = fresh_memory)"
proof (cases "S_ISDIR m")
  case False
  with C show ?thesis by (simp add: traverseTree_def)
next
  case True
  let ?fl = "IN_CREATE OR IN_MOVED_FROM OR IN_MOVED_TO OR IN_DELETE_SELF"
  let ?flags = "(if isRootDirPath p s then ?fl OR IN_MOVE_SELF else ?fl) OR IN_ONLYDIR"
  obtain k where k: "sys_add_watch K (ifd s) p ?flags (kern s) = (Inr (wdf p), k)"
    using static_fsD(4) [OF fs(1) v(1) [OF True]] by (metis prod.collapse)
  let ?s = "s\<lparr>kern := k, dirCnt := dirCnt s + 1\<rparr>"
  note find = mirrors_find [OF fs(1) C(1) v(1) [OF True] C(2)]
  show ?thesis
  proof (cases "p \<in> C")
    case True
    then show ?thesis using k find C \<open>S_ISDIR m\<close> by (simp add: traverseTree_def Let_def insert_absorb)
  next
    case new: False
    have ok: "cache_ok (wlCache ?s)" "findWatch (wlCache ?s) (wdf p) < 0"
      using mirrors_ok [OF C(2)] find new by simp_all
    have "list_all slot_ok (wlCache ?s)" using ok(1) by (simp add: cache_ok_def)
    note ret = addWatchToCache_returns [OF fs(2) this v(2), of "wdf p"]
    have "mirrors wdf (insert p C) ws"
      if "cache_ok ws" "cache_map ws = (cache_map (wlCache s))(wdf p \<mapsto> p)" for ws
      using that C(2) inj_onD [OF static_fsD(2) [OF fs(1)], of p] C(1) v(1) [OF True] new
      by (auto simp: mirrors_def split: if_splits)
    then have "wp (addWatchToCache K (wdf p) p ?s)
        (\<lambda>_ t. mirrors wdf (insert p C) (wlCache t) \<and> same_conf s t) (\<lambda>r _. logs_noisy s \<and> r = fresh_memory)"
      using wp_conj [OF addWatchToCache_grows [OF ok(1) static_fs_wd [OF fs(1) v(1) [OF True]] v(2) ok(2)] ret]
      by (auto simp: grows_def intro: wp_mono)
    then show ?thesis
      using k find new \<open>S_ISDIR m\<close> by (auto simp: traverseTree_def Let_def)
  qed
qed

lemma nftw_calls_mirrors:
  assumes fs: "static_fs K D wdf" "resources_ok K"
  shows "C \<subseteq> D \<Longrightarrow> mirrors wdf C (wlCache s) \<Longrightarrow> walk_dirs vs \<subseteq> D \<Longrightarrow> \<forall>v \<in> set vs. path_ok (fst v) \<Longrightarrow>
    wp (nftw_calls K vs s) (\<lambda>_ t. mirrors wdf (C \<union> walk_dirs vs) (wlCache t) \<and> same_conf s t) (\<lambda>r _. logs_noisy s \<and> r = fresh_memory)"
proof (induction vs arbitrary: C s)
  case Nil
  then show ?case by (simp add: walk_dirs_def)
next
  case (Cons v vs)
  obtain p m where v: "v = (p, m)" by fastforce
  let ?C = "if S_ISDIR m then insert p C else C"
  have D: "S_ISDIR m \<Longrightarrow> p \<in> D" "walk_dirs vs \<subseteq> D" "path_ok p"
    using Cons.prems(3,4) v by (auto simp: walk_dirs_def)
  then have C: "?C \<subseteq> D" using Cons.prems(1) by simp
  have un: "?C \<union> walk_dirs vs = C \<union> walk_dirs (v # vs)"
    using v by (auto simp: walk_dirs_def)
  have "wp (nftw_calls K vs t) (\<lambda>_ u. mirrors wdf (C \<union> walk_dirs (v # vs)) (wlCache u) \<and> same_conf s u) (\<lambda>r _. logs_noisy s \<and> r = fresh_memory)"
    if t: "mirrors wdf ?C (wlCache t)" "same_conf s t" for t
    by (rule wp_mono [OF Cons.IH [OF C t(1) D(2), unfolded un]])
      (use Cons.prems(4) same_conf_trans [OF t(2)] conf_noisy [OF t(2)] in auto)
  then show ?case
    unfolding nftw_calls.simps wp_bnd v
    by (intro wp_mono [OF traverseTree_mirrors [OF fs Cons.prems(1,2), of m p]]) (use D in auto)
qed

lemma watchSubtree_mirrors:
  assumes fs: "static_fs K D wdf" "resources_ok K" and C: "C \<subseteq> D" "mirrors wdf C (wlCache s)"
  shows "wp (watchSubtree K fd p s)
    (\<lambda>_ t. mirrors wdf (C \<union> {q \<in> D. below p q}) (wlCache t) \<and> same_conf s t) (\<lambda>r _. logs_noisy s \<and> r = fresh_memory)"
proof -
  obtain vs e k where n: "sys_nftw K p (kern s) = ((vs, e), k)" by (metis surj_pair)
  have dirs: "walk_dirs vs = {q \<in> D. below p q}"
    using static_fsD(3) [OF fs(1), of p "kern s"] n by simp
  have ok: "\<forall>v \<in> set vs. path_ok (fst v)"
    using kernel_okD(2) [OF static_fsD(1) [OF fs(1)] n] by blast
  have "walk_dirs vs \<subseteq> D" using dirs by auto
  from nftw_calls_mirrors [OF fs C(1) _ this ok, of "s\<lparr>kern := k, dirCnt := 0, ifd := fd\<rparr>"] C(2) n dirs
  show ?thesis
    by (auto simp: watchSubtree_def watchDir_def Let_def split: option.splits elim!: wp_mono)
qed

lemma watch_roots_mirrors:
  assumes fs: "static_fs K D wdf" "resources_ok K"
  shows "C \<subseteq> D \<Longrightarrow> mirrors wdf C (wlCache s) \<Longrightarrow>
    wp (watch_roots K fd rs s)
     (\<lambda>_ t. mirrors wdf (C \<union> {q \<in> D. \<exists>p. Some p \<in> set rs \<and> below p q}) (wlCache t) \<and> same_conf s t) (\<lambda>r _. logs_noisy s \<and> r = fresh_memory)"
proof (induction rs arbitrary: C s)
  case Nil
  then show ?case by simp
next
  case (Cons r rs)
  show ?case
  proof (cases r)
    case None
    with Cons.IH [OF Cons.prems] show ?thesis by simp
  next
    case (Some p)
    let ?C = "C \<union> {q \<in> D. below p q}"
    have un: "?C \<union> {q \<in> D. \<exists>p. Some p \<in> set rs \<and> below p q}
        = C \<union> {q \<in> D. \<exists>p. Some p \<in> set (r # rs) \<and> below p q}"
      using Some by auto
    have C: "?C \<subseteq> D" using Cons.prems(1) by auto
    have "wp (watch_roots K fd rs t) (\<lambda>_ u. mirrors wdf
        (C \<union> {q \<in> D. \<exists>p. Some p \<in> set (r # rs) \<and> below p q}) (wlCache u) \<and> same_conf s u) (\<lambda>r _. logs_noisy s \<and> r = fresh_memory)"
      if t: "mirrors wdf ?C (wlCache t)" "same_conf s t" for t
      by (rule wp_mono [OF Cons.IH [OF C t(1), unfolded un]]) (use same_conf_trans [OF t(2)] conf_noisy [OF t(2)] in auto)
    with watchSubtree_mirrors [OF fs Cons.prems, of fd p] Some show ?thesis
      by (auto elim!: wp_mono)
  qed
qed

section \<open>The rebuild\<close>

definition monitored :: "string set \<Rightarrow> 'k dtree \<Rightarrow> string set" where
  "monitored D s = {q \<in> D. \<exists>p \<in> set (roots s). below p q}"

lemma monitored_conf: "same_conf s t \<Longrightarrow> monitored D t = monitored D s"
  by (simp add: monitored_def same_conf_def set_roots)

lemma reinitialize_mirrors:
  assumes fs: "static_fs K D wdf" "resources_ok K" and quiet: "\<not> logs_noisy s"
  shows "wp (reinitialize K old s) (\<lambda>_ t. mirrors wdf (monitored D s) (wlCache t) \<and> same_conf s t) (\<lambda>_ _. False)"
proof -
  have main: "wp (watch_roots K fd (rootDirPaths (freeCache u)) (freeCache u))
      (\<lambda>_ t. mirrors wdf (monitored D s) (wlCache t) \<and> same_conf s t) (\<lambda>_ _. False)"
    if "same_conf s u" for fd u
  proof -
    have "rootDirPaths (freeCache u) = rootDirPaths s" "same_conf s (freeCache u)"
      using that by (simp_all add: same_conf_def freeCache_def)
    with watch_roots_mirrors [OF fs, of "{}" "freeCache u" fd "rootDirPaths s"] conf_noisy [OF that] quiet show ?thesis
      by (auto simp: monitored_def set_roots freeCache_def elim!: wp_mono intro: same_conf_trans)
  qed
  have init: "fst (sys_inotify_init K k) \<noteq> -1" for k using fs(2) by (simp add: resources_ok_def)
  show ?thesis
    unfolding reinitialize_def Let_def
    using init by (auto simp: case_prod_beta intro!: main)
qed

section \<open>Events\<close>

lemma pathnameInCache_iff:
  assumes "cache_ok ws" "cstring p"
  shows "pathnameInCache ws p \<longleftrightarrow> p \<in> cached ws"
proof -
  have "pathnameInCache ws p \<longleftrightarrow> (\<exists>w \<in> set ws. 0 \<le> wd w \<and> strcmp (path w) p = 0)"
    unfolding pathnameInCache_def pathnameToCacheSlot_def
    using find_slot_neg [of "\<lambda>w. wd w \<ge> 0 \<and> strcmp (path w) p = 0" ws 0] by (auto simp: not_less)
  also have "\<dots> \<longleftrightarrow> (\<exists>w \<in> set ws. 0 \<le> wd w \<and> path w = p)"
  proof -
    have "0 \<le> wd w \<Longrightarrow> w \<in> set ws \<Longrightarrow> strcmp (path w) p = 0 \<longleftrightarrow> path w = p" for w
      using cache_okD(1) [OF assms(1), of w] assms(2) by (auto simp: slot_ok_def path_ok_def strcmp_eq_0)
    then show ?thesis by blast
  qed
  also have "\<dots> \<longleftrightarrow> (\<exists>d. cache_map ws d = Some p)"
  proof -
    have "\<lparr>wd = wd w, path = p\<rparr> \<in> set ws" if "w \<in> set ws" "path w = p" for w
      unfolding that(2) [symmetric] watch_eta by (rule that(1))
    then show ?thesis unfolding cache_map_Some_iff [OF assms(1)] by force
  qed
  finally show ?thesis by (simp add: cached_def ran_def)
qed

lemma live_paths:
  assumes "cache_ok ws"
  shows "path ` set (live ws) = cached ws"
proof -
  have "p \<in> path ` set (live ws) \<longleftrightarrow> (\<exists>d. 0 \<le> d \<and> \<lparr>wd = d, path = p\<rparr> \<in> set ws)" for p
    by (auto simp: image_iff watch_eta intro: rev_bexI)
  then show ?thesis by (auto simp: cached_def ran_def cache_map_Some_iff [OF assms])
qed

lemma cache_slot_of:
  assumes "cache_ok ws" "cache_map ws d = Some p"
  obtains i where "i < length ws" "findWatch ws d = int i" "ws ! i = \<lparr>wd = d, path = p\<rparr>"
proof -
  have d: "0 \<le> d" "path_ok p"
    using cache_map_Some_iff [OF assms(1)] assms(2) cache_okD(1) [OF assms(1)] by force+
  then have "0 \<le> findWatch ws d" using assms(2) by (simp add: findWatch_lookup)
  then obtain i where i: "i < length ws" "findWatch ws d = int i" "wd (ws ! i) = d"
    by (auto elim: findWatch_found)
  then have "cache_map ws d = Some (path (ws ! i))"
    using cache_map_Some_iff [OF assms(1)] d watch_eta [of "ws ! i"] nth_mem [OF i(1)] by metis
  with assms(2) i watch_eta [of "ws ! i"] that show ?thesis by fastforce
qed

text \<open>
  The event of a watch in the cache, with the debugging options off: the branch for its
  mask runs on its slot.
\<close>

lemma processNextInotifyEvent_known:
  assumes "cache_ok (wlCache s)" "cache_map (wlCache s) (ev_wd ev) = Some p"
    and "\<not> has (ev_mask ev) IN_IGNORED"
    and branch: "\<And>slot u. slot < cacheSize u \<Longrightarrow> wlCache u ! slot = \<lparr>wd = ev_wd ev, path = p\<rparr> \<Longrightarrow>
      core u = core s \<Longrightarrow>
      wp (event_branch K fd ev next bufSize firstTry (Some slot) u)
        (\<lambda>x t. Q (fst x, amount (snd x)) t \<and> \<not> checkCache t \<and> \<not> dumpCache t) E"
  shows "wp (processNextInotifyEvent K fd ev next bufSize firstTry s) Q E"
proof -
  from cache_slot_of [OF assms(1,2)] obtain i where i: "i < cacheSize s"
    "findWatch (wlCache s) (ev_wd ev) = int i" "wlCache s ! i = \<lparr>wd = ev_wd ev, path = p\<rparr>" by metis
  have "ev_wd ev \<noteq> -1" using cache_map_Some_iff [OF assms(1)] assms(2) by auto
  then have look: "event_lookup K ev (displayInotifyEvent ev s) = Ret (Some (int i)) (displayInotifyEvent ev s)"
    using assms(3) i by (simp add: event_lookup_def findWatchChecked_def)
  have "wp ((\<lambda>(fd, r) s. case r of Return n \<Rightarrow> Ret (fd, n) s
        | Continue n \<Rightarrow> bnd (event_checks K s) (\<lambda>_ s. Ret (fd, n) s)) x t) Q E"
    if "Q (fst x, amount (snd x)) t \<and> \<not> checkCache t \<and> \<not> dumpCache t" for x t
    using that by (cases x; cases "snd x") (auto simp: event_checks_def)
  with branch [of i "displayInotifyEvent ev s"] i show ?thesis
    unfolding processNextInotifyEvent_def look by (auto elim!: wp_mono)
qed

text \<open>An event whose watch is not in the cache leads to a rebuild; so does an overflow.\<close>

lemma reinit_and_discard_mirrors:
  assumes "static_fs K D wdf" "resources_ok K" "\<not> logs_noisy s"
  shows "wp (reinit_and_discard K fd s)
    (\<lambda>x t. snd x = Return INOTIFY_READ_BUF_LEN \<and> mirrors wdf (monitored D s) (wlCache t) \<and> same_conf s t) (\<lambda>_ _. False)"
  using reinitialize_mirrors [OF assms, of fd] by (simp add: reinit_and_discard_def)

lemma core_same_conf: "core u = core s \<Longrightarrow> same_conf s u"
  using core_eqD [of u s] by (simp add: same_conf_def)

text \<open>A new directory.\<close>

lemma event_new_dir_mirrors:
  assumes fs: "static_fs K D wdf" "resources_ok K" and C: "C \<subseteq> D" "mirrors wdf C (wlCache u)"
    and slot: "slot < cacheSize u" "path (wlCache u ! slot) = p"
    and name: "cstring (ev_name ev)" "length (p @ ''/'' @ ev_name ev) < PATH_MAX + NAME_MAX"
  shows "wp (event_new_dir K fd ev slot u)
    (\<lambda>x t. x = (fd, Continue (ev_bytes ev)) \<and> same_conf u t \<and>
       mirrors wdf (if p @ ''/'' @ ev_name ev \<in> C then C else C \<union> {q \<in> D. below (p @ ''/'' @ ev_name ev) q}) (wlCache t))
    (\<lambda>r _. logs_noisy u \<and> r = fresh_memory)"
proof -
  let ?full = "p @ ''/'' @ ev_name ev"
  have full: "snprintf_buf (PATH_MAX + NAME_MAX) ?full = ?full"
    using name(2) by (simp add: snprintf_buf_def)
  have "cstring p"
    using cache_okD(1) [OF mirrors_ok [OF C(2)] nth_mem [OF slot(1)]] slot(2) by (auto simp: slot_ok_def path_ok_def)
  then have c: "cstring ?full" using name(1) by simp
  have inC: "pathnameInCache (wlCache u) ?full \<longleftrightarrow> ?full \<in> C"
    using pathnameInCache_iff [OF mirrors_ok [OF C(2)] c] mirrors_cached [OF C(2)] by simp
  let ?u = "logMessage VB_BASIC ''Directory creation on wd %d: %s\<newline>'' [ArgI (ev_wd ev), ArgS ?full] u"
  have "wp (watchSubtree K fd ?full ?u)
     (\<lambda>_ t. mirrors wdf (C \<union> {q \<in> D. below ?full q}) (wlCache t) \<and> same_conf u t) (\<lambda>r _. logs_noisy u \<and> r = fresh_memory)"
    using watchSubtree_mirrors [OF fs C(1), of ?u fd ?full] C(2) by simp
  then show ?thesis
    using C(2) unfolding event_new_dir_def slot(2) full Let_def wp_if wp_bnd
    by (auto simp: inC [simplified] elim!: wp_mono)
qed

text \<open>A rename inside the monitored trees.\<close>

lemma rewrite_slot_rename:
  assumes "cstring full" "full \<noteq> []" "cstring (path w)" "length (rename_path full new (path w)) < PATH_MAX"
  shows "wd (rewrite_slot full new w) = wd w \<and> path (rewrite_slot full new w) = rename_path full new (path w)"
  using assms by (auto simp: rewrite_slot_def rename_path_def below_def path_below_iff new_path_def snprintf_buf_def)

lemma rewriteCachedPaths_rename:
  assumes ok: "cache_ok (wlCache s)" and c: "cstring op" "cstring on" "cstring np" "cstring nn"
    and len: "length (op @ ''/'' @ on) < PATH_MAX" "length (np @ ''/'' @ nn) < PATH_MAX"
      "\<And>r. r \<in> cached (wlCache s) \<Longrightarrow> length (rename_path (op @ ''/'' @ on) (np @ ''/'' @ nn) r) < PATH_MAX"
  shows "cache_map (wlCache (rewriteCachedPaths op on np nn s))
    = (\<lambda>d. map_option (rename_path (op @ ''/'' @ on) (np @ ''/'' @ nn)) (cache_map (wlCache s) d))"
proof -
  let ?full = "op @ ''/'' @ on" and ?new = "np @ ''/'' @ nn"
  have buf: "snprintf_buf PATH_MAX ?full = ?full" "snprintf_buf PATH_MAX ?new = ?new"
    using len(1,2) by (simp_all add: snprintf_buf_def)
  have ws: "wlCache (rewriteCachedPaths op on np nn s) = map (rewrite_slot ?full ?new) (wlCache s)"
    using rewriteCachedPaths_core [of op on np nn s, THEN core_fieldD(1)] by (simp add: buf [simplified])
  have slot: "wd (rewrite_slot ?full ?new w) = wd w \<and> path (rewrite_slot ?full ?new w) = rename_path ?full ?new (path w)"
    if w: "w \<in> set (wlCache s)" for w
  proof (cases "live_slot w")
    case True
    then have "cache_map (wlCache s) (wd w) = Some (path w)"
      using cache_map_Some_iff [OF ok] w by (simp add: watch_eta)
    then have "path w \<in> cached (wlCache s)" by (auto simp: cached_def ran_def)
    with True w show ?thesis
      using cache_okD(1) [OF ok w] c by (intro rewrite_slot_rename len(3)) (auto simp: slot_ok_def path_ok_def)
  next
    case False
    then have "w = empty_slot" using cache_okD(1) [OF ok w] slot_ok_dead by blast
    then show ?thesis
      using path_below_not_empty [of ?full] c by (simp add: rewrite_slot_def rename_path_def below_def)
  qed
  show ?thesis unfolding ws by (rule cache_map_map_path) (rule slot)
qed

lemma event_rename_spec:
  assumes ok: "cache_ok (wlCache u)" and slot: "slot < cacheSize u" "path (wlCache u ! slot) = p"
    and next_wd: "cache_map (wlCache u) (ev_wd e) = Some q"
  shows "event_rename K fd ev slot e u
    = Ret (fd, Continue (ev_bytes ev + ev_bytes e)) (rewriteCachedPaths p (ev_name ev) q (ev_name e) u)"
proof -
  from cache_slot_of [OF ok next_wd] obtain j where j: "j < cacheSize u"
    "findWatch (wlCache u) (ev_wd e) = int j" "wlCache u ! j = \<lparr>wd = ev_wd e, path = q\<rparr>" by metis
  then have "findWatchChecked K (ev_wd e) u = Ret (int j) u"
    by (simp add: findWatchChecked_def)
  with j slot show ?thesis by (simp add: event_rename_def)
qed

text \<open>A directory moved out of the monitored trees.\<close>

lemma below_path: "cstring pn \<Longrightarrow> cstring r \<Longrightarrow> path_below pn r = below pn r"
  by (auto simp: path_below_iff below_def)

lemma cache_path_ok: "cache_ok ws \<Longrightarrow> cache_map ws d = Some p \<Longrightarrow> 0 \<le> d \<and> path_ok p"
  using cache_map_Some_iff [of ws d p] cache_okD(1) [of ws "\<lparr>wd = d, path = p\<rparr>"] by auto

lemma event_moved_out_spec:
  assumes fs: "static_fs K D wdf" "resources_ok K" and ok: "cache_ok (wlCache u)"
    and slot: "slot < cacheSize u" "path (wlCache u ! slot) = p"
    and name: "cstring (ev_name ev)" "length (p @ ''/'' @ ev_name ev) < PATH_MAX + NAME_MAX"
    and quiet: "\<not> logs_noisy u"
  shows "wp (event_moved_out K fd ev slot bufSize firstTry u)
    (\<lambda>x t. same_conf u t \<and>
       (x = (fd, Continue (ev_bytes ev)) \<and> cache_ok (wlCache t) \<and>
          (\<forall>d r. cache_map (wlCache t) d = Some r \<longleftrightarrow>
             cache_map (wlCache u) d = Some r \<and> \<not> below (p @ ''/'' @ ev_name ev) r) \<or>
        snd x = Return INOTIFY_READ_BUF_LEN \<and> mirrors wdf (monitored D u) (wlCache t)))
    (\<lambda>_ _. False)"
proof -
  let ?full = "p @ ''/'' @ ev_name ev"
  have full: "snprintf_buf (PATH_MAX + NAME_MAX) ?full = ?full"
    using name(2) by (simp add: snprintf_buf_def)
  have "cstring p"
    using cache_okD(1) [OF ok nth_mem [OF slot(1)]] slot(2) by (auto simp: slot_ok_def path_ok_def)
  then have c: "cstring ?full" using name(1) by simp
  have gone: "cache_map (map (zap_slot ?full) (wlCache u)) d = Some r \<longleftrightarrow>
      cache_map (wlCache u) d = Some r \<and> \<not> below ?full r" for d r
    using cache_map_zap [OF ok, of ?full d r] cache_path_ok [OF ok, of d r] below_path [OF c, of r]
    by (auto simp: path_ok_def)
  have rebuilt: "wp (reinit_and_discard K fd t)
      (\<lambda>x v. same_conf u v \<and> snd x = Return INOTIFY_READ_BUF_LEN \<and> mirrors wdf (monitored D u) (wlCache v)) (\<lambda>_ _. False)"
    if "same_conf u t" for t
    by (rule wp_mono [OF reinit_and_discard_mirrors [OF fs]])
      (use that monitored_conf [OF that] conf_noisy [OF that] quiet in \<open>auto intro: same_conf_trans\<close>)
  show ?thesis
    unfolding event_moved_out_def Let_def wp_bnd wp_if
    by (rule wp_mono [OF zapSubtree_wp])
      (use ok in \<open>auto simp: slot full [simplified] gone [simplified] intro!: wp_mono [OF rebuilt]\<close>)
qed

lemma zapped_card:
  assumes "cache_ok ws" "cstring pn"
  shows "length (zapped pn ws) = card {d. \<exists>p. cache_map ws d = Some p \<and> below pn p}"
proof -
  have z: "zapped pn ws = filter (\<lambda>w. path_below pn (path w)) (live ws)"
    by (simp add: zapped_def live_def conj_commute)
  have "distinct (map wd (zapped pn ws))"
    unfolding z using cache_okD(2) [OF assms(1)] by (rule distinct_map_filter)
  then have "length (zapped pn ws) = card (wd ` set (zapped pn ws))"
    by (metis distinct_card length_map set_map)
  moreover have "wd ` set (zapped pn ws) = {d. \<exists>p. cache_map ws d = Some p \<and> path_below pn p}"
  proof -
    have "(\<exists>w. w \<in> set ws \<and> 0 \<le> wd w \<and> path_below pn (path w) \<and> wd w = d) \<longleftrightarrow>
        (\<exists>p. 0 \<le> d \<and> \<lparr>wd = d, path = p\<rparr> \<in> set ws \<and> path_below pn p)" for d
      using watch_eta by (metis watch.select_convs(1,2))
    then show ?thesis unfolding cache_map_Some_iff [OF assms(1)] zapped_def image_def by fastforce
  qed
  moreover have "cache_map ws d = Some p \<and> path_below pn p \<longleftrightarrow> cache_map ws d = Some p \<and> below pn p" for d p
    using below_path [OF assms(2)] cache_path_ok [OF assms(1), of d p] by (auto simp: path_ok_def)
  ultimately show ?thesis by simp
qed

text \<open>\<open>zapSubtree()\<close> returns -1 only if a call of \<open>inotify_rm_watch()\<close> failed.\<close>

definition rm_refused :: "'k kernel \<Rightarrow> int \<Rightarrow> bool" where
  "rm_refused K fd \<longleftrightarrow> (\<exists>d k. fst (sys_rm_watch K fd d k) \<noteq> None)"

lemma rm_refusedI: "sys_rm_watch K fd d k = (Some e, k') \<Longrightarrow> rm_refused K fd"
  unfolding rm_refused_def by (intro exI [of _ d] exI [of _ k]) simp

lemma zap_loop_fail:
  "0 \<le> cnt \<Longrightarrow> j + n \<le> cacheSize s \<Longrightarrow>
   wp (zap_loop K fd pn n j cnt s) (\<lambda>r _. 0 \<le> r \<or> r = -1 \<and> rm_refused K fd) (\<lambda>_ _. False)"
proof (induction n arbitrary: j cnt s)
  case 0
  then show ?case by simp
next
  case (Suc n)
  have "Suc j + n \<le> cacheSize s" "0 \<le> cnt + 1" using Suc.prems by auto
  then show ?case
    using Suc.prems
    by (auto simp: Let_def markCacheSlotEmpty_def split: prod.splits option.splits
        intro!: wp_mono [OF Suc.IH] intro: rm_refusedI)
qed

lemma zapSubtree_fail:
  "wp (zapSubtree K fd pn s) (\<lambda>r _. 0 \<le> r \<or> r = -1 \<and> rm_refused K fd) (\<lambda>_ _. False)"
  unfolding zapSubtree_def Let_def by (rule zap_loop_fail) simp_all

section \<open>Deletion and overflow\<close>

lemma event_overflow_mirrors:
  assumes "static_fs K D wdf" "resources_ok K" "\<not> logs_noisy s"
  shows "wp (event_overflow K fd s)
    (\<lambda>x t. snd x = Continue INOTIFY_READ_BUF_LEN \<and> mirrors wdf (monitored D s) (wlCache t) \<and> same_conf s t) (\<lambda>_ _. False)"
proof -
  let ?s = "logMessage 0 ''Queue overflow (%d) (inotifyReadCnt = %d)\<newline>''
      [ArgI (overflowCnt s + 1), ArgI (inotifyReadCnt s)] (s\<lparr>overflowCnt := overflowCnt s + 1\<rparr>)"
  have "monitored D ?s = monitored D s" by (rule monitored_conf) simp
  with reinitialize_mirrors [OF assms(1,2), of ?s fd] assms(3) show ?thesis
    by (simp add: event_overflow_def Let_def)
qed

lemma length_roots: "length (roots s) = length (filter (\<lambda>r. r \<noteq> None) (rootDirPaths s))"
  by (simp add: roots_def List.map_filter_def)

lemma length_roots_zap:
  assumes "i < numRootDirs s" "rootDirPaths s ! i = Some q" "rootDirPaths t = (rootDirPaths s)[i := None]"
  shows "length (roots t) + 1 = length (roots s)"
proof -
  have "length (filter (\<lambda>r. r = None) rs) + length (filter (\<lambda>r. r \<noteq> None) rs) = length rs"
    for rs :: "string option list"
    using sum_length_filter_compl [of "\<lambda>r. r = None" rs] by simp
  from this [of "rootDirPaths s"] this [of "rootDirPaths t"] filter_None_update [of i "rootDirPaths s"]
  show ?thesis using assms by (simp add: length_roots)
qed

lemma event_delete_self_spec:
  assumes "dt_ok s" "core u = core s" "slot < cacheSize u" "wlCache u ! slot = \<lparr>wd = ev_wd ev, path = p\<rparr>"
  shows "wp (event_delete_self fd ev slot u)
    (\<lambda>x t. x = (fd, Continue (ev_bytes ev)) \<and> good s t \<and>
       cache_map (wlCache t) = (cache_map (wlCache s))(ev_wd ev := None) \<and>
       (if isRootDirPath p s then length (roots t) + 1 = length (roots s) \<and> roots t \<noteq> []
        else roots t = roots s))
    (\<lambda>r t. r = Exit 0 \<and> isRootDirPath p s \<and> roots t = [])"
proof -
  let ?u = "logMessage VB_BASIC ''Clearing watchlist item %d (%s)\<newline>'' [ArgI (ev_wd ev), ArgS p] u"
  have u: "good s ?u" "wlCache ?u = wlCache s" "rootDirPaths ?u = rootDirPaths s"
    using good_core [OF assms(1,2)] core_eqD(8,9) [OF assms(2)] by simp_all
  have root: "isRootDirPath p u = isRootDirPath p s" using u(3) by (simp add: isRootDirPath_def)
  have clear: "wp (markCacheSlotEmpty False slot t)
      (\<lambda>_ v. good s v \<and> rootDirPaths v = rootDirPaths t \<and>
        cache_map (wlCache v) = (cache_map (wlCache s))(ev_wd ev := None)) (\<lambda>_ _. False)"
    if t: "good s t" "wlCache t = wlCache s" for t
  proof -
    have slot: "slot < cacheSize t" "wd (wlCache t ! slot) = ev_wd ev"
      using assms(3,4) t(2) core_eqD(8) [OF assms(2)] by simp_all
    show ?thesis
      by (rule wp_mono [OF wp_conj [OF markCacheSlotEmpty_good [OF t(1) slot(1)] markCacheSlotEmpty_wp [OF slot(1)]]])
        (use wc.clear_lookup [OF goodD(2) [OF t(1)] slot(1)] slot(2) t(2) in \<open>auto dest: core_fieldD(3)\<close>)
  qed
  show ?thesis
  proof (cases "isRootDirPath p s")
    case True
    have "wp (zapRootDirPath p ?u)
        (\<lambda>_ t. good s t \<and> wlCache t = wlCache s \<and> length (roots t) + 1 = length (roots s) \<and> roots t \<noteq> [])
        (\<lambda>r t. r = Exit 0 \<and> roots t = [])"
      by (rule wp_mono [OF wp_conj [OF zapRootDirPath_good [OF u(1)] zapRootDirPath_wp [OF goodD(3) [OF u(1)]]]])
        (use True root u length_roots_zap [of _ s] in auto)
    then show ?thesis
      using True assms(4) unfolding event_delete_self_def Let_def wp_bnd
      by (auto simp: root roots_def elim!: wp_mono intro!: wp_mono [OF clear])
  next
    case False
    then show ?thesis
      using assms(4) u unfolding event_delete_self_def Let_def wp_bnd
      by (auto simp: root roots_def intro!: wp_mono [OF clear])
  qed
qed

end
