(* ===== verification/Dtree_Command.thy ===== *)
theory Dtree_Command
  imports Dtree_Events
begin

text \<open>
  The interactive commands of \<open>inotify_dtree.c\<close> and its main program: option parsing,
  start-up and the loop that waits for standard input and inotify events. The main loop
  is the inductive relation \<open>main_runs\<close> over iterations; its lemma shows that every state
  the program reaches satisfies the invariant \<open>dt_ok\<close>.
\<close>

section \<open>Reading a command\<close>

definition MAX_LINE :: nat where "MAX_LINE = 100"

text \<open>
  \<open>line[numRead - 1] = 0\<close> cuts the last byte; the string then ends at its first NUL.
  \<open>sscanf(line, "%c %s")\<close> takes the first byte as the command and the next word, if there
  is one, as the argument (\<open>None\<close>: \<open>arg\<close> keeps its uninitialised contents and \<open>ns\<close> is 1).
\<close>

definition command_line :: "string \<Rightarrow> string" where
  "command_line bytes = takeWhile (\<lambda>c. c \<noteq> CHR 0x00) (butlast bytes)"

definition scan_arg :: "string \<Rightarrow> string option" where
  "scan_arg l = (case takeWhile (\<lambda>c. \<not> isspace c) (dropWhile isspace l) of [] \<Rightarrow> None | w \<Rightarrow> Some w)"

definition with_arg :: "string option \<Rightarrow> (string \<Rightarrow> 'k dtree \<Rightarrow> ('a, 'k dtree) outcome) \<Rightarrow> 'k dtree
    \<Rightarrow> ('a, 'k dtree) outcome" where
  "with_arg arg f s =
     (case arg of None \<Rightarrow> Stop (Undefined ''arg is uninitialised'') s | Some a \<Rightarrow> f a s)"

section \<open>The commands\<close>

definition cmd_add :: "'k kernel \<Rightarrow> int \<Rightarrow> string \<Rightarrow> 'k dtree \<Rightarrow> (unit, 'k dtree) outcome" where
  "cmd_add K fd arg s =
     bnd (zapSubtree K fd arg s) (\<lambda>cnt s.
       watchSubtree K fd arg
         (if cnt = 0 then logMessage VB_BASIC ''Adding new subtree: %s\<newline>'' [ArgS arg] s
          else logMessage VB_BASIC ''Zapped: %s, %d entries\<newline>'' [ArgS arg, ArgI cnt] s))"

fun verify_loop :: "'k kernel \<Rightarrow> bool \<Rightarrow> watch list \<Rightarrow> nat \<Rightarrow> int \<Rightarrow> int \<Rightarrow> 'k dtree
    \<Rightarrow> (int \<times> int, 'k dtree) outcome" where
  "verify_loop K talk [] j cnt failures s = Ret (cnt, failures) s"
| "verify_loop K talk (w # ws) j cnt failures s =
     (if wd w \<ge> 0 then
        (case sys_lstat K (path w) (kern s) of (r, k) \<Rightarrow>
           (case r of
              Inl e \<Rightarrow> verify_loop K talk ws (Suc j) cnt (failures + 1)
                (if talk then logMessage VB_BASIC ''stat: [slot = %d; wd = %d] %s: %s\<newline>''
                   [ArgI (int j), ArgI (wd w), ArgS (path w), ArgS (strerror K e)] (s\<lparr>kern := k\<rparr>)
                 else s\<lparr>kern := k\<rparr>)
            | Inr st \<Rightarrow>
                if \<not> S_ISDIR (st_mode st)
                then Stop (Exit 1) (if talk then logMessage 0 ''%s is not a directory\<newline>'' [ArgS (path w)]
                       (s\<lparr>kern := k\<rparr>) else s\<lparr>kern := k\<rparr>)
                else verify_loop K talk ws (Suc j) (cnt + 1) failures
                  (if talk then logMessage VB_NOISY ''OK: [slot = %d; wd = %d] %s\<newline>''
                     [ArgI (int j), ArgI (wd w), ArgS (path w)] (s\<lparr>kern := k\<rparr>) else s\<lparr>kern := k\<rparr>)))
      else verify_loop K talk ws (Suc j) cnt failures s)"

definition cmd_verify :: "'k kernel \<Rightarrow> bool \<Rightarrow> 'k dtree \<Rightarrow> (unit, 'k dtree) outcome" where
  "cmd_verify K talk s =
     bnd (verify_loop K talk (wlCache s) 0 0 0 s) (\<lambda>(cnt, failures) s.
       Ret () (logMessage 0 ''Failures: %d\<newline>'' [ArgI failures]
                (logMessage 0 ''Successfully verified %d entries\<newline>'' [ArgI cnt] s)))"

fun list_loop :: "watch list \<Rightarrow> nat \<Rightarrow> int \<Rightarrow> 'k dtree \<Rightarrow> int \<times> 'k dtree" where
  "list_loop [] j cnt s = (cnt, s)"
| "list_loop (w # ws) j cnt s =
     (if wd w \<ge> 0
      then list_loop ws (Suc j) (cnt + 1)
             (logMessage 0 ''%d: %d %s\<newline>'' [ArgI (int j), ArgI (wd w), ArgS (path w)] s)
      else list_loop ws (Suc j) cnt s)"

definition cmd_list :: "'k dtree \<Rightarrow> (unit, 'k dtree) outcome" where
  "cmd_list s = (case list_loop (wlCache s) 0 0 s of (cnt, s) \<Rightarrow>
     Ret () (logMessage VB_BASIC ''Total entries: %d\<newline>'' [ArgI cnt] s))"

definition cmd_verbose :: "string option \<Rightarrow> 'k dtree \<Rightarrow> (unit, 'k dtree) outcome" where
  "cmd_verbose arg s = (case arg of
     Some a \<Rightarrow> Ret () (s\<lparr>verboseMask := atoi a\<rparr>)
   | None \<Rightarrow>
       let v = (if verboseMask s = 0 then 1 else 0)
       in Ret () (printf_out ''%s\<newline>'' [ArgS (if v \<noteq> 0 then ''on'' else ''off'')] (s\<lparr>verboseMask := v\<rparr>)))"

definition on_off :: "bool \<Rightarrow> 'k dtree \<Rightarrow> 'k dtree" where
  "on_off b s = printf_out ''%s\<newline>'' [ArgS (if b then ''on'' else ''off'')] s"

definition cmd_write :: "'k kernel \<Rightarrow> string \<Rightarrow> 'k dtree \<Rightarrow> (unit, 'k dtree) outcome" where
  "cmd_write K arg s =
     (case sys_fopen K arg (kern s) of (ok, k) \<Rightarrow>
        if \<not> ok
        then Stop (Undefined ''fprintf or fclose on a null stream'')
               (fprintf_stderr ''%s: perror'' [ArgS ''fopen''] (s\<lparr>kern := k\<rparr>))
        else Ret () (s\<lparr>kern := k, file_out := map path (live (wlCache s))\<rparr>))"

definition cmd_zap :: "'k kernel \<Rightarrow> int \<Rightarrow> string \<Rightarrow> 'k dtree \<Rightarrow> (unit, 'k dtree) outcome" where
  "cmd_zap K fd arg s =
     bnd (zapSubtree K fd arg s) (\<lambda>cnt s.
       Ret () (logMessage VB_BASIC ''Zapped: %s, %d entries\<newline>'' [ArgS arg, ArgI cnt] s))"

definition cmd_rebuild :: "'k kernel \<Rightarrow> int \<Rightarrow> 'k dtree \<Rightarrow> (int, 'k dtree) outcome" where
  "cmd_rebuild K fd s = reinitialize K (-1) (s\<lparr>kern := sys_close K fd (kern s)\<rparr>)"

definition cmd_help :: "char \<Rightarrow> 'k dtree \<Rightarrow> 'k dtree" where
  "cmd_help c s = fold (\<lambda>l. printf_out l [])
     [''Commands:\<newline>'',
      ''0        Rebuild cache\<newline>'',
      ''a path   Add/refresh pathname watches and cache\<newline>'',
      ''c        Verify cached pathnames\<newline>'',
      ''d        Toggle cache dumping\<newline>'',
      ''l        List cached pathnames\<newline>'',
      ''q        Quit\<newline>'',
      ''v [n]    Toggle/set verbose level for messages to stderr\<newline>'',
      ''             0 = no messages\<newline>'',
      ''             1 = basic messages\<newline>'',
      ''             2 = verbose messages\<newline>'',
      ''             3 = basic and verbose messages\<newline>'',
      ''w file   Write directory list to file\<newline>'',
      ''x        Toggle cache checking\<newline>'',
      ''z path   Zap pathname and watches from cache\<newline>'']
     (printf_out ''Unrecognized command: %c\<newline>'' [ArgS [c]] s)"

text \<open>The dispatch on the command byte: the inotify descriptor after the command.\<close>

definition keep_fd :: "int \<Rightarrow> (unit, 'k dtree) outcome \<Rightarrow> (int, 'k dtree) outcome" where
  "keep_fd fd m = bnd m (\<lambda>_ s. Ret fd s)"

definition run_command :: "'k kernel \<Rightarrow> int \<Rightarrow> char \<Rightarrow> string option \<Rightarrow> 'k dtree \<Rightarrow> (int, 'k dtree) outcome" where
  "run_command K fd c arg s =
     (if c = CHR ''a'' then keep_fd fd (with_arg arg (cmd_add K fd) s)
      else if c = CHR ''c'' then keep_fd fd (cmd_verify K True s)
      else if c = CHR ''C'' then keep_fd fd (cmd_verify K False s)
      else if c = CHR ''l'' then keep_fd fd (cmd_list s)
      else if c = CHR ''q'' then Stop (Exit 0) s
      else if c = CHR ''v'' then keep_fd fd (cmd_verbose arg s)
      else if c = CHR ''d'' then Ret fd (on_off (\<not> dumpCache s) (s\<lparr>dumpCache := \<not> dumpCache s\<rparr>))
      else if c = CHR ''x'' then Ret fd (on_off (\<not> checkCache s) (s\<lparr>checkCache := \<not> checkCache s\<rparr>))
      else if c = CHR ''w'' then keep_fd fd (with_arg arg (cmd_write K) s)
      else if c = CHR ''z'' then keep_fd fd (with_arg arg (cmd_zap K fd) s)
      else if c = CHR ''0'' then cmd_rebuild K fd s
      else Ret fd (cmd_help c s))"

definition executeCommand :: "'k kernel \<Rightarrow> int \<Rightarrow> 'k dtree \<Rightarrow> (int, 'k dtree) outcome" where
  "executeCommand K fd s =
     (case sys_stdin K MAX_LINE (kern s) of (r, k) \<Rightarrow>
        (case r of
           None \<Rightarrow> Stop (Exit 1) (printf_out ''bye!\<newline>'' [] (s\<lparr>kern := k\<rparr>))
         | Some bytes \<Rightarrow>
             if bytes = [] then Stop (Exit 1) (printf_out ''bye!\<newline>'' [] (s\<lparr>kern := k\<rparr>))
             else case command_line bytes of
               [] \<Rightarrow> Ret fd (s\<lparr>kern := k\<rparr>)
             | c # l \<Rightarrow> run_command K fd c (scan_arg l) (s\<lparr>kern := k\<rparr>)))"

section \<open>The main program\<close>

text \<open>
  \<open>getopt()\<close> delivers the options as pairs of letter and argument; any other letter is
  the question mark it returns for an unknown option.
\<close>

definition usageError :: "string \<Rightarrow> 'k dtree \<Rightarrow> ('a, 'k dtree) outcome" where
  "usageError pname s = Stop (Exit 1) (fold (\<lambda>l. fprintf_stderr l [])
     [''    -v lvl   Display logging information\<newline>'',
      ''    -l file  Send logging information to a file\<newline>'',
      ''    -x       Check cache consistency after each operation\<newline>'',
      ''    -d       Dump cache to log after every operation\<newline>'',
      ''    -b size  Set buffer size for read() from inotify FD\<newline>'',
      ''    -a file  Abort when cache inconsistency detected, and create 'stop' file\<newline>'']
     (fprintf_stderr ''Usage: %s [options] directory-path\<newline>\<newline>'' [ArgS pname] s))"

fun main_options :: "'k kernel \<Rightarrow> string \<Rightarrow> (char \<times> string) list \<Rightarrow> 'k dtree \<Rightarrow> (unit, 'k dtree) outcome" where
  "main_options K pname [] s = Ret () s"
| "main_options K pname ((c, optarg) # os) s =
     (if c = CHR ''a'' then main_options K pname os (s\<lparr>stopFile := Some optarg, abortOnCacheProblem := True\<rparr>)
      else if c = CHR ''x'' then main_options K pname os (s\<lparr>checkCache := True\<rparr>)
      else if c = CHR ''d'' then main_options K pname os (s\<lparr>dumpCache := True\<rparr>)
      else if c = CHR ''v'' then main_options K pname os (s\<lparr>verboseMask := atoi optarg\<rparr>)
      else if c = CHR ''b'' then main_options K pname os (s\<lparr>readBufferSize := atoi optarg\<rparr>)
      else if c = CHR ''l'' then
        (case sys_fopen K optarg (kern s) of (ok, k) \<Rightarrow>
           if ok then main_options K pname os (s\<lparr>kern := k, logfp := True\<rparr>)
           else errExit ''fopen'' (s\<lparr>kern := k, logfp := False\<rparr>))
      else usageError pname s)"

definition main_start :: "'k kernel \<Rightarrow> string \<Rightarrow> (char \<times> string) list \<Rightarrow> string list \<Rightarrow> 'k dtree
    \<Rightarrow> (int, 'k dtree) outcome" where
  "main_start K pname opts args s0 =
     (let s = s0\<lparr>verboseMask := 0, checkCache := False, dumpCache := False, stopFile := None, abortOnCacheProblem := False\<rparr>
      in bnd (main_options K pname opts s) (\<lambda>_ s.
         if args = [] then usageError pname s
         else bnd (copyRootDirPaths K args s) (\<lambda>_ s.
           bnd (reinitialize K (-1) s) (\<lambda>fd s. Ret fd (printf_out ''%s> '' [ArgS pname] s)))))"

text \<open>
  One turn of the main loop, given the descriptors \<open>select()\<close> reports ready (\<open>None\<close> for
  an error). \<open>FD_ISSET(inotifyFd)\<close> is tested with the descriptor left by the command.
\<close>

definition main_turn :: "nat \<Rightarrow> 'k kernel \<Rightarrow> string \<Rightarrow> int list option \<Rightarrow> int \<Rightarrow> 'k dtree
    \<Rightarrow> (int, 'k dtree) outcome option" where
  "main_turn fuel K pname ready fd s =
     (case ready of
        None \<Rightarrow> Some (errExit ''select'' s)
      | Some rfds \<Rightarrow>
          (case (if 0 \<in> set rfds
                 then bnd (executeCommand K fd s) (\<lambda>fd s. Ret fd (printf_out ''%s> '' [ArgS pname] s))
                 else Ret fd s) of
             Stop r s \<Rightarrow> Some (Stop r s)
           | Ret fd s \<Rightarrow> if fd \<in> set rfds then processInotifyEvents fuel K fd s else Some (Ret fd s)))"

text \<open>The states between two turns of the loop.\<close>

inductive main_runs :: "'k kernel \<Rightarrow> string \<Rightarrow> int \<times> 'k dtree \<Rightarrow> int \<times> 'k dtree \<Rightarrow> bool"
  for K pname where
  main_refl: "main_runs K pname x x"
| main_step: "main_runs K pname x (fd, s) \<Longrightarrow> main_turn fuel K pname ready fd s = Some (Ret fd' t) \<Longrightarrow>
    main_runs K pname x (fd', t)"

section \<open>The commands keep the invariant\<close>

lemma dt_ok_more [simp]:
  "dt_ok (s\<lparr>verboseMask := v\<rparr>) = dt_ok s" "dt_ok (s\<lparr>dumpCache := b\<rparr>) = dt_ok s"
  "dt_ok (s\<lparr>checkCache := b\<rparr>) = dt_ok s" "dt_ok (s\<lparr>file_out := ls\<rparr>) = dt_ok s"
  "dt_ok (printf_out f as s) = dt_ok s" "dt_ok (fprintf_stderr f as s) = dt_ok s"
  "dt_ok (on_off b s) = dt_ok s"
  by (simp_all add: dt_ok_def roots_ok_def on_off_def)

lemma core_cmd_help [simp]: "core (cmd_help c s) = core s"
  by (simp add: cmd_help_def)

lemma core_list_loop [simp]: "core (snd (list_loop ws j cnt s)) = core s"
  by (induction ws arbitrary: j cnt s) auto

lemma dt_ok_core: "core t = core s \<Longrightarrow> dt_ok t = dt_ok s"
  using core_eqD [of t s] by (simp add: dt_ok_def roots_ok_def)

lemma verify_loop_good:
  "good s u \<Longrightarrow> wp (verify_loop K talk ws j c f u) (\<lambda>_ t. good s t) (\<lambda>_ _. True)"
  by (induction K talk ws j c f u rule: verify_loop.induct) (auto split: prod.splits sum.splits)

lemma cmd_add_good:
  assumes "kernel_ok K" "good s u"
  shows "wp (cmd_add K fd arg u) (\<lambda>_ t. good s t) (\<lambda>r _. stop_ok s r)"
  unfolding cmd_add_def wp_bnd
  by (rule wp_mono [OF zapSubtree_good [OF assms(2)]])
    (auto intro!: watchSubtree_good assms(1))

lemma run_command_dt:
  assumes "kernel_ok K" "dt_ok s"
  shows "wp (run_command K fd c arg s) (\<lambda>_ t. dt_ok t) (\<lambda>_ _. True)"
proof -
  have s: "good s s" using assms(2) by (rule good_refl)
  have "wp (cmd_add K fd a s) (\<lambda>_ t. dt_ok t) (\<lambda>_ _. True)" for a
    by (rule wp_mono [OF cmd_add_good [OF assms(1) s]]) (auto dest: goodD(1))
  moreover have "wp (cmd_verify K talk s) (\<lambda>_ t. dt_ok t) (\<lambda>_ _. True)" for talk
    unfolding cmd_verify_def wp_bnd
    by (rule wp_mono [OF verify_loop_good [OF s]]) (auto dest: goodD(1))
  moreover have "wp (cmd_list s) (\<lambda>_ t. dt_ok t) (\<lambda>_ _. True)"
    using assms(2) dt_ok_core [OF core_list_loop [of "wlCache s" 0 0 s]]
    by (simp add: cmd_list_def case_prod_beta)
  moreover have "wp (cmd_verbose arg s) (\<lambda>_ t. dt_ok t) (\<lambda>_ _. True)"
    using assms(2) by (simp add: cmd_verbose_def Let_def split: option.splits)
  moreover have "wp (cmd_write K a s) (\<lambda>_ t. dt_ok t) (\<lambda>_ _. True)" for a
    using assms(2) by (simp add: cmd_write_def split: prod.splits)
  moreover have "wp (cmd_zap K fd a s) (\<lambda>_ t. dt_ok t) (\<lambda>_ _. True)" for a
    unfolding cmd_zap_def wp_bnd by (rule wp_mono [OF zapSubtree_good [OF s]]) (auto dest: goodD(1))
  moreover have "wp (cmd_rebuild K fd s) (\<lambda>_ t. dt_ok t) (\<lambda>_ _. True)"
    unfolding cmd_rebuild_def
    by (rule wp_mono [OF reinitialize_good [OF assms(1), of s]]) (use s in \<open>auto dest: goodD(1)\<close>)
  ultimately show ?thesis
    using assms(2) dt_ok_core [OF core_cmd_help, of c s]
    by (simp add: run_command_def keep_fd_def with_arg_def split: option.splits)
qed

lemma executeCommand_dt:
  assumes "kernel_ok K" "dt_ok s"
  shows "wp (executeCommand K fd s) (\<lambda>_ t. dt_ok t) (\<lambda>_ _. True)"
  unfolding executeCommand_def
  using run_command_dt [OF assms(1)] assms(2)
  by (auto split: prod.splits option.splits list.splits)

section \<open>Every state of the main loop is well-formed\<close>

lemma processInotifyEvents_ok:
  assumes "kernel_ok K" "read_ok K" "dt_ok s" "processInotifyEvents fuel K fd s = Some out"
  shows "wp out (\<lambda>_ t. good s t) (\<lambda>r _. stop_ok s r \<or> readBufferSize s > INOTIFY_READ_BUF_LEN)"
proof -
  obtain ok k where sa: "sys_sigaction K (kern s) = (ok, k)" by fastforce
  let ?cnt = "if readBufferSize s > 0 then readBufferSize s else INOTIFY_READ_BUF_LEN"
  obtain r k' where rd: "sys_read K fd (nat ?cnt) k = (r, k')" by fastforce
  show ?thesis
  proof (cases "ok \<and> (\<exists>evs. r = Inr evs \<and> evs \<noteq> [])")
    case False
    with assms(4) sa rd show ?thesis
      by (auto simp: processInotifyEvents_def errExit_def Let_def split: sum.splits if_splits)
  next
    case True
    then obtain evs where evs: "ok" "r = Inr evs" "evs \<noteq> []" by blast
    have rd': "sys_read K fd (nat ?cnt) k = (Inr evs, k')" using rd evs by simp
    show ?thesis
    proof (cases "buf_bytes evs > INOTIFY_READ_BUF_LEN")
      case True
      have "readBufferSize s > INOTIFY_READ_BUF_LEN"
        using read_okD(1) [OF assms(2) rd'] True
        by (auto simp: INOTIFY_READ_BUF_LEN_def sizeof_event_def NAME_MAX_def split: if_splits)
      with assms(4) sa rd evs True show ?thesis
        by (auto simp: processInotifyEvents_def Let_def split: if_splits)
    next
      case False
      let ?s = "logMessage VB_NOISY ''\<newline>==========> Read %d: got %zd bytes\<newline>''
          [ArgI (inotifyReadCnt s + 1), ArgI (buf_bytes evs)]
          (s\<lparr>kern := k', inotifyReadCnt := inotifyReadCnt s + 1\<rparr>)"
      have loop: "event_loop fuel K fd evs (buf_bytes evs) True ?s = Some out"
        using assms(4) sa rd evs False by (simp add: processInotifyEvents_def Let_def split: if_splits)
      have buf: "buf_ok evs (buf_bytes evs) True"
        using False read_okD(2) [OF assms(2) rd'] by (auto simp: buf_ok_def)
      have good: "good s ?s" using assms(3) by (simp add: good_refl)
      show ?thesis
        by (rule wp_mono [OF event_loop_ok [OF assms(1,2) good buf loop]]) auto
    qed
  qed
qed

lemma main_command_dt:
  assumes "kernel_ok K" "dt_ok s"
  shows "wp (if b then bnd (executeCommand K fd s) (\<lambda>fd s. Ret fd (printf_out ''%s> '' [ArgS pname] s))
      else Ret fd s) (\<lambda>_ u. dt_ok u) (\<lambda>_ _. True)"
  using executeCommand_dt [OF assms, of fd] assms(2) by simp

lemma main_turn_dt:
  assumes "kernel_ok K" "read_ok K" "dt_ok s" "main_turn fuel K pname ready fd s = Some (Ret fd' t)"
  shows "dt_ok t"
proof -
  from assms(4) obtain rfds where r: "ready = Some rfds"
    by (cases ready) (simp_all add: main_turn_def errExit_def)
  define m where "m = (if 0 \<in> set rfds
    then bnd (executeCommand K fd s) (\<lambda>fd s. Ret fd (printf_out ''%s> '' [ArgS pname] s)) else Ret fd s)"
  have ok: "wp m (\<lambda>_ u. dt_ok u) (\<lambda>_ _. True)"
    unfolding m_def by (rule main_command_dt [OF assms(1,3)])
  have turn: "(case m of Stop r s \<Rightarrow> Some (Stop r s)
      | Ret fd s \<Rightarrow> if fd \<in> set rfds then processInotifyEvents fuel K fd s else Some (Ret fd s)) = Some (Ret fd' t)"
    using assms(4) unfolding main_turn_def r m_def by simp
  show ?thesis
  proof (cases m)
    case (Ret fd1 u)
    then have u: "dt_ok u" using ok by simp
    show ?thesis
    proof (cases "fd1 \<in> set rfds")
      case True
      then have "processInotifyEvents fuel K fd1 u = Some (Ret fd' t)" using turn Ret by simp
      from processInotifyEvents_ok [OF assms(1,2) u this] show ?thesis by (simp add: goodD(1))
    next
      case False
      then show ?thesis using turn Ret u by simp
    qed
  next
    case (Stop r u)
    then show ?thesis using turn by simp
  qed
qed

lemma main_runs_dt:
  "main_runs K pname x y \<Longrightarrow> kernel_ok K \<Longrightarrow> read_ok K \<Longrightarrow> dt_ok (snd x) \<Longrightarrow> dt_ok (snd y)"
  by (induction rule: main_runs.induct) (auto dest: main_turn_dt)

lemma main_start_dt:
  assumes "kernel_ok K" "\<forall>p \<in> set args. path_ok p"
  shows "wp (main_start K pname opts args s) (\<lambda>_ t. dt_ok t) (\<lambda>_ _. True)"
proof -
  have "wp (reinitialize K (-1) u) (\<lambda>fd t. dt_ok (printf_out ''%s> '' [ArgS pname] t)) (\<lambda>_ _. True)"
    if "rootDirPaths u = map Some args" "ignoreRootDirs u = 0" for u
    by (rule wp_mono [OF reinitialize_wp [OF assms(1)]])
      (use roots_ok_start [OF that assms(2)] in \<open>simp_all only: dt_ok_more, auto simp: dt_ok_def roots_ok_conf\<close>)
  then have "wp (copyRootDirPaths K args u)
      (\<lambda>_ t. wp (reinitialize K (-1) t) (\<lambda>fd t. dt_ok (printf_out ''%s> '' [ArgS pname] t)) (\<lambda>_ _. True))
      (\<lambda>_ _. True)" for u
    by (auto intro!: wp_mono [OF copyRootDirPaths_wp])
  moreover have "wp (main_options K pname opts u) Q (\<lambda>_ _. True)" if "\<And>t. Q () t" for u Q
    using that by (induction K pname opts u rule: main_options.induct)
      (auto simp: usageError_def errExit_def split: prod.splits)
  ultimately show ?thesis
    by (simp add: main_start_def Let_def usageError_def)
qed

end
