(* ===== verification/Dtree_Sample.thy ===== *)
theory Dtree_Sample
  imports Dtree_Mirror Dtree_Command
begin

text \<open>
  A concrete operating system and concrete states, on which the properties of
  \<open>inotify_dtree.c\<close> are instantiated. \<open>still_kernel D\<close> has the directories \<open>D\<close>, gives the
  \<open>i\<close>-th of them the watch descriptor \<open>i + 1\<close>, never runs out of memory and delivers no
  further events.
\<close>

fun position :: "string \<Rightarrow> string list \<Rightarrow> nat option" where
  "position p [] = None"
| "position p (q # qs) = (if p = q then Some 0 else map_option Suc (position p qs))"

definition sample_wd :: "string list \<Rightarrow> string \<Rightarrow> int" where
  "sample_wd D p = (case position p D of None \<Rightarrow> 0 | Some i \<Rightarrow> int i + 1)"

definition dir_mode :: u32 where "dir_mode = 0x41ED"

definition at_or_below :: "string \<Rightarrow> string \<Rightarrow> bool" where
  "at_or_below p q \<longleftrightarrow> q = p \<or> take (Suc (length p)) q = p @ ''/''"

definition still_kernel :: "string list \<Rightarrow> unit kernel" where
  "still_kernel D = \<lparr>
     sys_realloc = \<lambda>n k. (Some (\<lambda>_. \<lparr>wd = 7, path = ''?''\<rparr>), k),
     sys_alloc = \<lambda>k. (True, k),
     sys_creat = \<lambda>f k. k,
     sys_sigaction = \<lambda>k. (True, k),
     sys_lstat = \<lambda>p k. (case position p D of None \<Rightarrow> Inl ENOENT
                   | Some i \<Rightarrow> Inr \<lparr>st_mode = dir_mode, st_dev = 1, st_ino = int i\<rparr>, k),
     sys_nftw = \<lambda>p k. ((map (\<lambda>q. (q, dir_mode)) (filter (at_or_below p) D), None), k),
     sys_inotify_init = \<lambda>k. (3, k),
     sys_add_watch = \<lambda>fd p m k. (case position p D of None \<Rightarrow> Inl ENOENT | Some i \<Rightarrow> Inr (int i + 1), k),
     sys_rm_watch = \<lambda>fd d k. (None, k),
     sys_close = \<lambda>fd k. k,
     sys_read = \<lambda>fd n k. (Inl EINTR, k),
     sys_stdin = \<lambda>n k. (None, k),
     sys_fopen = \<lambda>p k. (True, k),
     strerror = \<lambda>e. ''error''\<rparr>"

definition sample_state :: "watch list \<Rightarrow> string list \<Rightarrow> unit dtree" where
  "sample_state ws rs = \<lparr>
     verboseMask = 0, checkCache = False, dumpCache = False, readBufferSize = 0, stopFile = None,
     abortOnCacheProblem = False, logfp = False, inotifyReadCnt = 0, wlCache = ws,
     rootDirPaths = map Some rs, ignoreRootDirs = 0, rootDirStat = [], dirCnt = 0, ifd = 0,
     reinitCnt = 0, overflowCnt = 0, err_out = [], log_out = [], std_out = [], file_out = [],
     kern = ()\<rparr>"

lemma sample_state_simps [simp]:
  "wlCache (sample_state ws rs) = ws" "rootDirPaths (sample_state ws rs) = map Some rs"
  "ignoreRootDirs (sample_state ws rs) = 0" "checkCache (sample_state ws rs) = False"
  "dumpCache (sample_state ws rs) = False" "abortOnCacheProblem (sample_state ws rs) = False"
  "readBufferSize (sample_state ws rs) = 0" "logfp (sample_state ws rs) = False"
  by (simp_all add: sample_state_def)

lemma sample_roots [simp]: "roots (sample_state ws rs) = rs"
  by (simp add: roots_def List.map_filter_def)

lemma sample_roots_ok: "\<forall>p \<in> set rs. path_ok p \<Longrightarrow> roots_ok (sample_state ws rs)"
  by (simp add: roots_ok_start)

lemma sample_dt_ok: "cache_ok ws \<Longrightarrow> \<forall>p \<in> set rs. path_ok p \<Longrightarrow> dt_ok (sample_state ws rs)"
  by (simp add: dt_ok_def roots_ok_start)

lemma sample_quiet: "\<not> logs_noisy (sample_state ws rs)"
  by (simp add: logs_noisy_def sample_state_def)

lemma sample_safe [simp]: "safe_opts (sample_state ws rs)"
  by (simp add: safe_opts_def)

lemma at_or_below_iff: "at_or_below p q \<longleftrightarrow> below p q"
proof -
  have "take (Suc (length p)) q = p @ ''/'' \<longleftrightarrow> (\<exists>t. q = p @ CHR ''/'' # t)"
  proof
    assume "take (Suc (length p)) q = p @ ''/''"
    then have "q = (p @ ''/'') @ drop (Suc (length p)) q" by (metis append_take_drop_id)
    then show "\<exists>t. q = p @ CHR ''/'' # t" by auto
  qed auto
  then show ?thesis by (auto simp: at_or_below_def below_def)
qed

lemma position_Some: "p \<in> set D \<longleftrightarrow> position p D \<noteq> None"
  by (induction D) auto

lemma position_nth: "position p D = Some i \<Longrightarrow> i < length D \<and> D ! i = p"
  by (induction D arbitrary: i) (auto split: if_splits)

lemma sample_kernel_ok: "\<forall>p \<in> set D. path_ok p \<Longrightarrow> kernel_ok (still_kernel D)"
  by (auto simp: kernel_ok_def still_kernel_def split: option.splits)

lemma sample_static:
  assumes "\<forall>p \<in> set D. path_ok p"
  shows "static_fs (still_kernel D) (set D) (sample_wd D)"
proof -
  have "inj_on (sample_wd D) (set D)"
  proof (rule inj_onI)
    fix p q
    assume "p \<in> set D" "q \<in> set D" "sample_wd D p = sample_wd D q"
    then obtain i where "position p D = Some i" "position q D = Some i"
      by (auto simp: position_Some sample_wd_def)
    then show "p = q" using position_nth by metis
  qed
  moreover have "walk_dirs (fst (fst (sys_nftw (still_kernel D) p k))) = {q \<in> set D. below p q}" for p k
    by (auto simp: walk_dirs_def still_kernel_def at_or_below_iff S_ISDIR_def dir_mode_def)
  moreover have "fst (sys_add_watch (still_kernel D) fd p m k) = Inr (sample_wd D p)"
    if "p \<in> set D" for fd p m k
    using that by (auto simp: still_kernel_def sample_wd_def position_Some split: option.splits)
  ultimately show ?thesis
    using sample_kernel_ok [OF assms] by (auto simp: static_fs_def)
qed

lemma sample_resources [simp]: "resources_ok (still_kernel D)"
  by (simp add: resources_ok_def still_kernel_def)

lemma sample_read_ok [simp]: "read_ok (still_kernel D)"
  by (simp add: read_ok_def still_kernel_def)

section \<open>A small tree\<close>

definition sample_dirs :: "string list" where
  "sample_dirs = [''/r'', ''/r/a'', ''/r/a/b'', ''/s'']"

definition sample_cache :: "watch list" where
  "sample_cache = [\<lparr>wd = 1, path = ''/r''\<rparr>, \<lparr>wd = 2, path = ''/r/a''\<rparr>, \<lparr>wd = -1, path = []\<rparr>,
     \<lparr>wd = 3, path = ''/r/a/b''\<rparr>]"

lemma sample_dirs_ok: "\<forall>p \<in> set sample_dirs. path_ok p"
  by (simp add: sample_dirs_def path_ok_def PATH_MAX_def)

lemmas sample_fs = sample_static [OF sample_dirs_ok]

lemma sample_cache_ok: "cache_ok sample_cache"
  by (simp add: cache_ok_def sample_cache_def slot_ok_def path_ok_def PATH_MAX_def)

lemma sample_cache_map: "cache_map sample_cache = [1 \<mapsto> ''/r'', 2 \<mapsto> ''/r/a'', 3 \<mapsto> ''/r/a/b'']"
  by (auto simp: cache_map_def sample_cache_def fun_eq_iff)

lemma sample_mirrors: "mirrors (sample_wd sample_dirs) {''/r'', ''/r/a'', ''/r/a/b''} sample_cache"
  by (auto simp: mirrors_def sample_cache_ok sample_cache_map sample_wd_def sample_dirs_def split: if_splits)

lemma sample_root_ok: "dt_ok (sample_state sample_cache [''/r''])"
  by (rule sample_dt_ok) (simp_all add: sample_cache_ok path_ok_def PATH_MAX_def)

end
