(* ===== verification/Dtree_Properties.thy ===== *)
theory Dtree_Properties
  imports Dtree_Sample
begin

text \<open>
  The properties of \<open>inotify_dtree.c\<close>. Each is stated over the operations of the model,
  follows from the lemmas of the component theories, and is instantiated on the small tree
  of \<open>Dtree_Sample\<close>.
\<close>

section \<open>The cache\<close>

text \<open>
  \<open>findWatch()\<close> implements the lookup of the map the cache stands for: for a descriptor
  the kernel may hand out it answers with the slot that holds exactly the watched path, and
  with -1 when the descriptor is not watched.
\<close>

lemma findWatch_correct:
  assumes "cache_ok ws" "0 \<le> d"
  shows "case cache_map ws d of
      None \<Rightarrow> findWatch ws d = -1
    | Some p \<Rightarrow> \<exists>i < length ws. findWatch ws d = int i \<and> ws ! i = \<lparr>wd = d, path = p\<rparr>"
proof (cases "cache_map ws d")
  case None
  then have "findWatch ws d < 0" using wc.find_iff [OF assms(2), of ws] by linarith
  with None show ?thesis
    using find_slot_neg_eq [of "\<lambda>w. wd w = d" ws 0] by (simp add: findWatch_def)
next
  case (Some p)
  from cache_slot_of [OF assms(1) this] obtain i
    where "i < length ws" "findWatch ws d = int i" "ws ! i = \<lparr>wd = d, path = p\<rparr>" .
  with Some show ?thesis by auto
qed

text \<open>
  C37: \<open>addWatchToCache()\<close> implements map update: on a well-formed cache and for a descriptor
  that is not watched yet it either returns a slot that holds the new watch, the cache being
  well-formed and standing for the old map with the one binding added; or the process exits
  with status 1 because the array could not be enlarged, and then the array is lost; or, only
  if noisy messages go to the terminal or to a log file, the message about a slot of the
  enlarged array reads memory that was never set.
\<close>

theorem addWatchToCache_refines:
  assumes "cache_ok (wlCache s)" "0 \<le> d" "path_ok p" "cache_map (wlCache s) d = None"
  shows "wp (addWatchToCache K d p s)
     (\<lambda>slot t. cache_ok (wlCache t) \<and> cache_map (wlCache t) = (cache_map (wlCache s))(d \<mapsto> p) \<and>
        slot < cacheSize t \<and> wlCache t ! slot = \<lparr>wd = d, path = p\<rparr>)
     (\<lambda>r t. r = Exit 1 \<and> wlCache t = [] \<or> logs_noisy s \<and> r = fresh_memory)"
  by (rule wp_mono [OF addWatchToCache_wp [OF assms]]) (auto dest: core_fieldD(1))

theorem addWatchToCache_refines_witness:
  "wp (addWatchToCache (still_kernel sample_dirs) 4 ''/s'' (sample_state sample_cache [''/r'']))
     (\<lambda>slot t. cache_map (wlCache t) = (cache_map sample_cache)(4 \<mapsto> ''/s'')) (\<lambda>r t. r = Exit 1 \<and> wlCache t = [])"
  using addWatchToCache_refines [of "sample_state sample_cache [''/r'']" 4 "''/s''" "still_kernel sample_dirs"]
  by (auto simp: sample_cache_ok sample_cache_map path_ok_def PATH_MAX_def sample_quiet elim!: wp_mono)

text \<open>
  \<open>zapSubtree()\<close> removes exactly the watches at or below the given path and returns how
  many they were; it returns -1 only after the kernel refused to remove a watch. In every
  case the cache stays well-formed, and the process is never stopped.
\<close>

lemma zapSubtree_exact:
  assumes "cache_ok (wlCache s)" "cstring pn"
  shows "wp (zapSubtree K fd pn s)
     (\<lambda>r t. cache_ok (wlCache t) \<and> rootDirPaths t = rootDirPaths s \<and>
        (r = int (card {d. \<exists>p. cache_map (wlCache s) d = Some p \<and> below pn p}) \<and>
         (\<forall>d p. cache_map (wlCache t) d = Some p \<longleftrightarrow> cache_map (wlCache s) d = Some p \<and> \<not> below pn p)
         \<or> r = -1 \<and> rm_refused K fd))
     (\<lambda>_ _. False)"
proof -
  have b: "path_below pn p = below pn p" if "cache_map (wlCache s) d = Some p" for d p
    using below_path [OF assms(2)] cache_path_ok [OF assms(1) that] by (simp add: path_ok_def)
  have "\<forall>d p. cache_map (map (zap_slot pn) (wlCache s)) d = Some p \<longleftrightarrow>
      cache_map (wlCache s) d = Some p \<and> \<not> below pn p"
    using cache_map_zap [OF assms(1)] b by blast
  moreover have "length (zapped pn (wlCache s)) = card {d. \<exists>p. cache_map (wlCache s) d = Some p \<and> below pn p}"
    by (rule zapped_card [OF assms])
  ultimately show ?thesis
    by (intro wp_mono [OF wp_conj [OF zapSubtree_wp [OF assms(1), of K fd pn] zapSubtree_fail]])
      (auto simp: same_conf_def)
qed

section \<open>Rebuilding and following the tree\<close>

text \<open>
  C1: \<open>reinitialize()\<close> is correct on a file system that does not change during the walk: it
  returns (with enough memory and descriptors, and without noisy messages), and afterwards the
  cache holds exactly one entry for each directory at or below a root that is still monitored, under the descriptor
  the kernel gave it, and nothing else.
\<close>

theorem reinitialize_mirrors_tree:
  assumes "static_fs K D wdf" "resources_ok K" "\<not> logs_noisy s"
  shows "\<exists>fd t. reinitialize K old s = Ret fd t \<and> cache_ok (wlCache t) \<and> roots t = roots s \<and>
    (\<forall>d q. cache_map (wlCache t) d = Some q \<longleftrightarrow>
       q \<in> D \<and> d = wdf q \<and> (\<exists>p \<in> set (roots s). below p q))"
proof -
  have "mirrors wdf (monitored D s) (wlCache t) \<Longrightarrow> same_conf s t \<Longrightarrow>
      cache_ok (wlCache t) \<and> roots t = roots s \<and> (\<forall>d q. cache_map (wlCache t) d = Some q \<longleftrightarrow>
       q \<in> D \<and> d = wdf q \<and> (\<exists>p \<in> set (roots s). below p q))" for t
    by (auto simp: mirrors_def monitored_def roots_def same_conf_def)
  then show ?thesis
    using reinitialize_mirrors [OF assms, of old] by (cases "reinitialize K old s") auto
qed

theorem reinitialize_mirrors_tree_witness:
  "\<exists>fd t. reinitialize (still_kernel sample_dirs) (-1) (sample_state [] [''/r'']) = Ret fd t \<and>
     cache_map (wlCache t) 3 = Some ''/r/a/b'' \<and> cache_map (wlCache t) 4 = None"
proof -
  obtain fd t where t: "reinitialize (still_kernel sample_dirs) (-1) (sample_state [] [''/r'']) = Ret fd t"
    and m: "\<And>d q. cache_map (wlCache t) d = Some q \<longleftrightarrow>
       q \<in> set sample_dirs \<and> d = sample_wd sample_dirs q \<and> (\<exists>p \<in> set [''/r'']. below p q)"
    using reinitialize_mirrors_tree [OF sample_fs sample_resources, of "sample_state [] [''/r'']" "-1"]
    by (auto simp: sample_quiet)
  have "cache_map (wlCache t) 3 = Some ''/r/a/b''"
    unfolding m by (simp add: sample_dirs_def sample_wd_def below_def)
  moreover have "cache_map (wlCache t) 4 \<noteq> Some q" for q
    unfolding m by (auto simp: sample_dirs_def sample_wd_def below_def)
  ultimately show ?thesis using t by (metis not_None_eq)
qed

text \<open>
  C2: a rename inside the monitored trees. When an \<open>IN_MOVED_FROM\<close> event of a directory is
  followed in the buffer by the \<open>IN_MOVED_TO\<close> event with the same cookie, both events are
  consumed, and the cache stands for the map in which every path at or below the old name
  has moved to the same place below the new name, all descriptors being kept (provided the
  new paths fit in \<open>PATH_MAX\<close>).
\<close>

theorem rename_event_refines:
  assumes "dt_ok s" "\<not> checkCache s" "\<not> dumpCache s"
    and "ev_mask ev = IN_MOVED_FROM OR IN_ISDIR" "has (ev_mask nx) IN_MOVED_TO" "ev_cookie nx = ev_cookie ev"
    and "cache_map (wlCache s) (ev_wd ev) = Some p" "cache_map (wlCache s) (ev_wd nx) = Some q"
    and "cstring (ev_name ev)" "cstring (ev_name nx)" "ev_bytes ev < bufSize"
    and "length (p @ ''/'' @ ev_name ev) < PATH_MAX" "length (q @ ''/'' @ ev_name nx) < PATH_MAX"
    and "\<And>r. r \<in> cached (wlCache s) \<Longrightarrow>
      length (rename_path (p @ ''/'' @ ev_name ev) (q @ ''/'' @ ev_name nx) r) < PATH_MAX"
  shows "\<exists>t. processNextInotifyEvent K fd ev (Some nx) bufSize firstTry s
        = Ret (fd, ev_bytes ev + ev_bytes nx) t \<and> dt_ok t \<and>
      cache_map (wlCache t) = (\<lambda>d. map_option (rename_path (p @ ''/'' @ ev_name ev) (q @ ''/'' @ ev_name nx))
                                  (cache_map (wlCache s) d))"
proof -
  let ?g = "rename_path (p @ ''/'' @ ev_name ev) (q @ ''/'' @ ev_name nx)"
  let ?Q = "\<lambda>x t. x = (fd, ev_bytes ev + ev_bytes nx) \<and> dt_ok t \<and>
      cache_map (wlCache t) = (\<lambda>d. map_option ?g (cache_map (wlCache s) d))"
  have ok: "cache_ok (wlCache s)" using assms(1) by (simp add: dt_ok_def)
  have c: "cstring p" "cstring q"
    using cache_path_ok [OF ok assms(7)] cache_path_ok [OF ok assms(8)] by (auto simp: path_ok_def)
  have "wp (processNextInotifyEvent K fd ev (Some nx) bufSize firstTry s) ?Q (\<lambda>_ _. False)"
  proof (rule processNextInotifyEvent_known [OF ok assms(7)])
    show "\<not> has (ev_mask ev) IN_IGNORED" by (simp add: assms(4) has_def in_flags)
  next
    fix slot and u :: "'a dtree"
    assume slot: "slot < cacheSize u" "wlCache u ! slot = \<lparr>wd = ev_wd ev, path = p\<rparr>" and u: "core u = core s"
    let ?t = "rewriteCachedPaths p (ev_name ev) q (ev_name nx) u"
    have ws: "wlCache u = wlCache s" using core_eqD(8) [OF u] .
    have "event_branch K fd ev (Some nx) bufSize firstTry (Some slot) u = event_rename K fd ev slot nx u"
      using assms(4-6,11)
      by (simp add: event_branch_def with_slot_def event_moved_from_def has_def in_flags)
    also have "\<dots> = Ret (fd, Continue (ev_bytes ev + ev_bytes nx)) ?t"
      by (rule event_rename_spec) (use ok slot assms(8) ws in auto)
    finally have b: "event_branch K fd ev (Some nx) bufSize firstTry (Some slot) u
        = Ret (fd, Continue (ev_bytes ev + ev_bytes nx)) ?t" .
    have good: "good s ?t"
      using assms c by (intro rewriteCachedPaths_good good_core [OF assms(1) u])
    then have "\<not> checkCache ?t \<and> \<not> dumpCache ?t"
      using assms(2,3) by (simp add: good_def same_opts_def)
    moreover have "cache_map (wlCache ?t) = (\<lambda>d. map_option ?g (cache_map (wlCache s) d))"
      using rewriteCachedPaths_rename [of u] ws ok assms(9,10,12-) c by simp
    ultimately show "wp (event_branch K fd ev (Some nx) bufSize firstTry (Some slot) u)
        (\<lambda>x t. ?Q (fst x, amount (snd x)) t \<and> \<not> checkCache t \<and> \<not> dumpCache t) (\<lambda>_ _. False)"
      unfolding b using goodD(1) [OF good] by simp
  qed
  then show ?thesis by (cases "processNextInotifyEvent K fd ev (Some nx) bufSize firstTry s") auto
qed

theorem rename_event_refines_witness:
  "\<exists>t. processNextInotifyEvent (still_kernel sample_dirs) 3
      \<lparr>ev_wd = 1, ev_mask = IN_MOVED_FROM OR IN_ISDIR, ev_cookie = 5, ev_len = 16, ev_name = ''a''\<rparr>
      (Some \<lparr>ev_wd = 1, ev_mask = IN_MOVED_TO OR IN_ISDIR, ev_cookie = 5, ev_len = 16, ev_name = ''z''\<rparr>)
      64 True (sample_state sample_cache [''/r'']) = Ret (3, 64) t \<and>
    cache_map (wlCache t) 3 = Some ''/r/z/b''"
proof -
  let ?ev = "\<lparr>ev_wd = 1, ev_mask = IN_MOVED_FROM OR IN_ISDIR, ev_cookie = 5, ev_len = 16, ev_name = ''a''\<rparr>"
  let ?nx = "\<lparr>ev_wd = 1, ev_mask = IN_MOVED_TO OR IN_ISDIR, ev_cookie = 5, ev_len = 16, ev_name = ''z''\<rparr>"
  let ?s = "sample_state sample_cache [''/r'']"
  have cached: "cached sample_cache = {''/r'', ''/r/a'', ''/r/a/b''}"
    using mirrors_cached [OF sample_mirrors] .
  have "\<exists>t. processNextInotifyEvent (still_kernel sample_dirs) 3 ?ev (Some ?nx) 64 True ?s
        = Ret (3, ev_bytes ?ev + ev_bytes ?nx) t \<and> dt_ok t \<and>
      cache_map (wlCache t) = (\<lambda>d. map_option (rename_path (''/r'' @ ''/'' @ ev_name ?ev) (''/r'' @ ''/'' @ ev_name ?nx))
                                  (cache_map (wlCache ?s) d))"
    by (rule rename_event_refines [OF sample_root_ok])
      (auto simp: sample_cache_map cached has_def in_flags ev_bytes_def sizeof_event_def PATH_MAX_def
        rename_path_def below_def)
  then show ?thesis
    by (auto simp: ev_bytes_def sizeof_event_def sample_cache_map rename_path_def below_def)
qed

text \<open>
  C6: a new directory (created, or moved into the tree) under a cached one. If its path is
  already cached nothing changes; otherwise its whole subtree, as the walk finds it, is
  added. Either way the cache keeps mirroring the file system, and one event is consumed;
  the only other outcome is the noisy message about an uninitialised slot of an enlarged array.
\<close>

theorem new_directory_event:
  assumes "static_fs K D wdf" "resources_ok K" "C \<subseteq> D" "mirrors wdf C (wlCache s)"
    and "\<not> checkCache s" "\<not> dumpCache s"
    and "ev_mask ev = IN_CREATE OR IN_ISDIR \<or> ev_mask ev = IN_MOVED_TO OR IN_ISDIR"
    and "cache_map (wlCache s) (ev_wd ev) = Some p"
    and "cstring (ev_name ev)" "length (p @ ''/'' @ ev_name ev) < PATH_MAX + NAME_MAX"
  shows "wp (processNextInotifyEvent K fd ev next bufSize firstTry s)
    (\<lambda>x t. x = (fd, ev_bytes ev) \<and> roots t = roots s \<and>
       mirrors wdf (if p @ ''/'' @ ev_name ev \<in> C then C
                    else C \<union> {q \<in> D. below (p @ ''/'' @ ev_name ev) q}) (wlCache t))
    (\<lambda>r _. logs_noisy s \<and> r = fresh_memory)"
proof (rule processNextInotifyEvent_known [OF mirrors_ok [OF assms(4)] assms(8)])
  show "\<not> has (ev_mask ev) IN_IGNORED" using assms(7) by (auto simp: has_def in_flags)
next
  fix slot and u :: "'a dtree"
  assume slot: "slot < cacheSize u" "wlCache u ! slot = \<lparr>wd = ev_wd ev, path = p\<rparr>" and u: "core u = core s"
  have b: "event_branch K fd ev next bufSize firstTry (Some slot) u = event_new_dir K fd ev slot u"
    using assms(7) by (auto simp: event_branch_def with_slot_def has_def in_flags)
  have conf: "roots t = roots s \<and> \<not> checkCache t \<and> \<not> dumpCache t" if "same_conf u t" for t
    using that core_same_conf [OF u] assms(5,6) by (simp add: same_conf_def roots_def)
  have noisy: "logs_noisy u = logs_noisy s" using conf_noisy [OF core_same_conf [OF u]] .
  have m: "mirrors wdf C (wlCache u)" using assms(4) core_eqD(8) [OF u] by simp
  show "wp (event_branch K fd ev next bufSize firstTry (Some slot) u)
    (\<lambda>x t. ((fst x, amount (snd x)) = (fd, ev_bytes ev) \<and> roots t = roots s \<and>
       mirrors wdf (if p @ ''/'' @ ev_name ev \<in> C then C
                    else C \<union> {q \<in> D. below (p @ ''/'' @ ev_name ev) q}) (wlCache t)) \<and>
       \<not> checkCache t \<and> \<not> dumpCache t) (\<lambda>r _. logs_noisy s \<and> r = fresh_memory)"
    unfolding b
    by (rule wp_mono [OF event_new_dir_mirrors [OF assms(1-3) m slot(1) _ assms(9,10)]])
      (use slot(2) conf noisy in auto)
qed

theorem new_directory_event_witness:
  "wp (processNextInotifyEvent (still_kernel sample_dirs) 3
      \<lparr>ev_wd = 1, ev_mask = IN_CREATE OR IN_ISDIR, ev_cookie = 0, ev_len = 16, ev_name = ''a''\<rparr>
      None 32 True (sample_state [\<lparr>wd = 1, path = ''/r''\<rparr>] [''/r'']))
    (\<lambda>x t. x = (3, 32) \<and> mirrors (sample_wd sample_dirs) {''/r'', ''/r/a'', ''/r/a/b''} (wlCache t)) (\<lambda>_ _. False)"
proof -
  let ?ev = "\<lparr>ev_wd = 1, ev_mask = IN_CREATE OR IN_ISDIR, ev_cookie = 0, ev_len = 16, ev_name = ''a''\<rparr>"
  let ?s = "sample_state [\<lparr>wd = 1, path = ''/r''\<rparr>] [''/r'']"
  have m: "mirrors (sample_wd sample_dirs) {''/r''} (wlCache ?s)"
    by (auto simp: mirrors_def cache_ok_def slot_ok_def path_ok_def PATH_MAX_def cache_map_def
        sample_wd_def sample_dirs_def split: if_splits)
  have D: "{''/r''} \<union> {q \<in> set sample_dirs. below (''/r'' @ ''/'' @ ev_name ?ev) q} = {''/r'', ''/r/a'', ''/r/a/b''}"
    by (auto simp: sample_dirs_def below_def)
  have "wp (processNextInotifyEvent (still_kernel sample_dirs) 3 ?ev None 32 True ?s)
     (\<lambda>x t. x = (3, ev_bytes ?ev) \<and> roots t = roots ?s \<and>
       mirrors (sample_wd sample_dirs) (if ''/r'' @ ''/'' @ ev_name ?ev \<in> {''/r''} then {''/r''}
                    else {''/r''} \<union> {q \<in> set sample_dirs. below (''/r'' @ ''/'' @ ev_name ?ev) q}) (wlCache t))
     (\<lambda>r _. logs_noisy ?s \<and> r = fresh_memory)"
    by (rule new_directory_event [OF sample_fs sample_resources _ m])
      (simp_all add: sample_dirs_def cache_map_def PATH_MAX_def NAME_MAX_def)
  then show ?thesis
    by (rule wp_mono) (use D in \<open>auto simp: ev_bytes_def sizeof_event_def sample_quiet\<close>)
qed

text \<open>
  A directory moved out of the trees: an \<open>IN_MOVED_FROM\<close> event that is not followed by
  its \<open>IN_MOVED_TO\<close> event, with later events in the buffer or on the second look. The watches
  at or below the old path, and only those, are dropped and the event is consumed; if the
  kernel refuses to drop one, the whole cache is rebuilt and the rest of the buffer is
  discarded.
\<close>

lemma moved_out_event:
  assumes "static_fs K D wdf" "resources_ok K" "cache_ok (wlCache s)" "\<not> checkCache s" "\<not> dumpCache s"
    and quiet: "\<not> logs_noisy s"
    and "ev_mask ev = IN_MOVED_FROM OR IN_ISDIR" "cache_map (wlCache s) (ev_wd ev) = Some p"
    and "if ev_bytes ev < bufSize
         then \<exists>nx. next = Some nx \<and> \<not> (has (ev_mask nx) IN_MOVED_TO \<and> ev_cookie nx = ev_cookie ev)
         else \<not> firstTry"
    and "cstring (ev_name ev)" "length (p @ ''/'' @ ev_name ev) < PATH_MAX + NAME_MAX"
  shows "wp (processNextInotifyEvent K fd ev next bufSize firstTry s)
    (\<lambda>x t. x = (fd, ev_bytes ev) \<and> cache_ok (wlCache t) \<and>
         (\<forall>d r. cache_map (wlCache t) d = Some r \<longleftrightarrow>
            cache_map (wlCache s) d = Some r \<and> \<not> below (p @ ''/'' @ ev_name ev) r) \<or>
       snd x = INOTIFY_READ_BUF_LEN \<and> mirrors wdf (monitored D s) (wlCache t))
    (\<lambda>_ _. False)"
proof (rule processNextInotifyEvent_known [OF assms(3,8)])
  show "\<not> has (ev_mask ev) IN_IGNORED" by (simp add: assms(7) has_def in_flags)
next
  fix slot and u :: "'a dtree"
  assume slot: "slot < cacheSize u" "wlCache u ! slot = \<lparr>wd = ev_wd ev, path = p\<rparr>" and u: "core u = core s"
  have b: "event_branch K fd ev next bufSize firstTry (Some slot) u
      = event_moved_out K fd ev slot bufSize firstTry u"
    using assms(7,9)
    by (auto simp: event_branch_def with_slot_def event_moved_from_def has_def in_flags split: if_splits)
  have ws: "wlCache u = wlCache s" using core_eqD(8) [OF u] .
  have conf: "\<not> checkCache t \<and> \<not> dumpCache t" if "same_conf u t" for t
    using that core_same_conf [OF u] assms(4,5) by (simp add: same_conf_def)
  have mon: "monitored D u = monitored D s" by (rule monitored_conf [OF core_same_conf [OF u]])
  show "wp (event_branch K fd ev next bufSize firstTry (Some slot) u)
    (\<lambda>x t. ((fst x, amount (snd x)) = (fd, ev_bytes ev) \<and> cache_ok (wlCache t) \<and>
         (\<forall>d r. cache_map (wlCache t) d = Some r \<longleftrightarrow>
            cache_map (wlCache s) d = Some r \<and> \<not> below (p @ ''/'' @ ev_name ev) r) \<or>
       snd (fst x, amount (snd x)) = INOTIFY_READ_BUF_LEN \<and> mirrors wdf (monitored D s) (wlCache t)) \<and>
       \<not> checkCache t \<and> \<not> dumpCache t) (\<lambda>_ _. False)"
    unfolding b
    by (rule wp_mono [OF event_moved_out_spec [OF assms(1,2) _ slot(1) _ assms(10,11)]])
      (use slot(2) ws assms(3) mon conf conf_noisy [OF core_same_conf [OF u]] quiet in auto)
qed

text \<open>
  The look-ahead. An \<open>IN_MOVED_FROM\<close> event at the very end of the buffer, seen for the
  first time, changes nothing but the log: the function returns -1, which makes the caller
  read more before it decides.
\<close>

lemma hanging_moved_from:
  assumes "cache_ok (wlCache s)" "ev_mask ev = IN_MOVED_FROM OR IN_ISDIR"
    and "cache_map (wlCache s) (ev_wd ev) = Some p" "bufSize \<le> ev_bytes ev"
  shows "\<exists>t. processNextInotifyEvent K fd ev next bufSize True s = Ret (fd, -1) t \<and> core t = core s"
proof -
  from cache_slot_of [OF assms(1,3)] obtain i where i: "i < cacheSize s"
    "findWatch (wlCache s) (ev_wd ev) = int i" by metis
  have "0 \<le> ev_wd ev" using cache_path_ok [OF assms(1,3)] by simp
  then have look: "event_lookup K ev (displayInotifyEvent ev s) = Ret (Some (int i)) (displayInotifyEvent ev s)"
    using assms(2) i by (simp add: event_lookup_def findWatchChecked_def has_def in_flags)
  show ?thesis
    unfolding processNextInotifyEvent_def look
    using assms(2,4) by (simp add: event_branch_def with_slot_def event_moved_from_def has_def in_flags)
qed

text \<open>
  The deletion of a watched directory removes its binding from the cache and no other.
  If the directory is a root, the root is given up too: the process then ends with status 0
  exactly when no root is left.
\<close>

lemma delete_self_event:
  assumes "dt_ok s" "\<not> checkCache s" "\<not> dumpCache s" "ev_mask ev = IN_DELETE_SELF"
    and "cache_map (wlCache s) (ev_wd ev) = Some p"
  shows "wp (processNextInotifyEvent K fd ev next bufSize firstTry s)
    (\<lambda>x t. x = (fd, ev_bytes ev) \<and> dt_ok t \<and> cache_map (wlCache t) = (cache_map (wlCache s))(ev_wd ev := None) \<and>
       (if isRootDirPath p s then length (roots t) + 1 = length (roots s) \<and> roots t \<noteq> []
        else roots t = roots s))
    (\<lambda>r t. r = Exit 0 \<and> isRootDirPath p s \<and> roots t = [])"
proof (rule processNextInotifyEvent_known [OF _ assms(5)])
  show "cache_ok (wlCache s)" using assms(1) by (simp add: dt_ok_def)
  show "\<not> has (ev_mask ev) IN_IGNORED" by (simp add: assms(4) has_def in_flags)
next
  fix slot and u :: "'a dtree"
  assume slot: "slot < cacheSize u" "wlCache u ! slot = \<lparr>wd = ev_wd ev, path = p\<rparr>" and u: "core u = core s"
  have b: "event_branch K fd ev next bufSize firstTry (Some slot) u = event_delete_self fd ev slot u"
    using assms(4) by (simp add: event_branch_def with_slot_def has_def in_flags)
  show "wp (event_branch K fd ev next bufSize firstTry (Some slot) u)
    (\<lambda>x t. ((fst x, amount (snd x)) = (fd, ev_bytes ev) \<and> dt_ok t \<and>
       cache_map (wlCache t) = (cache_map (wlCache s))(ev_wd ev := None) \<and>
       (if isRootDirPath p s then length (roots t) + 1 = length (roots s) \<and> roots t \<noteq> []
        else roots t = roots s)) \<and> \<not> checkCache t \<and> \<not> dumpCache t)
    (\<lambda>r t. r = Exit 0 \<and> isRootDirPath p s \<and> roots t = [])"
    unfolding b
    by (rule wp_mono [OF event_delete_self_spec [OF assms(1) u slot, of fd]])
      (use assms(2,3) in \<open>auto simp: good_def same_opts_def\<close>)
qed

text \<open>
  C35: recovery. An event for a descriptor that is not in the cache, and a queue overflow,
  lead to a complete rebuild: afterwards the cache mirrors the directories below the roots
  again (without noisy messages), the rest of the buffer is discarded, and a new inotify descriptor is in use.
\<close>

theorem resync:
  assumes "static_fs K D wdf" "resources_ok K" "\<not> checkCache s" "\<not> dumpCache s" "\<not> abortOnCacheProblem s" "\<not> logs_noisy s"
    and "ev_mask ev = IN_Q_OVERFLOW \<and> ev_wd ev = -1 \<or>
         0 \<le> ev_wd ev \<and> \<not> has (ev_mask ev) IN_IGNORED \<and> cache_map (wlCache s) (ev_wd ev) = None"
  shows "\<exists>fd' t. processNextInotifyEvent K fd ev next bufSize firstTry s = Ret (fd', INOTIFY_READ_BUF_LEN) t \<and>
    mirrors wdf (monitored D s) (wlCache t) \<and> roots t = roots s"
proof -
  have conf: "roots t = roots s \<and> \<not> checkCache t \<and> \<not> dumpCache t" if "same_conf s t" for t
    using that assms(3,4) by (simp add: same_conf_def roots_def)
  have "wp (processNextInotifyEvent K fd ev next bufSize firstTry s)
    (\<lambda>x t. snd x = INOTIFY_READ_BUF_LEN \<and> mirrors wdf (monitored D s) (wlCache t) \<and> roots t = roots s)
    (\<lambda>_ _. False)"
    using assms(7)
  proof
    assume ev: "ev_mask ev = IN_Q_OVERFLOW \<and> ev_wd ev = -1"
    then have "event_branch K fd ev next bufSize firstTry None u = event_overflow K fd u" for u
      by (simp add: event_branch_def has_def in_flags)
    moreover have "event_lookup K ev u = Ret None u" for u
      using ev by (simp add: event_lookup_def)
    moreover have "monitored D (displayInotifyEvent ev s) = monitored D s"
      by (rule monitored_conf) simp
    ultimately show ?thesis
      using event_overflow_mirrors [OF assms(1,2), of "displayInotifyEvent ev s" fd] assms(6)
      unfolding processNextInotifyEvent_def wp_bnd
      by (simp, elim wp_mono) (auto simp: event_checks_def dest: conf)
  next
    assume ev: "0 \<le> ev_wd ev \<and> \<not> has (ev_mask ev) IN_IGNORED \<and> cache_map (wlCache s) (ev_wd ev) = None"
    then have none: "findWatch (wlCache s) (ev_wd ev) = -1"
      using findWatch_lookup [of "ev_wd ev" "wlCache s"] by (cases rule: findWatch_cases) auto
    let ?u = "logMessage 0 ''Could not find watch %d\<newline>'' [ArgI (ev_wd ev)] (displayInotifyEvent ev s)"
    have "event_lookup K ev (displayInotifyEvent ev s) = Ret (Some (-1)) ?u"
      using ev none assms(5) by (simp add: event_lookup_def findWatchChecked_def Let_def)
    moreover have "monitored D ?u = monitored D s" by (rule monitored_conf) simp
    ultimately show ?thesis
      using reinit_and_discard_mirrors [OF assms(1,2), of ?u fd] assms(6)
      unfolding processNextInotifyEvent_def wp_bnd
      by (simp, elim wp_mono) (auto dest: conf)
  qed
  then show ?thesis
    by (cases "processNextInotifyEvent K fd ev next bufSize firstTry s") auto
qed

theorem resync_witness:
  "\<exists>fd' t. processNextInotifyEvent (still_kernel sample_dirs) 3
      \<lparr>ev_wd = -1, ev_mask = IN_Q_OVERFLOW, ev_cookie = 0, ev_len = 0, ev_name = []\<rparr>
      None 16 True (sample_state [] [''/r'']) = Ret (fd', INOTIFY_READ_BUF_LEN) t \<and>
    mirrors (sample_wd sample_dirs) (monitored (set sample_dirs) (sample_state [] [''/r''])) (wlCache t) \<and>
    roots t = roots (sample_state [] [''/r''])"
  by (rule resync [OF sample_fs sample_resources]) (simp_all add: sample_quiet)

section \<open>Safety of the event machinery\<close>







text \<open>
  C36: the read loop ends. When the kernel has no more events to deliver, the loop over the
  events of a buffer is over after at most two rounds per event (the second one for a
  moved-from event at the end of the buffer), so that fuel for \<open>2 * length evs + 2\<close> rounds
  gives its result.
\<close>

theorem read_loop_ends:
  assumes "kernel_ok K" "read_ok K" "dt_ok s" "buf_bytes evs \<le> INOTIFY_READ_BUF_LEN" "\<forall>e \<in> set evs. event_wf e"
    and "\<And>fd m k new k'. sys_read K fd m k = (Inr new, k') \<Longrightarrow> new = []"
    and "2 * length evs + 1 < n"
  shows "\<exists>out. event_loop n K fd evs (buf_bytes evs) True s = Some out"
proof -
  have "buf_ok evs (buf_bytes evs) True" using assms(4,5) by (simp add: buf_ok_def)
  then have "event_loop n K fd evs (buf_bytes evs) True s \<noteq> None"
    by (intro event_loop_ends [where s = s] assms(1,2) good_refl assms(3)) (use assms(6,7) in auto)
  then show ?thesis by auto
qed

theorem read_loop_ends_witness:
  "\<exists>out. event_loop 4 (still_kernel sample_dirs) 3
      [\<lparr>ev_wd = 1, ev_mask = IN_MOVED_FROM OR IN_ISDIR, ev_cookie = 5, ev_len = 16, ev_name = ''a''\<rparr>]
      32 True (sample_state sample_cache [''/r'']) = Some out"
proof -
  let ?ev = "\<lparr>ev_wd = 1, ev_mask = IN_MOVED_FROM OR IN_ISDIR, ev_cookie = 5, ev_len = 16, ev_name = ''a''\<rparr>"
  have len: "buf_bytes [?ev] = 32" by (simp add: ev_bytes_def sizeof_event_def)
  have "\<exists>out. event_loop 4 (still_kernel sample_dirs) 3 [?ev] (buf_bytes [?ev]) True (sample_state sample_cache [''/r'']) = Some out"
    by (rule read_loop_ends [OF sample_kernel_ok [OF sample_dirs_ok] sample_read_ok sample_root_ok])
      (simp_all add: ev_bytes_def sizeof_event_def INOTIFY_READ_BUF_LEN_def NAME_MAX_def event_wf_def has_def in_flags
        still_kernel_def)
  then show ?thesis unfolding len .
qed

text \<open>
  C5: the invariant of the whole program. Every state that \<open>main()\<close> reaches between two
  turns of its loop is well-formed, whatever the user types, whatever \<open>select()\<close> reports and
  whatever events arrive.
\<close>

theorem main_invariant:
  assumes "kernel_ok K" "read_ok K" "\<forall>p \<in> set args. path_ok p"
    and "main_start K pname opts args s0 = Ret fd s" "main_runs K pname (fd, s) (fd', t)"
  shows "dt_ok t"
proof -
  have "dt_ok s" by (rule wp_RetD [OF main_start_dt [OF assms(1,3)] assms(4)])
  then show ?thesis using main_runs_dt [OF assms(5,1,2)] by simp
qed

theorem main_invariant_witness:
  "case main_start (still_kernel [''/r'']) ''dt'' [] [''/r''] (sample_state [] []) of
     Ret fd s \<Rightarrow> dt_ok s \<and> roots s = [''/r''] | Stop r s \<Rightarrow> False"
proof -
  have ok: "\<forall>p \<in> set [''/r'']. path_ok p" by (simp add: path_ok_def PATH_MAX_def)
  have "dt_ok s" if "main_start (still_kernel [''/r'']) ''dt'' [] [''/r''] (sample_state [] []) = Ret fd s" for fd s
    by (rule main_invariant [OF sample_kernel_ok [OF ok] sample_read_ok ok that main_refl])
  moreover have "case main_start (still_kernel [''/r'']) ''dt'' [] [''/r''] (sample_state [] []) of
     Ret fd s \<Rightarrow> roots s = [''/r''] | Stop r s \<Rightarrow> False"
    by code_simp
  ultimately show ?thesis by (auto split: outcome.splits)
qed

section \<open>Roots, checks and commands\<close>

text \<open>
  \<open>copyRootDirPaths()\<close> either keeps every command-line argument, in order, with no two
  of them naming the same file system object, or stops the process: with status 1, or (only
  when an allocation fails, whose result the code checks against the wrong pointer) by
  writing through a null pointer.
\<close>

lemma copyRootDirPaths_correct:
  "wp (copyRootDirPaths K argv s)
     (\<lambda>_ t. roots t = argv \<and> ignoreRootDirs t = 0 \<and> length (rootDirStat t) = length argv \<and>
        (\<forall>i < length argv. \<forall>j < i. st_ino (rootDirStat t ! i) \<noteq> st_ino (rootDirStat t ! j)
            \<or> st_dev (rootDirStat t ! i) \<noteq> st_dev (rootDirStat t ! j)))
     (\<lambda>r _. r = Exit 1 \<or> (\<exists>w k. r = Undefined w \<and> \<not> fst (sys_alloc K k)))"
proof -
  have "wp (copyRootDirPaths K argv s) (\<lambda>_ _. True)
      (\<lambda>r _. r = Exit 1 \<or> (\<exists>w k. r = Undefined w \<and> \<not> fst (sys_alloc K k)))"
    by (rule copyRootDirPaths_stops)
  from wp_conj [OF copyRootDirPaths_wp this] show ?thesis
    by (rule wp_mono) (auto simp: roots_def List.map_filter_def sorted_wrt_iff_nth_less same_object_def)
qed

text \<open>
  \<open>zapRootDirPath()\<close> gives up one root: its entry becomes NULL, the others stay, and
  the process ends with status 0 exactly when it was the last one.
\<close>

lemma zapRootDirPath_correct:
  assumes "roots_ok s" "cstring p" "p \<in> set (roots s)"
  shows "wp (zapRootDirPath p s)
     (\<lambda>_ t. roots_ok t \<and> roots t \<noteq> [] \<and>
        (\<exists>i < numRootDirs s. rootDirPaths s ! i = Some p \<and> rootDirPaths t = (rootDirPaths s)[i := None]))
     (\<lambda>r t. r = Exit 0 \<and> roots t = [])"
proof -
  have root: "isRootDirPath p s" using isRootDirPath_iff [OF assms(1,2)] assms(3) by simp
  have same: "q = p" if "rootDirPaths s ! i = Some q" "i < numRootDirs s" "strcmp p q = 0" for i q
    using that assms(1,2) strcmp_eq_0 [of p q] nth_mem [OF that(2)] by (auto simp: roots_ok_def path_ok_def)
  show ?thesis
    by (rule wp_mono [OF zapRootDirPath_wp [OF assms(1) root]]) (use same in blast)+
qed

text \<open>
  With the option for consistency checks, the program runs into undefined behaviour
  when the first cache slot is empty (after the deletion of a root, for example): the test
  of the file type hangs on the wrong \<open>if\<close> and reads a \<open>stat\<close> buffer that no call has filled.
\<close>

lemma checkCacheConsistency_uninitialised:
  assumes "wlCache s = empty_slot # ws"
  shows "\<exists>w. checkCacheConsistency K s = Stop (Undefined w) s"
  using assms by (simp add: checkCacheConsistency_def)

lemma check_loop_silent:
  assumes "\<And>p k. \<exists>st k'. sys_lstat K p k = (Inr st, k')"
  shows "\<forall>w \<in> set ws. live_slot w \<Longrightarrow> \<exists>k. check_loop K ws j sb n u = Ret n (u\<lparr>kern := k\<rparr>)"
proof (induction ws arbitrary: j sb u)
  case Nil
  have "u = u\<lparr>kern := kern u\<rparr>" by simp
  then show ?case unfolding check_loop.simps by (intro exI [of _ "kern u"]) simp
next
  case (Cons w ws)
  obtain st k where k: "sys_lstat K (path w) (kern u) = (Inr st, k)" using assms by blast
  from Cons.prems have "\<forall>w \<in> set ws. live_slot w" by simp
  from Cons.IH [OF this, of "Suc j" "Some (st_mode st)" "u\<lparr>kern := k\<rparr>"] k Cons.prems show ?case by simp
qed

text \<open>
  The consistency check never notices a cached path that is not a directory: when all
  slots are live and all paths exist, it returns without a message, whatever the file types.
\<close>

lemma checkCacheConsistency_misses_files:
  assumes "\<forall>w \<in> set (wlCache s). live_slot w" "\<And>p k. \<exists>st k'. sys_lstat K p k = (Inr st, k')"
  shows "\<exists>k. checkCacheConsistency K s = Ret () (s\<lparr>kern := k\<rparr>)"
  using check_loop_silent [OF assms(2,1), of 0 None 0 s] by (auto simp: checkCacheConsistency_def)

definition file_kernel :: "unit kernel" where
  "file_kernel = (still_kernel [])\<lparr>sys_lstat := \<lambda>p k. (Inr \<lparr>st_mode = 0x81A4, st_dev = 1, st_ino = 7\<rparr>, k)\<rparr>"

text \<open>
  The command \<open>w file\<close> writes the cached pathnames, every one and no other.
\<close>

lemma cmd_write_lists_cache:
  assumes "cache_ok (wlCache s)" "fst (sys_fopen K arg (kern s))"
  shows "\<exists>t. run_command K fd CHR ''w'' (Some arg) s = Ret fd t \<and> wlCache t = wlCache s \<and>
    set (file_out t) = cached (wlCache s) \<and> length (file_out t) = card (dom (cache_map (wlCache s)))"
proof -
  obtain k where k: "sys_fopen K arg (kern s) = (True, k)" using assms(2) by (metis prod.collapse)
  have "length (live (wlCache s)) = card (dom (cache_map (wlCache s)))"
    using cache_okD(2) [OF assms(1)] distinct_card [of "map wd (live (wlCache s))"]
    by (simp add: dom_cache_map del: set_live)
  moreover have "path ` set (live (wlCache s)) = cached (wlCache s)"
    by (rule live_paths [OF assms(1)])
  ultimately show ?thesis
    using k by (simp add: run_command_def keep_fd_def with_arg_def cmd_write_def)
qed

end
