(* ===== verification/Ls_Types.thy ===== *)
theory Ls_Types
  imports Prelude
begin

text \<open>
  Data of the NetBSD ls program (\<open>ls.c\<close>, \<open>ls.h\<close>): the entries \<open>FTSENT\<close> that the \<open>fts\<close> library
  delivers, the structures \<open>NAMES\<close> and \<open>DISPLAY\<close>, and the global option variables as the
  record \<open>lsopts\<close>. The prefix \<open>sb_\<close> stands for the prefix \<open>st_\<close> of the fields of \<open>struct stat\<close>;
  \<open>sb_major\<close> and \<open>sb_minor\<close> are the two parts of \<open>st_rdev\<close>.
\<close>

unbundle bit_operations_syntax

datatype fts_info =
  FTS_D | FTS_DC | FTS_DEFAULT | FTS_DNR | FTS_DOT | FTS_DP | FTS_ERR | FTS_F | FTS_INIT
  | FTS_NS | FTS_NSOK | FTS_SL | FTS_SLNONE | FTS_W

record statbuf =
  sb_mode :: "32 word"
  sb_ino :: nat
  sb_nlink :: nat
  sb_uid :: nat
  sb_gid :: nat
  sb_size :: int
  sb_blocks :: int
  sb_major :: int
  sb_minor :: int
  sb_flags :: "64 word"
  sb_atime :: int
  sb_atimensec :: int
  sb_mtime :: int
  sb_mtimensec :: int
  sb_ctime :: int
  sb_ctimensec :: int

record NAMES =
  np_user :: string
  np_group :: string
  np_flags :: string

text \<open>
  \<open>fts_number\<close> is set to \<open>NO_PRINT\<close> for entries that are not to be shown, \<open>fts_pointer\<close> holds
  the owner names in long listings; \<open>parent_accpath\<close> is \<open>fts_parent->fts_accpath\<close>.
\<close>

record ftsent =
  fts_info :: fts_info
  fts_level :: int
  fts_name :: string
  fts_path :: string
  fts_errno :: int
  fts_number :: int
  fts_statp :: statbuf
  fts_pointer :: "NAMES option"
  parent_accpath :: string

abbreviation fts_namelen :: "ftsent \<Rightarrow> nat" where
  "fts_namelen e \<equiv> length (fts_name e)"

definition FTS_ROOTLEVEL :: int where "FTS_ROOTLEVEL = 0"

definition NO_PRINT :: int where "NO_PRINT = 1"

record DISPLAY =
  d_list :: "ftsent list"
  d_btotal :: nat
  d_stotal :: nat
  d_entries :: nat
  d_maxlen :: nat
  d_s_block :: int
  d_s_flags :: int
  d_s_group :: int
  d_s_inode :: int
  d_s_nlink :: int
  d_s_size :: int
  d_s_user :: int
  d_s_major :: int
  d_s_minor :: int

datatype sort_key = BY_NAME | BY_SIZE | BY_TIME

text \<open>The global option variables; \<open>f_grouponly\<close> takes the values -1, 0 and 1.\<close>

record lsopts =
  blocksize :: int
  termwidth :: int
  sortkey :: sort_key
  f_accesstime :: bool
  f_column :: bool
  f_columnacross :: bool
  f_flags :: bool
  f_grouponly :: int
  f_humanize :: bool
  f_commas :: bool
  f_inode :: bool
  f_listdir :: bool
  f_listdot :: bool
  f_longform :: bool
  f_nonprint :: bool
  f_nosort :: bool
  f_numericonly :: bool
  f_octal :: bool
  f_octal_escape :: bool
  f_recursive :: bool
  f_reversesort :: bool
  f_sectime :: bool
  f_singlecol :: bool
  f_size :: bool
  f_statustime :: bool
  f_stream :: bool
  f_type :: bool
  f_typedir :: bool
  f_whiteout :: bool
  f_fullpath :: bool
  f_leafonly :: bool

text \<open>The initial values of the static variables.\<close>

definition init_opts :: lsopts where
  "init_opts = \<lparr>blocksize = 0, termwidth = 80, sortkey = BY_NAME, f_accesstime = False,
     f_column = False, f_columnacross = False, f_flags = False, f_grouponly = 0,
     f_humanize = False, f_commas = False, f_inode = False, f_listdir = False, f_listdot = False,
     f_longform = False, f_nonprint = False, f_nosort = False, f_numericonly = False,
     f_octal = False, f_octal_escape = False, f_recursive = False, f_reversesort = False,
     f_sectime = False, f_singlecol = False, f_size = False, f_statustime = False,
     f_stream = False, f_type = False, f_typedir = False, f_whiteout = False,
     f_fullpath = False, f_leafonly = False\<rparr>"

section \<open>File types\<close>

definition S_IFMT :: "32 word" where "S_IFMT = 0xF000"
definition S_IFIFO :: "32 word" where "S_IFIFO = 0x1000"
definition S_IFCHR :: "32 word" where "S_IFCHR = 0x2000"
definition S_IFDIR :: "32 word" where "S_IFDIR = 0x4000"
definition S_IFBLK :: "32 word" where "S_IFBLK = 0x6000"
definition S_IFLNK :: "32 word" where "S_IFLNK = 0xA000"
definition S_IFSOCK :: "32 word" where "S_IFSOCK = 0xC000"
definition S_IFWHT :: "32 word" where "S_IFWHT = 0xE000"

lemmas s_if_defs = S_IFMT_def S_IFIFO_def S_IFCHR_def S_IFDIR_def S_IFBLK_def S_IFLNK_def
  S_IFSOCK_def S_IFWHT_def

definition is_dir :: "32 word \<Rightarrow> bool" where "is_dir m \<longleftrightarrow> m AND S_IFMT = S_IFDIR"
definition is_chr :: "32 word \<Rightarrow> bool" where "is_chr m \<longleftrightarrow> m AND S_IFMT = S_IFCHR"
definition is_blk :: "32 word \<Rightarrow> bool" where "is_blk m \<longleftrightarrow> m AND S_IFMT = S_IFBLK"
definition is_lnk :: "32 word \<Rightarrow> bool" where "is_lnk m \<longleftrightarrow> m AND S_IFMT = S_IFLNK"

text \<open>
  \<open>howmany(x, y)\<close> of \<open>sys/param.h\<close>, for non-negative \<open>x\<close> and positive \<open>y\<close>; \<open>blocks_of\<close> is its use
  with the block size of the options, a division by zero when that is zero.
\<close>

definition howmany :: "int \<Rightarrow> int \<Rightarrow> int" where
  "howmany x y = (x + (y - 1)) div y"

definition blocks_of :: "lsopts \<Rightarrow> int \<Rightarrow> 's \<Rightarrow> (int, 's) outcome" where
  "blocks_of opt x s =
     (if blocksize opt = 0 then Stop (Undefined ''division by zero'') s else Ret (howmany x (blocksize opt)) s)"

lemma blocks_of_pos [simp]: "0 < blocksize opt \<Longrightarrow> blocks_of opt x s = Ret (howmany x (blocksize opt)) s"
  by (simp add: blocks_of_def)

lemma howmany_ceil:
  assumes "0 \<le> x" "0 < y"
  shows "x \<le> howmany x y * y" "howmany x y * y < x + y"
proof -
  have "howmany x y * y + (x + (y - 1)) mod y = x + (y - 1)" by (simp add: howmany_def)
  moreover have "0 \<le> (x + (y - 1)) mod y" "(x + (y - 1)) mod y < y" using assms by simp_all
  ultimately show "x \<le> howmany x y * y" "howmany x y * y < x + y" by linarith+
qed

end
