(* ===== verification/Ls_Util.thy ===== *)
theory Ls_Util
  imports Ls_Types
begin

text \<open>
  Output of names in ls: \<open>util.c\<close>. \<open>safe_print\<close> encodes a name with \<open>strvis()\<close> into a buffer
  of its own, \<open>printescaped\<close> replaces characters that cannot be printed by question marks.

  What the program prints is collected in the record \<open>ls_out\<close>; a function that may end the
  process gives an \<open>outcome\<close>. The services of the C library are the record \<open>lslib\<close>:
  \<open>'st\<close> is the type of multibyte conversion states.
\<close>

section \<open>Output and library\<close>

record ls_out =
  so_out :: string
  so_err :: "msg list"
  so_rval :: int
  so_output :: bool
  so_lastentries :: int

definition puts :: "string \<Rightarrow> ls_out \<Rightarrow> ls_out" where
  "puts t s = s\<lparr>so_out := so_out s @ t\<rparr>"

definition warnx :: "string \<Rightarrow> fmt_arg list \<Rightarrow> ls_out \<Rightarrow> ls_out" where
  "warnx f as s = s\<lparr>so_err := so_err s @ [(f, as)]\<rparr>"

text \<open>\<open>printf()\<close> of a text that is already formatted: it returns the number of bytes.\<close>

definition printf_text :: "string \<Rightarrow> ls_out \<Rightarrow> (int, ls_out) outcome" where
  "printf_text t s = Ret (int (length t)) (puts t s)"

text \<open>\<open>err()\<close> and \<open>errx()\<close>: a message on standard error and the end of the process.\<close>

definition err_exit :: "int \<Rightarrow> string \<Rightarrow> fmt_arg list \<Rightarrow> ls_out \<Rightarrow> ('a, ls_out) outcome" where
  "err_exit n f as s = Stop (Exit n) (warnx f as s)"

type_synonym wchar = nat

text \<open>
  Results of \<open>mbrtowc()\<close>: the wide character and the number of bytes (0 for the NUL
  character), -1 for an invalid and -2 for an incomplete sequence.
\<close>

datatype mb_result = MbWide wchar nat | MbInvalid | MbIncomplete

record 'st lslib =
  lib_malloc :: "nat \<Rightarrow> bool"
  lib_strvis :: "32 word \<Rightarrow> string \<Rightarrow> string"
  lib_mbrtowc :: "string \<Rightarrow> 'st \<Rightarrow> mb_result \<times> 'st"
  lib_wcrtomb :: "wchar \<Rightarrow> 'st \<Rightarrow> string option \<times> 'st"
  lib_mbinit :: 'st
  lib_mb_cur_max :: nat
  lib_wcwidth :: "wchar \<Rightarrow> int"
  lib_iswprint :: "wchar \<Rightarrow> bool"
  lib_humanize :: "int \<Rightarrow> string option"
  lib_group :: "nat \<Rightarrow> string"
  lib_strmode :: "32 word \<Rightarrow> string"
  lib_ctime :: "int \<Rightarrow> string option"
  lib_time :: int
  lib_readlink :: "string \<Rightarrow> int + string"
  lib_errstr :: "int \<Rightarrow> string"
  lib_user :: "nat \<Rightarrow> string option"
  lib_groupname :: "nat \<Rightarrow> string option"

section \<open>Definitions\<close>

definition VIS_OCTAL :: "32 word" where "VIS_OCTAL = 0x01"
definition VIS_CSTYLE :: "32 word" where "VIS_CSTYLE = 0x02"
definition VIS_NL :: "32 word" where "VIS_NL = 0x10"
definition VIS_WHITE :: "32 word" where "VIS_WHITE = 0x1C"

definition SIZE_T_MAX :: nat where "SIZE_T_MAX = 2 ^ 64 - 1"

text \<open>The size of the buffer, as \<open>size_t\<close> arithmetic gives it.\<close>

definition vis_bufsize :: "nat \<Rightarrow> nat" where
  "vis_bufsize len = (4 * len + 1) mod (SIZE_T_MAX + 1)"

definition safe_print :: "lsopts \<Rightarrow> 'st lslib \<Rightarrow> string \<Rightarrow> ls_out \<Rightarrow> (int, ls_out) outcome" where
  "safe_print opt lib src s =
     (let flags = VIS_NL OR VIS_OCTAL OR VIS_WHITE;
          flags = (if f_octal_escape opt then flags OR VIS_CSTYLE else flags);
          len = length src
      in if len \<noteq> 0 \<and> SIZE_T_MAX div len \<le> 4 then err_exit 1 ''%s: name too long'' [ArgS src] s
         else if lib_malloc lib (vis_bufsize len) then
           (let name = lib_strvis lib flags src in
            if length name < vis_bufsize len
            then Ret (int (length name)) (puts name s)
            else Stop (Undefined ''strvis writes past its buffer'') s)
         else err_exit 1 ''out of memory!'' [] s)"

definition QUESTION :: wchar where "QUESTION = 63"

definition printwc :: "'st lslib \<Rightarrow> wchar \<Rightarrow> 'st \<times> ls_out \<Rightarrow> int \<times> 'st \<times> ls_out" where
  "printwc lib wc pst_s = (case pst_s of (pst, s) \<Rightarrow>
     case lib_wcrtomb lib wc pst of (r, pst) \<Rightarrow>
       (case r of
          None \<Rightarrow> (0, pst, s)
        | Some buf \<Rightarrow>
            let buf = (if wc = 0 \<and> buf \<noteq> [] \<and> last buf = CHR 0x00 then butlast buf else buf)
            in (if wc = 0 then 0 else lib_wcwidth lib wc, pst, if buf \<noteq> [] then puts buf s else s)))"

text \<open>
  The loop of \<open>printescaped\<close> over the bytes that remain, the final NUL included, with the
  state of the decoder and the state of the output.
\<close>

function escaped_loop :: "'st lslib \<Rightarrow> string \<Rightarrow> 'st \<Rightarrow> int \<times> 'st \<times> ls_out \<Rightarrow> int \<times> 'st \<times> ls_out" where
  "escaped_loop lib src src_state (n, pst, s) =
     (if src = [] then (n, pst, s)
      else case lib_mbrtowc lib src src_state of (rv, src_state) \<Rightarrow>
        (case rv of
           MbWide wc k \<Rightarrow>
             if k = 0 then (case printwc lib wc (pst, s) of (m, r) \<Rightarrow> (n + m, r))
             else (case printwc lib (if lib_iswprint lib wc then wc else QUESTION) (pst, s) of (m, r) \<Rightarrow>
                     escaped_loop lib (drop k src) src_state (n + m, r))
         | MbInvalid \<Rightarrow>
             (case printwc lib QUESTION (pst, s) of (m, r) \<Rightarrow>
                escaped_loop lib (drop 1 src) (lib_mbinit lib) (n + m, r))
         | MbIncomplete \<Rightarrow>
             if length src < lib_mb_cur_max lib
             then (case printwc lib QUESTION (pst, s) of (m, r) \<Rightarrow> (n + m, r))
             else escaped_loop lib (drop (length src) src) src_state (n, pst, s)))"
  by pat_completeness auto
termination
  by (relation "measure (\<lambda>(lib, src, st, r). length src)") auto

declare escaped_loop.simps [simp del]

definition printescaped :: "'st lslib \<Rightarrow> string \<Rightarrow> ls_out \<Rightarrow> (int, ls_out) outcome" where
  "printescaped lib src s =
     (case escaped_loop lib (src @ [CHR 0x00]) (lib_mbinit lib) (0, lib_mbinit lib, s) of
        (n, pst, s) \<Rightarrow> Ret n s)"

section \<open>Which characters are printed\<close>

text \<open>The wide characters \<open>printescaped\<close> passes to \<open>printwc\<close>, in order.\<close>

function wide_plan :: "'st lslib \<Rightarrow> string \<Rightarrow> 'st \<Rightarrow> wchar list" where
  "wide_plan lib src st =
     (if src = [] then []
      else case lib_mbrtowc lib src st of (rv, st) \<Rightarrow>
        (case rv of
           MbWide wc k \<Rightarrow>
             if k = 0 then [wc]
             else (if lib_iswprint lib wc then wc else QUESTION) # wide_plan lib (drop k src) st
         | MbInvalid \<Rightarrow> QUESTION # wide_plan lib (drop 1 src) (lib_mbinit lib)
         | MbIncomplete \<Rightarrow>
             if length src < lib_mb_cur_max lib then [QUESTION] else wide_plan lib (drop (length src) src) st))"
  by pat_completeness auto
termination
  by (relation "measure (\<lambda>(lib, src, st). length src)") auto

declare wide_plan.simps [simp del]

fun print_all :: "'st lslib \<Rightarrow> wchar list \<Rightarrow> int \<times> 'st \<times> ls_out \<Rightarrow> int \<times> 'st \<times> ls_out" where
  "print_all lib [] r = r"
| "print_all lib (w # ws) (n, r) = (case printwc lib w r of (m, r) \<Rightarrow> print_all lib ws (n + m, r))"

lemma escaped_loop_plan: "escaped_loop lib src st (n, pst, s) = print_all lib (wide_plan lib src st) (n, pst, s)"
proof (induction lib src st "(n, pst, s)" arbitrary: n pst s rule: escaped_loop.induct)
  case (1 lib src st n pst s)
  show ?case
  proof (cases "src = []")
    case True
    then show ?thesis by (simp add: escaped_loop.simps wide_plan.simps)
  next
    case False
    obtain rv st' where rv: "lib_mbrtowc lib src st = (rv, st')" by fastforce
    note IH = 1 [OF False rv [symmetric]]
    note step = escaped_loop.simps [of lib src st] wide_plan.simps [of lib src st]
    show ?thesis
    proof (cases rv)
      case (MbWide wc k)
      obtain m pst' s' where "printwc lib (if lib_iswprint lib wc then wc else QUESTION) (pst, s) = (m, pst', s')"
        by (metis prod_cases3)
      then show ?thesis
        using False rv MbWide IH(1) [OF MbWide] by (cases "k = 0") (auto simp: step split: prod.splits)
    next
      case MbInvalid
      obtain m pst' s' where "printwc lib QUESTION (pst, s) = (m, pst', s')" by (metis prod_cases3)
      then show ?thesis using False rv MbInvalid IH(2) [OF MbInvalid] by (simp add: step)
    next
      case MbIncomplete
      then show ?thesis using False rv IH(3) [OF MbIncomplete] by (simp add: step split: prod.splits)
    qed
  qed
qed

text \<open>What \<open>mbrtowc()\<close> promises: length 0 is reported for the NUL character only.\<close>

definition mb_ok :: "'st lslib \<Rightarrow> bool" where
  "mb_ok lib \<longleftrightarrow> (\<forall>src st wc st'. lib_mbrtowc lib src st = (MbWide wc 0, st') \<longrightarrow> wc = 0)"

lemma wide_plan_printable:
  "mb_ok lib \<Longrightarrow> w \<in> set (wide_plan lib src st) \<Longrightarrow> lib_iswprint lib w \<or> w = QUESTION \<or> w = 0"
proof (induction lib src st rule: wide_plan.induct)
  case (1 lib src st)
  show ?case
  proof (cases "src = []")
    case True
    with 1 show ?thesis by (simp add: wide_plan.simps)
  next
    case False
    obtain rv st' where rv: "lib_mbrtowc lib src st = (rv, st')" by fastforce
    note IH = 1(1-3) [OF False rv [symmetric]]
    show ?thesis
      using 1(4,5) False rv IH unfolding wide_plan.simps [of lib src st]
      by (auto simp: mb_ok_def split: mb_result.splits if_splits)
  qed
qed

section \<open>One byte per character\<close>

text \<open>A locale in which every character is one byte, one column wide.\<close>

definition single_byte :: "'st lslib \<Rightarrow> bool" where
  "single_byte lib \<longleftrightarrow>
     (\<forall>c cs st. lib_mbrtowc lib (c # cs) st = (if c = CHR 0x00 then MbWide 0 0 else MbWide (of_char c) 1, st)) \<and>
     (\<forall>wc st. wc < 256 \<longrightarrow> lib_wcrtomb lib wc st = (Some [char_of wc], st)) \<and>
     (\<forall>wc. lib_wcwidth lib wc = 1)"

definition shown_char :: "'st lslib \<Rightarrow> char \<Rightarrow> char" where
  "shown_char lib c = (if lib_iswprint lib (of_char c) then c else CHR ''?'')"

lemma char_of_codes: "char_of (0 :: nat) = CHR 0x00" "char_of (63 :: nat) = CHR ''?''"
proof -
  have "of_char (CHR 0x00) = (0 :: nat)" "of_char (CHR ''?'') = (63 :: nat)" by (simp_all add: of_char_Char)
  then show "char_of (0 :: nat) = CHR 0x00" "char_of (63 :: nat) = CHR ''?''" by (metis char_of_char)+
qed

lemma printwc_single:
  assumes "single_byte lib" "wc < 256"
  shows "printwc lib wc (pst, s) =
    (if wc = 0 then (0, pst, s) else (1, pst, puts [char_of wc] s))"
  using assms by (auto simp: printwc_def single_byte_def char_of_codes)

lemma puts_puts: "puts b (puts a s) = puts (a @ b) s"
  by (simp add: puts_def)

lemma puts_Nil [simp]: "puts [] s = s"
  by (simp add: puts_def)

lemma escaped_single:
  assumes lib: "single_byte lib"
  shows "cstring src \<Longrightarrow> escaped_loop lib (src @ [CHR 0x00]) st (n, pst, s) =
    (n + int (length src), pst, puts (map (shown_char lib) src) s)"
proof (induction src arbitrary: n s)
  case Nil
  have "lib_mbrtowc lib [CHR 0x00] st = (MbWide 0 0, st)" using lib by (simp add: single_byte_def)
  then show ?case by (simp add: escaped_loop.simps printwc_single [OF lib])
next
  case (Cons c cs)
  then have c: "c \<noteq> CHR 0x00" "cstring cs" by auto
  then have "lib_mbrtowc lib (c # cs @ [CHR 0x00]) st = (MbWide (of_char c) 1, st)"
    using lib by (simp add: single_byte_def)
  moreover have "of_char c \<noteq> (0 :: nat)" "of_char c < (256 :: nat)"
    using c(1) by (auto simp: of_char_eq_iff [of c "CHR 0x00", where 'a = nat, simplified])
  moreover have "char_of QUESTION = CHR ''?''" "QUESTION \<noteq> 0" "QUESTION < 256"
    by (simp_all add: QUESTION_def char_of_codes)
  ultimately show ?case
    using Cons.IH [OF c(2)] by (simp add: escaped_loop.simps [of lib "c # cs @ [CHR 0x00]"] printwc_single [OF lib]
        shown_char_def puts_puts)
qed

section \<open>Properties\<close>

text \<open>A library for concrete runs: one byte per character, plain names.\<close>

definition sample_lib :: "unit lslib" where
  "sample_lib = \<lparr>lib_malloc = \<lambda>n. True, lib_strvis = \<lambda>f s. s,
     lib_mbrtowc = \<lambda>src st. (case src of [] \<Rightarrow> MbIncomplete
        | c # cs \<Rightarrow> if c = CHR 0x00 then MbWide 0 0 else MbWide (of_char c) 1, st),
     lib_wcrtomb = \<lambda>wc st. (Some [char_of wc], st), lib_mbinit = (), lib_mb_cur_max = 1,
     lib_wcwidth = \<lambda>wc. 1, lib_iswprint = \<lambda>wc. 32 \<le> wc \<and> wc < 127,
     lib_humanize = \<lambda>n. Some (take 4 (dec_of_int n)), lib_group = dec_of_nat,
     lib_strmode = \<lambda>m. ''-rw-r--r-- '', lib_ctime = \<lambda>t. Some ''Thu Jan  1 00:00:00 1970'', lib_time = 0,
     lib_readlink = \<lambda>p. Inl 2, lib_errstr = \<lambda>e. ''error'', lib_user = \<lambda>u. None, lib_groupname = \<lambda>g. None\<rparr>"

definition no_output :: ls_out where
  "no_output = \<lparr>so_out = [], so_err = [], so_rval = 0, so_output = False, so_lastentries = -1\<rparr>"

lemma sample_single: "single_byte sample_lib"
  by (simp add: single_byte_def sample_lib_def)

lemma sample_mb_ok: "mb_ok sample_lib"
  by (auto simp: mb_ok_def sample_lib_def split: list.splits if_splits)

text \<open>
  The buffer of \<open>safe_print()\<close> is large enough: names for which \<open>4 * len + 1\<close> does not
  fit in a \<open>size_t\<close> are rejected before the allocation, so the size never wraps around, and
  since \<open>strvis()\<close> writes at most four bytes per character, the encoding fits. The function
  prints the encoded name and returns its length, or exits with status 1.
\<close>

lemma safe_print_wp:
  assumes "\<And>f t. length (lib_strvis lib f t) \<le> 4 * length t"
  shows "wp (safe_print opt lib src s)
    (\<lambda>n t. \<exists>f. n = int (length (lib_strvis lib f src)) \<and> t = puts (lib_strvis lib f src) s \<and>
       vis_bufsize (length src) = 4 * length src + 1)
    (\<lambda>r _. r = Exit 1)"
proof -
  have size: "vis_bufsize (length src) = 4 * length src + 1" if "\<not> (src \<noteq> [] \<and> SIZE_T_MAX div length src \<le> 4)"
  proof (cases "src = []")
    case False
    then have "5 \<le> SIZE_T_MAX div length src" and pos: "0 < length src" using that by auto
    then have "5 * length src \<le> SIZE_T_MAX" by (simp add: less_eq_div_iff_mult_less_eq)
    with pos have "4 * length src + 1 < SIZE_T_MAX + 1" by linarith
    then show ?thesis by (simp add: vis_bufsize_def)
  qed (simp add: vis_bufsize_def SIZE_T_MAX_def)
  let ?f = "if f_octal_escape opt then (VIS_NL OR VIS_OCTAL OR VIS_WHITE) OR VIS_CSTYLE else VIS_NL OR VIS_OCTAL OR VIS_WHITE"
  have "length (lib_strvis lib ?f src) < 4 * length src + 1" using assms [of ?f src] by linarith
  with size show ?thesis
    by (auto simp: safe_print_def err_exit_def Let_def)
qed

text \<open>
  \<open>printescaped()\<close> ends for every byte string, and prints nothing but characters the
  locale calls printable and question marks (besides the final NUL, which only restores the
  shift state).
\<close>

lemma printescaped_printable:
  assumes "mb_ok lib"
  shows "\<exists>ws. (\<forall>w \<in> set ws. lib_iswprint lib w \<or> w = QUESTION \<or> w = 0) \<and>
    printescaped lib src s = (case print_all lib ws (0, lib_mbinit lib, s) of (n, pst, t) \<Rightarrow> Ret n t)"
  using wide_plan_printable [OF assms]
  by (intro exI [of _ "wide_plan lib (src @ [CHR 0x00]) (lib_mbinit lib)"])
    (auto simp: printescaped_def escaped_loop_plan)

text \<open>
  Where every character is one byte, \<open>printescaped()\<close> prints the name with a question
  mark for each unprintable byte and returns the length of the name, which is the number of
  columns that \<open>printcol()\<close> and \<open>printacol()\<close> count with.
\<close>

lemma printescaped_single_byte:
  assumes "single_byte lib" "cstring src"
  shows "printescaped lib src s = Ret (int (length src)) (puts (map (shown_char lib) src) s)"
  using escaped_single [OF assms] by (simp add: printescaped_def)

end
