(* ===== verification/Ls_Options.thy ===== *)
theory Ls_Options
  imports Ls_Types
begin

text \<open>
  Option handling of \<open>ls_main\<close> in \<open>ls.c\<close>: the effect of each option letter, the settings
  made after the option loop and the choice of the print function. The environment the
  program asks (terminal, user, \<open>COLUMNS\<close>, \<open>getbsize()\<close>) is the record \<open>ls_env\<close>.
\<close>

section \<open>Definitions\<close>

definition FTS_COMFOLLOW :: "32 word" where "FTS_COMFOLLOW = 0x1"
definition FTS_LOGICAL :: "32 word" where "FTS_LOGICAL = 0x2"
definition FTS_NOSTAT :: "32 word" where "FTS_NOSTAT = 0x8"
definition FTS_PHYSICAL :: "32 word" where "FTS_PHYSICAL = 0x10"
definition FTS_SEEDOT :: "32 word" where "FTS_SEEDOT = 0x20"
definition FTS_XDEV :: "32 word" where "FTS_XDEV = 0x40"
definition FTS_WHITEOUT :: "32 word" where "FTS_WHITEOUT = 0x80"

lemmas fts_flag_defs = FTS_COMFOLLOW_def FTS_LOGICAL_def FTS_NOSTAT_def FTS_PHYSICAL_def FTS_SEEDOT_def
  FTS_XDEV_def FTS_WHITEOUT_def

record ls_env =
  env_tty :: bool
  env_winsize :: "int option"
  env_uid :: nat
  env_columns :: "string option"
  env_bsize :: int

text \<open>The variables of \<open>ls_main\<close> while it reads the options.\<close>

record ls_parse =
  lp_opt :: lsopts
  lp_fts :: "32 word"
  lp_kflag :: bool

definition ls_defaults :: "ls_env \<Rightarrow> ls_parse" where
  "ls_defaults env =
     (let opt = init_opts;
          opt = (if env_tty env then
                   (case env_winsize env of
                      Some w \<Rightarrow> if w > 0 then opt\<lparr>termwidth := w\<rparr> else opt
                    | None \<Rightarrow> opt)\<lparr>f_column := True, f_nonprint := True\<rparr>
                 else opt\<lparr>f_singlecol := True\<rparr>);
          opt = (if env_uid env = 0 then opt\<lparr>f_listdot := True\<rparr> else opt)
      in \<lparr>lp_opt = opt, lp_fts = FTS_PHYSICAL, lp_kflag = False\<rparr>)"

text \<open>
  The five format flags override each other; \<open>format_set\<close> sets one of them and clears the
  others.
\<close>

datatype format = SingleCol | Column | ColumnAcross | LongForm | StreamForm

definition format_set :: "format \<Rightarrow> lsopts \<Rightarrow> lsopts" where
  "format_set f opt = opt\<lparr>f_singlecol := f = SingleCol, f_column := f = Column,
     f_columnacross := f = ColumnAcross, f_longform := f = LongForm, f_stream := f = StreamForm\<rparr>"

definition up :: "(lsopts \<Rightarrow> lsopts) \<Rightarrow> ls_parse \<Rightarrow> ls_parse" where
  "up f p = p\<lparr>lp_opt := f (lp_opt p)\<rparr>"

text \<open>
  The switch on the option letter, one row per case, in the order of the source; a letter
  without a row leads to \<open>usage()\<close>.
\<close>

definition ls_switch :: "(char \<times> (ls_parse \<Rightarrow> ls_parse)) list" where
  "ls_switch = [
     (CHR ''1'', up (format_set SingleCol)),
     (CHR ''C'', up (format_set Column)),
     (CHR ''g'', up (\<lambda>opt. format_set LongForm (if f_grouponly opt \<noteq> -1 then opt\<lparr>f_grouponly := 1\<rparr> else opt))),
     (CHR ''l'', up (\<lambda>opt. (format_set LongForm opt)\<lparr>f_grouponly := -1\<rparr>)),
     (CHR ''m'', up (format_set StreamForm)),
     (CHR ''x'', up (format_set ColumnAcross)),
     (CHR ''c'', up (\<lambda>opt. opt\<lparr>f_statustime := True, f_accesstime := False\<rparr>)),
     (CHR ''u'', up (\<lambda>opt. opt\<lparr>f_accesstime := True, f_statustime := False\<rparr>)),
     (CHR ''F'', up (\<lambda>opt. opt\<lparr>f_type := True\<rparr>)),
     (CHR ''L'', \<lambda>p. p\<lparr>lp_fts := (lp_fts p AND NOT FTS_PHYSICAL) OR FTS_LOGICAL\<rparr>),
     (CHR ''R'', up (\<lambda>opt. opt\<lparr>f_recursive := True\<rparr>)),
     (CHR ''f'', \<lambda>p. up (\<lambda>opt. opt\<lparr>f_nosort := True, f_listdot := True\<rparr>) (p\<lparr>lp_fts := lp_fts p OR FTS_SEEDOT\<rparr>)),
     (CHR ''a'', \<lambda>p. up (\<lambda>opt. opt\<lparr>f_listdot := True\<rparr>) (p\<lparr>lp_fts := lp_fts p OR FTS_SEEDOT\<rparr>)),
     (CHR ''A'', up (\<lambda>opt. opt\<lparr>f_listdot := True\<rparr>)),
     (CHR ''B'', up (\<lambda>opt. opt\<lparr>f_nonprint := False, f_octal := True, f_octal_escape := False\<rparr>)),
     (CHR ''b'', up (\<lambda>opt. opt\<lparr>f_nonprint := False, f_octal := False, f_octal_escape := True\<rparr>)),
     (CHR ''d'', up (\<lambda>opt. opt\<lparr>f_listdir := True, f_recursive := False\<rparr>)),
     (CHR ''i'', up (\<lambda>opt. opt\<lparr>f_inode := True\<rparr>)),
     (CHR ''k'', \<lambda>p. up (\<lambda>opt. opt\<lparr>blocksize := 1024, f_humanize := False\<rparr>) (p\<lparr>lp_kflag := True\<rparr>)),
     (CHR ''h'', \<lambda>p. up (\<lambda>opt. opt\<lparr>f_humanize := True, f_commas := False\<rparr>) (p\<lparr>lp_kflag := False\<rparr>)),
     (CHR ''M'', up (\<lambda>opt. opt\<lparr>f_humanize := False, f_commas := True\<rparr>)),
     (CHR ''n'', up (\<lambda>opt. format_set LongForm (opt\<lparr>f_numericonly := True\<rparr>))),
     (CHR ''O'', up (\<lambda>opt. opt\<lparr>f_leafonly := True\<rparr>)),
     (CHR ''o'', up (\<lambda>opt. opt\<lparr>f_flags := True\<rparr>)),
     (CHR ''P'', up (\<lambda>opt. opt\<lparr>f_fullpath := True\<rparr>)),
     (CHR ''p'', up (\<lambda>opt. opt\<lparr>f_typedir := True\<rparr>)),
     (CHR ''q'', up (\<lambda>opt. opt\<lparr>f_nonprint := True, f_octal := False, f_octal_escape := False\<rparr>)),
     (CHR ''r'', up (\<lambda>opt. opt\<lparr>f_reversesort := True\<rparr>)),
     (CHR ''S'', up (\<lambda>opt. opt\<lparr>sortkey := BY_SIZE\<rparr>)),
     (CHR ''s'', up (\<lambda>opt. opt\<lparr>f_size := True\<rparr>)),
     (CHR ''T'', up (\<lambda>opt. opt\<lparr>f_sectime := True\<rparr>)),
     (CHR ''t'', up (\<lambda>opt. opt\<lparr>sortkey := BY_TIME\<rparr>)),
     (CHR ''W'', up (\<lambda>opt. opt\<lparr>f_whiteout := True\<rparr>)),
     (CHR ''w'', up (\<lambda>opt. opt\<lparr>f_nonprint := False, f_octal := False, f_octal_escape := False\<rparr>)),
     (CHR ''X'', \<lambda>p. p\<lparr>lp_fts := lp_fts p OR FTS_XDEV\<rparr>)]"

definition ls_option :: "char \<Rightarrow> ls_parse \<Rightarrow> ls_parse option" where
  "ls_option ch p = map_option (\<lambda>f. f p) (map_of ls_switch ch)"

fun ls_options :: "char list \<Rightarrow> ls_parse \<Rightarrow> ls_parse option" where
  "ls_options [] p = Some p"
| "ls_options (c # cs) p = (case ls_option c p of None \<Rightarrow> None | Some p \<Rightarrow> ls_options cs p)"

definition needstats :: "lsopts \<Rightarrow> bool" where
  "needstats opt \<longleftrightarrow> f_inode opt \<or> f_longform opt \<or> f_size opt"

text \<open>The settings after the loop.\<close>

definition ls_settle :: "ls_env \<Rightarrow> ls_parse \<Rightarrow> ls_parse" where
  "ls_settle env p =
     (let opt = lp_opt p; fo = lp_fts p;
          opt = (if f_column opt \<or> f_columnacross opt \<or> f_stream opt
                 then (case env_columns env of None \<Rightarrow> opt | Some c \<Rightarrow> opt\<lparr>termwidth := atoi c\<rparr>) else opt);
          opt = (if f_grouponly opt = -1 then opt\<lparr>f_grouponly := 0\<rparr> else opt);
          fo = (if \<not> f_inode opt \<and> \<not> f_longform opt \<and> \<not> f_size opt \<and> \<not> f_type opt \<and> \<not> f_typedir opt
                   \<and> sortkey opt = BY_NAME then fo OR FTS_NOSTAT else fo);
          fo = (if \<not> f_longform opt \<and> \<not> f_listdir opt \<and> \<not> f_type opt then fo OR FTS_COMFOLLOW else fo);
          fo = (if f_whiteout opt then fo OR FTS_WHITEOUT else fo);
          opt = (if f_inode opt \<or> f_longform opt \<or> f_size opt
                 then let opt = (if \<not> lp_kflag p then opt\<lparr>blocksize := env_bsize env\<rparr> else opt)
                      in opt\<lparr>blocksize := blocksize opt div 512\<rparr>
                 else opt)
      in p\<lparr>lp_opt := opt, lp_fts := fo\<rparr>)"

datatype print_fn = PrintScol | PrintAcol | PrintLong | PrintStream | PrintCol

definition printfcn :: "lsopts \<Rightarrow> print_fn" where
  "printfcn opt =
     (if f_singlecol opt then PrintScol
      else if f_columnacross opt then PrintAcol
      else if f_longform opt then PrintLong
      else if f_stream opt then PrintStream
      else PrintCol)"

text \<open>Everything \<open>ls_main\<close> does before the traversal; \<open>None\<close> if it calls \<open>usage()\<close>.\<close>

definition ls_setup :: "ls_env \<Rightarrow> char list \<Rightarrow> ls_parse option" where
  "ls_setup env cs = map_option (ls_settle env) (ls_options cs (ls_defaults env))"

text \<open>The arguments the traversal starts from.\<close>

definition ls_args :: "string list \<Rightarrow> string list" where
  "ls_args argv = (if argv \<noteq> [] then argv else [''.''])"

section \<open>What the options do to the flags\<close>

text \<open>The format an option letter asks for.\<close>

definition format_letter :: "char \<Rightarrow> format option" where
  "format_letter c =
     (if c = CHR ''1'' then Some SingleCol else if c = CHR ''C'' then Some Column
      else if c = CHR ''x'' then Some ColumnAcross else if c = CHR ''m'' then Some StreamForm
      else if c = CHR ''g'' \<or> c = CHR ''l'' \<or> c = CHR ''n'' then Some LongForm else None)"

definition one_format :: "format \<Rightarrow> lsopts \<Rightarrow> bool" where
  "one_format f opt \<longleftrightarrow> f_singlecol opt = (f = SingleCol) \<and> f_column opt = (f = Column) \<and>
     f_columnacross opt = (f = ColumnAcross) \<and> f_longform opt = (f = LongForm) \<and> f_stream opt = (f = StreamForm)"

definition next_format :: "char \<Rightarrow> format \<Rightarrow> format" where
  "next_format c f = (case format_letter c of None \<Rightarrow> f | Some g \<Rightarrow> g)"

definition asked_format :: "ls_env \<Rightarrow> char list \<Rightarrow> format" where
  "asked_format env cs = fold next_format cs (if env_tty env then Column else SingleCol)"

fun printer_of :: "format \<Rightarrow> print_fn" where
  "printer_of SingleCol = PrintScol"
| "printer_of Column = PrintCol"
| "printer_of ColumnAcross = PrintAcol"
| "printer_of LongForm = PrintLong"
| "printer_of StreamForm = PrintStream"

text \<open>To show that every option keeps a property, show it for each row of the switch.\<close>

lemma ls_option_rows:
  assumes "ls_option c p = Some p'" "\<And>f. (c, f) \<in> set ls_switch \<Longrightarrow> P (f p)"
  shows "P p'"
  using assms by (auto simp: ls_option_def dest: map_of_SomeD)

lemma ls_options_keep:
  assumes "ls_options cs p = Some p'" "P p"
    and "\<And>c f q. (c, f) \<in> set ls_switch \<Longrightarrow> P q \<Longrightarrow> P (f q)"
  shows "P p'"
  using assms(1,2)
proof (induction cs arbitrary: p)
  case (Cons c cs)
  then obtain q where q: "ls_option c p = Some q" "ls_options cs q = Some p'"
    by (auto split: option.splits)
  have "P q" by (rule ls_option_rows [OF q(1)]) (use assms(3) Cons.prems(2) in blast)
  with q(2) Cons.IH show ?case by blast
qed simp

lemma row_format:
  assumes "(c, h) \<in> set ls_switch" "one_format f (lp_opt p)"
  shows "one_format (next_format c f) (lp_opt (h p))"
  using assms unfolding ls_switch_def list.set
  by (elim insertE emptyE)
    (simp_all add: up_def one_format_def next_format_def format_letter_def format_set_def)

lemma row_flags:
  assumes "(c, h) \<in> set ls_switch"
  shows "\<not> (f_accesstime (lp_opt p) \<and> f_statustime (lp_opt p)) \<Longrightarrow>
      \<not> (f_accesstime (lp_opt (h p)) \<and> f_statustime (lp_opt (h p)))"
    and "\<not> (f_octal (lp_opt p) \<and> f_octal_escape (lp_opt p)) \<Longrightarrow>
      \<not> (f_octal (lp_opt (h p)) \<and> f_octal_escape (lp_opt (h p)))"
  using assms unfolding ls_switch_def list.set
  by (elim insertE emptyE; simp add: up_def format_set_def)+

lemma ls_options_fold:
  assumes "ls_options cs p = Some p'" "P x p"
    and "\<And>c f q x. (c, f) \<in> set ls_switch \<Longrightarrow> P x q \<Longrightarrow> P (step c x) (f q)"
  shows "P (fold step cs x) p'"
  using assms(1,2)
proof (induction cs arbitrary: p x)
  case (Cons c cs)
  then obtain q where q: "ls_option c p = Some q" "ls_options cs q = Some p'"
    by (auto split: option.splits)
  have "P (step c x) q" by (rule ls_option_rows [OF q(1)]) (use assms(3) Cons.prems(2) in blast)
  with q(2) Cons.IH show ?case by simp
qed simp

text \<open>\<open>-g\<close> has no effect together with \<open>-l\<close>.\<close>

definition next_group :: "char \<Rightarrow> int \<Rightarrow> int" where
  "next_group c g = (if c = CHR ''l'' then -1 else if c = CHR ''g'' \<and> g \<noteq> -1 then 1 else g)"

lemma row_group:
  assumes "(c, h) \<in> set ls_switch"
  shows "f_grouponly (lp_opt (h p)) = next_group c (f_grouponly (lp_opt p))"
  using assms unfolding ls_switch_def list.set
  by (elim insertE emptyE) (simp_all add: up_def next_group_def format_set_def)

lemma fold_group:
  "fold next_group cs g =
     (if g = -1 \<or> CHR ''l'' \<in> set cs then -1 else if CHR ''g'' \<in> set cs then 1 else g)"
  by (induction cs arbitrary: g) (auto simp: next_group_def)

text \<open>The flags for \<open>fts_open()\<close> during the option loop.\<close>

definition fts_ok :: "32 word \<Rightarrow> bool" where
  "fts_ok fo \<longleftrightarrow> bit fo 4 \<noteq> bit fo 1 \<and> \<not> bit fo 3"

lemma row_fts:
  assumes "(c, h) \<in> set ls_switch" "fts_ok (lp_fts p)"
  shows "fts_ok (lp_fts (h p))"
  using assms unfolding ls_switch_def list.set
  by (elim insertE emptyE) (auto simp: up_def fts_ok_def fts_flag_defs bit_simps)

lemma fts_bits:
  "fo AND FTS_NOSTAT = 0 \<longleftrightarrow> \<not> bit fo 3" "fo AND FTS_PHYSICAL = 0 \<longleftrightarrow> \<not> bit fo 4"
  "fo AND FTS_LOGICAL = 0 \<longleftrightarrow> \<not> bit fo 1"
  using and_exp_eq_0_iff_not_bit [of fo 3] and_exp_eq_0_iff_not_bit [of fo 4] and_exp_eq_0_iff_not_bit [of fo 1]
  by (simp_all add: fts_flag_defs)

lemma settle_flags:
  "f_singlecol (lp_opt (ls_settle env p)) = f_singlecol (lp_opt p)"
  "f_column (lp_opt (ls_settle env p)) = f_column (lp_opt p)"
  "f_columnacross (lp_opt (ls_settle env p)) = f_columnacross (lp_opt p)"
  "f_longform (lp_opt (ls_settle env p)) = f_longform (lp_opt p)"
  "f_stream (lp_opt (ls_settle env p)) = f_stream (lp_opt p)"
  "f_inode (lp_opt (ls_settle env p)) = f_inode (lp_opt p)"
  "f_size (lp_opt (ls_settle env p)) = f_size (lp_opt p)"
  "f_type (lp_opt (ls_settle env p)) = f_type (lp_opt p)"
  "f_typedir (lp_opt (ls_settle env p)) = f_typedir (lp_opt p)"
  "sortkey (lp_opt (ls_settle env p)) = sortkey (lp_opt p)"
  "f_accesstime (lp_opt (ls_settle env p)) = f_accesstime (lp_opt p)"
  "f_statustime (lp_opt (ls_settle env p)) = f_statustime (lp_opt p)"
  "f_octal (lp_opt (ls_settle env p)) = f_octal (lp_opt p)"
  "f_octal_escape (lp_opt (ls_settle env p)) = f_octal_escape (lp_opt p)"
  "f_grouponly (lp_opt (ls_settle env p)) = (if f_grouponly (lp_opt p) = -1 then 0 else f_grouponly (lp_opt p))"
  by (simp_all add: ls_settle_def Let_def split: option.splits)

lemma ls_setup_cases:
  assumes "ls_setup env cs = Some p"
  obtains q where "ls_options cs (ls_defaults env) = Some q" "p = ls_settle env q"
  using assms by (auto simp: ls_setup_def)

lemma defaults_format: "one_format (if env_tty env then Column else SingleCol) (lp_opt (ls_defaults env))"
  by (simp add: ls_defaults_def Let_def one_format_def init_opts_def split: option.splits)

lemma defaults_rest:
  "f_grouponly (lp_opt (ls_defaults env)) = 0" "fts_ok (lp_fts (ls_defaults env))"
  "\<not> (f_accesstime (lp_opt (ls_defaults env)) \<and> f_statustime (lp_opt (ls_defaults env)))"
  "\<not> (f_octal (lp_opt (ls_defaults env)) \<and> f_octal_escape (lp_opt (ls_defaults env)))"
  by (simp_all add: ls_defaults_def Let_def init_opts_def fts_ok_def fts_flag_defs bit_simps split: option.splits)

section \<open>Properties\<close>

text \<open>
  The format options override each other: after any accepted list of options exactly one
  of the five format flags is set, it is the one of the last format option given (or the
  default: columns on a terminal, one column otherwise), and the print function is chosen
  accordingly.
\<close>

lemma last_format_wins:
  assumes "ls_setup env cs = Some p"
  shows "one_format (asked_format env cs) (lp_opt p) \<and> printfcn (lp_opt p) = printer_of (asked_format env cs)"
proof -
  obtain q where q: "ls_options cs (ls_defaults env) = Some q" and p: "p = ls_settle env q"
    using assms by (rule ls_setup_cases)
  have "one_format (asked_format env cs) (lp_opt q)"
    unfolding asked_format_def
    by (rule ls_options_fold [OF q, where P = "\<lambda>f p. one_format f (lp_opt p)"])
      (use defaults_format [of env] row_format in auto)
  then have f: "one_format (asked_format env cs) (lp_opt p)"
    by (simp add: p one_format_def settle_flags)
  then show ?thesis
    by (cases "asked_format env cs") (simp_all add: one_format_def printfcn_def)
qed

definition sample_env :: ls_env where
  "sample_env = \<lparr>env_tty = True, env_winsize = Some 100, env_uid = 1000, env_columns = None, env_bsize = 512\<rparr>"

lemma sample_bsize: "512 \<le> env_bsize sample_env"
  by (simp add: sample_env_def)

text \<open>
  Where sizes or blocks are shown the block size is positive, if that of the environment is at
  least 512 bytes: \<open>-k\<close> sets it to 1024 bytes, and both are then divided by 512.
\<close>

lemma row_kflag:
  assumes "(c, h) \<in> set ls_switch" "lp_kflag p \<longrightarrow> blocksize (lp_opt p) = 1024"
  shows "lp_kflag (h p) \<longrightarrow> blocksize (lp_opt (h p)) = 1024"
  using assms unfolding ls_switch_def list.set
  by (elim insertE emptyE) (simp_all add: up_def format_set_def)

lemma setup_blocksize:
  assumes "ls_setup env cs = Some p" "512 \<le> env_bsize env" "needstats (lp_opt p)"
  shows "0 < blocksize (lp_opt p)"
proof -
  obtain q where q: "ls_options cs (ls_defaults env) = Some q" and p: "p = ls_settle env q"
    using assms(1) by (rule ls_setup_cases)
  have "lp_kflag q \<longrightarrow> blocksize (lp_opt q) = 1024"
    by (rule ls_options_keep [OF q, where P = "\<lambda>p. lp_kflag p \<longrightarrow> blocksize (lp_opt p) = 1024"])
      (use row_kflag in \<open>auto simp: ls_defaults_def Let_def\<close>)
  moreover have "0 < env_bsize env div 512"
    using assms(2) by (simp add: pos_imp_zdiv_pos_iff)
  moreover have "f_inode (lp_opt q) \<or> f_longform (lp_opt q) \<or> f_size (lp_opt q)"
    using assms(3) by (simp add: p needstats_def settle_flags)
  ultimately show ?thesis by (auto simp: p ls_settle_def Let_def split: option.splits)
qed

text \<open>
  \<open>-l\<close> takes precedence over \<open>-g\<close>, whatever their order: the owner column is left out
  exactly when \<open>-g\<close> is given without \<open>-l\<close>.
\<close>

lemma group_only_precedence:
  assumes "ls_setup env cs = Some p"
  shows "f_grouponly (lp_opt p) = (if CHR ''g'' \<in> set cs \<and> CHR ''l'' \<notin> set cs then 1 else 0)"
proof -
  obtain q where q: "ls_options cs (ls_defaults env) = Some q" and p: "p = ls_settle env q"
    using assms by (rule ls_setup_cases)
  have "f_grouponly (lp_opt q) = fold next_group cs 0"
    by (rule ls_options_fold [OF q, where P = "\<lambda>g p. f_grouponly (lp_opt p) = g"])
      (auto simp: defaults_rest row_group)
  then show ?thesis by (simp add: p settle_flags fold_group)
qed

text \<open>
  The flags given to \<open>fts_open()\<close> are consistent with what the listing needs: \<open>stat\<close>
  information is left out exactly when no column, type mark or sort key uses it, and exactly
  one of the logical and the physical walk is asked for.
\<close>

lemma stat_when_needed:
  assumes "ls_setup env cs = Some p"
  shows "(lp_fts p AND FTS_NOSTAT = 0 \<longleftrightarrow> needstats (lp_opt p) \<or> f_type (lp_opt p) \<or> f_typedir (lp_opt p)
            \<or> sortkey (lp_opt p) \<noteq> BY_NAME)
       \<and> (lp_fts p AND FTS_PHYSICAL = 0 \<longleftrightarrow> lp_fts p AND FTS_LOGICAL \<noteq> 0)"
proof -
  obtain q where q: "ls_options cs (ls_defaults env) = Some q" and p: "p = ls_settle env q"
    using assms by (rule ls_setup_cases)
  have ok: "fts_ok (lp_fts q)"
    by (rule ls_options_keep [OF q, where P = "\<lambda>p. fts_ok (lp_fts p)"]) (auto intro: defaults_rest row_fts)
  have "bit (lp_fts p) 3 \<longleftrightarrow> \<not> (needstats (lp_opt q) \<or> f_type (lp_opt q) \<or> f_typedir (lp_opt q) \<or> sortkey (lp_opt q) \<noteq> BY_NAME)"
    "bit (lp_fts p) 4 = bit (lp_fts q) 4" "bit (lp_fts p) 1 = bit (lp_fts q) 1"
    using ok by (auto simp: p ls_settle_def Let_def fts_ok_def needstats_def fts_flag_defs bit_simps split: option.splits)
  then show ?thesis
    using ok by (auto simp: fts_bits p needstats_def settle_flags fts_ok_def)
qed

end
