(* ===== verification/Ls_Print.thy ===== *)
theory Ls_Print
  imports Ls_Util Ls_Options "HOL-Library.Multiset"
begin

text \<open>
  The print functions of ls: \<open>print.c\<close>. Each is a function from the output so far to an
  outcome. The lemmas describe what each format prints in terms of the texts of the single
  names; the main one is that \<open>printcol\<close> lays out every entry exactly once.
\<close>

section \<open>Fields\<close>

definition IS_NOPRINT :: "ftsent \<Rightarrow> bool" where
  "IS_NOPRINT p \<longleftrightarrow> fts_number p = NO_PRINT"

definition shown :: "ftsent list \<Rightarrow> ftsent list" where
  "shown ps = filter (\<lambda>p. \<not> IS_NOPRINT p) ps"

text \<open>\<open>%*s\<close> and \<open>%-*s\<close> with a non-negative width.\<close>

definition pad_left :: "int \<Rightarrow> string \<Rightarrow> string" where
  "pad_left w t = replicate (nat w - length t) CHR '' '' @ t"

definition pad_right :: "int \<Rightarrow> string \<Rightarrow> string" where
  "pad_right w t = t @ replicate (nat w - length t) CHR '' ''"

text \<open>\<open>%*llu\<close>, or with grouped digits when \<open>f_commas\<close> is set.\<close>

definition number_text :: "lsopts \<Rightarrow> 'st lslib \<Rightarrow> int \<Rightarrow> string" where
  "number_text opt lib n = (if f_commas opt then lib_group lib (nat n) else dec_of_nat (nat n))"

definition safe_printpath :: "lsopts \<Rightarrow> 'st lslib \<Rightarrow> ftsent \<Rightarrow> ls_out \<Rightarrow> (int, ls_out) outcome" where
  "safe_printpath opt lib p s =
     bnd (if f_fullpath opt
          then bnd (safe_print opt lib (fts_path p) s) (\<lambda>a s.
                 bnd (safe_print opt lib ''/'' s) (\<lambda>b s. Ret (a + b) s))
          else Ret 0 s) (\<lambda>chcnt s.
       bnd (safe_print opt lib (fts_name p) s) (\<lambda>n s. Ret (chcnt + n) s))"

definition printescapedpath :: "lsopts \<Rightarrow> 'st lslib \<Rightarrow> ftsent \<Rightarrow> ls_out \<Rightarrow> (int, ls_out) outcome" where
  "printescapedpath opt lib p s =
     bnd (if f_fullpath opt
          then bnd (printescaped lib (fts_path p) s) (\<lambda>a s.
                 bnd (printescaped lib ''/'' s) (\<lambda>b s. Ret (a + b) s))
          else Ret 0 s) (\<lambda>chcnt s.
       bnd (printescaped lib (fts_name p) s) (\<lambda>n s. Ret (chcnt + n) s))"

definition printpath :: "lsopts \<Rightarrow> ftsent \<Rightarrow> ls_out \<Rightarrow> (int, ls_out) outcome" where
  "printpath opt p s =
     (if f_fullpath opt then printf_text (fts_path p @ ''/'' @ fts_name p) s
      else printf_text (fts_name p) s)"

text \<open>The choice between the three, made in \<open>printaname\<close> and \<open>printlong\<close>.\<close>

definition print_name :: "lsopts \<Rightarrow> 'st lslib \<Rightarrow> ftsent \<Rightarrow> ls_out \<Rightarrow> (int, ls_out) outcome" where
  "print_name opt lib p s =
     (if f_octal opt \<or> f_octal_escape opt then safe_printpath opt lib p s
      else if f_nonprint opt then printescapedpath opt lib p s
      else printpath opt p s)"

definition type_char :: "32 word \<Rightarrow> char option" where
  "type_char mode =
     (let m = mode AND S_IFMT in
      if m = S_IFDIR then Some CHR ''/''
      else if m = S_IFIFO then Some CHR ''|''
      else if m = S_IFLNK then Some CHR ''@''
      else if m = S_IFSOCK then Some CHR ''=''
      else if m = S_IFWHT then Some CHR ''%''
      else if mode AND 0x49 \<noteq> 0 then Some CHR ''*''
      else None)"

definition printtype :: "32 word \<Rightarrow> ls_out \<Rightarrow> (int, ls_out) outcome" where
  "printtype mode s = (case type_char mode of Some c \<Rightarrow> Ret 1 (puts [c] s) | None \<Rightarrow> Ret 0 s)"

definition want_type :: "lsopts \<Rightarrow> ftsent \<Rightarrow> bool" where
  "want_type opt p \<longleftrightarrow> f_type opt \<or> f_typedir opt \<and> is_dir (sb_mode (fts_statp p))"

definition printaname :: "lsopts \<Rightarrow> 'st lslib \<Rightarrow> ftsent \<Rightarrow> int \<Rightarrow> int \<Rightarrow> ls_out \<Rightarrow> (int, ls_out) outcome" where
  "printaname opt lib p inodefield sizefield s =
     (let sp = fts_statp p in
      bnd (if f_inode opt then printf_text (pad_left inodefield (dec_of_nat (sb_ino sp)) @ '' '') s
           else Ret 0 s) (\<lambda>c1 s.
      bnd (if f_size opt then
             (if f_humanize opt then
                (case lib_humanize lib (sb_size sp) of
                   None \<Rightarrow> err_exit 1 ''humanize_number'' [] s
                 | Some szbuf \<Rightarrow> printf_text (pad_left sizefield szbuf @ '' '') s)
              else bnd (blocks_of opt (sb_blocks sp) s) (\<lambda>n s.
                     printf_text (pad_left sizefield (number_text opt lib n) @ '' '') s))
           else Ret 0 s) (\<lambda>c2 s.
      bnd (print_name opt lib p s) (\<lambda>c3 s.
      bnd (if want_type opt p then printtype (sb_mode sp) s else Ret 0 s) (\<lambda>c4 s.
        Ret (c1 + c2 + c3 + c4) s)))))"

text \<open>The characters \<open>i\<close> to \<open>j - 1\<close> of the text of \<open>ctime()\<close>.\<close>

definition chars_of :: "nat \<Rightarrow> nat \<Rightarrow> string \<Rightarrow> string" where
  "chars_of i j t = take (j - i) (drop i t)"

definition SIXMONTHS :: int where "SIXMONTHS = (365 div 2) * 86400"

text \<open>
  A \<open>time_t\<close> and an \<open>int64_t\<close> have 64 bits: the sum and the difference with six months overflow
  for dates at the ends of that range, and the cast of a total wraps around.
\<close>

definition fits64 :: "int \<Rightarrow> bool" where
  "fits64 x \<longleftrightarrow> - (2 ^ 63) \<le> x \<and> x < 2 ^ 63"

definition int64 :: "nat \<Rightarrow> int" where
  "int64 n = (if n < 2 ^ 63 then int n else int n - 2 ^ 64)"

definition printtime :: "lsopts \<Rightarrow> 'st lslib \<Rightarrow> int \<Rightarrow> int \<Rightarrow> ls_out \<Rightarrow> (unit, ls_out) outcome" where
  "printtime opt lib now ftime s =
     (let longstring = (case lib_ctime lib ftime of Some t \<Rightarrow> t | None \<Rightarrow> ''????????????????????????'');
          s = puts (chars_of 4 11 longstring) s
      in if f_sectime opt then Ret () (puts '' '' (puts (chars_of 11 24 longstring) s))
         else if \<not> fits64 (ftime + SIXMONTHS) \<or> ftime + SIXMONTHS > now \<and> \<not> fits64 (ftime - SIXMONTHS)
         then Stop (Undefined ''overflow of a time'') s
         else if ftime + SIXMONTHS > now \<and> ftime - SIXMONTHS < now
         then Ret () (puts '' '' (puts (chars_of 11 16 longstring) s))
         else Ret () (puts '' '' (puts ('' '' @ chars_of 20 24 longstring) s)))"

definition printtotal :: "lsopts \<Rightarrow> 'st lslib \<Rightarrow> DISPLAY \<Rightarrow> ls_out \<Rightarrow> (unit, ls_out) outcome" where
  "printtotal opt lib dp s =
     (case d_list dp of
        [] \<Rightarrow> Stop (Undefined ''null list'') s
      | p # _ \<Rightarrow>
          if fts_level p \<noteq> FTS_ROOTLEVEL \<and> (f_longform opt \<or> f_size opt) then
            (if f_humanize opt then
               (case lib_humanize lib (int64 (d_stotal dp)) of
                  None \<Rightarrow> err_exit 1 ''humanize_number'' [] s
                | Some szbuf \<Rightarrow> Ret () (puts (''total '' @ szbuf @ ''\<newline>'') s))
             else bnd (blocks_of opt (int (d_btotal dp)) s) (\<lambda>n s.
                    Ret () (puts (''total '' @ number_text opt lib n @ ''\<newline>'') s)))
          else Ret () s)"

definition MAXPATHLEN :: nat where "MAXPATHLEN = 1024"

definition printlink :: "lsopts \<Rightarrow> 'st lslib \<Rightarrow> ftsent \<Rightarrow> ls_out \<Rightarrow> (unit, ls_out) outcome" where
  "printlink opt lib p s =
     (let name = snprintf_buf (MAXPATHLEN + 1)
            (if fts_level p = FTS_ROOTLEVEL then fts_name p else parent_accpath p @ ''/'' @ fts_name p)
      in case lib_readlink lib name of
        Inl e \<Rightarrow> Ret () (warnx ''\<newline>ls: %s: %s\<newline>'' [ArgS name, ArgS (lib_errstr lib e)] s)
      | Inr path \<Rightarrow>
          let path = take MAXPATHLEN path; s = puts '' -> '' s in
          bnd (if f_octal opt \<or> f_octal_escape opt then safe_print opt lib path s
               else if f_nonprint opt then printescaped lib path s
               else printf_text path s) (\<lambda>_ s. Ret () s))"

section \<open>Listings\<close>

fun scol_loop :: "lsopts \<Rightarrow> 'st lslib \<Rightarrow> int \<Rightarrow> int \<Rightarrow> ftsent list \<Rightarrow> ls_out \<Rightarrow> (unit, ls_out) outcome" where
  "scol_loop opt lib inodef blockf [] s = Ret () s"
| "scol_loop opt lib inodef blockf (p # ps) s =
     (if IS_NOPRINT p then scol_loop opt lib inodef blockf ps s
      else bnd (printaname opt lib p inodef blockf s) (\<lambda>_ s.
             scol_loop opt lib inodef blockf ps (puts ''\<newline>'' s)))"

definition printscol :: "lsopts \<Rightarrow> 'st lslib \<Rightarrow> DISPLAY \<Rightarrow> ls_out \<Rightarrow> (unit, ls_out) outcome" where
  "printscol opt lib dp s = scol_loop opt lib (d_s_inode dp) (d_s_block dp) (d_list dp) s"

definition long_size :: "lsopts \<Rightarrow> 'st lslib \<Rightarrow> DISPLAY \<Rightarrow> ftsent \<Rightarrow> ls_out \<Rightarrow> (unit, ls_out) outcome" where
  "long_size opt lib dp p s =
     (let sp = fts_statp p in
      if is_chr (sb_mode sp) \<or> is_blk (sb_mode sp)
      then Ret () (puts (pad_left (d_s_major dp) (dec_of_int (sb_major sp)) @ '', ''
             @ pad_left (d_s_minor dp) (dec_of_int (sb_minor sp)) @ '' '') s)
      else if f_humanize opt then
        (case lib_humanize lib (sb_size sp) of
           None \<Rightarrow> err_exit 1 ''humanize_number'' [] s
         | Some szbuf \<Rightarrow> Ret () (puts (pad_left (d_s_size dp) szbuf @ '' '') s))
      else Ret () (puts (pad_left (d_s_size dp) (number_text opt lib (sb_size sp)) @ '' '') s))"

definition long_blocks :: "lsopts \<Rightarrow> 'st lslib \<Rightarrow> DISPLAY \<Rightarrow> ftsent \<Rightarrow> ls_out \<Rightarrow> (unit, ls_out) outcome" where
  "long_blocks opt lib dp p s =
     (let sp = fts_statp p in
      if f_size opt then
        (if f_humanize opt then
           (case lib_humanize lib (sb_blocks sp * 512) of
              None \<Rightarrow> err_exit 1 ''humanize_number'' [] s
            | Some szbuf \<Rightarrow> Ret () (puts (pad_left (d_s_block dp) szbuf @ '' '') s))
         else bnd (blocks_of opt (sb_blocks sp) s) (\<lambda>n s.
                Ret () (puts (pad_left (d_s_block dp) (number_text opt lib n) @ '' '') s)))
      else Ret () s)"

definition long_owner :: "lsopts \<Rightarrow> 'st lslib \<Rightarrow> DISPLAY \<Rightarrow> ftsent \<Rightarrow> ls_out \<Rightarrow> (unit, ls_out) outcome" where
  "long_owner opt lib dp p s =
     (let sp = fts_statp p;
          s = puts (lib_strmode lib (sb_mode sp) @ '' '' @ pad_left (d_s_nlink dp) (dec_of_nat (sb_nlink sp)) @ '' '') s
      in case fts_pointer p of
        None \<Rightarrow> Stop (Undefined ''null owner names'') s
      | Some np \<Rightarrow>
          let s = (if f_grouponly opt = 0 then puts (pad_right (d_s_user dp) (np_user np) @ ''  '') s else s);
              s = puts (pad_right (d_s_group dp) (np_group np) @ ''  '') s
          in Ret () (if f_flags opt then puts (pad_right (d_s_flags dp) (np_flags np) @ '' '') s else s))"

definition print_long_entry :: "lsopts \<Rightarrow> 'st lslib \<Rightarrow> DISPLAY \<Rightarrow> int \<Rightarrow> ftsent \<Rightarrow> ls_out \<Rightarrow> (unit, ls_out) outcome" where
  "print_long_entry opt lib dp now p s =
     (let sp = fts_statp p;
          s = (if f_inode opt then puts (pad_left (d_s_inode dp) (dec_of_nat (sb_ino sp)) @ '' '') s else s)
      in bnd (long_blocks opt lib dp p s) (\<lambda>_ s.
         bnd (long_owner opt lib dp p s) (\<lambda>_ s.
         bnd (long_size opt lib dp p s) (\<lambda>_ s.
         bnd (printtime opt lib now
                (if f_accesstime opt then sb_atime sp
                 else if f_statustime opt then sb_ctime sp else sb_mtime sp) s) (\<lambda>_ s.
         bnd (print_name opt lib p s) (\<lambda>_ s.
         bnd (if want_type opt p then printtype (sb_mode sp) s else Ret 0 s) (\<lambda>_ s.
         bnd (if is_lnk (sb_mode sp) then printlink opt lib p s else Ret () s) (\<lambda>_ s.
           Ret () (puts ''\<newline>'' s)))))))))"

fun long_loop :: "lsopts \<Rightarrow> 'st lslib \<Rightarrow> DISPLAY \<Rightarrow> int \<Rightarrow> ftsent list \<Rightarrow> ls_out \<Rightarrow> (unit, ls_out) outcome" where
  "long_loop opt lib dp now [] s = Ret () s"
| "long_loop opt lib dp now (p # ps) s =
     (if IS_NOPRINT p then long_loop opt lib dp now ps s
      else bnd (print_long_entry opt lib dp now p s) (\<lambda>_ s. long_loop opt lib dp now ps s))"

definition printlong :: "lsopts \<Rightarrow> 'st lslib \<Rightarrow> DISPLAY \<Rightarrow> ls_out \<Rightarrow> (unit, ls_out) outcome" where
  "printlong opt lib dp s =
     (let now = lib_time lib in
      bnd (if \<not> f_leafonly opt then printtotal opt lib dp s else Ret () s) (\<lambda>_ s.
        long_loop opt lib dp now (d_list dp) s))"

text \<open>The column width of \<open>printcol\<close> and \<open>printacol\<close>, and the field of the size.\<close>

definition colwidth :: "lsopts \<Rightarrow> DISPLAY \<Rightarrow> int" where
  "colwidth opt dp =
     int (d_maxlen dp) + (if f_inode opt then d_s_inode dp + 1 else 0)
     + (if f_size opt then (if f_humanize opt then d_s_size dp + 1 else d_s_block dp + 1) else 0)
     + (if f_type opt \<or> f_typedir opt then 1 else 0) + 1"

definition sizefield :: "lsopts \<Rightarrow> DISPLAY \<Rightarrow> int" where
  "sizefield opt dp = (if f_humanize opt then d_s_size dp else d_s_block dp)"

text \<open>\<open>while (chcnt++ < colwidth) putchar(' ')\<close>.\<close>

definition fill :: "int \<Rightarrow> int \<Rightarrow> string" where
  "fill chcnt w = replicate (nat (w - chcnt)) CHR '' ''"

text \<open>
  One row of \<open>printcol\<close>: \<open>n\<close> columns remain, the next entry is \<open>array[base]\<close>.
\<close>

fun row_loop :: "lsopts \<Rightarrow> 'st lslib \<Rightarrow> DISPLAY \<Rightarrow> ftsent list \<Rightarrow> nat \<Rightarrow> int \<Rightarrow> nat \<Rightarrow> nat \<Rightarrow> ls_out
    \<Rightarrow> (unit, ls_out) outcome" where
  "row_loop opt lib dp array numrows w 0 base s = Ret () s"
| "row_loop opt lib dp array numrows w (Suc n) base s =
     (if base < length array then
        bnd (printaname opt lib (array ! base) (d_s_inode dp) (sizefield opt dp) s) (\<lambda>chcnt s.
          if base + numrows \<ge> length array then Ret () s
          else row_loop opt lib dp array numrows w n (base + numrows) (puts (fill chcnt w) s))
      else Stop (Undefined ''array index out of range'') s)"

fun rows_loop :: "lsopts \<Rightarrow> 'st lslib \<Rightarrow> DISPLAY \<Rightarrow> ftsent list \<Rightarrow> nat \<Rightarrow> nat \<Rightarrow> int \<Rightarrow> nat \<Rightarrow> nat \<Rightarrow> ls_out
    \<Rightarrow> (unit, ls_out) outcome" where
  "rows_loop opt lib dp array numrows numcols w 0 row s = Ret () s"
| "rows_loop opt lib dp array numrows numcols w (Suc n) row s =
     bnd (row_loop opt lib dp array numrows w numcols row s) (\<lambda>_ s.
       rows_loop opt lib dp array numrows numcols w n (Suc row) (puts ''\<newline>'' s))"

definition col_table :: "lsopts \<Rightarrow> 'st lslib \<Rightarrow> DISPLAY \<Rightarrow> ls_out \<Rightarrow> (unit, ls_out) outcome" where
  "col_table opt lib dp s =
     (let array = shown (d_list dp); num = length array;
          numcols = nat (termwidth opt div colwidth opt dp);
          w = termwidth opt div int numcols;
          numrows = num div numcols + (if num mod numcols \<noteq> 0 then 1 else 0)
      in if colwidth opt dp = 0 \<or> numcols = 0 then Stop (Undefined ''division by zero'') s
         else bnd (printtotal opt lib dp s) (\<lambda>_ s. rows_loop opt lib dp array numrows numcols w numrows 0 s))"

text \<open>
  \<open>printcol\<close> keeps its table between calls: it is enlarged when the listing has more
  entries than any before. Writing more entries than the table holds is undefined.
\<close>

definition printcol :: "lsopts \<Rightarrow> 'st lslib \<Rightarrow> DISPLAY \<Rightarrow> ls_out \<Rightarrow> (unit, ls_out) outcome" where
  "printcol opt lib dp s =
     (if termwidth opt < 2 * colwidth opt dp then printscol opt lib dp s
      else if int (d_entries dp) > so_lastentries s \<and> \<not> lib_malloc lib (d_entries dp * 8)
      then printscol opt lib dp (warnx ''%m'' [] s)
      else
        let s = (if int (d_entries dp) > so_lastentries s then s\<lparr>so_lastentries := int (d_entries dp)\<rparr> else s)
        in if int (length (shown (d_list dp))) > so_lastentries s
           then Stop (Undefined ''table of entries overrun'') s
           else col_table opt lib dp s)"

fun acol_loop :: "lsopts \<Rightarrow> 'st lslib \<Rightarrow> DISPLAY \<Rightarrow> int \<Rightarrow> int \<Rightarrow> ftsent list \<Rightarrow> int \<Rightarrow> ls_out \<Rightarrow> (unit, ls_out) outcome" where
  "acol_loop opt lib dp numcols w [] col s = Ret () s"
| "acol_loop opt lib dp numcols w (p # ps) col s =
     (if IS_NOPRINT p then acol_loop opt lib dp numcols w ps col s
      else
        let s = (if col \<ge> numcols then puts ''\<newline>'' s else s); col = (if col \<ge> numcols then 0 else col)
        in bnd (printaname opt lib p (d_s_inode dp) (sizefield opt dp) s) (\<lambda>chcnt s.
             acol_loop opt lib dp numcols w ps (col + 1) (puts (fill chcnt w) s)))"

definition printacol :: "lsopts \<Rightarrow> 'st lslib \<Rightarrow> DISPLAY \<Rightarrow> ls_out \<Rightarrow> (unit, ls_out) outcome" where
  "printacol opt lib dp s =
     (if termwidth opt < 2 * colwidth opt dp then printscol opt lib dp s
      else
        let numcols = termwidth opt div colwidth opt dp; w = termwidth opt div numcols
        in if colwidth opt dp = 0 \<or> numcols = 0 then Stop (Undefined ''division by zero'') s
           else bnd (printtotal opt lib dp s) (\<lambda>_ s.
             bnd (acol_loop opt lib dp numcols w (d_list dp) 0 s) (\<lambda>_ s. Ret () (puts ''\<newline>'' s))))"

definition extwidth :: "lsopts \<Rightarrow> DISPLAY \<Rightarrow> int" where
  "extwidth opt dp =
     (if f_inode opt then d_s_inode dp + 1 else 0)
     + (if f_size opt then (if f_humanize opt then d_s_size dp + 1 else d_s_block dp + 1) else 0)
     + (if f_type opt then 1 else 0)"

fun stream_loop :: "lsopts \<Rightarrow> 'st lslib \<Rightarrow> DISPLAY \<Rightarrow> ftsent list \<Rightarrow> int \<Rightarrow> ls_out \<Rightarrow> (unit, ls_out) outcome" where
  "stream_loop opt lib dp [] col s = Ret () s"
| "stream_loop opt lib dp (p # ps) col s =
     (if IS_NOPRINT p then stream_loop opt lib dp ps col s
      else
        let wrap = col + 1 + 1 + extwidth opt dp + int (fts_namelen p) \<ge> termwidth opt;
            s = (if col > 0 then puts (if wrap then '',\<newline>'' else '', '') s else s);
            col = (if col > 0 then (if wrap then 0 else col + 2) else col)
        in bnd (printaname opt lib p (d_s_inode dp) (sizefield opt dp) s) (\<lambda>chcnt s.
             stream_loop opt lib dp ps (col + chcnt) s))"

definition printstream :: "lsopts \<Rightarrow> 'st lslib \<Rightarrow> DISPLAY \<Rightarrow> ls_out \<Rightarrow> (unit, ls_out) outcome" where
  "printstream opt lib dp s =
     bnd (stream_loop opt lib dp (d_list dp) 0 s) (\<lambda>_ s. Ret () (puts ''\<newline>'' s))"

definition call_printfcn :: "lsopts \<Rightarrow> 'st lslib \<Rightarrow> DISPLAY \<Rightarrow> ls_out \<Rightarrow> (unit, ls_out) outcome" where
  "call_printfcn opt lib dp s =
     (case printfcn opt of
        PrintScol \<Rightarrow> printscol opt lib dp s
      | PrintAcol \<Rightarrow> printacol opt lib dp s
      | PrintLong \<Rightarrow> printlong opt lib dp s
      | PrintStream \<Rightarrow> printstream opt lib dp s
      | PrintCol \<Rightarrow> printcol opt lib dp s)"

section \<open>What the formats print\<close>

text \<open>\<open>writes m t n\<close>: the operation \<open>m\<close> always returns \<open>n\<close> after printing \<open>t\<close>.\<close>

definition writes :: "(ls_out \<Rightarrow> ('a, ls_out) outcome) \<Rightarrow> string \<Rightarrow> 'a \<Rightarrow> bool" where
  "writes m t n \<longleftrightarrow> (\<forall>s. m s = Ret n (puts t s))"

lemma writesD: "writes m t n \<Longrightarrow> m s = Ret n (puts t s)"
  by (simp add: writes_def)

text \<open>The indices a row of \<open>printcol\<close> shows, and the text of the row.\<close>

fun row_cells :: "nat \<Rightarrow> nat \<Rightarrow> nat \<Rightarrow> nat \<Rightarrow> nat list" where
  "row_cells num numrows 0 base = []"
| "row_cells num numrows (Suc n) base =
     base # (if base + numrows \<ge> num then [] else row_cells num numrows n (base + numrows))"

fun row_text :: "(nat \<Rightarrow> string) \<Rightarrow> (nat \<Rightarrow> int) \<Rightarrow> int \<Rightarrow> nat list \<Rightarrow> string" where
  "row_text T N w [] = []"
| "row_text T N w [i] = T i"
| "row_text T N w (i # j # is) = T i @ fill (N i) w @ row_text T N w (j # is)"

lemma row_cells_Cons: "0 < n \<Longrightarrow> \<exists>is. row_cells num numrows n base = base # is"
  by (cases n) auto

text \<open>A row shows every \<open>numrows\<close>-th entry from \<open>base\<close> on, as long as there are columns.\<close>

lemma set_row_cells:
  assumes "0 < numrows"
  shows "base < num \<Longrightarrow> set (row_cells num numrows n base) = {i. i < num \<and> (\<exists>k < n. i = base + k * numrows)}"
proof (induction n arbitrary: base)
  case (Suc n)
  show ?case
  proof (cases "base + numrows < num")
    case True
    from Suc.IH [OF this] True have "set (row_cells num numrows (Suc n) base)
        = insert base {i. i < num \<and> (\<exists>k < n. i = base + Suc k * numrows)}"
      by (simp add: add.assoc)
    also have "\<dots> = {i. i < num \<and> (\<exists>k < Suc n. i = base + k * numrows)}"
      using Suc.prems by (auto simp: less_Suc_eq_0_disj)
    finally show ?thesis .
  next
    case False
    have "i = base" if "i < num" "i = base + k * numrows" for i k
      using that False assms by (cases k) auto
    then show ?thesis using False Suc.prems by (auto intro: exI [of _ 0])
  qed
qed simp

lemma row_cells_ge: "i \<in> set (row_cells num numrows n base) \<Longrightarrow> base \<le> i"
  by (induction num numrows n base rule: row_cells.induct) (force split: if_splits)+

lemma distinct_row_cells: "0 < numrows \<Longrightarrow> distinct (row_cells num numrows n base)"
  by (induction num numrows n base rule: row_cells.induct) (auto dest: row_cells_ge)

lemma length_row_cells: "length (row_cells num numrows n base) \<le> n"
  by (induction num numrows n base rule: row_cells.induct) auto

lemma row_cells_nth: "c < length (row_cells num numrows n base) \<Longrightarrow> row_cells num numrows n base ! c = base + c * numrows"
  by (induction num numrows n base arbitrary: c rule: row_cells.induct)
    (auto simp: nth_Cons split: nat.splits if_splits)

text \<open>The rows together show every entry exactly once.\<close>

definition table_rows :: "nat \<Rightarrow> nat \<Rightarrow> nat \<Rightarrow> nat list list" where
  "table_rows num numrows numcols = map (row_cells num numrows numcols) [0..<numrows]"

lemma table_rows_nth:
  "r < length (table_rows num numrows numcols) \<Longrightarrow> c < length (table_rows num numrows numcols ! r) \<Longrightarrow>
     table_rows num numrows numcols ! r ! c = r + c * length (table_rows num numrows numcols)"
  by (simp add: table_rows_def row_cells_nth)

lemma table_rows_length: "is \<in> set (table_rows num numrows numcols) \<Longrightarrow> length is \<le> numcols"
  using length_row_cells by (auto simp: table_rows_def)

lemma distinct_concat_rows:
  assumes "0 < numrows" "\<forall>r \<in> set rs. r < numrows \<and> r < num" "distinct rs"
  shows "distinct (concat (map (row_cells num numrows n) rs))"
  using assms(2,3)
proof (induction rs)
  case (Cons r rs)
  have cls: "i mod numrows = q" if "i \<in> set (row_cells num numrows n q)" "q < numrows" "q < num" for i q
    using that set_row_cells [OF assms(1) that(3)] by auto
  have "set (row_cells num numrows n r) \<inter> set (concat (map (row_cells num numrows n) rs)) = {}"
  proof (intro equals0I)
    fix i
    assume "i \<in> set (row_cells num numrows n r) \<inter> set (concat (map (row_cells num numrows n) rs))"
    then obtain q where "q \<in> set rs" "i \<in> set (row_cells num numrows n q)" "i \<in> set (row_cells num numrows n r)"
      by auto
    then have "q = r" using cls [of i q] cls [of i r] Cons.prems(1) by auto
    with \<open>q \<in> set rs\<close> Cons.prems(2) show False by simp
  qed
  then show ?case using Cons distinct_row_cells [OF assms(1)] by simp
qed simp

lemma table_rows_all:
  assumes "0 < numrows" "numrows \<le> num" "num \<le> numrows * numcols"
  shows "mset (concat (table_rows num numrows numcols)) = mset [0..<num]"
proof -
  have mem: "i \<in> set (concat (table_rows num numrows numcols)) \<longleftrightarrow> i < num" for i
  proof
    assume "i \<in> set (concat (table_rows num numrows numcols))"
    then obtain r where "r < numrows" "i \<in> set (row_cells num numrows numcols r)"
      by (auto simp: table_rows_def)
    then show "i < num" using set_row_cells [OF assms(1), of r num] assms(2) by auto
  next
    assume i: "i < num"
    have "i div numrows < numcols" using i assms(3) by (simp add: less_mult_imp_div_less mult.commute)
    moreover have "i = i mod numrows + (i div numrows) * numrows" by simp
    moreover have r: "i mod numrows < numrows" "i mod numrows < num" 
      using assms(1) order_less_le_trans [OF mod_less_divisor assms(2)] by auto
    ultimately have "i \<in> set (row_cells num numrows numcols (i mod numrows))"
      unfolding set_row_cells [OF assms(1) r(2)] using i by blast
    then show "i \<in> set (concat (table_rows num numrows numcols))"
      using r(1) by (auto simp: table_rows_def)
  qed
  have "distinct (concat (table_rows num numrows numcols))"
    unfolding table_rows_def by (rule distinct_concat_rows) (use assms in auto)
  moreover have "set (concat (table_rows num numrows numcols)) = set [0..<num]"
    unfolding set_eq_iff mem by simp
  ultimately show ?thesis using set_eq_iff_mset_eq_distinct distinct_upt by blast
qed

text \<open>The number of rows \<open>printcol\<close> computes is just enough.\<close>

lemma rows_enough:
  fixes num numcols :: nat
  assumes "0 < numcols" "0 < num"
  defines "numrows \<equiv> num div numcols + (if num mod numcols \<noteq> 0 then 1 else 0)"
  shows "0 < numrows" "numrows \<le> num" "num \<le> numrows * numcols"
proof -
  have eq: "num div numcols * numcols + num mod numcols = num" by (rule div_mult_mod_eq)
  show "num \<le> numrows * numcols"
  proof (cases "num mod numcols = 0")
    case True
    then show ?thesis using eq by (simp add: numrows_def)
  next
    case False
    then have "numrows * numcols = num div numcols * numcols + numcols" by (simp add: numrows_def)
    then show ?thesis using eq mod_less_divisor [OF assms(1), of num] by linarith
  qed
  then show "0 < numrows" using assms(2) by (cases numrows) auto
  show "numrows \<le> num"
  proof (cases "numcols = 1")
    case True
    then show ?thesis by (simp add: numrows_def)
  next
    case False
    then have "num div numcols < num" using assms by (intro div_less_dividend) auto
    then show ?thesis by (simp add: numrows_def)
  qed
qed

lemma row_loop_text:
  assumes "\<And>i. i < length array \<Longrightarrow>
      writes (printaname opt lib (array ! i) (d_s_inode dp) (sizefield opt dp)) (T i) (N i)"
  shows "base < length array \<Longrightarrow> length array \<le> base + n * numrows \<Longrightarrow>
    row_loop opt lib dp array numrows w n base s
      = Ret () (puts (row_text T N w (row_cells (length array) numrows n base)) s)"
proof (induction n arbitrary: base s)
  case 0
  then show ?case by simp
next
  case (Suc n)
  note name = writesD [OF assms [OF Suc.prems(1)]]
  show ?case
  proof (cases "length array \<le> base + numrows")
    case True
    then show ?thesis using Suc.prems(1) by (simp add: name)
  next
    case False
    then have "0 < n" using Suc.prems(2) by (cases n) auto
    then obtain js where js: "row_cells (length array) numrows n (base + numrows) = (base + numrows) # js"
      using row_cells_Cons by blast
    have "length array \<le> (base + numrows) + n * numrows" using Suc.prems(2) by simp
    with Suc.IH [of "base + numrows"] False show ?thesis
      using Suc.prems(1) by (simp add: name js puts_puts)
  qed
qed

definition table_text :: "(nat \<Rightarrow> string) \<Rightarrow> (nat \<Rightarrow> int) \<Rightarrow> int \<Rightarrow> nat list list \<Rightarrow> string" where
  "table_text T N w rows = concat (map (\<lambda>r. row_text T N w r @ ''\<newline>'') rows)"

lemma rows_loop_text:
  assumes "\<And>i. i < length array \<Longrightarrow>
      writes (printaname opt lib (array ! i) (d_s_inode dp) (sizefield opt dp)) (T i) (N i)"
    and "numrows \<le> length array" "length array \<le> numrows * numcols"
  shows "row + k \<le> numrows \<Longrightarrow> rows_loop opt lib dp array numrows numcols w k row s
    = Ret () (puts (table_text T N w (map (row_cells (length array) numrows numcols) [row..<row + k])) s)"
proof (induction k arbitrary: row s)
  case 0
  then show ?case by (simp add: table_text_def)
next
  case (Suc k)
  then have row: "row < length array" using assms(2) by simp
  moreover have "length array \<le> row + numcols * numrows" using assms(3) by (simp add: mult.commute)
  ultimately have r: "row_loop opt lib dp array numrows w numcols row u
      = Ret () (puts (row_text T N w (row_cells (length array) numrows numcols row)) u)" for u
    by (intro row_loop_text assms(1))
  have "[row..<row + Suc k] = row # [Suc row..<Suc row + k]" by (simp add: upt_conv_Cons)
  then show ?case using Suc by (simp add: r table_text_def puts_puts)
qed

lemma row_text_width:
  assumes "0 \<le> w"
  shows "\<forall>i \<in> set is. int (length (T i)) = N i \<and> N i \<le> w \<Longrightarrow>
    int (length (row_text T N w is)) \<le> int (length is) * w"
proof (induction "is" rule: induct_list012)
  case (3 i j "is")
  have "int (length (T i)) + int (length (fill (N i) w)) = w"
    using 3(3) by (simp add: fill_def)
  moreover have "int (length (row_text T N w (j # is))) \<le> int (length (j # is)) * w"
    using 3(2,3) by simp
  ultimately show ?case by (simp add: algebra_simps)
qed (use assms in auto)

lemma numcols_pos:
  assumes "0 < w" "2 * w \<le> t"
  shows "2 \<le> t div w" "w \<le> t div (t div w)" "(t div w) * (t div (t div w)) \<le> (t :: int)"
proof -
  show two: "2 \<le> t div w" using assms zdiv_mono1 [OF assms(2,1)] by simp
  have "(t div w) * w \<le> t" using assms(1) by (simp add: minus_mod_eq_div_mult [symmetric])
  then have "w * (t div w) div (t div w) \<le> t div (t div w)"
    using two by (intro zdiv_mono1) (simp_all add: mult.commute)
  then show "w \<le> t div (t div w)" using two by simp
  show "(t div w) * (t div (t div w)) \<le> t"
    using two by (simp add: minus_mod_eq_mult_div [symmetric])
qed

text \<open>
  \<open>plain_columns opt lib dp tot T N\<close>: the situation in which \<open>printcol\<close> makes columns: room for
  two, memory for the table, and texts \<open>T i\<close> of the names with the reported widths \<open>N i\<close>.
\<close>

definition plain_columns :: "lsopts \<Rightarrow> 'st lslib \<Rightarrow> DISPLAY \<Rightarrow> string \<Rightarrow> (nat \<Rightarrow> string) \<Rightarrow> (nat \<Rightarrow> int) \<Rightarrow> bool" where
  "plain_columns opt lib dp tot T N \<longleftrightarrow>
     0 < colwidth opt dp \<and> 2 * colwidth opt dp \<le> termwidth opt \<and>
     shown (d_list dp) \<noteq> [] \<and> d_entries dp = length (shown (d_list dp)) \<and> lib_malloc lib (d_entries dp * 8) \<and>
     (\<forall>s. printtotal opt lib dp s = Ret () (puts tot s)) \<and>
     (\<forall>i < d_entries dp. writes (printaname opt lib (shown (d_list dp) ! i) (d_s_inode dp) (sizefield opt dp)) (T i) (N i))"

definition final_width :: "lsopts \<Rightarrow> DISPLAY \<Rightarrow> int" where
  "final_width opt dp = termwidth opt div (termwidth opt div colwidth opt dp)"

definition col_rows :: "lsopts \<Rightarrow> DISPLAY \<Rightarrow> nat list list" where
  "col_rows opt dp =
     (let num = d_entries dp; nc = nat (termwidth opt div colwidth opt dp)
      in table_rows num (num div nc + (if num mod nc \<noteq> 0 then 1 else 0)) nc)"

lemma col_rows_facts:
  assumes "plain_columns opt lib dp tot T N"
  shows "mset (concat (col_rows opt dp)) = mset [0..<d_entries dp]"
    and "r < length (col_rows opt dp) \<Longrightarrow> c < length (col_rows opt dp ! r) \<Longrightarrow>
      col_rows opt dp ! r ! c = r + c * length (col_rows opt dp)"
    and "is \<in> set (col_rows opt dp) \<Longrightarrow> int (length is) \<le> termwidth opt div colwidth opt dp"
proof -
  let ?n = "d_entries dp" and ?nc = "nat (termwidth opt div colwidth opt dp)"
  let ?nr = "?n div ?nc + (if ?n mod ?nc \<noteq> 0 then 1 else 0)"
  have w: "0 < colwidth opt dp" "2 * colwidth opt dp \<le> termwidth opt" and n: "0 < ?n"
    using assms by (auto simp: plain_columns_def)
  have nc: "0 < ?nc" using numcols_pos(1) [OF w] by simp
  note enough = rows_enough [OF nc n]
  show "mset (concat (col_rows opt dp)) = mset [0..<d_entries dp]"
    unfolding col_rows_def Let_def by (rule table_rows_all [OF enough])
  show "col_rows opt dp ! r ! c = r + c * length (col_rows opt dp)"
    if "r < length (col_rows opt dp)" "c < length (col_rows opt dp ! r)"
    using that unfolding col_rows_def Let_def by (rule table_rows_nth)
  show "int (length is) \<le> termwidth opt div colwidth opt dp" if "is \<in> set (col_rows opt dp)"
  proof -
    from that have "length is \<le> ?nc"
      unfolding col_rows_def Let_def by (rule table_rows_length)
    then show ?thesis using numcols_pos(1) [OF w] by simp
  qed
qed

lemma printcol_out:
  assumes "plain_columns opt lib dp tot T N"
  shows "\<exists>t. printcol opt lib dp s = Ret () t \<and>
    so_out t = so_out s @ tot @ table_text T N (final_width opt dp) (col_rows opt dp)"
proof -
  let ?a = "shown (d_list dp)" and ?nc = "nat (termwidth opt div colwidth opt dp)"
  let ?nr = "length ?a div ?nc + (if length ?a mod ?nc \<noteq> 0 then 1 else 0)"
  have w: "0 < colwidth opt dp" "2 * colwidth opt dp \<le> termwidth opt" and ne: "0 < length ?a"
    and len: "d_entries dp = length ?a" and m: "lib_malloc lib (d_entries dp * 8)"
    and tot: "printtotal opt lib dp s = Ret () (puts tot s)"
    and names: "i < length ?a \<Longrightarrow>
      writes (printaname opt lib (?a ! i) (d_s_inode dp) (sizefield opt dp)) (T i) (N i)" for s i
    using assms by (auto simp: plain_columns_def)
  have nc: "0 < ?nc" "int ?nc = termwidth opt div colwidth opt dp" using numcols_pos(1) [OF w] by auto
  let ?s = "if int (d_entries dp) > so_lastentries s then s\<lparr>so_lastentries := int (d_entries dp)\<rparr> else s"
  let ?w = "termwidth opt div int ?nc"
  have rows: "col_rows opt dp = map (row_cells (length ?a) ?nr ?nc) [0..<?nr]"
    unfolding col_rows_def table_rows_def Let_def len by (rule refl)
  have "rows_loop opt lib dp ?a ?nr ?nc ?w ?nr 0 u = Ret () (puts (table_text T N ?w (col_rows opt dp)) u)" for u
    using rows_loop_text [OF names rows_enough(2,3) [OF nc(1) ne], where row = 0 and k = ?nr and w = ?w and s = u]
    unfolding rows add_0 by blast
  then have "col_table opt lib dp ?s = Ret () (puts (tot @ table_text T N ?w (col_rows opt dp)) ?s)"
    using w(1) nc by (simp add: col_table_def Let_def tot puts_puts)
  then have "printcol opt lib dp s = Ret () (puts (tot @ table_text T N ?w (col_rows opt dp)) ?s)"
    using w len m by (simp add: printcol_def Let_def)
  then show ?thesis using nc(2) by (simp add: final_width_def puts_def)
qed

text \<open>The single-column, the across and the stream format.\<close>

lemma scol_loop_text:
  assumes "\<And>p. p \<in> set (shown ps) \<Longrightarrow> writes (printaname opt lib p i b) (T p) (N p)"
  shows "scol_loop opt lib i b ps s = Ret () (puts (concat (map (\<lambda>p. T p @ ''\<newline>'') (shown ps))) s)"
  using assms
proof (induction ps arbitrary: s)
  case (Cons p ps)
  show ?case
  proof (cases "IS_NOPRINT p")
    case True
    with Cons show ?thesis by (simp add: shown_def)
  next
    case False
    then have "writes (printaname opt lib p i b) (T p) (N p)" using Cons.prems by (simp add: shown_def)
    note name = writesD [OF this]
    from Cons False show ?thesis by (simp add: shown_def name puts_puts)
  qed
qed (simp add: shown_def)

fun interleave :: "string list \<Rightarrow> string list \<Rightarrow> string" where
  "interleave (t # ts) (u # us) = t @ u @ interleave ts us"
| "interleave ts us = concat ts"

lemma stream_loop_text:
  assumes "\<And>p. p \<in> set (shown ps) \<Longrightarrow>
      writes (printaname opt lib p (d_s_inode dp) (sizefield opt dp)) (T p) (N p) \<and> 0 < N p"
  shows "0 < col \<Longrightarrow> \<exists>seps. length seps = length (shown ps) \<and> set seps \<subseteq> {'', '', '',\<newline>''} \<and>
    stream_loop opt lib dp ps col s = Ret () (puts (interleave seps (map T (shown ps))) s)"
  using assms
proof (induction ps arbitrary: col s)
  case (Cons p ps)
  show ?case
  proof (cases "IS_NOPRINT p")
    case True
    with Cons show ?thesis by (simp add: shown_def)
  next
    case False
    then have p: "writes (printaname opt lib p (d_s_inode dp) (sizefield opt dp)) (T p) (N p)" "0 < N p"
      using Cons.prems(2) by (simp_all add: shown_def)
    let ?wrap = "col + 1 + 1 + extwidth opt dp + int (fts_namelen p) \<ge> termwidth opt"
    let ?sep = "if ?wrap then '',\<newline>'' else '', ''" and ?col = "(if ?wrap then 0 else col + 2) + N p"
    have "0 < ?col" using p(2) Cons.prems(1) by simp
    from Cons.IH [OF this, of "puts (T p) (puts ?sep s)"] Cons.prems(2) obtain seps where
      seps: "length seps = length (shown ps)" "set seps \<subseteq> {'', '', '',\<newline>''}"
        "stream_loop opt lib dp ps ?col (puts (T p) (puts ?sep s))
          = Ret () (puts (interleave seps (map T (shown ps))) (puts (T p) (puts ?sep s)))"
      by (auto simp: shown_def)
    have "stream_loop opt lib dp (p # ps) col s = stream_loop opt lib dp ps ?col (puts (T p) (puts ?sep s))"
      using False Cons.prems(1) by (simp add: writesD [OF p(1)] Let_def)
    with seps False show ?thesis
      by (intro exI [of _ "?sep # seps"]) (simp add: shown_def puts_puts)
  qed
qed (simp add: shown_def)

section \<open>Properties\<close>

text \<open>
  C31: the column format shows every entry exactly once. When the terminal has room for two
  columns and the table can be allocated, \<open>printcol()\<close> prints the total line and then rows of
  entries: together the rows contain each entry to be shown once, filled column by column
  (the entry in row \<open>r\<close> and column \<open>c\<close> is number \<open>r + c * rows\<close>), and the table is never
  accessed outside its bounds.
\<close>

theorem printcol_layout:
  assumes "plain_columns opt lib dp tot T N"
  shows "\<exists>rows t. printcol opt lib dp s = Ret () t \<and>
    so_out t = so_out s @ tot @ table_text T N (final_width opt dp) rows \<and>
    mset (concat rows) = mset [0..<d_entries dp] \<and>
    (\<forall>r < length rows. \<forall>c < length (rows ! r). rows ! r ! c = r + c * length rows)"
proof -
  obtain t where "printcol opt lib dp s = Ret () t"
    "so_out t = so_out s @ tot @ table_text T N (final_width opt dp) (col_rows opt dp)"
    using printcol_out [OF assms] by blast
  then show ?thesis using col_rows_facts(1,2) [OF assms] by blast
qed

text \<open>Three plain files on a terminal of eighty columns.\<close>

definition plain_entry :: "string \<Rightarrow> ftsent" where
  "plain_entry n = \<lparr>fts_info = FTS_F, fts_level = 1, fts_name = n, fts_path = ''/d'', fts_errno = 0,
     fts_number = 0, fts_statp = \<lparr>sb_mode = 0x81A4, sb_ino = 7, sb_nlink = 1, sb_uid = 0, sb_gid = 0, sb_size = 1,
       sb_blocks = 8, sb_major = 0, sb_minor = 0, sb_flags = 0, sb_atime = 0, sb_atimensec = 0,
       sb_mtime = 0, sb_mtimensec = 0, sb_ctime = 0, sb_ctimensec = 0\<rparr>,
     fts_pointer = None, parent_accpath = ''/d''\<rparr>"

definition plain_display :: "string list \<Rightarrow> nat \<Rightarrow> DISPLAY" where
  "plain_display ns m = \<lparr>d_list = map plain_entry ns, d_btotal = 0, d_stotal = 0, d_entries = length ns,
     d_maxlen = m, d_s_block = 0, d_s_flags = 0, d_s_group = 0, d_s_inode = 0, d_s_nlink = 0, d_s_size = 0,
     d_s_user = 0, d_s_major = 0, d_s_minor = 0\<rparr>"

lemma plain_shown [simp]: "shown (map plain_entry ns) = map plain_entry ns"
  by (simp add: shown_def IS_NOPRINT_def plain_entry_def NO_PRINT_def filter_map comp_def)

lemma plain_writes:
  "writes (printaname (init_opts\<lparr>termwidth := w\<rparr>) lib (plain_entry n) i b) n (int (length n))"
  by (simp add: writes_def printaname_def print_name_def printpath_def printf_text_def want_type_def
      init_opts_def plain_entry_def Let_def)

lemma plain_display_fields [simp]:
  "d_list (plain_display ns m) = map plain_entry ns" "d_entries (plain_display ns m) = length ns"
  "d_maxlen (plain_display ns m) = m" "d_s_inode (plain_display ns m) = 0" "d_s_block (plain_display ns m) = 0"
  by (simp_all add: plain_display_def)

lemma plain_columns_sample:
  assumes "ns \<noteq> []" "2 * (int m + 1) \<le> w"
  shows "plain_columns (init_opts\<lparr>termwidth := w\<rparr>) sample_lib (plain_display ns m) [] (\<lambda>i. ns ! i) (\<lambda>i. int (length (ns ! i)))"
proof -
  have total: "printtotal (init_opts\<lparr>termwidth := w\<rparr>) sample_lib (plain_display ns m) s = Ret () s" for s
    using assms(1) by (cases ns) (simp_all add: printtotal_def init_opts_def)
  have width: "colwidth (init_opts\<lparr>termwidth := w\<rparr>) (plain_display ns m) = int m + 1"
    by (simp add: colwidth_def init_opts_def)
  have alloc: "lib_malloc sample_lib n" for n by (simp add: sample_lib_def)
  show ?thesis unfolding plain_columns_def
    using assms(2) by (simp add: total width alloc assms(1) plain_writes)
qed

theorem printcol_layout_witness:
  "\<exists>rows t. printcol (init_opts\<lparr>termwidth := 8\<rparr>) sample_lib (plain_display [''a'', ''bc'', ''d''] 2) no_output = Ret () t \<and>
     mset (concat rows) = mset [0..<3]"
proof -
  have "plain_columns (init_opts\<lparr>termwidth := 8\<rparr>) sample_lib (plain_display [''a'', ''bc'', ''d''] 2) []
      (\<lambda>i. [''a'', ''bc'', ''d''] ! i) (\<lambda>i. int (length ([''a'', ''bc'', ''d''] ! i)))"
    by (rule plain_columns_sample) simp_all
  moreover have "d_entries (plain_display [''a'', ''bc'', ''d''] 2) = 3" by (simp add: plain_display_def)
  ultimately show ?thesis using printcol_layout by metis
qed

text \<open>
  The lines of the column format fit the terminal: if every name takes the columns it
  reports and these are less than the column width, no line of \<open>printcol()\<close> is longer than
  \<open>termwidth\<close>.
\<close>

lemma printcol_fits:
  assumes "plain_columns opt lib dp tot T N"
    and "\<forall>i < d_entries dp. int (length (T i)) = N i \<and> N i < colwidth opt dp"
  shows "\<exists>rows t. printcol opt lib dp s = Ret () t \<and>
    so_out t = so_out s @ tot @ table_text T N (final_width opt dp) rows \<and>
    (\<forall>is \<in> set rows. int (length (row_text T N (final_width opt dp) is)) \<le> termwidth opt)"
proof -
  have w: "0 < colwidth opt dp" "2 * colwidth opt dp \<le> termwidth opt"
    using assms(1) by (auto simp: plain_columns_def)
  note nc = numcols_pos [OF w, folded final_width_def]
  have "int (length (row_text T N (final_width opt dp) is)) \<le> termwidth opt" if row: "is \<in> set (col_rows opt dp)" for "is"
  proof -
    have "set is \<subseteq> set (concat (col_rows opt dp))" using row by auto
    also have "\<dots> = {0..<d_entries dp}" using mset_eq_setD [OF col_rows_facts(1) [OF assms(1)]] by simp
    finally have "\<forall>i \<in> set is. int (length (T i)) = N i \<and> N i \<le> final_width opt dp"
      using assms(2) nc(2) by force
    then have "int (length (row_text T N (final_width opt dp) is)) \<le> int (length is) * final_width opt dp"
      using w nc(2) by (intro row_text_width) auto
    also have "\<dots> \<le> (termwidth opt div colwidth opt dp) * final_width opt dp"
      using col_rows_facts(3) [OF assms(1) row] w nc(2) by (intro mult_right_mono) auto
    also have "\<dots> \<le> termwidth opt" by (rule nc(3))
    finally show ?thesis .
  qed
  with printcol_out [OF assms(1)] show ?thesis by blast
qed

text \<open>
  The stream format: \<open>printstream()\<close> prints the names to be shown in order, separated
  by a comma and a blank or a comma and a newline, and ends with a newline.
\<close>

lemma printstream_text:
  assumes "\<And>p. p \<in> set (shown (d_list dp)) \<Longrightarrow>
      writes (printaname opt lib p (d_s_inode dp) (sizefield opt dp)) (T p) (N p) \<and> 0 < N p"
    and "shown (d_list dp) = p # ps"
  shows "\<exists>seps. length seps = length ps \<and> set seps \<subseteq> {'', '', '',\<newline>''} \<and>
    printstream opt lib dp s = Ret () (puts (T p @ interleave seps (map T ps) @ ''\<newline>'') s)"
proof -
  have first: "\<exists>seps. length seps = length ps \<and> set seps \<subseteq> {'', '', '',\<newline>''} \<and>
      stream_loop opt lib dp qs 0 u = Ret () (puts (T p @ interleave seps (map T ps)) u)"
    if "shown qs = p # ps" "\<And>p. p \<in> set (shown qs) \<Longrightarrow>
      writes (printaname opt lib p (d_s_inode dp) (sizefield opt dp)) (T p) (N p) \<and> 0 < N p" for qs u
    using that
  proof (induction qs arbitrary: u)
    case (Cons q qs)
    show ?case
    proof (cases "IS_NOPRINT q")
      case True
      with Cons show ?thesis by (simp add: shown_def)
    next
      case False
      then have q: "q = p" "shown qs = ps" using Cons.prems(1) by (auto simp: shown_def)
      have p: "writes (printaname opt lib p (d_s_inode dp) (sizefield opt dp)) (T p) (N p)" "0 < N p"
        using Cons.prems(2) [of p] Cons.prems(1) by auto
      have rest: "\<And>r. r \<in> set (shown qs) \<Longrightarrow>
          writes (printaname opt lib r (d_s_inode dp) (sizefield opt dp)) (T r) (N r) \<and> 0 < N r"
        using Cons.prems q by simp
      from stream_loop_text [OF rest p(2), where s = "puts (T p) u"] False q show ?thesis
        by (auto simp: writesD [OF p(1)] puts_puts)
    qed
  qed (simp add: shown_def)
  from first [OF assms(2,1), of s] show ?thesis by (auto simp: printstream_def puts_puts)
qed

end
