(* ===== verification/Stat_Flags.thy ===== *)
theory Stat_Flags
  imports Prelude
begin

text \<open>
  The file flags of \<open>ls -o\<close>: \<open>stat_flags.c\<close> of the NetBSD ls sources. \<open>flags_to_string\<close>
  prints a set of flags as a comma-separated list, \<open>string_to_flags\<close> parses such a list into
  the flags to set and to clear. The pointers \<open>setp\<close> and \<open>clrp\<close> may be NULL: they are options
  of 64-bit words.
\<close>

unbundle bit_operations_syntax

type_synonym u64 = "64 word"

section \<open>Definitions\<close>

definition UF_NODUMP :: u64 where "UF_NODUMP = 0x1"
definition UF_IMMUTABLE :: u64 where "UF_IMMUTABLE = 0x2"
definition UF_APPEND :: u64 where "UF_APPEND = 0x4"
definition UF_OPAQUE :: u64 where "UF_OPAQUE = 0x8"
definition SF_ARCHIVED :: u64 where "SF_ARCHIVED = 0x10000"
definition SF_IMMUTABLE :: u64 where "SF_IMMUTABLE = 0x20000"
definition SF_APPEND :: u64 where "SF_APPEND = 0x40000"

lemmas stat_flag_defs = UF_NODUMP_def UF_IMMUTABLE_def UF_APPEND_def UF_OPAQUE_def
  SF_ARCHIVED_def SF_IMMUTABLE_def SF_APPEND_def

text \<open>\<open>strlcat(d, s, n)\<close> and \<open>strlcpy(d, s, n)\<close>: the contents of the buffer of size \<open>n\<close> after.\<close>

definition strlcat :: "nat \<Rightarrow> string \<Rightarrow> string \<Rightarrow> string" where
  "strlcat n d s = (if length d < n then take (n - 1) (d @ s) else d)"

definition strlcpy :: "nat \<Rightarrow> string \<Rightarrow> string" where
  "strlcpy n s = take (n - 1) s"

definition FLAG_BUF :: nat where "FLAG_BUF = 128"

text \<open>The macro \<open>SAPPEND\<close> on the buffer and the pointer \<open>prefix\<close>.\<close>

definition SAPPEND :: "string \<Rightarrow> string \<times> string option \<Rightarrow> string \<times> string option" where
  "SAPPEND s st = (case st of (buf, prefix) \<Rightarrow>
     let buf = (case prefix of None \<Rightarrow> buf | Some p \<Rightarrow> strlcat FLAG_BUF buf p)
     in (strlcat FLAG_BUF buf s, Some '',''))"

definition flag_if :: "u64 \<Rightarrow> u64 \<Rightarrow> string \<Rightarrow> string \<times> string option \<Rightarrow> string \<times> string option" where
  "flag_if flags f s st = (if flags AND f \<noteq> 0 then SAPPEND s st else st)"

definition flags_to_string :: "u64 \<Rightarrow> string \<Rightarrow> string" where
  "flags_to_string flags def =
     (let st = ([], None);
          st = flag_if flags UF_APPEND ''uappnd'' st;
          st = flag_if flags UF_IMMUTABLE ''uchg'' st;
          st = flag_if flags UF_NODUMP ''nodump'' st;
          st = flag_if flags UF_OPAQUE ''opaque'' st;
          st = flag_if flags SF_APPEND ''sappnd'' st;
          st = flag_if flags SF_ARCHIVED ''arch'' st;
          st = flag_if flags SF_IMMUTABLE ''schg'' st
      in if snd st = None then strlcpy FLAG_BUF def else fst st)"

text \<open>
  One token: the flag it names and whether it is to be cleared, \<open>None\<close> when the switch
  returns 1. \<open>test\<close> is one or more uses of the macro \<open>TEST\<close> with the same flag.
\<close>

definition test :: "string \<Rightarrow> (string \<times> u64) list \<Rightarrow> bool \<Rightarrow> (u64 \<times> bool) option" where
  "test p alts clear = map_option (\<lambda>(n, f). (f, clear)) (List.find (\<lambda>(n, f). strcmp p n = 0) alts)"

definition flag_token :: "string \<Rightarrow> (u64 \<times> bool) option" where
  "flag_token p =
     (let no = char_at p 0 = CHR ''n'' \<and> char_at p 1 = CHR ''o'';
          clear = no;
          p = (if no then drop 2 p else p);
          c = char_at p 0
      in if c = CHR ''a'' then test p [(''arch'', SF_ARCHIVED), (''archived'', SF_ARCHIVED)] clear
         else if c = CHR ''d'' then test p [(''dump'', UF_NODUMP)] (\<not> clear)
         else if c = CHR ''n'' then test p [(''nodump'', UF_NODUMP)] clear
         else if c = CHR ''o'' then test p [(''opaque'', UF_OPAQUE)] clear
         else if c = CHR ''s'' then
           test p [(''sappnd'', SF_APPEND), (''sappend'', SF_APPEND), (''schg'', SF_IMMUTABLE),
                   (''schange'', SF_IMMUTABLE), (''simmutable'', SF_IMMUTABLE)] clear
         else if c = CHR ''u'' then
           test p [(''uappnd'', UF_APPEND), (''uappend'', UF_APPEND), (''uchg'', UF_IMMUTABLE),
                   (''uchange'', UF_IMMUTABLE), (''uimmutable'', UF_IMMUTABLE)] clear
         else None)"

text \<open>What the macro \<open>TEST\<close> stores through the two pointers.\<close>

definition store_flag :: "u64 \<times> bool \<Rightarrow> u64 option \<times> u64 option \<Rightarrow> u64 option \<times> u64 option" where
  "store_flag fc sc = (case fc of (f, clear) \<Rightarrow> case sc of (setp, clrp) \<Rightarrow>
     if clear then (map_option (\<lambda>x. x AND NOT f) setp, map_option (\<lambda>x. x OR f) clrp)
     else (map_option (\<lambda>x. x OR f) setp, map_option (\<lambda>x. x AND NOT f) clrp))"

definition delim :: "char \<Rightarrow> bool" where
  "delim c \<longleftrightarrow> c = CHR 0x09 \<or> c = CHR '' '' \<or> c = CHR '',''"

text \<open>\<open>strsep()\<close>: the token up to the next delimiter, and the rest if there was a delimiter.\<close>

definition strsep :: "string \<Rightarrow> string \<times> string option" where
  "strsep s = (takeWhile (\<lambda>c. \<not> delim c) s,
     case dropWhile (\<lambda>c. \<not> delim c) s of [] \<Rightarrow> None | d # r \<Rightarrow> Some r)"

lemma strsep_shorter: "strsep s = (p, Some r) \<Longrightarrow> length r < length s"
  by (auto simp: strsep_def split: list.splits)
    (metis impossible_Cons length_dropWhile_le linorder_not_less order.strict_trans2 lessI length_Cons)

text \<open>
  The loop: the rest of the string (\<open>None\<close> when \<open>strsep\<close> returns NULL), the token
  \<open>*stringp\<close> points to, and the two results.
\<close>

function flag_loop :: "string option \<Rightarrow> string \<Rightarrow> u64 option \<times> u64 option
    \<Rightarrow> int \<times> string \<times> u64 option \<times> u64 option" where
  "flag_loop None cur sc = (0, cur, sc)"
| "flag_loop (Some s) cur sc =
     (case strsep s of (p, rest) \<Rightarrow>
        if p = [] then flag_loop rest p sc
        else case flag_token p of
          None \<Rightarrow> (1, p, sc)
        | Some fc \<Rightarrow> flag_loop rest p (store_flag fc sc))"
  by pat_completeness auto
termination
  by (relation "measure (\<lambda>(r, cur, sc). case r of None \<Rightarrow> 0 | Some s \<Rightarrow> Suc (length s))")
    (auto split: option.splits dest: strsep_shorter [OF sym] strsep_shorter)

declare flag_loop.simps [simp del]

definition string_to_flags :: "string \<Rightarrow> u64 option \<Rightarrow> u64 option \<Rightarrow> int \<times> string \<times> u64 option \<times> u64 option" where
  "string_to_flags s setp clrp =
     flag_loop (Some s) s (map_option (\<lambda>_. 0) setp, map_option (\<lambda>_. 0) clrp)"

section \<open>The list of names\<close>

definition flag_table :: "(u64 \<times> string) list" where
  "flag_table = [(UF_APPEND, ''uappnd''), (UF_IMMUTABLE, ''uchg''), (UF_NODUMP, ''nodump''),
     (UF_OPAQUE, ''opaque''), (SF_APPEND, ''sappnd''), (SF_ARCHIVED, ''arch''), (SF_IMMUTABLE, ''schg'')]"

definition FLAG_MASK :: u64 where
  "FLAG_MASK = UF_NODUMP OR UF_IMMUTABLE OR UF_APPEND OR UF_OPAQUE OR SF_ARCHIVED OR SF_IMMUTABLE OR SF_APPEND"

definition selected :: "u64 \<Rightarrow> (u64 \<times> string) list \<Rightarrow> (u64 \<times> string) list" where
  "selected flags = filter (\<lambda>(f, s). flags AND f \<noteq> 0)"

fun join :: "string list \<Rightarrow> string" where
  "join [] = []"
| "join [x] = x"
| "join (x # y # ys) = x @ CHR '','' # join (y # ys)"

lemma join_snoc: "join (xs @ [x]) = (if xs = [] then x else join xs @ CHR '','' # x)"
  by (induction xs rule: join.induct) auto

lemma length_join: "length (join xs) \<le> (\<Sum>x \<leftarrow> xs. length x + 1)"
  by (induction xs rule: join.induct) auto

abbreviation joined :: "string list \<Rightarrow> string \<times> string option" where
  "joined ns \<equiv> (join ns, if ns = [] then None else Some '','')"

lemma SAPPEND_joined:
  assumes "length (join (ns @ [s])) < FLAG_BUF"
  shows "SAPPEND s (joined ns) = joined (ns @ [s])"
  using assms by (cases "ns = []") (auto simp: SAPPEND_def strlcat_def join_snoc FLAG_BUF_def)

lemma fold_flag_if:
  "(\<Sum>x \<leftarrow> ns @ map snd ts. length x + 1) < FLAG_BUF \<Longrightarrow>
   fold (\<lambda>(f, s). flag_if flags f s) ts (joined ns) = joined (ns @ map snd (selected flags ts))"
proof (induction ts arbitrary: ns)
  case Nil
  then show ?case by (simp add: selected_def)
next
  case (Cons t ts)
  obtain f s where t: "t = (f, s)" by fastforce
  show ?case
  proof (cases "flags AND f = 0")
    case True
    with Cons t show ?thesis by (simp add: flag_if_def selected_def)
  next
    case False
    have "length (join (ns @ [s])) < FLAG_BUF"
      using length_join [of "ns @ [s]"] Cons.prems t by simp
    then have "flag_if flags f s (joined ns) = joined (ns @ [s])"
      using False SAPPEND_joined by (simp add: flag_if_def)
    with Cons.IH [of "ns @ [s]"] Cons.prems t False show ?thesis
      by (simp add: selected_def)
  qed
qed

lemma flags_to_string_join:
  "flags_to_string flags def =
     (let ns = map snd (selected flags flag_table) in if ns = [] then strlcpy FLAG_BUF def else join ns)"
proof -
  have "flags_to_string flags def =
     (let st = fold (\<lambda>(f, s). flag_if flags f s) flag_table (joined [])
      in if snd st = None then strlcpy FLAG_BUF def else fst st)"
    by (simp add: flags_to_string_def flag_table_def)
  also have "fold (\<lambda>(f, s). flag_if flags f s) flag_table (joined []) = joined (map snd (selected flags flag_table))"
    using fold_flag_if [of "[]" flag_table flags] by (simp add: flag_table_def FLAG_BUF_def)
  finally show ?thesis by (simp add: Let_def)
qed

section \<open>Splitting and parsing\<close>

text \<open>The specification of the splitting: the pieces between delimiters, empty ones included.\<close>

fun tokens :: "string \<Rightarrow> string list" where
  "tokens [] = [[]]"
| "tokens (c # cs) = (if delim c then [] # tokens cs
     else case tokens cs of [] \<Rightarrow> [[c]] | t # ts \<Rightarrow> (c # t) # ts)"

lemma tokens_strsep:
  "tokens s = (case strsep s of (p, None) \<Rightarrow> [p] | (p, Some r) \<Rightarrow> p # tokens r)"
  by (induction s) (auto simp: strsep_def split: list.splits)

lemma tokens_no_delim: "list_all (\<lambda>c. \<not> delim c) p \<Longrightarrow> tokens p = [p]"
  by (induction p) auto

lemma tokens_append: "list_all (\<lambda>c. \<not> delim c) p \<Longrightarrow> delim d \<Longrightarrow> tokens (p @ d # r) = p # tokens r"
  by (induction p) auto

lemma tokens_join:
  "ns \<noteq> [] \<Longrightarrow> \<forall>n \<in> set ns. list_all (\<lambda>c. \<not> delim c) n \<Longrightarrow> tokens (join ns) = ns"
  by (induction ns rule: join.induct) (auto simp: tokens_no_delim tokens_append delim_def)

abbreviation words_of :: "string \<Rightarrow> string list" where
  "words_of s \<equiv> filter (\<lambda>t. t \<noteq> []) (tokens s)"

definition bad_token :: "string \<Rightarrow> bool" where
  "bad_token t \<longleftrightarrow> flag_token t = None"

text \<open>
  The loop stores the flags of the words before the first bad one, and stops there with
  result 1 and the pointer at that word.
\<close>

lemma flag_loop_spec:
  "flag_loop (Some s) cur sc =
     (let ws = words_of s; good = takeWhile (\<lambda>t. \<not> bad_token t) ws;
          sc' = fold store_flag (map (the \<circ> flag_token) good) sc
      in if good = ws then (0, last (tokens s), sc') else (1, ws ! length good, sc'))"
proof (induction "Some s" cur sc arbitrary: s rule: flag_loop.induct)
  case (2 s cur sc)
  obtain p rest where sep: "strsep s = (p, rest)" by fastforce
  have step: "flag_loop (Some s) cur sc = (if p = [] then flag_loop rest p sc else
      case flag_token p of None \<Rightarrow> (1, p, sc) | Some fc \<Rightarrow> flag_loop rest p (store_flag fc sc))"
    by (simp add: flag_loop.simps(2) sep)
  show ?case
  proof (cases rest)
    case None
    then have "tokens s = [p]" using tokens_strsep [of s] sep by simp
    then show ?thesis
      unfolding step using None by (simp add: Let_def bad_token_def flag_loop.simps(1) split: option.splits)
  next
    case (Some r)
    then have tok: "tokens s = p # tokens r" using tokens_strsep [of s] sep by simp
    note sep' = sep [symmetric, unfolded Some]
    have ne: "tokens r \<noteq> []" by (cases r) (auto split: list.splits)
    show ?thesis
    proof (cases "p = []")
      case True
      then show ?thesis unfolding step tok using 2(1) [OF sep' True] Some ne
        by (simp add: Let_def del: takeWhile_eq_all_conv)
    next
      case False
      show ?thesis
      proof (cases "flag_token p")
        case None
        then have "bad_token p" by (simp add: bad_token_def)
        then show ?thesis unfolding step tok using False None by (simp add: Let_def)
      next
        case fc: (Some fc)
        then have "\<not> bad_token p" by (simp add: bad_token_def)
        then show ?thesis
          unfolding step tok using 2(2) [OF sep' False fc] Some fc False ne
          by (simp add: Let_def del: takeWhile_eq_all_conv)
      qed
    qed
  qed
qed

section \<open>Flags as bits\<close>

lemma and_single_bit: "(if x AND 2 ^ k = 0 then 0 else 2 ^ k) = x AND (2 ^ k :: u64)" if "k < 64"
  using that by (intro bit_eqI) (auto simp: and_exp_eq_0_iff_not_bit bit_and_iff bit_exp_iff)

lemma fold_store_set:
  "fold store_flag (map (\<lambda>f. (f, False)) fs) (Some x, Some 0) = (Some (fold (OR) fs x), Some 0)"
  by (induction fs arbitrary: x) (simp_all add: store_flag_def or.commute)

lemma fold_or_selected:
  assumes "\<forall>(f, s) \<in> set ts. (if flags AND f = 0 then 0 else f) = flags AND f"
  shows "fold (OR) (map fst (selected flags ts)) x = x OR (flags AND fold (OR) (map fst ts) 0)"
  using assms
proof (induction ts arbitrary: x)
  case Nil
  then show ?case by (simp add: selected_def)
next
  case (Cons t ts)
  obtain f s where t: "t = (f, s)" by fastforce
  have or0: "fold (OR) fs (y :: u64) = y OR fold (OR) fs 0" for fs y
    by (induction fs arbitrary: y) (simp, metis (no_types, lifting) fold_simps(2) or.assoc or.commute or.right_neutral)
  have "fold (OR) (map fst (selected flags (t # ts))) x = fold (OR) (map fst (selected flags ts)) (x OR (flags AND f))"
    using Cons.prems t by (auto simp: selected_def or.commute split: if_splits)
  also have "\<dots> = (x OR (flags AND f)) OR (flags AND fold (OR) (map fst ts) 0)"
    using Cons.IH Cons.prems by simp
  also have "\<dots> = x OR (flags AND fold (OR) (map fst (t # ts)) 0)"
    using or0 [of "map fst ts" f] t by (simp add: bit.conj_disj_distrib or.assoc)
  finally show ?case .
qed

lemma table_powers: "map fst flag_table = map (\<lambda>k. 2 ^ k) [2, 1, 0, 3, 18, 16, 17]"
  by (simp add: flag_table_def stat_flag_defs)

lemma table_bits: "\<forall>(f, s) \<in> set flag_table. (if flags AND f = 0 then 0 else f) = flags AND f"
proof -
  have "(if flags AND f = 0 then 0 else f) = flags AND f" if "f \<in> set (map fst flag_table)" for f
  proof -
    obtain k where k: "k \<in> set [2, 1, 0, 3, 18, 16, 17]" "f = 2 ^ k"
      using \<open>f \<in> _\<close> unfolding table_powers set_map by blast
    then have "k < 64" by auto
    then show ?thesis unfolding k(2) by (rule and_single_bit)
  qed
  then show ?thesis by force
qed

lemma table_mask: "fold (OR) (map fst flag_table) 0 = FLAG_MASK"
  by (simp add: flag_table_def FLAG_MASK_def stat_flag_defs)

lemma table_or: "fold (OR) (map fst (selected flags flag_table)) 0 = flags AND FLAG_MASK"
  using fold_or_selected [OF table_bits, of flags 0] by (simp add: table_mask)

lemma table_token: "(f, s) \<in> set flag_table \<Longrightarrow> flag_token s = Some (f, False)"
  by (auto simp: flag_table_def flag_token_def test_def char_at_def)

lemma table_word: "(f, s) \<in> set flag_table \<Longrightarrow> s \<noteq> [] \<and> list_all (\<lambda>c. \<not> delim c) s"
  by (auto simp: flag_table_def delim_def)

lemma selected_subset: "x \<in> set (selected flags ts) \<Longrightarrow> x \<in> set ts"
  by (simp add: selected_def)

lemma selected_Nil: "selected flags flag_table = [] \<longleftrightarrow> flags AND FLAG_MASK = 0"
proof
  assume "selected flags flag_table = []"
  then show "flags AND FLAG_MASK = 0" using table_or [of flags] by simp
next
  assume m: "flags AND FLAG_MASK = 0"
  have "flags AND f = 0" if "(f, s) \<in> set flag_table" for f s
  proof -
    have "f AND FLAG_MASK = f"
      using that by (auto simp: flag_table_def FLAG_MASK_def stat_flag_defs)
    then have "flags AND f = (flags AND FLAG_MASK) AND f" by (metis and.assoc and.commute)
    with m show ?thesis by simp
  qed
  then show "selected flags flag_table = []" by (auto simp: selected_def filter_empty_conv)
qed

lemma words_of_names:
  assumes "selected flags flag_table \<noteq> []"
  shows "words_of (join (map snd (selected flags flag_table))) = map snd (selected flags flag_table)"
proof -
  have w: "n \<noteq> [] \<and> list_all (\<lambda>c. \<not> delim c) n" if "n \<in> set (map snd (selected flags flag_table))" for n
    using that table_word by (auto dest: selected_subset)
  then have "tokens (join (map snd (selected flags flag_table))) = map snd (selected flags flag_table)"
    using assms by (intro tokens_join) auto
  then show ?thesis using w by (simp add: filter_id_conv)
qed

section \<open>Properties\<close>

text \<open>
  C32: printing and parsing agree: for a set of flags with at least one known flag,
  \<open>string_to_flags()\<close> accepts what \<open>flags_to_string()\<close> prints and recovers exactly the known
  flags of the set, with nothing to clear; the 128-byte buffer never cuts the text.
\<close>

theorem flags_roundtrip:
  assumes "flags AND FLAG_MASK \<noteq> 0"
  shows "\<exists>t. string_to_flags (flags_to_string flags def) (Some a) (Some b)
           = (0, t, Some (flags AND FLAG_MASK), Some 0)"
proof -
  let ?sel = "selected flags flag_table"
  have ne: "?sel \<noteq> []" using assms by (simp add: selected_Nil)
  have tok: "(the \<circ> flag_token) (snd x) = (fst x, False)" "\<not> bad_token (snd x)" if "x \<in> set ?sel" for x
    using that table_token [of "fst x" "snd x"] by (auto simp: bad_token_def dest: selected_subset)
  have m: "map (the \<circ> flag_token) (map snd ?sel) = map (\<lambda>f. (f, False)) (map fst ?sel)"
    using tok(1) by simp
  have tw: "takeWhile (\<lambda>t. \<not> bad_token t) (map snd ?sel) = map snd ?sel"
    using tok(2) by (simp add: takeWhile_eq_all_conv)
  have "flag_loop (Some (join (map snd ?sel))) u (Some 0, Some 0)
      = (0, last (tokens (join (map snd ?sel))), Some (flags AND FLAG_MASK), Some 0)" for u
    unfolding flag_loop_spec words_of_names [OF ne] Let_def tw m fold_store_set table_or by simp
  then show ?thesis
    using ne by (simp add: flags_to_string_join string_to_flags_def)
qed

theorem flags_roundtrip_witness:
  "flags_to_string 0x20006 ''-'' = ''uappnd,uchg,schg'' \<and>
   (\<exists>t. string_to_flags (flags_to_string 0x20006 ''-'') (Some 7) (Some 7) = (0, t, Some 0x20006, Some 0))"
proof -
  have "flags_to_string 0x20006 ''-'' = ''uappnd,uchg,schg''"
    by (simp add: flags_to_string_join selected_def flag_table_def stat_flag_defs)
  moreover have "0x20006 AND FLAG_MASK = 0x20006"
    by (simp add: FLAG_MASK_def stat_flag_defs)
  ultimately show ?thesis using flags_roundtrip [of "0x20006" "''-''" 7 7] by simp
qed

text \<open>
  What \<open>string_to_flags()\<close> does on any string. The text is split at tabs, blanks and
  commas; the flags of the words before the first unknown one are stored in order. With no
  unknown word the result is 0; otherwise it is 1 and \<open>*stringp\<close> is left at that word.
\<close>

lemma string_to_flags_spec:
  "string_to_flags s setp clrp =
     (let ws = filter (\<lambda>t. t \<noteq> []) (tokens s);
          good = takeWhile (\<lambda>t. flag_token t \<noteq> None) ws;
          res = fold store_flag (map (the \<circ> flag_token) good) (map_option (\<lambda>_. 0) setp, map_option (\<lambda>_. 0) clrp)
      in if length good = length ws then (0, last (tokens s), res) else (1, ws ! length good, res))"
proof -
  have "takeWhile (\<lambda>t. \<not> bad_token t) ws = ws \<longleftrightarrow>
      length (takeWhile (\<lambda>t. \<not> bad_token t) ws) = length ws" for ws
    by (metis takeWhile_eq_take take_all order_refl)
  then show ?thesis
    unfolding string_to_flags_def flag_loop_spec by (simp add: Let_def bad_token_def)
qed

lemma store_flag_inv:
  assumes "x AND y = 0" "x AND NOT FLAG_MASK = 0" "y AND NOT FLAG_MASK = 0" "f AND NOT FLAG_MASK = 0"
    and "store_flag (f, c) (Some x, Some y) = (Some x', Some y')"
  shows "x' AND y' = 0" "x' AND NOT FLAG_MASK = 0" "y' AND NOT FLAG_MASK = 0"
proof -
  have e: "x' = (if c then x AND NOT f else x OR f)" "y' = (if c then y OR f else y AND NOT f)"
    using assms(5) by (auto simp: store_flag_def)
  show "x' AND y' = 0" "x' AND NOT FLAG_MASK = 0" "y' AND NOT FLAG_MASK = 0"
    using assms(1-4) unfolding e by (auto simp: bit_eq_iff bit_simps)
qed

lemma test_flag: "test p alts b = Some (f, c) \<Longrightarrow> f \<in> snd ` set alts"
  by (induction alts) (auto simp: test_def split: if_split_asm)

lemma flag_token_known:
  assumes "flag_token t = Some (f, c)"
  shows "f AND NOT FLAG_MASK = 0"
proof -
  have "f \<in> fst ` set flag_table"
    using assms unfolding flag_token_def Let_def flag_table_def
    by (auto split: if_split_asm dest!: test_flag)
  then show ?thesis by (auto simp: flag_table_def FLAG_MASK_def stat_flag_defs)
qed

lemma fold_store_inv:
  "x AND y = 0 \<Longrightarrow> x AND NOT FLAG_MASK = 0 \<Longrightarrow> y AND NOT FLAG_MASK = 0 \<Longrightarrow>
   \<forall>(f, c) \<in> set fcs. f AND NOT FLAG_MASK = 0 \<Longrightarrow>
   \<exists>x' y'. fold store_flag fcs (Some x, Some y) = (Some x', Some y') \<and>
     x' AND y' = 0 \<and> x' AND NOT FLAG_MASK = 0 \<and> y' AND NOT FLAG_MASK = 0"
proof (induction fcs arbitrary: x y)
  case (Cons fc fcs)
  obtain f c where fc: "fc = (f, c)" by fastforce
  obtain x1 y1 where s: "store_flag (f, c) (Some x, Some y) = (Some x1, Some y1)"
    by (cases c) (simp_all add: store_flag_def)
  have "f AND NOT FLAG_MASK = 0" using Cons.prems(4) fc by simp
  note inv = store_flag_inv [OF Cons.prems(1-3) this s]
  from Cons.IH [OF inv] Cons.prems(4) show ?case by (simp add: fc s)
qed simp

text \<open>
  Whatever the string, the flags to set and the flags to clear that \<open>string_to_flags()\<close>
  returns are disjoint, and both contain known flags only.
\<close>

lemma string_to_flags_disjoint:
  "\<exists>r t x y. string_to_flags s (Some a) (Some b) = (r, t, Some x, Some y) \<and>
     x AND y = 0 \<and> x AND NOT FLAG_MASK = 0 \<and> y AND NOT FLAG_MASK = 0"
proof -
  let ?good = "takeWhile (\<lambda>t. \<not> bad_token t) (words_of s)"
  have "\<forall>(f, c) \<in> set (map (the \<circ> flag_token) ?good). f AND NOT FLAG_MASK = 0"
    using flag_token_known by (fastforce simp: bad_token_def dest: set_takeWhileD)
  from fold_store_inv [OF _ _ _ this, of 0 0] show ?thesis
    unfolding string_to_flags_def flag_loop_spec by (auto simp: Let_def)
qed

text \<open>
  A set without known flags is printed as the default string (cut to the buffer).
\<close>

lemma flags_to_string_default:
  assumes "flags AND FLAG_MASK = 0"
  shows "flags_to_string flags def = take 127 def"
  using assms selected_Nil [of flags] by (simp add: flags_to_string_join strlcpy_def FLAG_BUF_def)

end
