(* ===== verification/Ls_Display.thy ===== *)
theory Ls_Display
  imports Ls_Print Stat_Flags
begin

text \<open>
  \<open>display()\<close> of \<open>ls.c\<close>: it decides which entries of a list are shown, collects the widths of
  the fields, the totals and the owner names, and calls the print function. The automatic
  variable \<open>d\<close> is not initialised by the code; its first contents are the argument \<open>d0\<close>.

  The lemmas show that the widths bound every shown field, that the number of entries is the
  number of shown entries, that no print function reads a field that was not set, and that
  the only way to run into undefined behaviour is \<open>free()\<close> of the static buffer of
  \<open>flags_to_string()\<close>.
\<close>

section \<open>Definitions\<close>

text \<open>The local variables that the loop over the entries updates.\<close>

record maxima =
  v_btotal :: nat
  v_stotal :: nat
  v_maxsize :: int
  v_maxblock :: int
  v_maxinode :: nat
  v_maxmajor :: int
  v_maxminor :: int
  v_maxnlink :: nat
  v_bcfile :: bool
  v_entries :: nat
  v_maxflags :: nat
  v_maxgroup :: nat
  v_maxlen :: nat
  v_maxuser :: nat

definition no_maxima :: maxima where
  "no_maxima = \<lparr>v_btotal = 0, v_stotal = 0, v_maxsize = 0, v_maxblock = 0, v_maxinode = 0,
     v_maxmajor = 0, v_maxminor = 0, v_maxnlink = 0, v_bcfile = False, v_entries = 0,
     v_maxflags = 0, v_maxgroup = 0, v_maxlen = 0, v_maxuser = 0\<rparr>"

text \<open>Addition in \<open>u_int64_t\<close> of a value of a signed type.\<close>

definition add64 :: "nat \<Rightarrow> int \<Rightarrow> nat" where
  "add64 t x = nat ((int t + x) mod 2 ^ 64)"

definition dotfile :: "ftsent \<Rightarrow> bool" where
  "dotfile cur \<longleftrightarrow> char_at (fts_name cur) 0 = CHR ''.''"

text \<open>Entries \<open>fts\<close> could not examine, and entries the options leave out.\<close>

definition failed_entry :: "ftsent \<Rightarrow> bool" where
  "failed_entry cur \<longleftrightarrow> fts_info cur = FTS_ERR \<or> fts_info cur = FTS_NS"

definition left_out :: "lsopts \<Rightarrow> ftsent option \<Rightarrow> ftsent \<Rightarrow> bool" where
  "left_out opt p cur =
     (case p of
        None \<Rightarrow> fts_info cur = FTS_D \<and> \<not> f_listdir opt
      | Some _ \<Rightarrow> dotfile cur \<and> \<not> f_listdot opt)"

definition max_stat :: "statbuf \<Rightarrow> maxima \<Rightarrow> maxima" where
  "max_stat sp v =
     (let v = v\<lparr>v_maxblock := max (v_maxblock v) (sb_blocks sp), v_maxinode := max (v_maxinode v) (sb_ino sp),
                v_maxnlink := max (v_maxnlink v) (sb_nlink sp), v_maxsize := max (v_maxsize v) (sb_size sp)\<rparr>;
          v = (if is_chr (sb_mode sp) \<or> is_blk (sb_mode sp)
               then v\<lparr>v_bcfile := True, v_maxmajor := max (v_maxmajor v) (sb_major sp),
                      v_maxminor := max (v_maxminor v) (sb_minor sp)\<rparr>
               else v)
      in v\<lparr>v_btotal := add64 (v_btotal v) (sb_blocks sp), v_stotal := add64 (v_stotal v) (sb_size sp)\<rparr>)"

definition owner_name :: "lsopts \<Rightarrow> 'st lslib \<Rightarrow> nat \<Rightarrow> string" where
  "owner_name opt lib uid =
     (if f_numericonly opt then snprintf_buf 12 (dec_of_nat uid)
      else case lib_user lib uid of Some u \<Rightarrow> u | None \<Rightarrow> snprintf_buf 12 (dec_of_nat uid))"

definition group_name :: "lsopts \<Rightarrow> 'st lslib \<Rightarrow> nat \<Rightarrow> string" where
  "group_name opt lib gid =
     (if f_numericonly opt then snprintf_buf 12 (dec_of_nat gid)
      else case lib_groupname lib gid of Some g \<Rightarrow> g | None \<Rightarrow> snprintf_buf 12 (dec_of_nat gid))"

text \<open>\<open>sizeof(NAMES)\<close>: three pointers and one byte, rounded up.\<close>

definition SIZEOF_NAMES :: nat where "SIZEOF_NAMES = 32"

text \<open>
  The names of a long listing, copied into one block of memory. The flags come from the
  static buffer of \<open>flags_to_string()\<close>, which the code passes to \<open>free()\<close>.
\<close>

definition long_names :: "lsopts \<Rightarrow> 'st lslib \<Rightarrow> ftsent \<Rightarrow> maxima \<Rightarrow> ls_out \<Rightarrow> (ftsent \<times> maxima, ls_out) outcome" where
  "long_names opt lib cur v s =
     (let sp = fts_statp cur;
          user = owner_name opt lib (sb_uid sp); group = group_name opt lib (sb_gid sp);
          ulen = length user; glen = length group;
          v = v\<lparr>v_maxuser := max (v_maxuser v) ulen, v_maxgroup := max (v_maxgroup v) glen\<rparr>;
          flags = (if f_flags opt then flags_to_string (sb_flags sp) ''-'' else []);
          flen = length flags;
          v = (if f_flags opt then v\<lparr>v_maxflags := max (v_maxflags v) flen\<rparr> else v)
      in if \<not> lib_malloc lib (SIZEOF_NAMES + ulen + glen + flen + 2) then err_exit 1 [] [] s
         else if f_flags opt then Stop (Undefined ''free of a static buffer'') s
         else Ret (cur\<lparr>fts_pointer := Some \<lparr>np_user = user, np_group = group, np_flags = flags\<rparr>\<rparr>, v) s)"

text \<open>One shown entry.\<close>

definition measure_entry :: "lsopts \<Rightarrow> 'st lslib \<Rightarrow> ftsent \<Rightarrow> maxima \<Rightarrow> ls_out \<Rightarrow> (ftsent \<times> maxima, ls_out) outcome" where
  "measure_entry opt lib cur v s =
     (let v = v\<lparr>v_maxlen := max (v_maxlen v) (fts_namelen cur)\<rparr>;
          v = (if needstats opt then max_stat (fts_statp cur) v else v)
      in bnd (if needstats opt \<and> f_longform opt then long_names opt lib cur v s else Ret (cur, v) s)
           (\<lambda>(cur, v) s. Ret (cur, v\<lparr>v_entries := v_entries v + 1\<rparr>) s))"

text \<open>The loop gives the list with the marks and the pointers it has set.\<close>

fun display_loop :: "lsopts \<Rightarrow> 'st lslib \<Rightarrow> ftsent option \<Rightarrow> ftsent list \<Rightarrow> maxima \<Rightarrow> ls_out
    \<Rightarrow> (ftsent list \<times> maxima, ls_out) outcome" where
  "display_loop opt lib p [] v s = Ret ([], v) s"
| "display_loop opt lib p (cur # rest) v s =
     (if failed_entry cur then
        bnd (display_loop opt lib p rest v
               ((warnx ''%s: %s'' [ArgS (fts_name cur), ArgS (lib_errstr lib (fts_errno cur))] s)\<lparr>so_rval := 1\<rparr>))
          (\<lambda>(l, v) s. Ret (cur\<lparr>fts_number := NO_PRINT\<rparr> # l, v) s)
      else if left_out opt p cur then
        bnd (display_loop opt lib p rest v s) (\<lambda>(l, v) s. Ret (cur\<lparr>fts_number := NO_PRINT\<rparr> # l, v) s)
      else
        bnd (measure_entry opt lib cur v s) (\<lambda>(cur, v) s.
          bnd (display_loop opt lib p rest v s) (\<lambda>(l, v) s. Ret (cur # l, v) s)))"

text \<open>\<open>char buf[21]\<close>: the text of a number, of which the length is taken.\<close>

definition width21 :: "string \<Rightarrow> int" where
  "width21 t = int (length (snprintf_buf 21 t))"

definition with_commas :: "lsopts \<Rightarrow> int \<Rightarrow> int" where
  "with_commas opt w = (if f_commas opt then w + (w - 1) div 3 else w)"

definition size_widths :: "lsopts \<Rightarrow> maxima \<Rightarrow> DISPLAY \<Rightarrow> DISPLAY" where
  "size_widths opt v d =
     d\<lparr>d_s_block := (if f_humanize opt then 4
          else with_commas opt (width21 (dec_of_int (howmany (v_maxblock v) (blocksize opt))))),
       d_s_size := (if f_humanize opt then 4 else with_commas opt (width21 (dec_of_int (v_maxsize v))))\<rparr>"

definition device_widths :: "maxima \<Rightarrow> DISPLAY \<Rightarrow> DISPLAY" where
  "device_widths v d =
     (if v_bcfile v then
        let d = d\<lparr>d_s_major := width21 (dec_of_int (v_maxmajor v)), d_s_minor := width21 (dec_of_int (v_maxminor v))\<rparr>
        in if d_s_major d + d_s_minor d + 2 > d_s_size d
           then d\<lparr>d_s_size := d_s_major d + d_s_minor d + 2\<rparr>
           else if d_s_size d - d_s_minor d - 2 > d_s_major d
           then d\<lparr>d_s_major := d_s_size d - d_s_minor d - 2\<rparr>
           else d
      else d\<lparr>d_s_major := 0, d_s_minor := 0\<rparr>)"

definition fill_display :: "lsopts \<Rightarrow> ftsent list \<Rightarrow> maxima \<Rightarrow> DISPLAY \<Rightarrow> DISPLAY" where
  "fill_display opt l v d0 =
     (let d = d0\<lparr>d_list := l, d_entries := v_entries v, d_maxlen := v_maxlen v\<rparr>
      in if needstats opt then
           device_widths v (size_widths opt v (d\<lparr>d_btotal := v_btotal v, d_stotal := v_stotal v,
             d_s_flags := int (v_maxflags v), d_s_group := int (v_maxgroup v),
             d_s_inode := width21 (dec_of_nat (v_maxinode v)),
             d_s_nlink := width21 (dec_of_nat (v_maxnlink v)),
             d_s_user := int (v_maxuser v)\<rparr>))
         else d)"

text \<open>
  The division for the width of the block count comes first. Releasing the owner names at the
  end changes nothing that is modelled: the list of entries is not used after it.
\<close>

definition display :: "lsopts \<Rightarrow> 'st lslib \<Rightarrow> DISPLAY \<Rightarrow> ftsent option \<Rightarrow> ftsent list \<Rightarrow> ls_out \<Rightarrow> (unit, ls_out) outcome" where
  "display opt lib d0 p l s =
     (if l = [] then Ret () s
      else bnd (display_loop opt lib p l no_maxima s) (\<lambda>(l, v) s.
        if v_entries v = 0 then Ret () s
        else bnd (if needstats opt \<and> \<not> f_humanize opt then blocks_of opt (v_maxblock v) s else Ret 0 s) (\<lambda>_ s.
             bnd (call_printfcn opt lib (fill_display opt l v d0) s) (\<lambda>_ s. Ret () (s\<lparr>so_output := True\<rparr>)))))"

section \<open>What the loop computes\<close>

definition visible :: "lsopts \<Rightarrow> ftsent option \<Rightarrow> ftsent \<Rightarrow> bool" where
  "visible opt p cur \<longleftrightarrow> \<not> failed_entry cur \<and> \<not> left_out opt p cur"

definition names_of :: "lsopts \<Rightarrow> 'st lslib \<Rightarrow> ftsent \<Rightarrow> NAMES" where
  "names_of opt lib cur = \<lparr>np_user = owner_name opt lib (sb_uid (fts_statp cur)),
     np_group = group_name opt lib (sb_gid (fts_statp cur)), np_flags = []\<rparr>"

definition marked :: "lsopts \<Rightarrow> 'st lslib \<Rightarrow> ftsent option \<Rightarrow> ftsent \<Rightarrow> ftsent" where
  "marked opt lib p cur =
     (if \<not> visible opt p cur then cur\<lparr>fts_number := NO_PRINT\<rparr>
      else if f_longform opt then cur\<lparr>fts_pointer := Some (names_of opt lib cur)\<rparr> else cur)"

definition measured :: "lsopts \<Rightarrow> 'st lslib \<Rightarrow> ftsent \<Rightarrow> maxima \<Rightarrow> maxima" where
  "measured opt lib cur v =
     (let v = v\<lparr>v_maxlen := max (v_maxlen v) (fts_namelen cur)\<rparr>;
          v = (if needstats opt then max_stat (fts_statp cur) v else v);
          v = (if f_longform opt
               then v\<lparr>v_maxuser := max (v_maxuser v) (length (np_user (names_of opt lib cur))),
                      v_maxgroup := max (v_maxgroup v) (length (np_group (names_of opt lib cur)))\<rparr>
               else v)
      in v\<lparr>v_entries := v_entries v + 1\<rparr>)"

definition report :: "'st lslib \<Rightarrow> ftsent \<Rightarrow> ls_out \<Rightarrow> ls_out" where
  "report lib cur s =
     (if failed_entry cur
      then (warnx ''%s: %s'' [ArgS (fts_name cur), ArgS (lib_errstr lib (fts_errno cur))] s)\<lparr>so_rval := 1\<rparr>
      else s)"

lemma measure_entry_wp:
  assumes "\<not> (f_flags opt \<and> f_longform opt)" "visible opt p cur"
  shows "wp (measure_entry opt lib cur v s)
    (\<lambda>(c, w) t. c = marked opt lib p cur \<and> w = measured opt lib cur v \<and> t = s) (\<lambda>r t. r = Exit 1)"
  using assms
  by (cases "f_longform opt")
    (auto simp: measure_entry_def long_names_def marked_def measured_def names_of_def needstats_def err_exit_def Let_def)

lemma display_loop_wp:
  assumes "\<not> (f_flags opt \<and> f_longform opt)"
  shows "wp (display_loop opt lib p l v s)
    (\<lambda>(l', w) t. l' = map (marked opt lib p) l \<and> w = fold (measured opt lib) (filter (visible opt p) l) v \<and>
       t = fold (report lib) l s) (\<lambda>r t. r = Exit 1)"
proof (induction l arbitrary: v s)
  case (Cons cur l)
  show ?case
  proof (cases "visible opt p cur")
    case True
    then have "wp (measure_entry opt lib cur v s) (\<lambda>(c, w) t. c = marked opt lib p cur \<and> w = measured opt lib cur v \<and> t = s)
        (\<lambda>r t. r = Exit 1)" by (rule measure_entry_wp [OF assms])
    moreover have "report lib cur s = s" using True by (simp add: visible_def report_def)
    ultimately show ?thesis
      using True Cons.IH [of "measured opt lib cur v" s]
      by (cases "measure_entry opt lib cur v s") (auto simp: visible_def split: prod.splits elim!: wp_mono)
  next
    case False
    then show ?thesis
      using Cons.IH [of v "report lib cur s"]
      by (auto simp: visible_def report_def marked_def split: prod.splits elim!: wp_mono)
  qed
qed simp

text \<open>Entries as \<open>fts\<close> delivers them carry no mark.\<close>

definition fresh :: "ftsent \<Rightarrow> bool" where
  "fresh cur \<longleftrightarrow> fts_number cur \<noteq> NO_PRINT"

lemma shown_marked:
  "list_all fresh l \<Longrightarrow> shown (map (marked opt lib p) l) = map (marked opt lib p) (filter (visible opt p) l)"
  by (induction l) (auto simp: shown_def IS_NOPRINT_def marked_def fresh_def)

abbreviation device :: "statbuf \<Rightarrow> bool" where
  "device sp \<equiv> is_chr (sb_mode sp) \<or> is_blk (sb_mode sp)"

lemma max_stat_fields:
  "v_maxblock (max_stat sp v) = max (v_maxblock v) (sb_blocks sp)"
  "v_maxinode (max_stat sp v) = max (v_maxinode v) (sb_ino sp)"
  "v_maxnlink (max_stat sp v) = max (v_maxnlink v) (sb_nlink sp)"
  "v_maxsize (max_stat sp v) = max (v_maxsize v) (sb_size sp)"
  "v_bcfile (max_stat sp v) = (device sp \<or> v_bcfile v)"
  "v_maxmajor (max_stat sp v) = (if device sp then max (v_maxmajor v) (sb_major sp) else v_maxmajor v)"
  "v_maxminor (max_stat sp v) = (if device sp then max (v_maxminor v) (sb_minor sp) else v_maxminor v)"
  "v_btotal (max_stat sp v) = add64 (v_btotal v) (sb_blocks sp)"
  "v_stotal (max_stat sp v) = add64 (v_stotal v) (sb_size sp)"
  "v_entries (max_stat sp v) = v_entries v" "v_maxlen (max_stat sp v) = v_maxlen v"
  "v_maxuser (max_stat sp v) = v_maxuser v" "v_maxgroup (max_stat sp v) = v_maxgroup v"
  by (simp_all add: max_stat_def Let_def)

lemma measured_fields:
  "v_entries (measured opt lib cur v) = v_entries v + 1"
  "v_maxlen (measured opt lib cur v) = max (v_maxlen v) (fts_namelen cur)"
  "v_maxuser (measured opt lib cur v) =
     (if f_longform opt then max (v_maxuser v) (length (np_user (names_of opt lib cur))) else v_maxuser v)"
  "v_maxgroup (measured opt lib cur v) =
     (if f_longform opt then max (v_maxgroup v) (length (np_group (names_of opt lib cur))) else v_maxgroup v)"
  by (simp_all add: measured_def max_stat_fields Let_def)

lemma measured_stat:
  assumes "needstats opt"
  shows "v_maxblock (measured opt lib cur v) = max (v_maxblock v) (sb_blocks (fts_statp cur))"
    "v_maxinode (measured opt lib cur v) = max (v_maxinode v) (sb_ino (fts_statp cur))"
    "v_maxnlink (measured opt lib cur v) = max (v_maxnlink v) (sb_nlink (fts_statp cur))"
    "v_maxsize (measured opt lib cur v) = max (v_maxsize v) (sb_size (fts_statp cur))"
    "v_bcfile (measured opt lib cur v) = (device (fts_statp cur) \<or> v_bcfile v)"
    "v_maxmajor (measured opt lib cur v) =
       (if device (fts_statp cur) then max (v_maxmajor v) (sb_major (fts_statp cur)) else v_maxmajor v)"
    "v_maxminor (measured opt lib cur v) =
       (if device (fts_statp cur) then max (v_maxminor v) (sb_minor (fts_statp cur)) else v_maxminor v)"
    "v_btotal (measured opt lib cur v) = add64 (v_btotal v) (sb_blocks (fts_statp cur))"
    "v_stotal (measured opt lib cur v) = add64 (v_stotal v) (sb_size (fts_statp cur))"
  using assms by (simp_all add: measured_def max_stat_fields Let_def)

lemma measured_entries: "v_entries (fold (measured opt lib) l v) = v_entries v + length l"
  by (induction l arbitrary: v) (simp_all add: measured_fields)

section \<open>Widths\<close>

text \<open>\<open>covers opt lib v cur\<close>: the maxima bound every field of \<open>cur\<close> that the options ask for.\<close>

definition covers :: "lsopts \<Rightarrow> 'st lslib \<Rightarrow> maxima \<Rightarrow> ftsent \<Rightarrow> bool" where
  "covers opt lib v cur \<longleftrightarrow>
     fts_namelen cur \<le> v_maxlen v \<and>
     (needstats opt \<longrightarrow>
        sb_blocks (fts_statp cur) \<le> v_maxblock v \<and> sb_ino (fts_statp cur) \<le> v_maxinode v \<and>
        sb_nlink (fts_statp cur) \<le> v_maxnlink v \<and> sb_size (fts_statp cur) \<le> v_maxsize v \<and>
        (is_chr (sb_mode (fts_statp cur)) \<or> is_blk (sb_mode (fts_statp cur)) \<longrightarrow>
           v_bcfile v \<and> sb_major (fts_statp cur) \<le> v_maxmajor v \<and> sb_minor (fts_statp cur) \<le> v_maxminor v)) \<and>
     (f_longform opt \<longrightarrow>
        length (np_user (names_of opt lib cur)) \<le> v_maxuser v \<and> length (np_group (names_of opt lib cur)) \<le> v_maxgroup v)"

lemma covers_measured: "covers opt lib (measured opt lib cur v) cur"
  by (simp add: covers_def measured_fields measured_stat)

lemma covers_mono: "covers opt lib v x \<Longrightarrow> covers opt lib (measured opt lib cur v) x"
  by (auto simp: covers_def measured_fields measured_stat)

lemma covers_fold_mono: "covers opt lib v x \<Longrightarrow> covers opt lib (fold (measured opt lib) l v) x"
  by (induction l arbitrary: v) (simp_all add: covers_mono)

lemma covers_fold: "x \<in> set l \<Longrightarrow> covers opt lib (fold (measured opt lib) l v) x"
  by (induction l arbitrary: v) (auto intro: covers_fold_mono covers_measured)

text \<open>
  The ranges of the fields of \<open>struct stat\<close>; the dates are not within six months of the ends of
  \<open>time_t\<close>.
\<close>

definition dated :: "statbuf \<Rightarrow> bool" where
  "dated sp \<longleftrightarrow> list_all (\<lambda>t. fits64 (t + SIXMONTHS) \<and> fits64 (t - SIXMONTHS)) [sb_atime sp, sb_ctime sp, sb_mtime sp]"

definition stat_ok :: "statbuf \<Rightarrow> bool" where
  "stat_ok sp \<longleftrightarrow> 0 \<le> sb_size sp \<and> sb_size sp < 2 ^ 63 \<and> 0 \<le> sb_blocks sp \<and> sb_blocks sp < 2 ^ 63 \<and>
     sb_ino sp < 2 ^ 64 \<and> sb_nlink sp < 2 ^ 32 \<and> 0 \<le> sb_major sp \<and> sb_major sp < 2 ^ 31 \<and>
     0 \<le> sb_minor sp \<and> sb_minor sp < 2 ^ 31 \<and> dated sp"

definition maxima_ok :: "maxima \<Rightarrow> bool" where
  "maxima_ok v \<longleftrightarrow> 0 \<le> v_maxsize v \<and> v_maxsize v < 2 ^ 63 \<and> 0 \<le> v_maxblock v \<and> v_maxblock v < 2 ^ 63 \<and>
     v_maxinode v < 2 ^ 64 \<and> v_maxnlink v < 2 ^ 32 \<and> 0 \<le> v_maxmajor v \<and> v_maxmajor v < 2 ^ 31 \<and>
     0 \<le> v_maxminor v \<and> v_maxminor v < 2 ^ 31"

lemma maxima_ok_measured:
  "needstats opt \<Longrightarrow> maxima_ok v \<Longrightarrow> stat_ok (fts_statp cur) \<Longrightarrow> maxima_ok (measured opt lib cur v)"
  by (auto simp: maxima_ok_def stat_ok_def measured_stat)

lemma maxima_ok_fold:
  "needstats opt \<Longrightarrow> maxima_ok v \<Longrightarrow> list_all (\<lambda>c. stat_ok (fts_statp c)) l \<Longrightarrow>
     maxima_ok (fold (measured opt lib) l v)"
  by (induction l arbitrary: v) (simp_all add: maxima_ok_measured)

lemma no_maxima_ok: "maxima_ok no_maxima"
  by (simp add: maxima_ok_def no_maxima_def)

lemma dec_nonempty [simp]: "0 < length (dec_of_nat n)"
  by (subst dec_of_nat.simps) simp

lemma length_dec_step:
  "length (dec_of_nat n) = (if n < 10 then 1 else Suc (length (dec_of_nat (n div 10))))"
  by (subst dec_of_nat.simps) simp

lemma length_dec_mono: "m \<le> n \<Longrightarrow> length (dec_of_nat m) \<le> length (dec_of_nat n)"
proof (induction n arbitrary: m rule: less_induct)
  case (less n)
  show ?case
  proof (cases "m < 10")
    case True
    then show ?thesis using length_dec_step [of m] length_dec_step [of n] by simp
  next
    case False
    then have "length (dec_of_nat (m div 10)) \<le> length (dec_of_nat (n div 10))"
      using less.prems by (intro less.IH) (auto intro: div_le_mono)
    then show ?thesis
      using False less.prems length_dec_step [of m] length_dec_step [of n] by simp
  qed
qed

lemma length_dec_bound: "n < 10 ^ Suc k \<Longrightarrow> length (dec_of_nat n) \<le> Suc k"
proof (induction k arbitrary: n)
  case (Suc k)
  then have "n div 10 < 10 ^ Suc k" by (simp add: less_mult_imp_div_less)
  with Suc.IH show ?case by (subst length_dec_step) auto
qed (subst length_dec_step, simp)

lemma width21_nat: "n < 2 ^ 64 \<Longrightarrow> width21 (dec_of_nat n) = int (length (dec_of_nat n))"
  using length_dec_bound [of n 19] by (simp add: width21_def snprintf_buf_def)

lemma width21_int: "0 \<le> i \<Longrightarrow> i < 2 ^ 64 \<Longrightarrow> width21 (dec_of_int i) = int (length (dec_of_nat (nat i)))"
  using width21_nat [of "nat i"] by (simp add: dec_of_int_def nat_less_iff)

lemma width21_int_mono: "0 \<le> i \<Longrightarrow> i \<le> j \<Longrightarrow> j < 2 ^ 64 \<Longrightarrow> int (length (dec_of_int i)) \<le> width21 (dec_of_int j)"
  using length_dec_mono [of "nat i" "nat j"] by (simp add: width21_int) (simp add: dec_of_int_def)

lemma howmany_mono: "0 < y \<Longrightarrow> x \<le> x' \<Longrightarrow> howmany x y \<le> howmany x' y"
  by (simp add: howmany_def zdiv_mono1)

lemma howmany_nonneg: "0 < y \<Longrightarrow> 0 \<le> x \<Longrightarrow> 0 \<le> howmany x y"
  by (simp add: howmany_def pos_imp_zdiv_nonneg_iff)

lemma howmany_le: "0 < y \<Longrightarrow> 0 \<le> x \<Longrightarrow> howmany x y \<le> x"
proof -
  assume y: "0 < y" and x: "0 \<le> x"
  have "x + y \<le> (x + 1) * y" using y x mult_left_mono [of 1 y x] by (simp add: distrib_right)
  then have "howmany x y * y < (x + 1) * y" using howmany_ceil(2) [OF x y] by linarith
  with y show ?thesis by simp
qed

text \<open>What the C library promises on the texts of the fields.\<close>

definition field_texts :: "'st lslib \<Rightarrow> bool" where
  "field_texts lib \<longleftrightarrow>
     (\<forall>m. length (lib_strmode lib m) = 11) \<and>
     (\<forall>t c. lib_ctime lib t = Some c \<longrightarrow> 24 \<le> length c) \<and>
     (\<forall>n h. lib_humanize lib n = Some h \<longrightarrow> length h \<le> 4) \<and>
     (\<forall>n. length (lib_group lib n) \<le> length (dec_of_nat n) + (length (dec_of_nat n) - 1) div 3)"

lemma commas_width:
  assumes "field_texts lib" "0 \<le> i" "i \<le> j" "j < 2 ^ 64"
  shows "int (length (number_text opt lib i)) \<le> with_commas opt (width21 (dec_of_int j))"
proof -
  let ?L = "\<lambda>i. length (dec_of_nat (nat i))"
  have len: "?L i \<le> ?L j" using assms by (intro length_dec_mono) simp
  then have "(?L i - 1) div 3 \<le> (?L j - 1) div 3" by (intro div_le_mono) simp
  moreover have "length (lib_group lib (nat i)) \<le> ?L i + (?L i - 1) div 3"
    using assms(1) by (simp add: field_texts_def)
  moreover have "int ((?L j - 1) div 3) = (int (?L j) - 1) div 3"
    using dec_nonempty [of "nat j"] by (simp add: zdiv_int of_nat_diff Suc_le_eq)
  ultimately show ?thesis
    using assms len width21_int [of j] by (simp add: number_text_def with_commas_def)
qed


text \<open>The fields of the structure that \<open>display()\<close> passes on.\<close>

lemma fill_display_basic [simp]:
  "d_list (fill_display opt l v d0) = l" "d_entries (fill_display opt l v d0) = v_entries v"
  "d_maxlen (fill_display opt l v d0) = v_maxlen v"
  by (simp_all add: fill_display_def size_widths_def device_widths_def Let_def)

lemma fill_display_stat:
  assumes "needstats opt"
  shows "d_btotal (fill_display opt l v d0) = v_btotal v" "d_stotal (fill_display opt l v d0) = v_stotal v"
    "d_s_inode (fill_display opt l v d0) = width21 (dec_of_nat (v_maxinode v))"
    "d_s_nlink (fill_display opt l v d0) = width21 (dec_of_nat (v_maxnlink v))"
    "d_s_user (fill_display opt l v d0) = int (v_maxuser v)" "d_s_group (fill_display opt l v d0) = int (v_maxgroup v)"
    "d_s_block (fill_display opt l v d0) = (if f_humanize opt then 4
       else with_commas opt (width21 (dec_of_int (howmany (v_maxblock v) (blocksize opt)))))"
  using assms by (simp_all add: fill_display_def size_widths_def device_widths_def Let_def)

lemma fill_display_size:
  assumes "needstats opt"
  shows "(if f_humanize opt then 4 else with_commas opt (width21 (dec_of_int (v_maxsize v)))) \<le> d_s_size (fill_display opt l v d0)"
    and "v_bcfile v \<Longrightarrow> width21 (dec_of_int (v_maxmajor v)) \<le> d_s_major (fill_display opt l v d0) \<and>
      d_s_minor (fill_display opt l v d0) = width21 (dec_of_int (v_maxminor v)) \<and>
      d_s_major (fill_display opt l v d0) + 2 + d_s_minor (fill_display opt l v d0) = d_s_size (fill_display opt l v d0)"
  using assms by (simp_all add: fill_display_def size_widths_def device_widths_def Let_def)

text \<open>\<open>columns m w s\<close>: \<open>m\<close> prints a text of \<open>w\<close> columns or ends the process with status 1.\<close>

definition columns :: "(ls_out \<Rightarrow> (unit, ls_out) outcome) \<Rightarrow> int \<Rightarrow> ls_out \<Rightarrow> bool" where
  "columns m w s \<longleftrightarrow> (\<exists>t. m s = Ret () (puts t s) \<and> int (length t) = w) \<or> (\<exists>t. m s = Stop (Exit 1) t)"

lemma columns_bnd:
  assumes "columns m w s" "\<And>s. columns n w' s"
  shows "columns (\<lambda>s. bnd (m s) (\<lambda>_ s. n s)) (w + w') s"
  using assms(1)
proof (cases "m s")
  case (Ret a t)
  with assms(1) obtain u where u: "t = puts u s" "int (length u) = w" by (auto simp: columns_def)
  from assms(2) [of t] show ?thesis
    using Ret u unfolding columns_def by (auto simp: puts_puts)
qed (auto simp: columns_def)

lemma columns_puts: "int (length t) = w \<Longrightarrow> columns (\<lambda>s. Ret () (puts t s)) w s"
  by (auto simp: columns_def)

lemma columns_skip: "columns (\<lambda>s. Ret () s) 0 s"
  using columns_puts [of "[]" 0] by simp

lemma pad_left_width: "int (length t) \<le> w \<Longrightarrow> int (length (pad_left w t)) = w"
  by (simp add: pad_left_def)

lemma pad_right_width: "int (length t) \<le> w \<Longrightarrow> int (length (pad_right w t)) = w"
  by (simp add: pad_right_def)

text \<open>
  The columns of a line of the long format up to the name, and what follows them: the line
  is printed in this order.
\<close>

definition entry_time :: "lsopts \<Rightarrow> ftsent \<Rightarrow> int" where
  "entry_time opt p = (let sp = fts_statp p in
     if f_accesstime opt then sb_atime sp else if f_statustime opt then sb_ctime sp else sb_mtime sp)"

definition long_head :: "lsopts \<Rightarrow> 'st lslib \<Rightarrow> DISPLAY \<Rightarrow> int \<Rightarrow> ftsent \<Rightarrow> ls_out \<Rightarrow> (unit, ls_out) outcome" where
  "long_head opt lib dp now p s =
     bnd (Ret () (puts (if f_inode opt then pad_left (d_s_inode dp) (dec_of_nat (sb_ino (fts_statp p))) @ '' '' else []) s)) (\<lambda>_ s.
     bnd (long_blocks opt lib dp p s) (\<lambda>_ s.
     bnd (long_owner opt lib dp p s) (\<lambda>_ s.
     bnd (long_size opt lib dp p s) (\<lambda>_ s. printtime opt lib now (entry_time opt p) s))))"

definition long_tail :: "lsopts \<Rightarrow> 'st lslib \<Rightarrow> ftsent \<Rightarrow> ls_out \<Rightarrow> (unit, ls_out) outcome" where
  "long_tail opt lib p s =
     bnd (if want_type opt p then printtype (sb_mode (fts_statp p)) s else Ret 0 s) (\<lambda>_ s.
     bnd (if is_lnk (sb_mode (fts_statp p)) then printlink opt lib p s else Ret () s) (\<lambda>_ s.
       Ret () (puts ''\<newline>'' s)))"

lemma print_long_entry_split:
  "print_long_entry opt lib dp now p s =
     bnd (long_head opt lib dp now p s) (\<lambda>_ s. bnd (print_name opt lib p s) (\<lambda>_ s. long_tail opt lib p s))"
  by (simp add: print_long_entry_def long_head_def long_tail_def entry_time_def bnd_assoc Let_def)

definition long_width :: "lsopts \<Rightarrow> DISPLAY \<Rightarrow> int" where
  "long_width opt dp =
     (if f_inode opt then d_s_inode dp + 1 else 0) + ((if f_size opt then d_s_block dp + 1 else 0)
     + (11 + 1 + d_s_nlink dp + 1 + (if f_grouponly opt = 0 then d_s_user dp + 2 else 0) + d_s_group dp + 2
     + (d_s_size dp + 1 + (if f_sectime opt then 21 else 13))))"

lemma dated_time: "dated (fts_statp p) \<Longrightarrow> fits64 (entry_time opt p + SIXMONTHS) \<and> fits64 (entry_time opt p - SIXMONTHS)"
  by (simp add: dated_def entry_time_def Let_def)

lemma columns_time:
  assumes "field_texts lib" "fits64 (t + SIXMONTHS) \<and> fits64 (t - SIXMONTHS)"
  shows "columns (printtime opt lib now t) (if f_sectime opt then 21 else 13) s"
proof -
  define c where "c = (case lib_ctime lib t of Some t \<Rightarrow> t | None \<Rightarrow> ''????????????????????????'')"
  have c: "24 \<le> length c" using assms(1) by (auto simp: c_def field_texts_def split: option.splits)
  show ?thesis
    unfolding printtime_def [abs_def] c_def [symmetric] Let_def
    using c assms(2) by (cases "f_sectime opt"; cases "now < t + SIXMONTHS \<and> t - SIXMONTHS < now")
      (auto simp: puts_puts chars_of_def intro!: columns_puts)
qed

text \<open>A shown entry together with a structure filled from maxima that cover it.\<close>

definition long_line :: "lsopts \<Rightarrow> 'st lslib \<Rightarrow> DISPLAY \<Rightarrow> ftsent \<Rightarrow> bool" where
  "long_line opt lib d cur \<longleftrightarrow>
     f_longform opt \<and> \<not> f_flags opt \<and> 0 < blocksize opt \<and> field_texts lib \<and> stat_ok (fts_statp cur) \<and>
     (\<exists>v l d0. d = fill_display opt l v d0 \<and> maxima_ok v \<and> covers opt lib v cur)"

lemma long_lineE:
  assumes "long_line opt lib d cur"
  obtains v where "d_s_inode d = width21 (dec_of_nat (v_maxinode v))" "d_s_nlink d = width21 (dec_of_nat (v_maxnlink v))"
    "d_s_user d = int (v_maxuser v)" "d_s_group d = int (v_maxgroup v)"
    "d_s_block d = (if f_humanize opt then 4
       else with_commas opt (width21 (dec_of_int (howmany (v_maxblock v) (blocksize opt)))))"
    "(if f_humanize opt then 4 else with_commas opt (width21 (dec_of_int (v_maxsize v)))) \<le> d_s_size d"
    "v_bcfile v \<Longrightarrow> width21 (dec_of_int (v_maxmajor v)) \<le> d_s_major d \<and>
      d_s_minor d = width21 (dec_of_int (v_maxminor v)) \<and> d_s_major d + 2 + d_s_minor d = d_s_size d"
    "maxima_ok v" "covers opt lib v cur" "stat_ok (fts_statp cur)" "needstats opt" "f_longform opt" "\<not> f_flags opt"
    "0 < blocksize opt" "field_texts lib"
proof -
  from assms obtain v l d0 where d: "d = fill_display opt l v d0" and v: "maxima_ok v" "covers opt lib v cur"
    by (auto simp: long_line_def)
  have n: "needstats opt" using assms by (simp add: long_line_def needstats_def)
  show thesis
    by (rule that [of v])
      (use assms v n fill_display_stat [OF n, of l v d0, folded d] fill_display_size [OF n, of v l d0, folded d]
        in \<open>simp_all add: long_line_def\<close>)
qed

lemma inode_field:
  assumes "long_line opt lib d cur"
  shows "columns (\<lambda>s. Ret () (puts (if f_inode opt then pad_left (d_s_inode d) (dec_of_nat (sb_ino (fts_statp cur))) @ '' '' else []) s))
     (if f_inode opt then d_s_inode d + 1 else 0) s"
proof -
  have "int (length (dec_of_nat (sb_ino (fts_statp cur)))) \<le> d_s_inode d"
    using assms by (rule long_lineE) (simp add: covers_def maxima_ok_def width21_nat length_dec_mono)
  from pad_left_width [OF this] show ?thesis by (intro columns_puts) simp
qed

text \<open>A number, or its text by \<open>humanize_number()\<close>, right-adjusted in \<open>w\<close> columns.\<close>

lemma human_field:
  assumes "\<And>h. f_humanize opt \<Longrightarrow> lib_humanize lib x = Some h \<Longrightarrow> int (length h) \<le> w"
    and "\<not> f_humanize opt \<Longrightarrow> int (length n) \<le> w"
  shows "columns (\<lambda>s. if f_humanize opt
      then (case lib_humanize lib x of None \<Rightarrow> err_exit 1 m [] s | Some h \<Rightarrow> Ret () (puts (pad_left w h @ '' '') s))
      else Ret () (puts (pad_left w n @ '' '') s)) (w + 1) s"
proof (cases "f_humanize opt")
  case True
  then show ?thesis
    using assms(1) pad_left_width
    by (cases "lib_humanize lib x") (auto simp: columns_def err_exit_def)
next
  case False
  with pad_left_width [OF assms(2)] show ?thesis by (auto intro: columns_puts)
qed

lemma human_text: "field_texts lib \<Longrightarrow> lib_humanize lib x = Some h \<Longrightarrow> 4 \<le> w \<Longrightarrow> int (length h) \<le> w"
  by (force simp: field_texts_def)

lemma blocks_field:
  assumes "long_line opt lib d cur"
  shows "columns (long_blocks opt lib d cur) (if f_size opt then d_s_block d + 1 else 0) s"
proof (rule long_lineE [OF assms])
  fix v
  assume d: "d_s_block d = (if f_humanize opt then 4
       else with_commas opt (width21 (dec_of_int (howmany (v_maxblock v) (blocksize opt)))))"
    and v: "maxima_ok v" "covers opt lib v cur" "stat_ok (fts_statp cur)" "needstats opt"
    and y: "0 < blocksize opt" and lib: "field_texts lib"
  let ?b = "\<lambda>x. howmany x (blocksize opt)"
  have b: "0 \<le> sb_blocks (fts_statp cur)" "sb_blocks (fts_statp cur) \<le> v_maxblock v" "v_maxblock v < 2 ^ 63"
    using v by (simp_all add: covers_def maxima_ok_def stat_ok_def)
  have "int (length (number_text opt lib (?b (sb_blocks (fts_statp cur))))) \<le> with_commas opt (width21 (dec_of_int (?b (v_maxblock v))))"
    using b howmany_le [OF y, of "v_maxblock v"] howmany_mono [OF y b(2)] howmany_nonneg [OF y b(1)]
    by (intro commas_width [OF lib]) auto
  then have n: "\<not> f_humanize opt \<Longrightarrow> int (length (number_text opt lib (?b (sb_blocks (fts_statp cur))))) \<le> d_s_block d"
    and h4: "f_humanize opt \<Longrightarrow> 4 \<le> d_s_block d"
    using d by simp_all
  show ?thesis
  proof (cases "f_size opt")
    case True
    have "columns (long_blocks opt lib d cur) (d_s_block d + 1) s"
      unfolding long_blocks_def [abs_def] Let_def if_P [OF True] blocks_of_pos [OF y] bnd.simps
      by (rule human_field) (use n h4 in \<open>auto intro: human_text [OF lib]\<close>)
    with True show ?thesis by simp
  next
    case False
    then show ?thesis by (simp add: long_blocks_def [abs_def] columns_skip)
  qed
qed

lemma size_field:
  assumes "long_line opt lib d cur"
  shows "columns (long_size opt lib d cur) (d_s_size d + 1) s"
proof (rule long_lineE [OF assms])
  fix v
  assume size: "(if f_humanize opt then 4 else with_commas opt (width21 (dec_of_int (v_maxsize v)))) \<le> d_s_size d"
    and dev: "v_bcfile v \<Longrightarrow> width21 (dec_of_int (v_maxmajor v)) \<le> d_s_major d \<and>
      d_s_minor d = width21 (dec_of_int (v_maxminor v)) \<and> d_s_major d + 2 + d_s_minor d = d_s_size d"
    and v: "maxima_ok v" "covers opt lib v cur" "stat_ok (fts_statp cur)" "needstats opt"
    and lib: "field_texts lib"
  note b = v(1) [unfolded maxima_ok_def] v(2) [unfolded covers_def] v(3) [unfolded stat_ok_def]
  show ?thesis
  proof (cases "device (fts_statp cur)")
    case True
    let ?j = "sb_major (fts_statp cur)" and ?n = "sb_minor (fts_statp cur)"
    have bc: "v_bcfile v" and j: "0 \<le> ?j" "?j \<le> v_maxmajor v" "v_maxmajor v < 2 ^ 31"
      and n: "0 \<le> ?n" "?n \<le> v_maxminor v" "v_maxminor v < 2 ^ 31"
      using b v(4) True by auto
    have "int (length (dec_of_int ?j)) \<le> width21 (dec_of_int (v_maxmajor v))"
      "int (length (dec_of_int ?n)) \<le> width21 (dec_of_int (v_maxminor v))"
      using j n by (simp_all add: width21_int_mono)
    then have w: "int (length (pad_left (d_s_major d) (dec_of_int ?j))) = d_s_major d"
      "int (length (pad_left (d_s_minor d) (dec_of_int ?n))) = d_s_minor d"
      using dev [OF bc] by (auto intro!: pad_left_width)
    have "int (length (pad_left (d_s_major d) (dec_of_int ?j) @ '', '' @ pad_left (d_s_minor d) (dec_of_int ?n) @ '' ''))
        = d_s_size d + 1"
      using w dev [OF bc] by simp
    then show ?thesis
      unfolding long_size_def [abs_def] Let_def if_P [OF True] by (rule columns_puts)
  next
    case False
    have "int (length (number_text opt lib (sb_size (fts_statp cur)))) \<le> with_commas opt (width21 (dec_of_int (v_maxsize v)))"
      using b v(4) by (intro commas_width [OF lib]) auto
    then have "\<not> f_humanize opt \<Longrightarrow> int (length (number_text opt lib (sb_size (fts_statp cur)))) \<le> d_s_size d"
      using size by simp
    then show ?thesis
      unfolding long_size_def Let_def if_not_P [OF False]
      by (intro human_field) (use human_text [OF lib] size in auto)
  qed
qed


lemma owner_field:
  assumes line: "long_line opt lib d cur" and np: "fts_pointer p = Some (names_of opt lib cur)" "fts_statp p = fts_statp cur"
  shows "columns (long_owner opt lib d p)
    (11 + 1 + d_s_nlink d + 1 + (if f_grouponly opt = 0 then d_s_user d + 2 else 0) + d_s_group d + 2) s"
proof (rule long_lineE [OF line])
  fix v
  assume d: "d_s_nlink d = width21 (dec_of_nat (v_maxnlink v))" "d_s_user d = int (v_maxuser v)"
      "d_s_group d = int (v_maxgroup v)"
    and v: "maxima_ok v" "covers opt lib v cur" "needstats opt" "f_longform opt" "\<not> f_flags opt" and lib: "field_texts lib"
  let ?np = "names_of opt lib cur"
  have "sb_nlink (fts_statp cur) \<le> v_maxnlink v" "v_maxnlink v < 2 ^ 64"
    using v by (simp_all add: covers_def maxima_ok_def)
  then have "int (length (dec_of_nat (sb_nlink (fts_statp cur)))) \<le> d_s_nlink d"
    by (simp add: d(1) width21_nat length_dec_mono)
  moreover have "int (length (np_user ?np)) \<le> d_s_user d" "int (length (np_group ?np)) \<le> d_s_group d"
    using v d by (simp_all add: covers_def)
  moreover have "length (lib_strmode lib m) = 11" for m using lib by (simp add: field_texts_def)
  ultimately show ?thesis
    using v(5) np unfolding long_owner_def
    by (cases "f_grouponly opt = 0") (auto simp: puts_puts pad_left_width pad_right_width Let_def intro!: columns_puts)
qed

lemma long_head_columns:
  assumes line: "long_line opt lib d cur" and p: "fts_pointer p = Some (names_of opt lib cur)" "fts_statp p = fts_statp cur"
  shows "columns (long_head opt lib d now p) (long_width opt d) s"
proof -
  have stat: "long_blocks opt lib d p = long_blocks opt lib d cur" "long_size opt lib d p = long_size opt lib d cur"
    by (simp_all add: fun_eq_iff long_blocks_def long_size_def p(2))
  have "field_texts lib" "dated (fts_statp p)" using line p(2) by (simp_all add: long_line_def stat_ok_def)
  note parts = inode_field [OF line] blocks_field [OF line] owner_field [OF line p] size_field [OF line]
    columns_time [OF this(1) dated_time [OF this(2)]]
  show ?thesis
    unfolding long_width_def long_head_def [abs_def] p(2) stat
    by (intro columns_bnd parts)
qed

section \<open>How the print functions end\<close>

text \<open>
  \<open>prints s m\<close>: when it returns, \<open>m\<close> has changed neither the exit status nor the flag that
  something was printed; otherwise it ends the process with status 1. In particular it does
  not run into undefined behaviour.
\<close>

definition quiet :: "ls_out \<Rightarrow> ls_out \<Rightarrow> bool" where
  "quiet s t \<longleftrightarrow> so_rval t = so_rval s \<and> so_output t = so_output s"

definition prints :: "ls_out \<Rightarrow> ('a, ls_out) outcome \<Rightarrow> bool" where
  "prints s m \<longleftrightarrow> wp m (\<lambda>_ t. quiet s t) (\<lambda>r _. r = Exit 1)"

lemma quiet_simps [simp]:
  "quiet s s" "quiet s (puts x t) = quiet s t" "quiet s (warnx f as t) = quiet s t"
  "quiet s (t\<lparr>so_lastentries := n\<rparr>) = quiet s t"
  by (simp_all add: quiet_def puts_def warnx_def)

lemma prints_simps [simp]:
  "prints s (Ret a t) = quiet s t" "prints s (err_exit 1 f as t)" "prints s (Stop r t) = (r = Exit 1)"
  "prints s (printf_text x t) = quiet s t"
  by (simp_all add: prints_def err_exit_def printf_text_def)

lemma prints_bnd [intro]:
  "prints s m \<Longrightarrow> (\<And>a t. quiet s t \<Longrightarrow> prints s (f a t)) \<Longrightarrow> prints s (bnd m f)"
  by (cases m) (auto simp: prints_def)

text \<open>\<open>strvis()\<close> writes at most four bytes for one.\<close>

definition vis_ok :: "'st lslib \<Rightarrow> bool" where
  "vis_ok lib \<longleftrightarrow> (\<forall>f t. length (lib_strvis lib f t) \<le> 4 * length t)"

lemma safe_print_prints: "vis_ok lib \<Longrightarrow> quiet s t \<Longrightarrow> prints s (safe_print opt lib x t)"
  using safe_print_wp [of lib opt x t] by (auto simp: prints_def vis_ok_def elim!: wp_mono)

lemma print_all_quiet: "print_all lib ws (n, pst, t) = (m, pst', t') \<Longrightarrow> quiet s t \<Longrightarrow> quiet s t'"
  by (induction ws arbitrary: n pst t)
    (auto simp: printwc_def Let_def split: prod.splits option.splits if_splits)

lemma printescaped_prints: "quiet s t \<Longrightarrow> prints s (printescaped lib x t)"
  by (auto simp: printescaped_def escaped_loop_plan dest: print_all_quiet split: prod.splits)

lemma print_name_prints: "vis_ok lib \<Longrightarrow> quiet s t \<Longrightarrow> prints s (print_name opt lib p t)"
  by (auto simp: print_name_def safe_printpath_def printescapedpath_def printpath_def
      intro!: prints_bnd safe_print_prints printescaped_prints)

lemma printtype_prints: "quiet s t \<Longrightarrow> prints s (printtype m t)"
  by (simp add: printtype_def split: option.splits)

lemma printtime_prints:
  "dated (fts_statp p) \<Longrightarrow> quiet s t \<Longrightarrow> prints s (printtime opt lib now (entry_time opt p) t)"
  using dated_time [of p opt] by (simp add: printtime_def Let_def)

text \<open>
  The options that are safe: not the long format with file flags, and a positive block size
  where sizes or blocks are shown.
\<close>

definition listing_ok :: "lsopts \<Rightarrow> bool" where
  "listing_ok opt \<longleftrightarrow> \<not> (f_flags opt \<and> f_longform opt) \<and> (needstats opt \<longrightarrow> 0 < blocksize opt)"

lemma listing_okD:
  assumes "listing_ok opt"
  shows "\<not> (f_flags opt \<and> f_longform opt)" "needstats opt \<Longrightarrow> 0 < blocksize opt"
    "f_size opt \<Longrightarrow> 0 < blocksize opt" "f_longform opt \<Longrightarrow> 0 < blocksize opt"
  using assms by (simp_all add: listing_ok_def needstats_def)

lemma printaname_prints: "listing_ok opt \<Longrightarrow> vis_ok lib \<Longrightarrow> quiet s t \<Longrightarrow> prints s (printaname opt lib p i b t)"
  unfolding printaname_def Let_def
  by (intro prints_bnd) (auto simp: listing_okD(3) print_name_prints printtype_prints split: option.splits)

lemma printtotal_prints: "listing_ok opt \<Longrightarrow> d_list dp \<noteq> [] \<Longrightarrow> quiet s t \<Longrightarrow> prints s (printtotal opt lib dp t)"
  by (auto simp: listing_okD(3,4) printtotal_def split: list.splits option.splits)

lemma printlink_prints: "vis_ok lib \<Longrightarrow> quiet s t \<Longrightarrow> prints s (printlink opt lib p t)"
  by (auto simp: printlink_def Let_def safe_print_prints printescaped_prints split: sum.splits intro!: prints_bnd)

lemma long_blocks_prints: "listing_ok opt \<Longrightarrow> quiet s t \<Longrightarrow> prints s (long_blocks opt lib dp p t)"
  by (simp add: long_blocks_def listing_okD(3) Let_def split: option.splits)

lemma long_owner_prints: "fts_pointer p \<noteq> None \<Longrightarrow> quiet s t \<Longrightarrow> prints s (long_owner opt lib dp p t)"
  by (auto simp: long_owner_def Let_def)

lemma long_size_prints: "quiet s t \<Longrightarrow> prints s (long_size opt lib dp p t)"
  by (simp add: long_size_def Let_def split: option.splits)

lemma print_long_entry_prints:
  "listing_ok opt \<Longrightarrow> vis_ok lib \<Longrightarrow> fts_pointer p \<noteq> None \<and> dated (fts_statp p) \<Longrightarrow> quiet s t \<Longrightarrow>
     prints s (print_long_entry opt lib dp now p t)"
  unfolding print_long_entry_split long_head_def long_tail_def
  by (intro prints_bnd)
    (auto simp: print_name_prints printtype_prints printlink_prints long_blocks_prints long_owner_prints long_size_prints
      printtime_prints)

lemma scol_prints: "listing_ok opt \<Longrightarrow> vis_ok lib \<Longrightarrow> quiet s t \<Longrightarrow> prints s (scol_loop opt lib i b ps t)"
  by (induction ps arbitrary: t) (auto intro!: prints_bnd simp: printaname_prints)

lemma long_loop_prints:
  "listing_ok opt \<Longrightarrow> vis_ok lib \<Longrightarrow> list_all (\<lambda>p. fts_pointer p \<noteq> None \<and> dated (fts_statp p)) (shown ps) \<Longrightarrow> quiet s t \<Longrightarrow>
     prints s (long_loop opt lib dp now ps t)"
  by (induction ps arbitrary: t) (auto intro!: prints_bnd simp: print_long_entry_prints shown_def)

lemma acol_prints: "listing_ok opt \<Longrightarrow> vis_ok lib \<Longrightarrow> quiet s t \<Longrightarrow> prints s (acol_loop opt lib dp n w ps col t)"
  by (induction ps arbitrary: col t) (auto intro!: prints_bnd simp: printaname_prints Let_def)

lemma stream_prints: "listing_ok opt \<Longrightarrow> vis_ok lib \<Longrightarrow> quiet s t \<Longrightarrow> prints s (stream_loop opt lib dp ps col t)"
  by (induction ps arbitrary: col t) (auto intro!: prints_bnd simp: printaname_prints Let_def)

lemma row_prints:
  "listing_ok opt \<Longrightarrow> vis_ok lib \<Longrightarrow> base < length array \<Longrightarrow> quiet s t \<Longrightarrow> prints s (row_loop opt lib dp array numrows w n base t)"
  by (induction n arbitrary: base t) (auto intro!: prints_bnd simp: printaname_prints)

lemma rows_prints:
  "listing_ok opt \<Longrightarrow> vis_ok lib \<Longrightarrow> row + n \<le> length array \<Longrightarrow> quiet s t \<Longrightarrow>
     prints s (rows_loop opt lib dp array numrows numcols w n row t)"
  by (induction n arbitrary: row t) (auto intro!: prints_bnd row_prints)

lemma numrows_le:
  assumes "0 < nc"
  shows "num div nc + (if num mod nc \<noteq> 0 then 1 else 0) \<le> (num :: nat)"
proof (cases "num mod nc = 0")
  case False
  then have "nc \<noteq> 1" "num \<noteq> 0" by (auto intro!: Nat.gr0I)
  with assms have "num div nc < num" by (intro div_less_dividend) auto
  with False show ?thesis by simp
qed simp

lemma width21_pos: "1 \<le> width21 (dec_of_nat n)" "1 \<le> width21 (dec_of_int i)"
proof -
  have "dec_of_nat n \<noteq> []" for n using dec_nonempty [of n] by force
  then have "dec_of_int i \<noteq> []" "dec_of_nat n \<noteq> []" by (simp_all add: dec_of_int_def)
  then show "1 \<le> width21 (dec_of_nat n)" "1 \<le> width21 (dec_of_int i)"
    by (cases "dec_of_nat n"; cases "dec_of_int i"; simp add: width21_def snprintf_buf_def)+
qed

lemma with_commas_pos: "1 \<le> w \<Longrightarrow> 1 \<le> with_commas opt w"
  by (simp add: with_commas_def pos_imp_zdiv_nonneg_iff add_increasing2)

lemma colwidth_pos: "0 < colwidth opt (fill_display opt l v d0)"
proof (cases "needstats opt")
  case True
  have "1 \<le> (if f_humanize opt then 4 else with_commas opt (width21 (dec_of_int i)))" for i
    using with_commas_pos [OF width21_pos(2)] by simp
  then have "1 \<le> d_s_size (fill_display opt l v d0)" "1 \<le> d_s_block (fill_display opt l v d0)"
    using fill_display_size(1) [OF True, of v l d0] order_trans unfolding fill_display_stat [OF True] by blast+
  then show ?thesis using width21_pos(1) [of "v_maxinode v"] by (simp add: colwidth_def fill_display_stat(3) [OF True])
qed (simp add: colwidth_def needstats_def)

lemma col_table_prints:
  assumes "listing_ok opt" "vis_ok lib" "d_list dp \<noteq> []" "0 < colwidth opt dp" "2 * colwidth opt dp \<le> termwidth opt" "quiet s t"
  shows "prints s (col_table opt lib dp t)"
proof -
  have "0 < nat (termwidth opt div colwidth opt dp)" using numcols_pos(1) [OF assms(4,5)] by simp
  then have z: "\<not> (colwidth opt dp = 0 \<or> nat (termwidth opt div colwidth opt dp) = 0)" using assms(4) by simp
  from numrows_le [OF \<open>0 < nat _\<close>] assms show ?thesis
    unfolding col_table_def Let_def if_not_P [OF z] by (intro prints_bnd printtotal_prints rows_prints) auto
qed

lemma call_printfcn_prints:
  assumes opt: "listing_ok opt" and lib: "vis_ok lib" and l: "l \<noteq> []" "v_entries v = length (shown l)"
    and np: "f_longform opt \<Longrightarrow> list_all (\<lambda>p. fts_pointer p \<noteq> None \<and> dated (fts_statp p)) (shown l)" and t: "quiet s t"
  shows "prints s (call_printfcn opt lib (fill_display opt l v d0) t)"
proof -
  let ?d = "fill_display opt l v d0"
  note [simp] = l t
  have scol: "prints s (printscol opt lib ?d u)" if "quiet s u" for u
    using scol_prints [OF opt lib that] by (simp add: printscol_def)
  have total: "prints s (printtotal opt lib ?d u)" if "quiet s u" for u
    using that by (intro printtotal_prints opt) simp_all
  have "prints s (printcol opt lib ?d t)"
    using col_table_prints [OF opt lib _ colwidth_pos] scol by (auto simp: printcol_def Let_def)
  moreover have z: "colwidth opt ?d \<noteq> 0" "2 * colwidth opt ?d \<le> termwidth opt \<Longrightarrow> termwidth opt div colwidth opt ?d \<noteq> 0"
    using colwidth_pos [of opt l v d0] numcols_pos(1) [OF colwidth_pos, of opt l v d0 "termwidth opt"] by auto
  then have "prints s (printacol opt lib ?d t)"
    using scol total z by (auto simp: printacol_def Let_def acol_prints [OF opt lib] intro!: prints_bnd)
  moreover have "prints s (printstream opt lib ?d t)"
    by (auto simp: printstream_def stream_prints [OF opt lib] intro!: prints_bnd)
  moreover have "prints s (printlong opt lib ?d t)" if "f_longform opt"
    using total np [OF that] by (auto simp: printlong_def Let_def long_loop_prints [OF opt lib] intro!: prints_bnd)
  ultimately show ?thesis
    using scol [OF t] by (auto simp: call_printfcn_def printfcn_def)
qed

lemma fold_report:
  "so_rval (fold (report lib) l s) = (if list_ex failed_entry l then 1 else so_rval s)"
  "so_output (fold (report lib) l s) = so_output s"
  by (induction l arbitrary: s) (simp_all add: report_def warnx_def)

lemma marked_pointer: "f_longform opt \<Longrightarrow> visible opt p c \<Longrightarrow> fts_pointer (marked opt lib p c) = Some (names_of opt lib c)"
  by (simp add: marked_def)

lemma marked_stat [simp]: "fts_statp (marked opt lib p c) = fts_statp c"
  by (simp add: marked_def)

section \<open>Uninitialised fields\<close>

lemma fill_display_init: "needstats opt \<Longrightarrow> fill_display opt l v d0 = fill_display opt l v d1"
  by (cases d0; cases d1) (simp add: fill_display_def size_widths_def device_widths_def Let_def)

text \<open>Without \<open>stat\<close> information the widths of inode and size are not looked at.\<close>

lemma printaname_nostat: "\<not> needstats opt \<Longrightarrow> printaname opt lib p i b = printaname opt lib p i' b'"
  by (rule ext) (simp add: printaname_def needstats_def)

lemma scol_nostat: "\<not> needstats opt \<Longrightarrow> scol_loop opt lib i b ps s = scol_loop opt lib i' b' ps s"
  by (induction ps arbitrary: s) (auto simp: printaname_nostat [of opt lib _ i b i' b'])

text \<open>\<open>agree opt d d'\<close>: no \<open>stat\<close> information is needed and the fields that are set then are equal.\<close>

definition agree :: "lsopts \<Rightarrow> DISPLAY \<Rightarrow> DISPLAY \<Rightarrow> bool" where
  "agree opt d d' \<longleftrightarrow> \<not> needstats opt \<and> d_list d = d_list d' \<and> d_maxlen d = d_maxlen d' \<and> d_entries d = d_entries d'"

lemma agree_parts:
  assumes "agree opt d d'"
  shows "printtotal opt lib d = printtotal opt lib d'" "colwidth opt d = colwidth opt d'" "extwidth opt d = extwidth opt d'"
    "printscol opt lib d = printscol opt lib d'"
    "printaname opt lib p (d_s_inode d) (sizefield opt d) = printaname opt lib p (d_s_inode d') (sizefield opt d')"
    "d_list d = d_list d'" "d_entries d = d_entries d'"
  using assms scol_nostat [of opt lib "d_s_inode d" "d_s_block d" "d_list d'" _ "d_s_inode d'" "d_s_block d'"]
    printaname_nostat [of opt lib p "d_s_inode d" "sizefield opt d" "d_s_inode d'" "sizefield opt d'"]
  by (auto simp: agree_def printtotal_def printscol_def colwidth_def extwidth_def needstats_def fun_eq_iff split: list.splits)

lemma agree_loops:
  assumes "agree opt d d'"
  shows "row_loop opt lib d array nr w n base s = row_loop opt lib d' array nr w n base s"
    "rows_loop opt lib d array nr nc w m row s = rows_loop opt lib d' array nr nc w m row s"
    "acol_loop opt lib d n2 w ps col s = acol_loop opt lib d' n2 w ps col s"
    "stream_loop opt lib d ps col s = stream_loop opt lib d' ps col s"
proof -
  note eqs = agree_parts [OF assms]
  show row: "row_loop opt lib d array nr w n base s = row_loop opt lib d' array nr w n base s" for n base s
    by (induction n arbitrary: base s) (simp_all add: eqs cong: if_cong)
  show "rows_loop opt lib d array nr nc w m row s = rows_loop opt lib d' array nr nc w m row s"
    by (induction m arbitrary: row s) (simp_all add: row)
  show "acol_loop opt lib d n2 w ps col s = acol_loop opt lib d' n2 w ps col s"
    by (induction ps arbitrary: col s) (simp_all add: eqs Let_def)
  show "stream_loop opt lib d ps col s = stream_loop opt lib d' ps col s"
  proof -
    have "stream_loop opt lib d ps = stream_loop opt lib d' ps"
    proof (induction ps)
      case (Cons p ps)
      show ?case by (intro ext) (simp add: eqs Cons.IH Let_def)
    qed (simp add: fun_eq_iff)
    then show ?thesis by simp
  qed
qed

lemma call_printfcn_agree:
  assumes "agree opt d d'"
  shows "call_printfcn opt lib d s = call_printfcn opt lib d' s"
proof -
  have "\<not> f_longform opt" using assms by (simp add: agree_def needstats_def)
  moreover have "rows_loop opt lib d = rows_loop opt lib d'" by (intro ext agree_loops [OF assms])
  ultimately show ?thesis
    by (simp add: call_printfcn_def printfcn_def printcol_def col_table_def printacol_def printstream_def
        agree_parts [OF assms] agree_loops [OF assms] Let_def)
qed

section \<open>Properties\<close>

definition fit :: "lsopts \<Rightarrow> ftsent \<Rightarrow> bool" where
  "fit opt cur \<longleftrightarrow> fresh cur \<and> (f_longform opt \<longrightarrow> dated (fts_statp cur))"

lemma fit_all: "list_all (fit opt) l \<Longrightarrow> list_all fresh l"
  by (simp add: list_all_iff fit_def)

lemma display_wp:
  assumes "listing_ok opt" "vis_ok lib" "list_all (fit opt) l"
  shows "wp (display opt lib d0 p l s)
    (\<lambda>_ t. so_rval t = (if list_ex failed_entry l then 1 else so_rval s) \<and>
           so_output t = (so_output s \<or> list_ex (visible opt p) l)) (\<lambda>r _. r = Exit 1)"
proof (cases "display_loop opt lib p l no_maxima s")
  case (Ret a t)
  obtain l' v where a: "a = (l', v)" by fastforce
  have l': "l' = map (marked opt lib p) l" and v: "v = fold (measured opt lib) (filter (visible opt p) l) no_maxima"
    and t: "t = fold (report lib) l s"
    using display_loop_wp [OF listing_okD(1) [OF assms(1)], of lib p l no_maxima s] Ret a by simp_all
  have n: "v_entries v = length (shown l')"
    by (simp add: v l' shown_marked [OF fit_all [OF assms(3)]] measured_entries) (simp add: no_maxima_def)
  then have none: "v_entries v = 0 \<longleftrightarrow> \<not> list_ex (visible opt p) l"
    by (simp add: l' shown_marked [OF fit_all [OF assms(3)]] filter_empty_conv list_ex_iff)
  have "prints t (call_printfcn opt lib (fill_display opt l' v d0) t)" if "l \<noteq> []"
    using that assms(3) by (intro call_printfcn_prints [OF assms(1,2) _ n])
      (auto simp: l' shown_marked [OF fit_all [OF assms(3)]] list_all_iff marked_pointer fit_def)
  then have "l \<noteq> [] \<Longrightarrow> wp (call_printfcn opt lib (fill_display opt l' v d0) t)
      (\<lambda>_ u. so_rval u = so_rval t \<and> so_output u = so_output t) (\<lambda>r _. r = Exit 1)"
    by (simp add: prints_def quiet_def)
  then show ?thesis
    using Ret a none listing_okD(2) [OF assms(1)] by (auto simp: display_def fold_report t elim!: wp_mono)
next
  case (Stop r t)
  then show ?thesis
    using display_loop_wp [OF listing_okD(1) [OF assms(1)], of lib p l no_maxima s] by (simp add: display_def)
qed

text \<open>
  C8: \<open>display()\<close> never runs into undefined behaviour, whatever the format, unless the long
  format is combined with file flags, sizes or blocks are asked for and the block size is not
  positive, or a date of a long listing is within six months of the ends of \<open>time_t\<close>: the
  table of \<open>printcol()\<close> is neither overrun nor read outside its bounds, neither the block size
  nor a width or number of columns is a zero divisor, every entry of a long listing has its
  owner names, and names are encoded within their buffers. It returns, or it exits with status 1. When it returns, the exit
  status of the program has become 1 exactly if an entry could not be examined, and the
  note that something was printed is set exactly if an entry is to be shown.
\<close>

theorem display_safe:
  assumes "listing_ok opt" "vis_ok lib" "list_all (fit opt) l"
  shows "wp (display opt lib d0 p l s)
    (\<lambda>_ t. so_rval t = (if list_ex failed_entry l then 1 else so_rval s) \<and>
           so_output t = (so_output s \<or> list_ex (visible opt p) l)) (\<lambda>r _. r = Exit 1)"
  by (rule display_wp [OF assms])

lemma sample_vis: "vis_ok sample_lib"
  by (simp add: vis_ok_def sample_lib_def)

lemma plain_fresh: "list_all fresh (map plain_entry ns)"
  by (simp add: list_all_iff fresh_def plain_entry_def NO_PRINT_def)

lemma plain_dated: "dated (fts_statp (plain_entry n))"
  by (simp add: plain_entry_def dated_def fits64_def SIXMONTHS_def)

theorem display_safe_witness:
  "wp (display (init_opts\<lparr>f_column := True\<rparr>) sample_lib (plain_display [] 0) None [plain_entry ''a'', plain_entry ''b''] no_output)
     (\<lambda>_ t. so_rval t = 0 \<and> so_output t) (\<lambda>r _. r = Exit 1)"
proof -
  have "list_all (fit (init_opts\<lparr>f_column := True\<rparr>)) [plain_entry ''a'', plain_entry ''b'']"
    using plain_fresh [of "[''a'', ''b'']"] by (simp add: fit_def plain_dated)
  then have "wp (display (init_opts\<lparr>f_column := True\<rparr>) sample_lib (plain_display [] 0) None [plain_entry ''a'', plain_entry ''b''] no_output)
    (\<lambda>_ t. so_rval t = (if list_ex failed_entry [plain_entry ''a'', plain_entry ''b''] then 1 else so_rval no_output) \<and>
       so_output t = (so_output no_output \<or> list_ex (visible (init_opts\<lparr>f_column := True\<rparr>) None) [plain_entry ''a'', plain_entry ''b'']))
    (\<lambda>r _. r = Exit 1)"
    by (intro display_safe sample_vis) (simp_all add: listing_ok_def needstats_def init_opts_def)
  then show ?thesis
    by (rule wp_mono) (simp_all add: no_output_def failed_entry_def visible_def left_out_def plain_entry_def)
qed

text \<open>
  What \<open>display()\<close> prints does not depend on the contents the automatic variable \<open>d\<close>
  happens to have: fields that are not set, because no \<open>stat\<close> information was asked for, are
  not used by any print function.
\<close>

lemma display_initialised: "display opt lib d0 p l s = display opt lib d1 p l s"
proof -
  have "call_printfcn opt lib (fill_display opt l v d0) s = call_printfcn opt lib (fill_display opt l v d1) s" for l v s
  proof (cases "needstats opt")
    case True
    then show ?thesis using fill_display_init [OF True, of l v d0 d1] by simp
  next
    case False
    then have "agree opt (fill_display opt l v d0) (fill_display opt l v d1)" by (simp add: agree_def)
    then show ?thesis by (rule call_printfcn_agree)
  qed
  then show ?thesis
    by (cases "display_loop opt lib p l no_maxima s") (simp_all add: display_def split: prod.splits)
qed

lemma btotal_fold:
  assumes "needstats opt"
  shows "int (v_btotal (fold (measured opt lib) l v)) mod 2 ^ 64 = (int (v_btotal v) + (\<Sum>c \<leftarrow> l. sb_blocks (fts_statp c))) mod 2 ^ 64"
    and "int (v_stotal (fold (measured opt lib) l v)) mod 2 ^ 64 = (int (v_stotal v) + (\<Sum>c \<leftarrow> l. sb_size (fts_statp c))) mod 2 ^ 64"
  by (induction l arbitrary: v) (simp_all add: measured_stat [OF assms] add64_def mod_add_left_eq add.assoc)

lemma totals_bounded:
  "v_btotal v < 2 ^ 64 \<Longrightarrow> v_btotal (fold (measured opt lib) l v) < 2 ^ 64"
  "v_stotal v < 2 ^ 64 \<Longrightarrow> v_stotal (fold (measured opt lib) l v) < 2 ^ 64"
proof -
  have "add64 t x < 2 ^ 64" for t x by (simp add: add64_def nat_less_iff)
  then have "v_btotal v < 2 ^ 64 \<Longrightarrow> v_btotal (measured opt lib c v) < 2 ^ 64"
    "v_stotal v < 2 ^ 64 \<Longrightarrow> v_stotal (measured opt lib c v) < 2 ^ 64" for c v
    by (cases "needstats opt"; simp add: measured_stat; simp add: measured_def Let_def)+
  then show "v_btotal v < 2 ^ 64 \<Longrightarrow> v_btotal (fold (measured opt lib) l v) < 2 ^ 64"
    "v_stotal v < 2 ^ 64 \<Longrightarrow> v_stotal (fold (measured opt lib) l v) < 2 ^ 64"
    by (induction l arbitrary: v) simp_all
qed

lemma totals_sums:
  assumes "needstats opt"
  shows "int (v_btotal (fold (measured opt lib) l no_maxima)) = (\<Sum>c \<leftarrow> l. sb_blocks (fts_statp c)) mod 2 ^ 64"
    and "int (v_stotal (fold (measured opt lib) l no_maxima)) = (\<Sum>c \<leftarrow> l. sb_size (fts_statp c)) mod 2 ^ 64"
  using btotal_fold [OF assms, of lib l no_maxima] totals_bounded [of no_maxima opt lib l]
  by (simp_all add: no_maxima_def nat_less_iff [symmetric])

text \<open>With memory for the names the loop does not end the process.\<close>

lemma display_loop_returns:
  assumes "\<not> (f_flags opt \<and> f_longform opt)" "\<And>n. lib_malloc lib n"
  shows "display_loop opt lib p l v s =
    Ret (map (marked opt lib p) l, fold (measured opt lib) (filter (visible opt p) l) v) (fold (report lib) l s)"
proof -
  have entry: "\<exists>r t. measure_entry opt lib c v s = Ret r t" for c v s
    using assms by (auto simp: measure_entry_def long_names_def Let_def)
  have "\<exists>r t. display_loop opt lib p l v s = Ret r t"
  proof (induction l arbitrary: v s)
    case (Cons c l)
    obtain c' v' s' where "measure_entry opt lib c v s = Ret (c', v') s'" using entry [of c v s] by force
    then show ?case
      using Cons.IH by (auto simp: bnd_Ret_iff split: prod.splits) (metis surj_pair)+
  qed simp
  with display_loop_wp [OF assms(1), of lib p l v s] show ?thesis by auto
qed

text \<open>
  What \<open>display()\<close> hands to the print function: exactly the entries that could be examined
  and that the options do not leave out, in the order of the list; their number; and, when
  \<open>stat\<close> information is used, the sums of their blocks and sizes modulo \<open>2 ^ 64\<close>. Failed
  entries are reported before.
\<close>

lemma display_passes:
  assumes "listing_ok opt" "\<And>n. lib_malloc lib n" "list_all fresh l" "list_ex (visible opt p) l"
  shows "\<exists>d. display opt lib d0 p l s =
      bnd (call_printfcn opt lib d (fold (report lib) l s)) (\<lambda>_ t. Ret () (t\<lparr>so_output := True\<rparr>)) \<and>
    map fts_name (shown (d_list d)) = map fts_name (filter (visible opt p) l) \<and>
    d_entries d = length (filter (visible opt p) l) \<and>
    (needstats opt \<longrightarrow>
       int (d_btotal d) = (\<Sum>c \<leftarrow> filter (visible opt p) l. sb_blocks (fts_statp c)) mod 2 ^ 64 \<and>
       int (d_stotal d) = (\<Sum>c \<leftarrow> filter (visible opt p) l. sb_size (fts_statp c)) mod 2 ^ 64)"
proof -
  let ?v = "fold (measured opt lib) (filter (visible opt p) l) no_maxima"
  let ?d = "fill_display opt (map (marked opt lib p) l) ?v d0"
  have n: "v_entries ?v = length (filter (visible opt p) l)"
    unfolding measured_entries by (simp add: no_maxima_def)
  have "filter (visible opt p) l \<noteq> []" using assms(4) by (auto simp: filter_empty_conv list_ex_iff)
  then have pos: "v_entries ?v \<noteq> 0" "l \<noteq> []" unfolding n by auto
  have "fts_name (marked opt lib p c) = fts_name c" for c by (simp add: marked_def)
  then have names: "map fts_name (shown (d_list ?d)) = map fts_name (filter (visible opt p) l)"
    by (simp add: shown_marked [OF assms(3)] comp_def)
  have "display opt lib d0 p l s = bnd (call_printfcn opt lib ?d (fold (report lib) l s)) (\<lambda>_ t. Ret () (t\<lparr>so_output := True\<rparr>))"
    using pos display_loop_returns [OF listing_okD(1) [OF assms(1)] assms(2), of p l no_maxima s] listing_okD(2) [OF assms(1)]
    by (simp add: display_def)
  then show ?thesis
    using names n fill_display_stat(1,2) [of opt "map (marked opt lib p) l" ?v d0] totals_sums [of opt lib "filter (visible opt p) l"]
    by (intro exI [of _ ?d]) simp
qed

lemma sample_malloc: "lib_malloc sample_lib n"
  by (simp add: sample_lib_def)

text \<open>
  C30: the names of a long listing are aligned: in a listing made by \<open>display()\<close>, what
  \<open>printlong()\<close> prints before the name has the same width for every entry, devices (which show
  their major and minor number in place of the size) included.
\<close>

theorem long_listing_aligned:
  assumes "f_longform opt" "\<not> f_flags opt" "0 < blocksize opt" "field_texts lib"
    and "list_all (\<lambda>c. stat_ok (fts_statp c)) l" "list_all fresh l"
    and "display_loop opt lib par l no_maxima s = Ret (l', v) t" "p \<in> set (shown l')"
  shows "(\<exists>pre. int (length pre) = long_width opt (fill_display opt l' v d0) \<and>
      print_long_entry opt lib (fill_display opt l' v d0) now p u =
        bnd (print_name opt lib p (puts pre u)) (\<lambda>_. long_tail opt lib p)) \<or>
    (\<exists>u'. print_long_entry opt lib (fill_display opt l' v d0) now p u = Stop (Exit 1) u')"
proof -
  let ?d = "fill_display opt l' v d0"
  have l': "l' = map (marked opt lib par) l" and v: "v = fold (measured opt lib) (filter (visible opt par) l) no_maxima"
    using display_loop_wp [of opt lib par l no_maxima s] assms(2,7) by simp_all
  obtain c where c: "c \<in> set (filter (visible opt par) l)" and p: "p = marked opt lib par c"
    using assms(8) unfolding l' shown_marked [OF assms(6)] by auto
  have "maxima_ok v"
    unfolding v using assms(1,5) by (intro maxima_ok_fold no_maxima_ok) (auto simp: needstats_def list_all_iff)
  moreover have "covers opt lib v c" unfolding v using c by (rule covers_fold)
  moreover have "stat_ok (fts_statp c)" using c assms(5) by (auto simp: list_all_iff)
  ultimately have "long_line opt lib ?d c" using assms(1-4) by (auto simp: long_line_def)
  moreover have "fts_pointer p = Some (names_of opt lib c)" "fts_statp p = fts_statp c"
    using c p assms(1) by (simp_all add: marked_pointer)
  ultimately have "columns (long_head opt lib ?d now p) (long_width opt ?d) u" by (rule long_head_columns)
  then show ?thesis by (auto simp: columns_def print_long_entry_split)
qed

lemma sample_fields: "field_texts sample_lib"
  by (simp add: field_texts_def sample_lib_def)

theorem long_listing_aligned_witness:
  "let opt = init_opts\<lparr>f_longform := True, blocksize := 1\<rparr>; l = [plain_entry ''a'', plain_entry ''b''];
       d = fill_display opt (map (marked opt sample_lib None) l) (fold (measured opt sample_lib) l no_maxima) (plain_display [] 0)
   in (\<exists>pre. int (length pre) = long_width opt d \<and>
      print_long_entry opt sample_lib d 0 (marked opt sample_lib None (plain_entry ''b'')) no_output =
        bnd (print_name opt sample_lib (marked opt sample_lib None (plain_entry ''b'')) (puts pre no_output))
          (\<lambda>_. long_tail opt sample_lib (marked opt sample_lib None (plain_entry ''b'')))) \<or>
    (\<exists>u'. print_long_entry opt sample_lib d 0 (marked opt sample_lib None (plain_entry ''b'')) no_output = Stop (Exit 1) u')"
proof -
  let ?opt = "init_opts\<lparr>f_longform := True, blocksize := 1\<rparr>" and ?l = "[plain_entry ''a'', plain_entry ''b'']"
  have opt: "f_longform ?opt" "\<not> f_flags ?opt" "0 < blocksize ?opt" by (simp_all add: init_opts_def)
  have f: "list_all fresh ?l" using plain_fresh [of "[''a'', ''b'']"] by simp
  have vis: "visible ?opt None (plain_entry n)" "stat_ok (fts_statp (plain_entry n))" for n
    using plain_dated [of n] by (simp_all add: visible_def failed_entry_def left_out_def plain_entry_def stat_ok_def)
  have run: "display_loop ?opt sample_lib None ?l no_maxima no_output =
      Ret (map (marked ?opt sample_lib None) ?l, fold (measured ?opt sample_lib) ?l no_maxima) (fold (report sample_lib) ?l no_output)"
    using display_loop_returns [of ?opt sample_lib None ?l no_maxima no_output] opt(2) by (simp add: sample_malloc vis(1))
  have p: "marked ?opt sample_lib None (plain_entry ''b'') \<in> set (shown (map (marked ?opt sample_lib None) ?l))"
    unfolding shown_marked [OF f] by (simp add: vis(1))
  show ?thesis
    unfolding Let_def by (rule long_listing_aligned [OF opt sample_fields _ f run p]) (simp add: vis(2))
qed

text \<open>
  The long format with file flags (\<open>ls -lo\<close>) is broken in this version: the first entry to
  be shown passes the static buffer of \<open>flags_to_string()\<close> to \<open>free()\<close>, which is undefined.
\<close>

lemma display_flags_undefined:
  assumes "f_longform opt" "f_flags opt" "\<And>n. lib_malloc lib n" "list_ex (visible opt p) l"
  shows "\<exists>t. display opt lib d0 p l s = Stop (Undefined ''free of a static buffer'') t"
proof -
  have entry: "measure_entry opt lib c v s = Stop (Undefined ''free of a static buffer'') s" for c v s
    using assms(1-3) by (simp add: measure_entry_def long_names_def needstats_def Let_def)
  have "\<exists>t. display_loop opt lib p l v s = Stop (Undefined ''free of a static buffer'') t" for v s
    using assms(4)
  proof (induction l arbitrary: s)
    case (Cons c l)
    show ?case
    proof (cases "visible opt p c")
      case True
      then show ?thesis by (simp add: visible_def entry)
    next
      case False
      then obtain t where "display_loop opt lib p l v (report lib c s) = Stop (Undefined ''free of a static buffer'') t"
        using Cons by fastforce
      with False show ?thesis by (cases "failed_entry c") (simp_all add: visible_def report_def)
    qed
  qed simp
  then obtain t where "display_loop opt lib p l no_maxima s = Stop (Undefined ''free of a static buffer'') t" by blast
  moreover have "l \<noteq> []" using assms(4) by auto
  ultimately show ?thesis by (simp add: display_def)
qed

end
