(* ===== verification/Ls_Cmp.thy ===== *)
theory Ls_Cmp
  imports Ls_Types "HOL-Library.Multiset"
begin

text \<open>
  The order of a listing: the comparison functions of \<open>cmp.c\<close> and \<open>mastercmp\<close> of \<open>ls.c\<close>.

  The locale \<open>qsort_order\<close> is what \<open>qsort()\<close>, and \<open>fts\<close> with it, demands of a comparison
  function; its lemmas say that the sorted order of a directory is determined by the
  function, so that it does not depend on the sorting algorithm. Every comparison function
  of the program is an instance.
\<close>

section \<open>Comparison functions\<close>

definition namecmp :: "ftsent \<Rightarrow> ftsent \<Rightarrow> int" where
  "namecmp a b = strcmp (fts_name a) (fts_name b)"

definition revnamecmp :: "ftsent \<Rightarrow> ftsent \<Rightarrow> int" where
  "revnamecmp a b = strcmp (fts_name b) (fts_name a)"

definition modcmp :: "ftsent \<Rightarrow> ftsent \<Rightarrow> int" where
  "modcmp a b = (let x = fts_statp a; y = fts_statp b in
     if sb_mtime y > sb_mtime x then 1
     else if sb_mtime y < sb_mtime x then -1
     else if sb_mtimensec y > sb_mtimensec x then 1
     else if sb_mtimensec y < sb_mtimensec x then -1
     else namecmp a b)"

definition revmodcmp :: "ftsent \<Rightarrow> ftsent \<Rightarrow> int" where
  "revmodcmp a b = (let x = fts_statp a; y = fts_statp b in
     if sb_mtime y > sb_mtime x then -1
     else if sb_mtime y < sb_mtime x then 1
     else if sb_mtimensec y > sb_mtimensec x then -1
     else if sb_mtimensec y < sb_mtimensec x then 1
     else revnamecmp a b)"

definition acccmp :: "ftsent \<Rightarrow> ftsent \<Rightarrow> int" where
  "acccmp a b = (let x = fts_statp a; y = fts_statp b in
     if sb_atime y > sb_atime x then 1
     else if sb_atime y < sb_atime x then -1
     else if sb_atimensec y > sb_atimensec x then 1
     else if sb_atimensec y < sb_atimensec x then -1
     else namecmp a b)"

definition revacccmp :: "ftsent \<Rightarrow> ftsent \<Rightarrow> int" where
  "revacccmp a b = (let x = fts_statp a; y = fts_statp b in
     if sb_atime y > sb_atime x then -1
     else if sb_atime y < sb_atime x then 1
     else if sb_atimensec y > sb_atimensec x then -1
     else if sb_atimensec y < sb_atimensec x then 1
     else revnamecmp a b)"

definition statcmp :: "ftsent \<Rightarrow> ftsent \<Rightarrow> int" where
  "statcmp a b = (let x = fts_statp a; y = fts_statp b in
     if sb_ctime y > sb_ctime x then 1
     else if sb_ctime y < sb_ctime x then -1
     else if sb_ctimensec y > sb_ctimensec x then 1
     else if sb_ctimensec y < sb_ctimensec x then -1
     else namecmp a b)"

definition revstatcmp :: "ftsent \<Rightarrow> ftsent \<Rightarrow> int" where
  "revstatcmp a b = (let x = fts_statp a; y = fts_statp b in
     if sb_ctime y > sb_ctime x then -1
     else if sb_ctime y < sb_ctime x then 1
     else if sb_ctimensec y > sb_ctimensec x then -1
     else if sb_ctimensec y < sb_ctimensec x then 1
     else revnamecmp a b)"

definition sizecmp :: "ftsent \<Rightarrow> ftsent \<Rightarrow> int" where
  "sizecmp a b = (let x = fts_statp a; y = fts_statp b in
     if sb_size y > sb_size x then 1
     else if sb_size y < sb_size x then -1
     else namecmp a b)"

definition revsizecmp :: "ftsent \<Rightarrow> ftsent \<Rightarrow> int" where
  "revsizecmp a b = (let x = fts_statp a; y = fts_statp b in
     if sb_size y > sb_size x then -1
     else if sb_size y < sb_size x then 1
     else revnamecmp a b)"

text \<open>The selection of \<open>sortfcn\<close> in \<open>ls_main\<close>.\<close>

definition sortfcn :: "lsopts \<Rightarrow> ftsent \<Rightarrow> ftsent \<Rightarrow> int" where
  "sortfcn opt =
     (if f_reversesort opt then
        (case sortkey opt of
           BY_NAME \<Rightarrow> revnamecmp
         | BY_SIZE \<Rightarrow> revsizecmp
         | BY_TIME \<Rightarrow> if f_accesstime opt then revacccmp
                      else if f_statustime opt then revstatcmp else revmodcmp)
      else
        (case sortkey opt of
           BY_NAME \<Rightarrow> namecmp
         | BY_SIZE \<Rightarrow> sizecmp
         | BY_TIME \<Rightarrow> if f_accesstime opt then acccmp
                      else if f_statustime opt then statcmp else modcmp))"

definition mastercmp :: "lsopts \<Rightarrow> ftsent \<Rightarrow> ftsent \<Rightarrow> int" where
  "mastercmp opt a b =
     (let a_info = fts_info a; b_info = fts_info b in
      if a_info = FTS_ERR then 0
      else if b_info = FTS_ERR then 0
      else if a_info = FTS_NS \<or> b_info = FTS_NS then
        (if b_info \<noteq> FTS_NS then 1
         else if a_info \<noteq> FTS_NS then -1
         else namecmp a b)
      else if a_info \<noteq> b_info \<and> \<not> f_listdir opt \<and> fts_level a = FTS_ROOTLEVEL \<and> a_info = FTS_D then 1
      else if a_info \<noteq> b_info \<and> \<not> f_listdir opt \<and> fts_level a = FTS_ROOTLEVEL \<and> b_info = FTS_D then -1
      else sortfcn opt a b)"

section \<open>What a sort demands of its comparison function\<close>

locale qsort_order =
  fixes ok :: "'a \<Rightarrow> bool"
    and cmp :: "'a \<Rightarrow> 'a \<Rightarrow> int"
    and same :: "'a \<Rightarrow> 'a \<Rightarrow> bool"
  assumes anti: "ok a \<Longrightarrow> ok b \<Longrightarrow> cmp a b < 0 \<longleftrightarrow> 0 < cmp b a"
    and trans: "ok a \<Longrightarrow> ok b \<Longrightarrow> ok c \<Longrightarrow> cmp a b \<le> 0 \<Longrightarrow> cmp b c \<le> 0 \<Longrightarrow> cmp a c \<le> 0"
    and ties: "ok a \<Longrightarrow> ok b \<Longrightarrow> cmp a b = 0 \<Longrightarrow> same a b"
begin

abbreviation le :: "'a \<Rightarrow> 'a \<Rightarrow> bool" where
  "le a b \<equiv> cmp a b \<le> 0"

lemma total: "ok a \<Longrightarrow> ok b \<Longrightarrow> le a b \<or> le b a"
  using anti [of a b] by linarith

lemma le_antisym: "ok a \<Longrightarrow> ok b \<Longrightarrow> le a b \<Longrightarrow> le b a \<Longrightarrow> same a b"
  using anti [of a b] anti [of b a] ties [of a b] by linarith

text \<open>A list with no two entries of the same name has only one sorted order.\<close>

lemma sorted_unique:
  assumes "sorted_wrt le xs" "sorted_wrt le ys" "mset xs = mset ys" "\<forall>x \<in> set xs. ok x"
    and "\<And>a b. a \<in> set xs \<Longrightarrow> b \<in> set xs \<Longrightarrow> same a b \<Longrightarrow> a = b"
  shows "xs = ys"
  using assms
proof (induction xs arbitrary: ys)
  case Nil
  then show ?case by simp
next
  case (Cons x xs)
  then obtain y ys' where ys: "ys = y # ys'" by (cases ys) auto
  have sets: "set (x # xs) = set (y # ys')" using Cons.prems(3) ys mset_eq_setD by blast
  have xy: "x = y"
  proof (rule ccontr)
    assume "x \<noteq> y"
    then have mem: "y \<in> set xs" "x \<in> set ys'" using sets by auto
    then have "le x y" "le y x" "ok x" "ok y" using Cons.prems(1,2,4) ys by auto
    then have "same x y" by (intro le_antisym)
    then show False using Cons.prems(5) sets \<open>x \<noteq> y\<close> by (metis list.set_intros(1))
  qed
  have "xs = ys'"
    using Cons.prems ys xy by (intro Cons.IH) auto
  with xy ys show ?case by simp
qed

lemma swapped: "qsort_order ok (\<lambda>a b. cmp b a) (\<lambda>a b. same b a)"
  by unfold_locales (use anti trans ties in blast)+

lemma sorted_rev: "sorted_wrt (\<lambda>a b. cmp b a \<le> 0) xs \<longleftrightarrow> sorted_wrt le (rev xs)"
  by (simp add: sorted_wrt_rev)

text \<open>Sorting by a key first (largest first), then by \<open>cmp\<close>.\<close>

lemma by_key:
  fixes k :: "'a \<Rightarrow> int"
  shows "qsort_order ok (\<lambda>a b. if k b > k a then 1 else if k b < k a then -1 else cmp a b) same"
proof (unfold_locales, goal_cases)
  case (1 a b)
  then show ?case using anti [of a b] by auto
next
  case (2 a b c)
  then show ?case using trans [of a b c] by (auto split: if_splits)
next
  case (3 a b)
  then show ?case using ties [of a b] by (auto split: if_splits)
qed

lemma by_two_keys:
  fixes k1 k2 :: "'a \<Rightarrow> int"
  shows "qsort_order ok (\<lambda>a b. if k1 b > k1 a then 1 else if k1 b < k1 a then -1
    else if k2 b > k2 a then 1 else if k2 b < k2 a then -1 else cmp a b) same"
  by (rule qsort_order.by_key [OF by_key])

end

section \<open>The comparison functions are orders\<close>

text \<open>Entries with a name that C can represent; two of them are the same if the names are.\<close>

definition named :: "ftsent \<Rightarrow> bool" where
  "named e \<longleftrightarrow> cstring (fts_name e)"

definition same_name :: "ftsent \<Rightarrow> ftsent \<Rightarrow> bool" where
  "same_name a b \<longleftrightarrow> fts_name a = fts_name b"

lemma same_name_sym [simp]: "(\<lambda>a b. same_name b a) = same_name"
  by (auto simp: same_name_def fun_eq_iff)

interpretation name: qsort_order named namecmp same_name
proof (unfold_locales, goal_cases)
  case (1 a b)
  show ?case using strcmp_antisym [of "fts_name b" "fts_name a"] by (simp add: namecmp_def)
next
  case (2 a b c)
  then show ?case unfolding named_def namecmp_def by (rule strcmp_trans)
next
  case (3 a b)
  then show ?case by (simp add: named_def namecmp_def same_name_def strcmp_eq_0)
qed

interpretation modification: qsort_order named modcmp same_name
  using name.by_two_keys [of "\<lambda>e. sb_mtime (fts_statp e)" "\<lambda>e. sb_mtimensec (fts_statp e)"]
  by (simp add: modcmp_def [abs_def] Let_def)

interpretation access: qsort_order named acccmp same_name
  using name.by_two_keys [of "\<lambda>e. sb_atime (fts_statp e)" "\<lambda>e. sb_atimensec (fts_statp e)"]
  by (simp add: acccmp_def [abs_def] Let_def)

interpretation status: qsort_order named statcmp same_name
  using name.by_two_keys [of "\<lambda>e. sb_ctime (fts_statp e)" "\<lambda>e. sb_ctimensec (fts_statp e)"]
  by (simp add: statcmp_def [abs_def] Let_def)

interpretation size: qsort_order named sizecmp same_name
  using name.by_key [of "\<lambda>e. sb_size (fts_statp e)"]
  by (simp add: sizecmp_def [abs_def] Let_def)

text \<open>The functions for reversed listings are the others with exchanged arguments.\<close>

lemma rev_comparators:
  "revnamecmp = (\<lambda>a b. namecmp b a)" "revmodcmp = (\<lambda>a b. modcmp b a)" "revacccmp = (\<lambda>a b. acccmp b a)"
  "revstatcmp = (\<lambda>a b. statcmp b a)" "revsizecmp = (\<lambda>a b. sizecmp b a)"
  by (auto simp: fun_eq_iff Let_def revnamecmp_def namecmp_def revmodcmp_def modcmp_def revacccmp_def acccmp_def
      revstatcmp_def statcmp_def revsizecmp_def sizecmp_def)

lemmas forward_orders = name.qsort_order_axioms modification.qsort_order_axioms
  access.qsort_order_axioms status.qsort_order_axioms size.qsort_order_axioms

lemmas reverse_orders = forward_orders [THEN qsort_order.swapped, unfolded same_name_sym]

lemma sortfcn_order: "qsort_order named (sortfcn opt) same_name"
  using forward_orders reverse_orders
  by (auto simp: sortfcn_def rev_comparators split: sort_key.splits)

interpretation sorting: qsort_order named "sortfcn opt" same_name for opt
  by (rule sortfcn_order)

section \<open>The order of a whole listing\<close>

text \<open>
  The entries of one list come from one level; without \<open>FTS_ERR\<close> entries \<open>mastercmp\<close> is an
  order: entries that could not be examined come last, before them (for command-line
  arguments) the directories, and the chosen order holds within the groups.
\<close>

definition group_of :: "lsopts \<Rightarrow> ftsent \<Rightarrow> int" where
  "group_of opt e =
     (if fts_info e = FTS_NS then 2
      else if \<not> f_listdir opt \<and> fts_level e = FTS_ROOTLEVEL \<and> fts_info e = FTS_D then 1 else 0)"

definition listable :: "int \<Rightarrow> ftsent \<Rightarrow> bool" where
  "listable lev e \<longleftrightarrow> named e \<and> fts_info e \<noteq> FTS_ERR \<and> fts_level e = lev"

lemma mastercmp_groups:
  assumes "listable lev a" "listable lev b"
  shows "mastercmp opt a b =
    (if group_of opt a > group_of opt b then 1
     else if group_of opt a < group_of opt b then -1
     else if group_of opt a = 2 then namecmp a b else sortfcn opt a b)"
  using assms by (auto simp: mastercmp_def listable_def group_of_def Let_def)

interpretation master: qsort_order "listable lev" "mastercmp opt" same_name for lev opt
proof (unfold_locales, goal_cases)
  case (1 a b)
  then have "named a" "named b" by (auto simp: listable_def)
  then show ?case
    using mastercmp_groups [OF 1] mastercmp_groups [OF 1(2,1)] name.anti [of a b] sorting.anti [of a b opt] by auto
next
  case (2 a b c)
  then have "named a" "named b" "named c" by (auto simp: listable_def)
  then show ?case
    using mastercmp_groups [OF 2(1,2), of opt] mastercmp_groups [OF 2(2,3), of opt] mastercmp_groups [OF 2(1,3), of opt]
      2(4,5) name.trans [of a b c] sorting.trans [of a b c opt] by (auto split: if_splits)
next
  case (3 a b)
  then have "named a" "named b" by (auto simp: listable_def)
  then show ?case
    using mastercmp_groups [OF 3(1,2), of opt] 3(3) name.ties [of a b] sorting.ties [of a b opt]
    by (auto split: if_splits)
qed

lemma mastercmp_reverse:
  assumes "listable lev a" "listable lev b" "group_of opt a = 0" "group_of opt b = 0"
  shows "mastercmp (opt\<lparr>f_reversesort := \<not> f_reversesort opt\<rparr>) a b = mastercmp opt b a"
proof -
  have g: "group_of (opt\<lparr>f_reversesort := x\<rparr>) e = group_of opt e" for e x by (simp add: group_of_def)
  have "sortfcn (opt\<lparr>f_reversesort := \<not> f_reversesort opt\<rparr>) a b = sortfcn opt b a"
    by (simp add: sortfcn_def rev_comparators split: sort_key.splits)
  then show ?thesis
    using mastercmp_groups [OF assms(1,2), of "opt\<lparr>f_reversesort := \<not> f_reversesort opt\<rparr>"]
      mastercmp_groups [OF assms(2,1), of opt] assms(3,4) by (simp add: g)
qed

section \<open>Properties\<close>

definition sample_stat :: statbuf where
  "sample_stat = \<lparr>sb_mode = 0x81A4, sb_ino = 7, sb_nlink = 1, sb_uid = 0, sb_gid = 0, sb_size = 1,
     sb_blocks = 8, sb_major = 0, sb_minor = 0, sb_flags = 0, sb_atime = 0, sb_atimensec = 0,
     sb_mtime = 0, sb_mtimensec = 0, sb_ctime = 0, sb_ctimensec = 0\<rparr>"

definition sample_entry :: "fts_info \<Rightarrow> int \<Rightarrow> string \<Rightarrow> int \<Rightarrow> ftsent" where
  "sample_entry i l n sz = \<lparr>fts_info = i, fts_level = l, fts_name = n, fts_path = ''/d'', fts_errno = 0,
     fts_number = 0, fts_statp = sample_stat\<lparr>sb_size := sz\<rparr>, fts_pointer = None, parent_accpath = ''/d''\<rparr>"

text \<open>
  C33: the order of a listing is determined by the options: any two ways of sorting the
  entries of a directory (which have different names) with \<open>mastercmp()\<close> give the same list,
  so the listing does not depend on the algorithm of \<open>qsort()\<close>. This holds for every sort
  key, forward and reversed, as long as no entry is an \<open>FTS_ERR\<close> entry.
\<close>

theorem listing_order_determined:
  assumes "sorted_wrt (\<lambda>a b. mastercmp opt a b \<le> 0) xs" "sorted_wrt (\<lambda>a b. mastercmp opt a b \<le> 0) ys"
    and "mset xs = mset ys" "\<forall>e \<in> set xs. listable lev e" "distinct (map fts_name xs)"
  shows "xs = ys"
proof (rule master.sorted_unique [OF assms(1-4)])
  fix a b
  assume "a \<in> set xs" "b \<in> set xs" "same_name a b"
  then show "a = b" using assms(5) by (auto simp: same_name_def distinct_map dest: inj_onD)
qed

theorem listing_order_determined_witness:
  "[sample_entry FTS_F 1 ''big'' 9, sample_entry FTS_F 1 ''a'' 3]
     = rev [sample_entry FTS_F 1 ''a'' 3, sample_entry FTS_F 1 ''big'' 9] \<and>
   sorted_wrt (\<lambda>a b. mastercmp (init_opts\<lparr>sortkey := BY_SIZE\<rparr>) a b \<le> 0)
     [sample_entry FTS_F 1 ''big'' 9, sample_entry FTS_F 1 ''a'' 3]"
proof -
  let ?opt = "init_opts\<lparr>sortkey := BY_SIZE\<rparr>"
  let ?xs = "[sample_entry FTS_F 1 ''big'' 9, sample_entry FTS_F 1 ''a'' 3]"
  have s: "sorted_wrt (\<lambda>a b. mastercmp ?opt a b \<le> 0) ?xs"
    by (simp add: mastercmp_def sortfcn_def sizecmp_def sample_entry_def sample_stat_def init_opts_def Let_def)
  have "listable 1 (sample_entry FTS_F 1 ''big'' 9)" "listable 1 (sample_entry FTS_F 1 ''a'' 3)"
    "fts_name (sample_entry FTS_F 1 ''big'' 9) \<noteq> fts_name (sample_entry FTS_F 1 ''a'' 3)"
    by (simp_all add: listable_def named_def sample_entry_def)
  then have "?xs = rev [sample_entry FTS_F 1 ''a'' 3, sample_entry FTS_F 1 ''big'' 9]"
    by (intro listing_order_determined [where opt = ?opt and lev = 1]) (use s in simp_all)
  then show ?thesis using s by (rule conjI)
qed

text \<open>
  The option \<open>-r\<close> reverses a directory listing: sorting with the reversed options gives
  exactly the reverse of the list (for entries that could be examined, inside a directory
  or with \<open>-d\<close>).
\<close>

lemma reversed_listing:
  assumes "sorted_wrt (\<lambda>a b. mastercmp opt a b \<le> 0) xs"
    and "sorted_wrt (\<lambda>a b. mastercmp (opt\<lparr>f_reversesort := \<not> f_reversesort opt\<rparr>) a b \<le> 0) ys"
    and "mset xs = mset ys" "\<forall>e \<in> set xs. listable lev e \<and> group_of opt e = 0" "distinct (map fts_name xs)"
  shows "ys = rev xs"
proof -
  have set: "set ys = set xs" using assms(3) mset_eq_setD by metis
  have "sorted_wrt (\<lambda>a b. mastercmp opt b a \<le> 0) ys"
    by (rule sorted_wrt_mono_rel [OF _ assms(2)]) (use assms(4) set mastercmp_reverse in metis)
  then have "sorted_wrt (\<lambda>a b. mastercmp opt a b \<le> 0) (rev ys)"
    by (simp add: sorted_wrt_rev)
  moreover have "same_name a b \<Longrightarrow> a \<in> set xs \<Longrightarrow> b \<in> set xs \<Longrightarrow> a = b" for a b
    using assms(5) by (auto simp: same_name_def distinct_map dest: inj_onD)
  ultimately have "xs = rev ys"
    using assms(1,3,4) by (intro master.sorted_unique [of opt _ _ lev]) auto
  then show ?thesis by simp
qed

text \<open>
  Among the command-line arguments, files come before directories, and arguments that
  could not be examined come last; without \<open>-d\<close> the comment at \<open>mastercmp()\<close> that
  non-directories are the larger ones is the wrong way round.
\<close>

lemma files_before_directories:
  assumes "sorted_wrt (\<lambda>a b. mastercmp opt a b \<le> 0) xs" "\<forall>e \<in> set xs. listable lev e"
  shows "sorted (map (group_of opt) xs)"
proof -
  have "group_of opt a \<le> group_of opt b"
    if "a \<in> set xs" "b \<in> set xs" "mastercmp opt a b \<le> 0" for a b
    using mastercmp_groups [of lev a b opt] that assms(2) by (auto split: if_splits)
  then show ?thesis
    unfolding sorted_map by (rule sorted_wrt_mono_rel [OF _ assms(1)])
qed

text \<open>
  With an \<open>FTS_ERR\<close> entry in the list, \<open>mastercmp()\<close> is not an order whatever the
  options: such an entry compares equal to every other one, so that equality is not
  transitive and \<open>qsort()\<close> may produce any order.
\<close>

lemma mastercmp_error_entries:
  "\<exists>a b c. named a \<and> named b \<and> named c \<and> fts_info b = FTS_ERR \<and>
     mastercmp opt a b \<le> 0 \<and> mastercmp opt b c \<le> 0 \<and> mastercmp opt a c > 0"
proof -
  let ?a = "sample_entry FTS_NS 1 ''a'' 1" and ?b = "sample_entry FTS_ERR 1 ''b'' 1"
    and ?c = "sample_entry FTS_F 1 ''c'' 1"
  show ?thesis
    by (rule exI [of _ ?a], rule exI [of _ ?b], rule exI [of _ ?c])
      (simp add: named_def sample_entry_def mastercmp_def Let_def)
qed

end
