(* ===== verification/Ls_Traverse.thy ===== *)
theory Ls_Traverse
  imports Ls_Display Ls_Cmp
begin

text \<open>
  \<open>traverse()\<close> and \<open>ls_main()\<close> of \<open>ls.c\<close>. The \<open>fts\<close> library is a parameter: the record \<open>ftsops\<close>
  holds its operations on a traversal state of type \<open>'f\<close>. The loop over \<open>fts_read()\<close> has
  fuel; under the documented behaviour that a traversal ends, enough fuel always gives a
  result.
\<close>

section \<open>Definitions\<close>

text \<open>
  \<open>op_read\<close> is \<open>fts_read()\<close> (\<open>None\<close> for NULL), \<open>op_children\<close> is \<open>fts_children()\<close> with its option,
  \<open>op_skip\<close> is \<open>fts_set()\<close> with \<open>FTS_SKIP\<close> and \<open>op_errno\<close> the value of \<open>errno\<close> afterwards.
\<close>

record 'f ftsops =
  op_open :: "string list \<Rightarrow> 32 word \<Rightarrow> (ftsent \<Rightarrow> ftsent \<Rightarrow> int) option \<Rightarrow> 'f option"
  op_children :: "32 word \<Rightarrow> 'f \<Rightarrow> ftsent list \<times> 'f"
  op_read :: "'f \<Rightarrow> ftsent option \<times> 'f"
  op_skip :: "ftsent \<Rightarrow> 'f \<Rightarrow> 'f"
  op_errno :: "'f \<Rightarrow> int"

definition FTS_NAMEONLY :: "32 word" where "FTS_NAMEONLY = 0x100"

definition heading :: "lsopts \<Rightarrow> nat \<Rightarrow> ftsent \<Rightarrow> ls_out \<Rightarrow> ls_out" where
  "heading opt argc p s =
     (if \<not> f_leafonly opt then
        (if so_output s then puts (''\<newline>'' @ fts_path p @ '':\<newline>'') s
         else if argc > 1 then (puts (fts_path p @ '':\<newline>'') s)\<lparr>so_output := True\<rparr>
         else s)
      else s)"

text \<open>The body of the loop: the switch over the kind of entry.\<close>

definition visit :: "'f ftsops \<Rightarrow> lsopts \<Rightarrow> 'st lslib \<Rightarrow> DISPLAY \<Rightarrow> nat \<Rightarrow> 32 word \<Rightarrow> ftsent \<Rightarrow> 'f \<Rightarrow> ls_out
    \<Rightarrow> ('f, ls_out) outcome" where
  "visit F opt lib d0 argc ch_options p f s =
     (case fts_info p of
        FTS_DC \<Rightarrow> Ret f (warnx ''%s: directory causes a cycle'' [ArgS (fts_name p)] s)
      | FTS_DNR \<Rightarrow> Ret f ((warnx ''%s: %s'' [ArgS (fts_name p), ArgS (lib_errstr lib (fts_errno p))] s)\<lparr>so_rval := 1\<rparr>)
      | FTS_ERR \<Rightarrow> Ret f ((warnx ''%s: %s'' [ArgS (fts_name p), ArgS (lib_errstr lib (fts_errno p))] s)\<lparr>so_rval := 1\<rparr>)
      | FTS_D \<Rightarrow>
          if fts_level p \<noteq> FTS_ROOTLEVEL \<and> dotfile p \<and> \<not> f_listdot opt then Ret f s
          else (case op_children F ch_options f of (chp, f) \<Rightarrow>
            bnd (display opt lib d0 (Some p) chp (heading opt argc p s)) (\<lambda>_ s.
              Ret (if \<not> f_recursive opt \<and> chp \<noteq> [] then op_skip F p f else f) s))
      | _ \<Rightarrow> Ret f s)"

fun traverse_loop :: "nat \<Rightarrow> 'f ftsops \<Rightarrow> lsopts \<Rightarrow> 'st lslib \<Rightarrow> DISPLAY \<Rightarrow> nat \<Rightarrow> 32 word \<Rightarrow> 'f \<Rightarrow> ls_out
    \<Rightarrow> (unit, ls_out) outcome option" where
  "traverse_loop 0 F opt lib d0 argc ch_options f s = None"
| "traverse_loop (Suc n) F opt lib d0 argc ch_options f s =
     (case op_read F f of (r, f) \<Rightarrow>
        (case r of
           None \<Rightarrow> Some (if op_errno F f \<noteq> 0 then err_exit 1 ''fts_read'' [] s else Ret () s)
         | Some p \<Rightarrow>
             (case visit F opt lib d0 argc ch_options p f s of
                Stop r s \<Rightarrow> Some (Stop r s)
              | Ret f s \<Rightarrow> traverse_loop n F opt lib d0 argc ch_options f s)))"

definition traverse :: "nat \<Rightarrow> 'f ftsops \<Rightarrow> lsopts \<Rightarrow> 'st lslib \<Rightarrow> DISPLAY \<Rightarrow> nat \<Rightarrow> string list \<Rightarrow> 32 word \<Rightarrow> ls_out
    \<Rightarrow> (unit, ls_out) outcome option" where
  "traverse n F opt lib d0 argc argv options s =
     (case op_open F argv options (if f_nosort opt then None else Some (mastercmp opt)) of
        None \<Rightarrow> Some (err_exit 1 [] [] s)
      | Some f \<Rightarrow>
          (case op_children F 0 f of (l, f) \<Rightarrow>
             (case display opt lib d0 None l s of
                Stop r s \<Rightarrow> Some (Stop r s)
              | Ret _ s \<Rightarrow>
                  if f_listdir opt then Some (Ret () s)
                  else traverse_loop n F opt lib d0 argc
                         (if \<not> f_recursive opt \<and> options AND FTS_NOSTAT \<noteq> 0 then FTS_NAMEONLY else 0) f s)))"

definition usage :: "string \<Rightarrow> ls_out \<Rightarrow> ('a, ls_out) outcome" where
  "usage progname s = Stop (Exit 1) (warnx ''usage: %s [-1AaBbCcdFfghikLlMmnOoPpqRrSsTtuWwXx] [file ...]\<newline>'' [ArgS progname] s)"

text \<open>
  \<open>ls_main()\<close>: the options letter by letter as \<open>getopt()\<close> gives them, and the arguments that
  remain.
\<close>

definition ls_main :: "nat \<Rightarrow> 'f ftsops \<Rightarrow> 'st lslib \<Rightarrow> DISPLAY \<Rightarrow> ls_env \<Rightarrow> string \<Rightarrow> char list \<Rightarrow> string list \<Rightarrow> ls_out
    \<Rightarrow> (int, ls_out) outcome option" where
  "ls_main n F lib d0 env progname cs argv s =
     (case ls_setup env cs of
        None \<Rightarrow> Some (usage progname s)
      | Some p \<Rightarrow>
          map_option (\<lambda>m. bnd m (\<lambda>_ s. Ret (so_rval s) s))
            (traverse n F (lp_opt p) lib d0 (length (ls_args argv)) (ls_args argv) (lp_fts p) s))"

section \<open>The walk\<close>

text \<open>
  The entries \<open>fts_read()\<close> delivers, each with the children that are displayed; it does not
  depend on what is printed.
\<close>

definition listed :: "lsopts \<Rightarrow> ftsent \<Rightarrow> bool" where
  "listed opt p \<longleftrightarrow> fts_info p = FTS_D \<and> \<not> (fts_level p \<noteq> FTS_ROOTLEVEL \<and> dotfile p \<and> \<not> f_listdot opt)"

definition after :: "'f ftsops \<Rightarrow> lsopts \<Rightarrow> 32 word \<Rightarrow> ftsent \<Rightarrow> 'f \<Rightarrow> ftsent list \<times> 'f" where
  "after F opt ch p f =
     (if listed opt p
      then (case op_children F ch f of (chp, f) \<Rightarrow> (chp, if \<not> f_recursive opt \<and> chp \<noteq> [] then op_skip F p f else f))
      else ([], f))"

fun walk :: "nat \<Rightarrow> 'f ftsops \<Rightarrow> lsopts \<Rightarrow> 32 word \<Rightarrow> 'f \<Rightarrow> (ftsent \<times> ftsent list) list" where
  "walk 0 F opt ch f = []"
| "walk (Suc n) F opt ch f =
     (case op_read F f of
        (None, f) \<Rightarrow> []
      | (Some p, f) \<Rightarrow> (case after F opt ch p f of (chp, f) \<Rightarrow> (p, chp) # walk n F opt ch f))"

definition trouble :: "ftsent \<times> ftsent list \<Rightarrow> bool" where
  "trouble = (\<lambda>(p, chp). fts_info p = FTS_DNR \<or> fts_info p = FTS_ERR \<or> list_ex failed_entry chp)"

text \<open>
  What the traversal relies on: entries are delivered without marks and, for a long listing,
  with dates that are not at the ends of \<open>time_t\<close>; and a measure bounds the number of entries
  still to be read.
\<close>

definition fts_fresh :: "lsopts \<Rightarrow> 'f ftsops \<Rightarrow> bool" where
  "fts_fresh opt F \<longleftrightarrow> (\<forall>ch f. list_all (fit opt) (fst (op_children F ch f)))"

definition fts_finite :: "'f ftsops \<Rightarrow> ('f \<Rightarrow> nat) \<Rightarrow> bool" where
  "fts_finite F m \<longleftrightarrow>
     (\<forall>f p f'. op_read F f = (Some p, f') \<longrightarrow> m f' < m f) \<and>
     (\<forall>ch f. m (snd (op_children F ch f)) \<le> m f) \<and> (\<forall>p f. m (op_skip F p f) \<le> m f)"

lemma heading_rval [simp]: "so_rval (heading opt argc p s) = so_rval s"
  by (simp add: heading_def puts_def)

lemma visit_wp:
  assumes "listing_ok opt" "vis_ok lib" "fts_fresh opt F" "after F opt ch p f = (chp, f')"
  shows "wp (visit F opt lib d0 argc ch p f s)
    (\<lambda>g t. g = f' \<and> so_rval t = (if trouble (p, chp) then 1 else so_rval s)) (\<lambda>r _. r = Exit 1)"
proof (cases "listed opt p")
  case True
  obtain l g where l: "op_children F ch f = (l, g)" by fastforce
  then have f: "list_all (fit opt) l" using assms(3) by (metis fst_conv fts_fresh_def)
  from display_wp [OF assms(1,2) f, of d0 "Some p" "heading opt argc p s"] show ?thesis
    using True l assms(4) by (auto simp: visit_def listed_def after_def trouble_def elim!: wp_mono)
next
  case False
  then show ?thesis using assms(4)
    by (cases "fts_info p") (auto simp: visit_def listed_def after_def trouble_def warnx_def)
qed

lemma after_measure: "fts_finite F m \<Longrightarrow> after F opt ch p f = (chp, f') \<Longrightarrow> m f' \<le> m f"
  unfolding after_def fts_finite_def
  by (auto split: if_splits prod.splits) (metis le_trans snd_conv)+

lemma traverse_loop_wp:
  assumes "listing_ok opt" "vis_ok lib" "fts_fresh opt F" "fts_finite F m"
  shows "m f < n \<Longrightarrow> \<exists>r. traverse_loop n F opt lib d0 argc ch f s = Some r \<and>
    wp r (\<lambda>_ t. so_rval t = (if list_ex trouble (walk n F opt ch f) then 1 else so_rval s)) (\<lambda>r _. r = Exit 1)"
proof (induction n arbitrary: f s)
  case (Suc n)
  obtain e f1 where e: "op_read F f = (e, f1)" by fastforce
  show ?case
  proof (cases e)
    case None
    then show ?thesis using e by (simp add: err_exit_def)
  next
    case (Some p)
    obtain chp f2 where f2: "after F opt ch p f1 = (chp, f2)" by fastforce
    have "m f1 < m f" using assms(4) e Some by (simp add: fts_finite_def)
    with after_measure [OF assms(4) f2] Suc.prems have n: "m f2 < n" by linarith
    note v = visit_wp [OF assms(1-3) f2, of d0 argc s]
    show ?thesis
    proof (cases "visit F opt lib d0 argc ch p f1 s")
      case (Ret g t)
      with v have t: "g = f2" "so_rval t = (if trouble (p, chp) then 1 else so_rval s)" by simp_all
      from Suc.IH [OF n, of t] show ?thesis
        using e Some f2 Ret t by (auto simp: wp_mono elim!: wp_mono)
    next
      case (Stop r t)
      then show ?thesis using e Some v by simp
    qed
  qed
qed simp

text \<open>A file that cannot be examined, among the arguments or on the walk.\<close>

definition any_trouble :: "nat \<Rightarrow> 'f ftsops \<Rightarrow> lsopts \<Rightarrow> string list \<Rightarrow> 32 word \<Rightarrow> bool" where
  "any_trouble n F opt argv options =
     (case op_open F argv options (if f_nosort opt then None else Some (mastercmp opt)) of
        None \<Rightarrow> False
      | Some f \<Rightarrow> (case op_children F 0 f of (l, f) \<Rightarrow>
          list_ex failed_entry l \<or> (\<not> f_listdir opt \<and> list_ex trouble
            (walk n F opt (if \<not> f_recursive opt \<and> options AND FTS_NOSTAT \<noteq> 0 then FTS_NAMEONLY else 0) f))))"

lemma traverse_wp:
  assumes "listing_ok opt" "vis_ok lib" "fts_fresh opt F" "fts_finite F m"
    and fuel: "\<And>f. op_open F argv options (if f_nosort opt then None else Some (mastercmp opt)) = Some f \<Longrightarrow> m f < n"
  shows "\<exists>r. traverse n F opt lib d0 argc argv options s = Some r \<and>
    wp r (\<lambda>_ t. so_rval t = (if any_trouble n F opt argv options then 1 else so_rval s)) (\<lambda>r _. r = Exit 1)"
proof (cases "op_open F argv options (if f_nosort opt then None else Some (mastercmp opt))")
  case None
  then show ?thesis by (simp add: traverse_def err_exit_def)
next
  case (Some f)
  obtain l g where l: "op_children F 0 f = (l, g)" by fastforce
  let ?ch = "if \<not> f_recursive opt \<and> options AND FTS_NOSTAT \<noteq> 0 then FTS_NAMEONLY else 0"
  have "list_all (fit opt) l" using assms(3) l by (metis fst_conv fts_fresh_def)
  note d = display_wp [OF assms(1,2) this, of d0 None s]
  have "m g \<le> m f" using assms(4) l by (metis snd_conv fts_finite_def)
  then have n: "m g < n" using fuel [OF Some] by linarith
  have any: "any_trouble n F opt argv options \<longleftrightarrow>
      list_ex failed_entry l \<or> (\<not> f_listdir opt \<and> list_ex trouble (walk n F opt ?ch g))"
    unfolding any_trouble_def Some using l by simp
  show ?thesis
  proof (cases "display opt lib d0 None l s")
    case (Ret a t)
    then have t: "so_rval t = (if list_ex failed_entry l then 1 else so_rval s)" using d by simp
    have run: "traverse n F opt lib d0 argc argv options s =
        (if f_listdir opt then Some (Ret () t) else traverse_loop n F opt lib d0 argc ?ch g t)"
      unfolding traverse_def Some using l Ret by simp
    show ?thesis
    proof (cases "f_listdir opt")
      case False
      from traverse_loop_wp [OF assms(1-4) n, of d0 argc ?ch t] obtain r where
        "traverse_loop n F opt lib d0 argc ?ch g t = Some r"
        "wp r (\<lambda>_ u. so_rval u = (if list_ex trouble (walk n F opt ?ch g) then 1 else so_rval t)) (\<lambda>r _. r = Exit 1)" by blast
      then show ?thesis unfolding run any using False t by (auto elim!: wp_mono)
    qed (use t any run in simp)
  next
    case (Stop r t)
    then show ?thesis using d l Some by (simp add: traverse_def)
  qed
qed

section \<open>Properties\<close>

lemma ls_setup_ok:
  "ls_setup env cs = Some p \<Longrightarrow> \<not> (f_flags (lp_opt p) \<and> f_longform (lp_opt p)) \<Longrightarrow> 512 \<le> env_bsize env \<Longrightarrow>
     listing_ok (lp_opt p)"
  by (simp add: listing_ok_def setup_blocksize)

text \<open>
  C7: ls ends. For every set of options but the long format with file flags (\<open>ls -lo\<close>), a block
  size of at least 512 bytes from the environment (which \<open>getbsize()\<close> guarantees), and a
  traversal library that delivers finitely many entries, dated not at the ends of \<open>time_t\<close> if
  the format is long, \<open>ls_main()\<close> returns or exits with
  status 1, without undefined behaviour on the way; the value it returns is 1 if some file
  could not be examined or some directory could not be read, among the arguments or during
  the walk, and 0 otherwise.
\<close>

theorem ls_main_total:
  assumes "ls_setup env cs = Some p" "\<not> (f_flags (lp_opt p) \<and> f_longform (lp_opt p))"
    and "512 \<le> env_bsize env" "vis_ok lib" "fts_fresh (lp_opt p) F" "fts_finite F m" "so_rval s = 0"
  shows "\<exists>N. \<forall>n \<ge> N. \<exists>r. ls_main n F lib d0 env progname cs argv s = Some r \<and>
    wp r (\<lambda>v _. v = (if any_trouble n F (lp_opt p) (ls_args argv) (lp_fts p) then 1 else 0)) (\<lambda>r _. r = Exit 1)"
proof -
  let ?open = "op_open F (ls_args argv) (lp_fts p) (if f_nosort (lp_opt p) then None else Some (mastercmp (lp_opt p)))"
  obtain N where N: "\<And>f. ?open = Some f \<Longrightarrow> m f < N" by (cases ?open) auto
  have "\<exists>r. ls_main n F lib d0 env progname cs argv s = Some r \<and>
      wp r (\<lambda>v _. v = (if any_trouble n F (lp_opt p) (ls_args argv) (lp_fts p) then 1 else 0)) (\<lambda>r _. r = Exit 1)"
    if n: "N \<le> n" for n
  proof -
    have "?open = Some f \<Longrightarrow> m f < n" for f using N n by fastforce
    from traverse_wp [OF ls_setup_ok [OF assms(1-3)] assms(4-6) this, where ?d0.0 = d0 and argc = "length (ls_args argv)" and s = s] obtain r where
      "traverse n F (lp_opt p) lib d0 (length (ls_args argv)) (ls_args argv) (lp_fts p) s = Some r"
      "wp r (\<lambda>_ t. so_rval t = (if any_trouble n F (lp_opt p) (ls_args argv) (lp_fts p) then 1 else so_rval s)) (\<lambda>r _. r = Exit 1)"
      by blast
    then show ?thesis using assms(1,7) by (auto simp: ls_main_def elim!: wp_mono)
  qed
  then show ?thesis by blast
qed

text \<open>A traversal that delivers a given list of entries, each directory with its children.\<close>

definition list_fts :: "(ftsent \<times> ftsent list) list \<Rightarrow> (ftsent list \<times> (ftsent \<times> ftsent list) list) ftsops" where
  "list_fts es = \<lparr>op_open = \<lambda>argv options cmp. Some (map fst es, es),
     op_children = \<lambda>ch f. (filter (\<lambda>c. fresh c \<and> dated (fts_statp c)) (fst f), f),
     op_read = \<lambda>f. (case snd f of [] \<Rightarrow> (None, f) | (p, chp) # es \<Rightarrow> (Some p, (chp, es))),
     op_skip = \<lambda>p f. f, op_errno = \<lambda>f. 0\<rparr>"

lemma list_fts_ok: "fts_fresh opt (list_fts es)" "fts_finite (list_fts es) (\<lambda>f. length (snd f))"
  by (auto simp: fts_fresh_def fit_def fts_finite_def list_fts_def list_all_iff split: list.splits prod.splits)

theorem ls_main_total_witness:
  "\<exists>n r. ls_main n (list_fts [(plain_entry ''a'', [])]) sample_lib (plain_display [] 0) sample_env ''ls'' ''1'' [''a''] no_output = Some r \<and>
     (case r of Ret v _ \<Rightarrow> v \<in> {0, 1} | Stop e _ \<Rightarrow> e = Exit 1)"
proof -
  let ?F = "list_fts [(plain_entry ''a'', [])]"
  obtain p where p: "ls_setup sample_env ''1'' = Some p" "\<not> f_flags (lp_opt p)"
    by (simp add: ls_setup_def ls_option_def ls_switch_def ls_settle_def ls_defaults_def sample_env_def init_opts_def up_def
        format_set_def Let_def)
  have "so_rval no_output = 0" by (simp add: no_output_def)
  from ls_main_total [OF p(1) _ _ sample_vis list_fts_ok(1) list_fts_ok(2) this, of "[(plain_entry ''a'', [])]" "plain_display [] 0" "''ls''" "[''a'']"] p(2)
    sample_bsize
  obtain n r where "ls_main n ?F sample_lib (plain_display [] 0) sample_env ''ls'' ''1'' [''a''] no_output = Some r"
    "wp r (\<lambda>v _. v = (if any_trouble n ?F (lp_opt p) (ls_args [''a'']) (lp_fts p) then 1 else 0)) (\<lambda>r _. r = Exit 1)"
    by blast
  then show ?thesis by (cases r) (auto intro!: exI [of _ n])
qed

end
