(* ===== verification/Stream_Io.thy ===== *)
theory Stream_Io
  imports Prelude
begin

text \<open>
  The stream input and output functions of the TLPI socket library: \<open>readLine()\<close>
  (\<open>read_line.c\<close>), \<open>readLineBuf()\<close> (\<open>read_line_buf.c\<close>), \<open>readn()\<close> and \<open>writen()\<close> (\<open>rdwrn.c\<close>).

  A descriptor open for reading is the list of what the next calls of \<open>read()\<close> meet: pieces
  of data as they arrive, interruptions by a signal and errors. A call takes at most the
  piece at the front; an empty piece and the end of the list are end of file. A descriptor
  open for writing is the list of what the next calls of \<open>write()\<close> do, with the bytes
  written so far. Callers' buffers are lists of bytes; storing outside is undefined.
\<close>

section \<open>Descriptors\<close>

datatype rd_event = Piece string | RdIntr | RdError int

datatype rd_result = Got string | RdFail int

definition EINTR :: int where "EINTR = 4"
definition EINVAL :: int where "EINVAL = 22"

fun sys_read :: "nat \<Rightarrow> rd_event list \<Rightarrow> rd_result \<times> rd_event list" where
  "sys_read n [] = (Got [], [])"
| "sys_read n (Piece s # es) =
     (if s = [] then (Got [], es)
      else (Got (take n s), if n < length s then Piece (drop n s) # es else es))"
| "sys_read n (RdIntr # es) = (RdFail EINTR, es)"
| "sys_read n (RdError e # es) = (RdFail e, es)"

text \<open>An upper bound of the number of calls a descriptor can still answer.\<close>

fun rd_weight :: "rd_event list \<Rightarrow> nat" where
  "rd_weight [] = 0"
| "rd_weight (Piece s # es) = 1 + length s + rd_weight es"
| "rd_weight (RdIntr # es) = 1 + rd_weight es"
| "rd_weight (RdError e # es) = 1 + rd_weight es"

lemma sys_read_weight:
  "sys_read n es = (Got x, es') \<Longrightarrow> rd_weight es' + length x \<le> rd_weight es"
  "sys_read n es = (RdFail e, es') \<Longrightarrow> rd_weight es' < rd_weight es"
  by (cases "(n, es)" rule: sys_read.cases; auto split: if_splits)+

section \<open>Definitions\<close>

text \<open>State of a call: the descriptor, the caller's buffer and \<open>errno\<close>.\<close>

record io =
  io_in :: "rd_event list"
  io_buf :: string
  io_errno :: int

text \<open>\<open>buf[i] = c\<close> in a buffer of the caller.\<close>

definition store :: "nat \<Rightarrow> char \<Rightarrow> io \<Rightarrow> (unit, io) outcome" where
  "store i c s =
     (if i < length (io_buf s) then Ret () (s\<lparr>io_buf := (io_buf s)[i := c]\<rparr>)
      else Stop (Undefined ''store outside the buffer'') s)"

text \<open>The character is kept only while there is room for it and the final NUL.\<close>

definition put_byte :: "nat \<Rightarrow> nat \<Rightarrow> char \<Rightarrow> io \<Rightarrow> (nat, io) outcome" where
  "put_byte n totRead ch s =
     (if totRead < n - 1 then bnd (store totRead ch s) (\<lambda>_ s. Ret (totRead + 1) s) else Ret totRead s)"

definition end_line :: "nat \<Rightarrow> io \<Rightarrow> (int, io) outcome" where
  "end_line totRead s = bnd (store totRead CHR 0x00 s) (\<lambda>_ s. Ret (int totRead) s)"

lemma put_byte_in: "put_byte n i c s = Ret k t \<Longrightarrow> io_in t = io_in s"
  by (auto simp: put_byte_def store_def split: if_splits)

function readLine_loop :: "nat \<Rightarrow> nat \<Rightarrow> io \<Rightarrow> (int, io) outcome" where
  "readLine_loop n totRead s =
     (case sys_read 1 (io_in s) of (r, es) \<Rightarrow>
        (case r of
           RdFail e \<Rightarrow>
             if e = EINTR then readLine_loop n totRead (s\<lparr>io_in := es, io_errno := e\<rparr>)
             else Ret (-1) (s\<lparr>io_in := es, io_errno := e\<rparr>)
         | Got x \<Rightarrow>
             if x = [] then (if totRead = 0 then Ret 0 (s\<lparr>io_in := es\<rparr>) else end_line totRead (s\<lparr>io_in := es\<rparr>))
             else (case put_byte n totRead (hd x) (s\<lparr>io_in := es\<rparr>) of
                     Stop r t \<Rightarrow> Stop r t
                   | Ret totRead t \<Rightarrow>
                       if hd x = CHR 0x0A then end_line totRead t else readLine_loop n totRead t)))"
  by pat_completeness auto
termination
proof (relation "measure (\<lambda>(n, t, s). rd_weight (io_in s))", goal_cases)
  case (3 n totRead s r es e)
  then show ?case using sys_read_weight(2) [of 1 "io_in s" e es] by simp
next
  case (2 n totRead s r es x k t)
  then show ?case using sys_read_weight(1) [of 1 "io_in s" x es] put_byte_in [of n totRead "hd x" _ k t] by (cases x) auto
qed simp

declare readLine_loop.simps [simp del]

definition readLine :: "bool \<Rightarrow> nat \<Rightarrow> io \<Rightarrow> (int, io) outcome" where
  "readLine null_buffer n s =
     (if n = 0 \<or> null_buffer then Ret (-1) (s\<lparr>io_errno := EINVAL\<rparr>) else readLine_loop n 0 s)"

definition RL_MAX_BUF :: nat where "RL_MAX_BUF = 10"

record ReadLineBuf =
  rl_buf :: string
  rl_next :: nat
  rl_len :: int

definition readLineBufInit :: "ReadLineBuf \<Rightarrow> ReadLineBuf" where
  "readLineBufInit rl = rl\<lparr>rl_len := 0, rl_next := 0\<rparr>"

text \<open>More input when the characters of the buffer are used up; \<open>rl_len\<close> is the result of \<open>read()\<close>.\<close>

definition refill :: "ReadLineBuf \<Rightarrow> io \<Rightarrow> ReadLineBuf \<times> io" where
  "refill rl s =
     (if int (rl_next rl) \<ge> rl_len rl then
        (case sys_read RL_MAX_BUF (io_in s) of (r, es) \<Rightarrow>
           (case r of
              RdFail e \<Rightarrow> (rl\<lparr>rl_len := -1\<rparr>, s\<lparr>io_in := es, io_errno := e\<rparr>)
            | Got x \<Rightarrow>
                if x = [] then (rl\<lparr>rl_len := 0\<rparr>, s\<lparr>io_in := es\<rparr>)
                else (rl\<lparr>rl_buf := x @ drop (length x) (rl_buf rl), rl_len := int (length x), rl_next := 0\<rparr>,
                      s\<lparr>io_in := es\<rparr>)))
      else (rl, s))"

definition rl_weight :: "ReadLineBuf \<Rightarrow> io \<Rightarrow> nat" where
  "rl_weight rl s = rd_weight (io_in s) + nat (rl_len rl - int (rl_next rl))"

lemma refill_weight:
  "refill rl s = (rl', s') \<Longrightarrow> rl_len rl' \<noteq> -1 \<Longrightarrow> rl_len rl' \<noteq> 0 \<Longrightarrow>
     rl_weight rl' s' \<le> rl_weight rl s \<and> int (rl_next rl') < rl_len rl'"
  by (auto simp: refill_def rl_weight_def dest!: sys_read_weight(1) split: prod.splits rd_result.splits if_splits)

function readLineBuf_loop :: "nat \<Rightarrow> nat \<Rightarrow> ReadLineBuf \<Rightarrow> io \<Rightarrow> (int, ReadLineBuf \<times> io) outcome" where
  "readLineBuf_loop n cnt rl s =
     (case refill rl s of (rl, s) \<Rightarrow>
        if rl_len rl = -1 then Ret (-1) (rl, s)
        else if rl_len rl = 0 then Ret (int cnt) (rl, s)
        else if \<not> rl_next rl < length (rl_buf rl) then Stop (Undefined ''read outside the buffer'') (rl, s)
        else
          let c = rl_buf rl ! rl_next rl; rl = rl\<lparr>rl_next := rl_next rl + 1\<rparr>
          in case (if cnt < n then bnd (store cnt c s) (\<lambda>_ s. Ret (cnt + 1) s) else Ret cnt s) of
               Stop r t \<Rightarrow> Stop r (rl, t)
             | Ret cnt t \<Rightarrow> if c = CHR 0x0A then Ret (int cnt) (rl, t) else readLineBuf_loop n cnt rl t)"
  by pat_completeness auto
termination
proof (relation "measure (\<lambda>(n, c, rl, s). rl_weight rl s)", goal_cases)
  case (2 n cnt rl s rl1 s1 c rl2 cnt' t)
  have "rl_weight rl1 s1 \<le> rl_weight rl s" "int (rl_next rl1) < rl_len rl1"
    using refill_weight [of rl s rl1 s1] 2 by auto
  moreover have "io_in t = io_in s1"
    using 2 by (auto simp: store_def split: if_splits)
  ultimately show ?case using 2 by (auto simp: rl_weight_def)
qed simp

declare readLineBuf_loop.simps [simp del]

definition readLineBuf :: "ReadLineBuf \<Rightarrow> bool \<Rightarrow> nat \<Rightarrow> io \<Rightarrow> (int, ReadLineBuf \<times> io) outcome" where
  "readLineBuf rl null_buffer n s =
     (if n = 0 \<or> null_buffer then Ret (-1) (rl, s\<lparr>io_errno := EINVAL\<rparr>) else readLineBuf_loop n 0 rl s)"

text \<open>\<open>read()\<close> stores its bytes at \<open>buf + i\<close>.\<close>

definition overlay :: "string \<Rightarrow> nat \<Rightarrow> string \<Rightarrow> string" where
  "overlay b i x = take i b @ x @ drop (i + length x) b"

function readn_loop :: "nat \<Rightarrow> nat \<Rightarrow> io \<Rightarrow> (int, io) outcome" where
  "readn_loop n totRead s =
     (if totRead < n then
        (case sys_read (n - totRead) (io_in s) of (r, es) \<Rightarrow>
           (case r of
              Got x \<Rightarrow>
                if x = [] then Ret (int totRead) (s\<lparr>io_in := es\<rparr>)
                else if totRead + length x \<le> length (io_buf s)
                then readn_loop n (totRead + length x) (s\<lparr>io_in := es, io_buf := overlay (io_buf s) totRead x\<rparr>)
                else Stop (Undefined ''read past the buffer'') (s\<lparr>io_in := es\<rparr>)
            | RdFail e \<Rightarrow>
                if e = EINTR then readn_loop n totRead (s\<lparr>io_in := es, io_errno := e\<rparr>)
                else Ret (-1) (s\<lparr>io_in := es, io_errno := e\<rparr>)))
      else Ret (int totRead) s)"
  by pat_completeness auto
termination
proof (relation "measure (\<lambda>(n, t, s). rd_weight (io_in s))", goal_cases)
  case (2 n totRead s r es x)
  then show ?case using sys_read_weight(1) [of "n - totRead" "io_in s" x es] by (cases x) auto
next
  case (3 n totRead s r es e)
  then show ?case using sys_read_weight(2) [of "n - totRead" "io_in s" e es] by simp
qed simp

declare readn_loop.simps [simp del]

definition readn :: "nat \<Rightarrow> io \<Rightarrow> (int, io) outcome" where
  "readn n s = readn_loop n 0 s"

text \<open>
  What the next calls of \<open>write()\<close> do: take at most so many bytes, be interrupted, or fail;
  after the last event the descriptor takes everything.
\<close>

datatype wr_event = Accept nat | WrIntr | WrError int

datatype wr_result = Wrote nat | WrFail int

record wr =
  wr_events :: "wr_event list"
  wr_out :: string
  wr_errno :: int

fun sys_write :: "string \<Rightarrow> wr \<Rightarrow> wr_result \<times> wr" where
  "sys_write x w =
     (case wr_events w of
        [] \<Rightarrow> (Wrote (length x), w\<lparr>wr_out := wr_out w @ x\<rparr>)
      | Accept k # es \<Rightarrow> (Wrote (length (take k x)), w\<lparr>wr_events := es, wr_out := wr_out w @ take k x\<rparr>)
      | WrIntr # es \<Rightarrow> (WrFail EINTR, w\<lparr>wr_events := es, wr_errno := EINTR\<rparr>)
      | WrError e # es \<Rightarrow> (WrFail e, w\<lparr>wr_events := es, wr_errno := e\<rparr>))"

lemma sys_write_events:
  "sys_write x w = (Wrote k, w') \<Longrightarrow> length (wr_events w') \<le> length (wr_events w)"
  "sys_write x w = (WrFail e, w') \<Longrightarrow> length (wr_events w') < length (wr_events w)"
  by (auto split: list.splits wr_event.splits)

declare sys_write.simps [simp del]

function writen_loop :: "string \<Rightarrow> nat \<Rightarrow> wr \<Rightarrow> int \<times> wr" where
  "writen_loop buf totWritten w =
     (if totWritten < length buf then
        (case sys_write (drop totWritten buf) w of (r, w) \<Rightarrow>
           (case r of
              WrFail e \<Rightarrow> if e = EINTR then writen_loop buf totWritten w else (-1, w)
            | Wrote k \<Rightarrow> if k = 0 then (-1, w) else writen_loop buf (totWritten + k) w))
      else (int totWritten, w))"
  by pat_completeness auto
termination
proof (relation "measure (\<lambda>(b, t, w). length b - t + length (wr_events w))", goal_cases)
  case (2 buf t w r w' k)
  then show ?case using sys_write_events(1) [of "drop t buf" w k w'] by simp
next
  case (3 buf t w r w' e)
  then show ?case using sys_write_events(2) [of "drop t buf" w e w'] by simp
qed simp

declare writen_loop.simps [simp del]

definition writen :: "string \<Rightarrow> wr \<Rightarrow> int \<times> wr" where
  "writen buffer w = writen_loop buffer 0 w"

section \<open>Streams\<close>

text \<open>The bytes still to come, and descriptors on which nothing but interruptions goes wrong.\<close>

fun bytes :: "rd_event list \<Rightarrow> string" where
  "bytes [] = []"
| "bytes (Piece s # es) = s @ bytes es"
| "bytes (_ # es) = bytes es"

fun live :: "rd_event list \<Rightarrow> bool" where
  "live [] = True"
| "live (Piece s # es) = (s \<noteq> [] \<and> live es)"
| "live (RdIntr # es) = live es"
| "live (RdError e # es) = False"

definition steady :: "rd_event list \<Rightarrow> bool" where
  "steady es \<longleftrightarrow> live es \<and> RdIntr \<notin> set es"

lemma sys_read_live:
  assumes "live es" "0 < n" "sys_read n es = (r, es')"
  shows "live es'" "r = Got x \<Longrightarrow> bytes es = x @ bytes es' \<and> length x \<le> n \<and> (x = [] \<longrightarrow> bytes es = [])"
    "r = RdFail e \<Longrightarrow> e = EINTR \<and> bytes es' = bytes es"
  using assms by (cases "(n, es)" rule: sys_read.cases; auto split: if_splits)+

lemma sys_read_steady:
  assumes "steady es" "0 < n" "sys_read n es = (r, es')"
  shows "steady es'" "\<exists>x. r = Got x"
  using assms unfolding steady_def by (cases "(n, es)" rule: sys_read.cases; auto split: if_splits)+

text \<open>The first line of a text, with its newline if it has one.\<close>

fun line_of :: "string \<Rightarrow> string" where
  "line_of [] = []"
| "line_of (c # cs) = (if c = CHR 0x0A then [c] else c # line_of cs)"

lemma overlay_store: "i < length b \<Longrightarrow> b[i := c] = overlay b i [c]"
  by (simp add: overlay_def upd_conv_take_nth_drop)

lemma overlay_Nil [simp]: "overlay b i [] = b"
  by (simp add: overlay_def)

lemma overlay_length [simp]: "i + length x \<le> length b \<Longrightarrow> length (overlay b i x) = length b"
  by (simp add: overlay_def)

lemma overlay_overlay: "i + length x \<le> length b \<Longrightarrow> overlay (overlay b i x) (i + length x) y = overlay b i (x @ y)"
  by (simp add: overlay_def ac_simps)

lemma store_overlay: "i < length (io_buf s) \<Longrightarrow> store i c s = Ret () (s\<lparr>io_buf := overlay (io_buf s) i [c]\<rparr>)"
  by (simp add: store_def overlay_store)

section \<open>Reading lines\<close>

text \<open>
  The buffer after a line was read into it from index \<open>tot\<close>: the part that fits, and a NUL
  unless nothing at all came before the end of file.
\<close>

definition line_buf :: "nat \<Rightarrow> nat \<Rightarrow> string \<Rightarrow> string \<Rightarrow> string" where
  "line_buf n tot line b =
     (if tot + length (take (n - 1 - tot) line) = 0 \<and> CHR 0x0A \<notin> set line then b
      else overlay b tot (take (n - 1 - tot) line @ [CHR 0x00]))"

lemma line_buf_step:
  assumes "c \<noteq> CHR 0x0A" "tot < n" "n \<le> length b"
  shows "line_buf n tot (c # line) b =
    (if tot < n - 1 then line_buf n (tot + 1) line (overlay b tot [c]) else line_buf n tot line b)"
proof (cases "tot < n - 1")
  case True
  then obtain m where m: "n - 1 - tot = Suc m" by (metis Suc_diff_Suc)
  then have "n - 1 - (tot + 1) = m" by simp
  then show ?thesis
    using True assms m overlay_overlay [of tot "[c]" b "take m line @ [CHR 0x00]"] by (simp add: line_buf_def)
next
  case False
  then have "n - 1 - tot = 0" by simp
  with assms False show ?thesis by (simp add: line_buf_def)
qed

definition line_read :: "nat \<Rightarrow> nat \<Rightarrow> io \<Rightarrow> io \<Rightarrow> bool" where
  "line_read n tot s t \<longleftrightarrow>
     bytes (io_in t) = drop (length (line_of (bytes (io_in s)))) (bytes (io_in s)) \<and> live (io_in t) \<and>
     io_buf t = line_buf n tot (line_of (bytes (io_in s))) (io_buf s)"

definition line_count :: "nat \<Rightarrow> nat \<Rightarrow> string \<Rightarrow> nat" where
  "line_count n tot x = tot + length (take (n - 1 - tot) (line_of x))"

lemma readLine_loop_line:
  assumes "live (io_in s)" "tot < n" "n \<le> length (io_buf s)"
  shows "\<exists>t. readLine_loop n tot s = Ret (int (line_count n tot (bytes (io_in s)))) t \<and> line_read n tot s t"
  using assms
proof (induction n tot s rule: readLine_loop.induct)
  case (1 n tot s)
  obtain r es where r: "sys_read 1 (io_in s) = (r, es)" by fastforce
  note rd = sys_read_live [OF 1(3) zero_less_one r]
  note step = readLine_loop.simps [of n tot s, unfolded r prod.case]
  show ?case
  proof (cases r)
    case (RdFail e)
    with rd(3) have e: "e = EINTR" "bytes es = bytes (io_in s)" by auto
    with 1(2) [OF r [symmetric] RdFail] rd(1) 1(4,5) show ?thesis
      by (simp add: step RdFail line_read_def)
  next
    case (Got x)
    show ?thesis
    proof (cases x)
      case Nil
      then have b: "bytes (io_in s) = []" "bytes es = []" using rd(2) [OF Got] by auto
      show ?thesis
        using Got Nil b rd(1) 1(4,5)
        by (auto simp: step line_read_def line_count_def line_buf_def end_line_def store_overlay)
    next
      case (Cons c cs)
      then have c: "bytes (io_in s) = c # bytes es" "x = [c]" using rd(2) [OF Got] by (cases cs; auto)+
      define t where "t = (if tot < n - 1 then s\<lparr>io_in := es, io_buf := overlay (io_buf s) tot [c]\<rparr> else s\<lparr>io_in := es\<rparr>)"
      define k where "k = (if tot < n - 1 then tot + 1 else tot)"
      have put: "put_byte n tot c (s\<lparr>io_in := es\<rparr>) = Ret k t"
        using 1(4,5) by (simp add: put_byte_def store_overlay t_def k_def)
      have k: "k < n" "n \<le> length (io_buf t)" "live (io_in t)" "io_in t = es" using 1(4,5) rd(1) by (auto simp: k_def t_def)
      have run: "readLine_loop n tot s = (if c = CHR 0x0A then end_line k t else readLine_loop n k t)"
        by (simp add: step Got c put)
      show ?thesis
      proof (cases "c = CHR 0x0A")
        case True
        have "end_line k t = Ret (int k) (t\<lparr>io_buf := overlay (io_buf t) k [CHR 0x00]\<rparr>)"
          using k(1,2) by (simp add: end_line_def store_overlay)
        moreover have "overlay (io_buf t) k [CHR 0x00] = line_buf n tot [c] (io_buf s)"
          using 1(4,5) True overlay_overlay [of tot "[c]" "io_buf s" "[CHR 0x00]"]
          by (cases "tot < n - 1") (auto simp: t_def k_def line_buf_def)
        moreover have "k = line_count n tot (c # bytes es)" using True by (simp add: k_def line_count_def)
        ultimately show ?thesis using run True c k(3,4) by (auto simp: line_read_def)
      next
        case False
        have "put_byte n tot (hd x) (s\<lparr>io_in := es\<rparr>) = Ret k t" "x \<noteq> []" "hd x \<noteq> CHR 0x0A"
          using put c False by simp_all
        from 1(1) [OF r [symmetric] Got this(2,1,3) k(3,1,2)] obtain u where
          u: "readLine_loop n k t = Ret (int (line_count n k (bytes es))) u" "line_read n k t u"
          by (auto simp: k(4))
        have "line_count n tot (c # bytes es) = line_count n k (bytes es)"
          using False by (cases "n - 1 - tot") (auto simp: k_def line_count_def)
        moreover have "line_read n tot s u"
          using u(2) False c k(4) 1(4,5) by (auto simp: line_read_def line_buf_step t_def k_def split: if_splits)
        ultimately show ?thesis using u(1) run False c by auto
      qed
    qed
  qed
qed

section \<open>Buffered lines\<close>

definition rl_wf :: "ReadLineBuf \<Rightarrow> bool" where
  "rl_wf rl \<longleftrightarrow> length (rl_buf rl) = RL_MAX_BUF \<and> rl_len rl \<le> int RL_MAX_BUF"

definition pending :: "ReadLineBuf \<Rightarrow> string" where
  "pending rl = take (nat (rl_len rl) - rl_next rl) (drop (rl_next rl) (rl_buf rl))"

definition unread :: "ReadLineBuf \<Rightarrow> io \<Rightarrow> string" where
  "unread rl s = pending rl @ bytes (io_in s)"

lemma pending_Cons:
  "rl_next rl < nat (rl_len rl) \<Longrightarrow> rl_wf rl \<Longrightarrow> rl_next rl < length (rl_buf rl) \<and>
     pending rl = rl_buf rl ! rl_next rl # pending (rl\<lparr>rl_next := rl_next rl + 1\<rparr>)"
proof -
  assume n: "rl_next rl < nat (rl_len rl)" and "rl_wf rl"
  then have l: "rl_next rl < length (rl_buf rl)" by (auto simp: rl_wf_def)
  obtain m where "nat (rl_len rl) - rl_next rl = Suc m" using n by (metis Suc_diff_Suc)
  moreover from this have "nat (rl_len rl) - (rl_next rl + 1) = m" by simp
  ultimately show ?thesis using l by (simp add: pending_def Cons_nth_drop_Suc [OF l, symmetric])
qed

lemma refill_steady:
  assumes "rl_wf rl" "steady (io_in s)" "refill rl s = (rl', s')"
  shows "rl_wf rl' \<and> steady (io_in s') \<and> io_buf s' = io_buf s \<and> unread rl' s' = unread rl s \<and> rl_len rl' \<noteq> -1 \<and>
    (rl_len rl' = 0 \<longrightarrow> unread rl s = []) \<and> (rl_len rl' \<noteq> 0 \<longrightarrow> rl_next rl' < nat (rl_len rl'))"
proof (cases "int (rl_next rl) \<ge> rl_len rl")
  case True
  then have p: "pending rl = []" by (auto simp: pending_def)
  obtain r es where r: "sys_read RL_MAX_BUF (io_in s) = (r, es)" by fastforce
  have pos: "0 < RL_MAX_BUF" by (simp add: RL_MAX_BUF_def)
  obtain x where x: "r = Got x" and es: "steady es" using sys_read_steady [OF assms(2) pos r] by blast
  have b: "bytes (io_in s) = x @ bytes es" "length x \<le> RL_MAX_BUF" "x = [] \<longrightarrow> bytes (io_in s) = []"
    using sys_read_live(2) [OF _ pos r x] assms(2) by (auto simp: steady_def)
  show ?thesis
  proof (cases "x = []")
    case nil: True
    with assms(3) True r x have "rl' = rl\<lparr>rl_len := 0\<rparr>" "s' = s\<lparr>io_in := es\<rparr>" by (simp_all add: refill_def)
    with assms(1) nil es b p show ?thesis by (simp add: unread_def pending_def rl_wf_def)
  next
    case False
    with assms(3) True r x have "rl' = rl\<lparr>rl_buf := x @ drop (length x) (rl_buf rl), rl_len := int (length x), rl_next := 0\<rparr>"
      "s' = s\<lparr>io_in := es\<rparr>" by (simp_all add: refill_def)
    with assms(1) False es b p show ?thesis by (simp add: unread_def pending_def rl_wf_def)
  qed
next
  case False
  with assms show ?thesis by (auto simp: refill_def)
qed

definition line_buffered :: "nat \<Rightarrow> nat \<Rightarrow> ReadLineBuf \<Rightarrow> io \<Rightarrow> ReadLineBuf \<Rightarrow> io \<Rightarrow> bool" where
  "line_buffered n cnt rl s rl' t \<longleftrightarrow>
     io_buf t = overlay (io_buf s) cnt (take (n - cnt) (line_of (unread rl s))) \<and>
     unread rl' t = drop (length (line_of (unread rl s))) (unread rl s) \<and> rl_wf rl' \<and> steady (io_in t)"

lemma readLineBuf_loop_line:
  assumes "rl_wf rl" "steady (io_in s)" "cnt \<le> n" "n \<le> length (io_buf s)"
  shows "\<exists>rl' t. readLineBuf_loop n cnt rl s = Ret (int (cnt + length (take (n - cnt) (line_of (unread rl s))))) (rl', t) \<and>
    line_buffered n cnt rl s rl' t"
  using assms
proof (induction n cnt rl s rule: readLineBuf_loop.induct)
  case (1 n cnt rl s)
  obtain rl1 s1 where f: "refill rl s = (rl1, s1)" by fastforce
  note rf = refill_steady [OF 1(2,3) f]
  note step = readLineBuf_loop.simps [of n cnt rl s, unfolded f prod.case]
  show ?case
  proof (cases "rl_len rl1 = 0")
    case True
    then show ?thesis using rf by (auto simp: step line_buffered_def)
  next
    case False
    define c where "c = rl_buf rl1 ! rl_next rl1"
    define rl2 where "rl2 = rl1\<lparr>rl_next := rl_next rl1 + 1\<rparr>"
    have next1: "rl_next rl1 < length (rl_buf rl1)" and u: "unread rl s = c # unread rl2 s1"
      using pending_Cons [of rl1] rf False by (auto simp: unread_def c_def rl2_def)
    define t where "t = (if cnt < n then s1\<lparr>io_buf := overlay (io_buf s) cnt [c]\<rparr> else s1)"
    define k where "k = (if cnt < n then cnt + 1 else cnt)"
    have put: "(if cnt < n then bnd (store cnt c s1) (\<lambda>_ s. Ret (cnt + 1) s) else Ret cnt s1) = Ret k t"
      using rf 1(4,5) by (simp add: store_overlay t_def k_def)
    have ok: "rl_wf rl2" "steady (io_in t)" "k \<le> n" "n \<le> length (io_buf t)" "io_in t = io_in s1"
      using rf 1(4,5) by (auto simp: rl2_def rl_wf_def t_def k_def)
    have run: "readLineBuf_loop n cnt rl s = (if c = CHR 0x0A then Ret (int k) (rl2, t) else readLineBuf_loop n k rl2 t)"
      using rf False next1 put by (simp add: step Let_def c_def [symmetric] rl2_def [simplified, symmetric])
    have un: "unread rl2 t = unread rl2 s1" using ok(5) by (simp add: unread_def)
    show ?thesis
    proof (cases "c = CHR 0x0A")
      case True
      then show ?thesis
        using run u un ok rf by (auto simp: line_buffered_def k_def t_def)
    next
      case nl: False
      have "rl_len rl1 \<noteq> -1" using rf by blast
      from 1(1) [OF f [symmetric] this False _ c_def rl2_def put nl ok(1-4)] next1 obtain rl' v where
        v: "readLineBuf_loop n k rl2 t = Ret (int (k + length (take (n - k) (line_of (unread rl2 t))))) (rl', v)"
           "line_buffered n k rl2 t rl' v" by auto
      have "k + length (take (n - k) (line_of (unread rl2 t))) = cnt + length (take (n - cnt) (c # line_of (unread rl2 s1)))"
        unfolding un by (cases "n - cnt") (auto simp: k_def)
      moreover have "overlay (io_buf t) k (take (n - k) x) = overlay (io_buf s) cnt (take (n - cnt) (c # x))" for x
        using 1(4,5) rf overlay_overlay [of cnt "[c]" "io_buf s" "take (n - k) x"]
        by (cases "cnt < n") (simp_all add: take_Cons' k_def t_def)
      ultimately show ?thesis using v run nl u un by (auto simp: line_buffered_def)
    qed
  qed
qed

section \<open>Blocks of a given size\<close>

lemma readn_loop_bytes:
  assumes "live (io_in s)" "tot \<le> n" "n \<le> length (io_buf s)"
  shows "\<exists>t. readn_loop n tot s = Ret (int (tot + length (take (n - tot) (bytes (io_in s))))) t \<and>
    io_buf t = overlay (io_buf s) tot (take (n - tot) (bytes (io_in s))) \<and>
    bytes (io_in t) = drop (n - tot) (bytes (io_in s)) \<and> live (io_in t)"
  using assms
proof (induction n tot s rule: readn_loop.induct)
  case (1 n tot s)
  show ?case
  proof (cases "tot < n")
    case False
    with 1(3,4) show ?thesis by (auto simp: readn_loop.simps [of n n s])
  next
    case True
    obtain r es where r: "sys_read (n - tot) (io_in s) = (r, es)" by fastforce
    have pos: "0 < n - tot" using True by simp
    note rd = sys_read_live [OF 1(3) pos r]
    note step = readn_loop.simps [of n tot s, unfolded r prod.case if_P [OF True]]
    show ?thesis
    proof (cases r)
      case (RdFail e)
      with rd(3) have e: "e = EINTR" "bytes es = bytes (io_in s)" by auto
      with 1(2) [OF True r [symmetric] RdFail] rd(1) 1(4,5) show ?thesis by (simp add: step RdFail)
    next
      case (Got x)
      have b: "bytes (io_in s) = x @ bytes es" "length x \<le> n - tot" "x = [] \<longrightarrow> bytes (io_in s) = []"
        using rd(2) [OF Got] by auto
      show ?thesis
      proof (cases "x = []")
        case nil: True
        with b rd(1) show ?thesis by (auto simp: step Got)
      next
        case False
        let ?t = "s\<lparr>io_in := es, io_buf := overlay (io_buf s) tot x\<rparr>"
        have fits: "tot + length x \<le> length (io_buf s)" "tot + length x \<le> n" using b(2) 1(4,5) True by linarith+
        have "live (io_in ?t)" "n \<le> length (io_buf ?t)" using rd(1) fits 1(5) by simp_all
        from 1(1) [OF True r [symmetric] Got False fits(1) this(1) fits(2) this(2)] obtain u where
          "readn_loop n (tot + length x) ?t = Ret (int (tot + length x + length (take (n - (tot + length x)) (bytes es)))) u"
          "io_buf u = overlay (overlay (io_buf s) tot x) (tot + length x) (take (n - (tot + length x)) (bytes es))"
          "bytes (io_in u) = drop (n - (tot + length x)) (bytes es)" "live (io_in u)" by auto
        then show ?thesis
          using False fits b(1,2) by (auto simp: step Got overlay_overlay diff_diff_add)
      qed
    qed
  qed
qed

text \<open>Descriptors whose \<open>write()\<close> always takes something or is interrupted.\<close>

fun takes_some :: "wr_event \<Rightarrow> bool" where
  "takes_some (Accept k) = (0 < k)"
| "takes_some WrIntr = True"
| "takes_some (WrError e) = False"

definition accepting :: "wr \<Rightarrow> bool" where
  "accepting w \<longleftrightarrow> list_all takes_some (wr_events w)"

lemma sys_write_accepting:
  assumes "accepting w" "x \<noteq> []" "sys_write x w = (r, w')"
  shows "accepting w' \<and> (case r of Wrote k \<Rightarrow> 0 < k \<and> k \<le> length x \<and> wr_out w' = wr_out w @ take k x
                              | WrFail e \<Rightarrow> e = EINTR \<and> wr_out w' = wr_out w)"
  using assms by (auto simp: sys_write.simps accepting_def min_def split: list.splits wr_event.splits)

lemma writen_loop_all:
  assumes "accepting w" "tot \<le> length buf"
  shows "\<exists>w'. writen_loop buf tot w = (int (length buf), w') \<and> wr_out w' = wr_out w @ drop tot buf \<and> accepting w'"
  using assms
proof (induction buf tot w rule: writen_loop.induct)
  case (1 buf tot w)
  show ?case
  proof (cases "tot < length buf")
    case False
    with 1(3,4) show ?thesis by (auto simp: writen_loop.simps [of buf "length buf" w])
  next
    case True
    obtain r w1 where r: "sys_write (drop tot buf) w = (r, w1)" by fastforce
    have w1: "accepting w1 \<and> (case r of Wrote k \<Rightarrow> 0 < k \<and> k \<le> length buf - tot \<and> wr_out w1 = wr_out w @ take k (drop tot buf)
        | WrFail e \<Rightarrow> e = EINTR \<and> wr_out w1 = wr_out w)"
      using sys_write_accepting [OF 1(3) _ r] True by (simp split: wr_result.splits)
    note step = writen_loop.simps [of buf tot w, unfolded r prod.case if_P [OF True]]
    show ?thesis
    proof (cases r)
      case (WrFail e)
      with w1 1(2) [OF True r [symmetric] WrFail] 1(4) show ?thesis by (simp add: step)
    next
      case (Wrote k)
      then have k: "k \<noteq> 0" "tot + k \<le> length buf" "wr_out w1 = wr_out w @ take k (drop tot buf)" "accepting w1"
        using w1 True by auto
      from 1(1) [OF True r [symmetric] Wrote k(1,4,2)] obtain w2 where
        "writen_loop buf (tot + k) w1 = (int (length buf), w2)" "wr_out w2 = wr_out w1 @ drop (tot + k) buf" "accepting w2" by blast
      moreover have "take k (drop tot buf) @ drop (tot + k) buf = drop tot buf"
        by (metis add.commute append_take_drop_id drop_drop)
      ultimately show ?thesis using k Wrote by (simp add: step)
    qed
  qed
qed

section \<open>Properties\<close>

text \<open>
  C9: \<open>readLineBuf()\<close> reads the same lines as \<open>readLine()\<close>. On descriptors that deliver the
  same bytes, cut into pieces in any way, and interrupted by signals in the case of
  \<open>readLine()\<close>, a call of \<open>readLineBuf()\<close> with size \<open>n\<close> returns the same number and the same
  bytes as a call of \<open>readLine()\<close> with size \<open>n + 1\<close> (which needs one byte for the NUL): the
  first \<open>n\<close> bytes of the line. Both discard the rest of the line and leave the same bytes
  unread, so that the next calls agree again. Neither stores outside its buffer.
\<close>

theorem readLineBuf_equivalent:
  assumes "live (io_in s)" "steady (io_in s')" "rl_wf rl" "bytes (io_in s) = unread rl s'"
    and "0 < n" "n + 1 \<le> length (io_buf s)" "n \<le> length (io_buf s')"
  shows "\<exists>k t rl' t'. readLine False (n + 1) s = Ret (int k) t \<and> readLineBuf rl False n s' = Ret (int k) (rl', t') \<and>
    take k (io_buf t) = take n (line_of (bytes (io_in s))) \<and> take k (io_buf t') = take k (io_buf t) \<and>
    bytes (io_in t) = drop (length (line_of (bytes (io_in s)))) (bytes (io_in s)) \<and>
    bytes (io_in t) = unread rl' t' \<and> live (io_in t) \<and> steady (io_in t') \<and> rl_wf rl'"
proof -
  let ?line = "line_of (bytes (io_in s))" and ?k = "line_count (n + 1) 0 (bytes (io_in s))"
  have k: "?k = length (take n ?line)" by (simp add: line_count_def)
  obtain t where t: "readLine_loop (n + 1) 0 s = Ret (int ?k) t" "line_read (n + 1) 0 s t"
    using readLine_loop_line [OF assms(1), of 0 "n + 1"] assms(6) by auto
  obtain rl' t' where t': "readLineBuf_loop n 0 rl s' = Ret (int ?k) (rl', t')" "line_buffered n 0 rl s' rl' t'"
    using readLineBuf_loop_line [OF assms(3,2) _ assms(7), of 0] assms(4) k by auto
  have prefix: "take (length x) (overlay b 0 (x @ y)) = x" for b x y by (simp add: overlay_def)
  have "take ?k (io_buf t') = take n ?line"
    using t'(2) assms(4) prefix [of "take n ?line" _ "[]"] unfolding k line_buffered_def by simp
  moreover have "take ?k (io_buf t) = take n ?line"
    using t(2) prefix [of "take n ?line" _ "[CHR 0x00]"] unfolding k line_read_def line_buf_def by auto
  ultimately show ?thesis
    using t t' assms(4,5) by (auto simp: readLine_def readLineBuf_def line_read_def line_buffered_def)
qed

definition sample_rl :: ReadLineBuf where
  "sample_rl = readLineBufInit \<lparr>rl_buf = replicate 10 CHR 0x00, rl_next = 3, rl_len = 7\<rparr>"

theorem readLineBuf_equivalent_witness:
  "\<exists>k t rl' t'. readLine False 5 \<lparr>io_in = [Piece ''ab'', RdIntr, Piece ''c\<newline>d''], io_buf = replicate 5 CHR 0x00, io_errno = 0\<rparr> = Ret (int k) t \<and>
     readLineBuf sample_rl False 4 \<lparr>io_in = [Piece ''abc\<newline>d''], io_buf = replicate 4 CHR 0x00, io_errno = 0\<rparr> = Ret (int k) (rl', t') \<and>
     take k (io_buf t) = ''abc\<newline>'' \<and> take k (io_buf t') = ''abc\<newline>''"
proof -
  let ?s = "\<lparr>io_in = [Piece ''ab'', RdIntr, Piece ''c\<newline>d''], io_buf = replicate 5 CHR 0x00, io_errno = 0\<rparr>"
  let ?s' = "\<lparr>io_in = [Piece ''abc\<newline>d''], io_buf = replicate 4 CHR 0x00, io_errno = 0\<rparr>"
  have "live (io_in ?s)" "steady (io_in ?s')" "rl_wf sample_rl" "bytes (io_in ?s) = unread sample_rl ?s'"
    "(0 :: nat) < 4" "4 + 1 \<le> length (io_buf ?s)" "4 \<le> length (io_buf ?s')"
    by (simp_all add: steady_def sample_rl_def readLineBufInit_def rl_wf_def unread_def pending_def RL_MAX_BUF_def)
  from readLineBuf_equivalent [OF this] obtain k t rl' t' where
    "readLine False (4 + 1) ?s = Ret (int k) t" "readLineBuf sample_rl False 4 ?s' = Ret (int k) (rl', t')"
    "take k (io_buf t) = take 4 (line_of (bytes (io_in ?s)))" "take k (io_buf t') = take k (io_buf t)" by blast
  moreover have "take 4 (line_of (bytes (io_in ?s))) = ''abc\<newline>''" by simp
  ultimately show ?thesis by auto
qed

text \<open>
  C10: what \<open>writen()\<close> writes, \<open>readn()\<close> reads back. If the descriptor takes at least one byte
  in every call of \<open>write()\<close> that is not interrupted, \<open>writen()\<close> returns the size of its data
  and has written all of it once, in order; and from a descriptor that delivers these bytes
  first, cut and interrupted in any way, \<open>readn()\<close> with the same size returns that size, has
  stored exactly the data and leaves what follows unread.
\<close>

theorem writen_readn:
  assumes "accepting w" "live (io_in s)" "length data \<le> length (io_buf s)"
    and "wr_out w @ bytes (io_in s) = wr_out (snd (writen data w)) @ rest"
  shows "fst (writen data w) = int (length data) \<and> wr_out (snd (writen data w)) = wr_out w @ data \<and>
    (\<exists>t. readn (length data) s = Ret (int (length data)) t \<and> take (length data) (io_buf t) = data \<and>
      drop (length data) (io_buf t) = drop (length data) (io_buf s) \<and> bytes (io_in t) = rest)"
proof -
  obtain w' where w: "writen_loop data 0 w = (int (length data), w')" "wr_out w' = wr_out w @ data"
    using writen_loop_all [OF assms(1), of 0 data] by auto
  with assms(4) have b: "bytes (io_in s) = data @ rest" by (simp add: writen_def)
  obtain t where "readn_loop (length data) 0 s = Ret (int (length data)) t"
    "io_buf t = overlay (io_buf s) 0 data" "bytes (io_in t) = rest"
    using readn_loop_bytes [OF assms(2) _ assms(3), of 0] b by auto
  with w show ?thesis by (auto simp: writen_def readn_def overlay_def)
qed

theorem writen_readn_witness:
  "fst (writen ''hello'' \<lparr>wr_events = [Accept 2, WrIntr, Accept 1], wr_out = [], wr_errno = 0\<rparr>) = 5 \<and>
   (\<exists>t. readn 5 \<lparr>io_in = [Piece ''hel'', RdIntr, Piece ''lo!''], io_buf = replicate 8 CHR 0x00, io_errno = 0\<rparr> = Ret 5 t \<and>
      take 5 (io_buf t) = ''hello'' \<and> bytes (io_in t) = ''!'')"
proof -
  let ?w = "\<lparr>wr_events = [Accept 2, WrIntr, Accept 1], wr_out = [], wr_errno = 0\<rparr>"
  let ?s = "\<lparr>io_in = [Piece ''hel'', RdIntr, Piece ''lo!''], io_buf = replicate 8 CHR 0x00, io_errno = 0\<rparr>"
  have a: "accepting ?w" "live (io_in ?s)" "length ''hello'' \<le> length (io_buf ?s)"
    by (simp_all add: accepting_def)
  have five: "length ''hello'' = 5" by simp
  have "wr_out ?w @ bytes (io_in ?s) = wr_out (snd (writen ''hello'' ?w)) @ ''!''"
    by (simp add: writen_def writen_loop.simps sys_write.simps EINTR_def)
  from writen_readn [OF a this, unfolded five] show ?thesis by auto
qed

end
