(* ===== verification/Tlpi_Lib.thy ===== *)
theory Tlpi_Lib
  imports Prelude "HOL-Library.Word"
begin

text \<open>
  The general library of the TLPI programs: numeric command-line arguments (\<open>lib/get_num.c\<close>)
  and error reporting (\<open>lib/error_functions.c\<close>).

  The state of a process is reduced to what these functions touch: standard error, standard
  output with its unflushed part, \<open>errno\<close> and the environment variable \<open>EF_DUMPCORE\<close>.
\<close>

unbundle bit_operations_syntax

section \<open>Process state\<close>

record proc =
  p_stderr :: string
  p_stdout :: string
  p_pending :: string
  p_errno :: int
  p_dumpcore :: "string option"

definition eputs :: "string \<Rightarrow> proc \<Rightarrow> proc" where
  "eputs t s = s\<lparr>p_stderr := p_stderr s @ t\<rparr>"

definition fflush_stdout :: "proc \<Rightarrow> proc" where
  "fflush_stdout s = s\<lparr>p_stdout := p_stdout s @ p_pending s, p_pending := []\<rparr>"

text \<open>\<open>exit()\<close> flushes standard output, \<open>_exit()\<close> does not.\<close>

definition EXIT_FAILURE :: int where "EXIT_FAILURE = 1"

definition exit3 :: "int \<Rightarrow> proc \<Rightarrow> ('a, proc) outcome" where
  "exit3 n s = Stop (Exit n) (fflush_stdout s)"

definition exit2 :: "int \<Rightarrow> proc \<Rightarrow> ('a, proc) outcome" where
  "exit2 n s = Stop (Exit n) s"

section \<open>Numbers\<close>

definition INT_MAX :: int where "INT_MAX = 2 ^ 31 - 1"
definition INT_MIN :: int where "INT_MIN = - (2 ^ 31)"
definition LONG_MAX :: int where "LONG_MAX = 2 ^ 63 - 1"
definition LONG_MIN :: int where "LONG_MIN = - (2 ^ 63)"

definition GN_NONNEG :: "32 word" where "GN_NONNEG = 1"
definition GN_GT_0 :: "32 word" where "GN_GT_0 = 2"
definition GN_ANY_BASE :: "32 word" where "GN_ANY_BASE = 64"
definition GN_BASE_8 :: "32 word" where "GN_BASE_8 = 128"
definition GN_BASE_16 :: "32 word" where "GN_BASE_16 = 256"

lemmas gn_defs = GN_NONNEG_def GN_GT_0_def GN_ANY_BASE_def GN_BASE_8_def GN_BASE_16_def

text \<open>
  \<open>strtol()\<close> of the C library: blanks, a sign, a prefix for the base, and the longest run of
  digits. The result is the value, the text from \<open>endptr\<close> on, and whether the value is out of
  the range of \<open>long\<close> (then it is the nearest limit and \<open>errno\<close> is \<open>ERANGE\<close>).
\<close>

definition digit_of :: "int \<Rightarrow> char \<Rightarrow> int option" where
  "digit_of base c =
     (let b = byte c;
          d = (if 48 \<le> b \<and> b \<le> 57 then b - 48 else if 97 \<le> b \<and> b \<le> 122 then b - 87
               else if 65 \<le> b \<and> b \<le> 90 then b - 55 else 99)
      in if d < base then Some d else None)"

fun take_digits :: "int \<Rightarrow> int \<Rightarrow> string \<Rightarrow> int \<times> string" where
  "take_digits base acc [] = (acc, [])"
| "take_digits base acc (c # cs) =
     (case digit_of base c of None \<Rightarrow> (acc, c # cs) | Some d \<Rightarrow> take_digits base (base * acc + d) cs)"

definition starts_digit :: "int \<Rightarrow> string \<Rightarrow> bool" where
  "starts_digit base s = (case s of [] \<Rightarrow> False | c # _ \<Rightarrow> digit_of base c \<noteq> None)"

definition hex_prefix :: "string \<Rightarrow> bool" where
  "hex_prefix s = (take 2 s \<in> {''0x'', ''0X''} \<and> starts_digit 16 (drop 2 s))"

definition strtol :: "int \<Rightarrow> string \<Rightarrow> int \<times> string \<times> bool" where
  "strtol base s =
     (let t = dropWhile isspace s;
          neg = (take 1 t = ''-'');
          t = (if take 1 t \<in> {''-'', ''+''} then drop 1 t else t);
          hex = (base = 0 \<or> base = 16) \<and> hex_prefix t;
          base = (if base = 0 then (if hex then 16 else if take 1 t = ''0'' then 8 else 10) else base);
          t = (if hex then drop 2 t else t)
      in if \<not> starts_digit base t then (0, s, False)
         else case take_digits base 0 t of (v, rest) \<Rightarrow>
           let v = (if neg then - v else v)
           in if v > LONG_MAX then (LONG_MAX, rest, True)
              else if v < LONG_MIN then (LONG_MIN, rest, True)
              else (v, rest, False))"

definition gnFail :: "string \<Rightarrow> string \<Rightarrow> string option \<Rightarrow> string option \<Rightarrow> proc \<Rightarrow> ('a, proc) outcome" where
  "gnFail fname msg arg name s =
     (let s = eputs (fname @ '' error'') s;
          s = (case name of None \<Rightarrow> s | Some n \<Rightarrow> eputs ('' (in '' @ n @ '')'') s);
          s = eputs ('': '' @ msg @ ''\<newline>'') s;
          s = (case arg of None \<Rightarrow> s | Some a \<Rightarrow> if a = [] then s else eputs (''        offending text: '' @ a @ ''\<newline>'') s)
      in exit3 EXIT_FAILURE s)"

definition gn_base :: "32 word \<Rightarrow> int" where
  "gn_base flags =
     (if flags AND GN_ANY_BASE \<noteq> 0 then 0 else if flags AND GN_BASE_8 \<noteq> 0 then 8
      else if flags AND GN_BASE_16 \<noteq> 0 then 16 else 10)"

definition getNum :: "string \<Rightarrow> string option \<Rightarrow> 32 word \<Rightarrow> string option \<Rightarrow> proc \<Rightarrow> (int, proc) outcome" where
  "getNum fname arg flags name s =
     (case arg of
        None \<Rightarrow> gnFail fname ''null or empty string'' arg name s
      | Some a \<Rightarrow>
          if a = [] then gnFail fname ''null or empty string'' arg name s
          else
            let s = s\<lparr>p_errno := 0\<rparr>
            in case strtol (gn_base flags) a of (res, endptr, erange) \<Rightarrow>
              if erange then gnFail fname ''strtol() failed'' arg name (s\<lparr>p_errno := 34\<rparr>)
              else if endptr \<noteq> [] then gnFail fname ''nonnumeric characters'' arg name s
              else if flags AND GN_NONNEG \<noteq> 0 \<and> res < 0 then gnFail fname ''negative value not allowed'' arg name s
              else if flags AND GN_GT_0 \<noteq> 0 \<and> res \<le> 0 then gnFail fname ''value must be > 0'' arg name s
              else Ret res s)"

definition getLong :: "string option \<Rightarrow> 32 word \<Rightarrow> string option \<Rightarrow> proc \<Rightarrow> (int, proc) outcome" where
  "getLong arg flags name s = getNum ''getLong'' arg flags name s"

definition getInt :: "string option \<Rightarrow> 32 word \<Rightarrow> string option \<Rightarrow> proc \<Rightarrow> (int, proc) outcome" where
  "getInt arg flags name s =
     bnd (getNum ''getInt'' arg flags name s) (\<lambda>res s.
       if res > INT_MAX \<or> res < INT_MIN then gnFail ''getInt'' ''integer out of range'' arg name s
       else Ret res s)"

section \<open>Errors\<close>

text \<open>
  The names of the error numbers (\<open>ename.c.inc\<close>, generated by the build), \<open>strerror()\<close>, and
  the value the output functions may leave in \<open>errno\<close>.
\<close>

record errlib =
  ename :: "int \<Rightarrow> string"
  MAX_ENAME :: int
  strerror :: "int \<Rightarrow> string"
  clobber :: "int \<Rightarrow> int"

definition BUF_SIZE :: nat where "BUF_SIZE = 500"

definition terminate :: "bool \<Rightarrow> proc \<Rightarrow> ('a, proc) outcome" where
  "terminate useExit3 s =
     (if (case p_dumpcore s of None \<Rightarrow> False | Some v \<Rightarrow> v \<noteq> []) then Stop Abort s
      else if useExit3 then exit3 EXIT_FAILURE s
      else exit2 EXIT_FAILURE s)"

text \<open>\<open>text\<close> is what the format and the arguments give.\<close>

definition outputError :: "errlib \<Rightarrow> bool \<Rightarrow> int \<Rightarrow> bool \<Rightarrow> string \<Rightarrow> proc \<Rightarrow> proc" where
  "outputError lib useErr err flushStdout txt s =
     (let userMsg = snprintf_buf BUF_SIZE txt;
          errText = (if useErr
            then snprintf_buf BUF_SIZE ('' ['' @ (if err > 0 \<and> err \<le> MAX_ENAME lib then ename lib err else ''?UNKNOWN?'')
                   @ '' '' @ strerror lib err @ '']'')
            else snprintf_buf BUF_SIZE '':'');
          buf = snprintf_buf BUF_SIZE (''ERROR'' @ errText @ '' '' @ userMsg @ ''\<newline>'');
          s = (if flushStdout then fflush_stdout s else s)
      in (eputs buf s)\<lparr>p_errno := clobber lib (p_errno s)\<rparr>)"

definition errMsg :: "errlib \<Rightarrow> string \<Rightarrow> proc \<Rightarrow> (unit, proc) outcome" where
  "errMsg lib txt s =
     (let savedErrno = p_errno s
      in Ret () ((outputError lib True (p_errno s) True txt s)\<lparr>p_errno := savedErrno\<rparr>))"

definition errExit_tlpi :: "errlib \<Rightarrow> string \<Rightarrow> proc \<Rightarrow> ('a, proc) outcome" where
  "errExit_tlpi lib txt s = terminate True (outputError lib True (p_errno s) True txt s)"

definition err_exit_tlpi :: "errlib \<Rightarrow> string \<Rightarrow> proc \<Rightarrow> ('a, proc) outcome" where
  "err_exit_tlpi lib txt s = terminate False (outputError lib True (p_errno s) False txt s)"

definition errExitEN :: "errlib \<Rightarrow> int \<Rightarrow> string \<Rightarrow> proc \<Rightarrow> ('a, proc) outcome" where
  "errExitEN lib errnum txt s = terminate True (outputError lib True errnum True txt s)"

definition fatal :: "errlib \<Rightarrow> string \<Rightarrow> proc \<Rightarrow> ('a, proc) outcome" where
  "fatal lib txt s = terminate True (outputError lib False 0 True txt s)"

definition usageErr :: "string \<Rightarrow> proc \<Rightarrow> ('a, proc) outcome" where
  "usageErr txt s = exit3 EXIT_FAILURE (eputs txt (eputs ''Usage: '' (fflush_stdout s)))"

definition cmdLineErr :: "string \<Rightarrow> proc \<Rightarrow> ('a, proc) outcome" where
  "cmdLineErr txt s = exit3 EXIT_FAILURE (eputs txt (eputs ''Command-line usage error: '' (fflush_stdout s)))"

section \<open>Reading back decimal numbers\<close>

lemma digit_char: "d < 10 \<Longrightarrow> digit_of 10 (char_of (48 + d :: nat)) = Some (int d)"
  by (simp add: digit_of_def byte_def)

lemma take_digits_append:
  "take_digits base acc x = (v, []) \<Longrightarrow> take_digits base acc (x @ y) = take_digits base v y"
  by (induction x arbitrary: acc) (auto split: option.splits)

lemma take_digits_dec: "take_digits 10 0 (dec_of_nat n) = (int n, [])"
proof (induction n rule: dec_of_nat.induct)
  case (1 n)
  show ?case
  proof (cases "n < 10")
    case True
    then show ?thesis by (simp add: dec_of_nat.simps [of n] digit_char)
  next
    case False
    have "10 * int (n div 10) + int (n mod 10) = int n" using mult_div_mod_eq [of 10 n] by linarith
    with 1 [OF False] False show ?thesis
      by (simp add: dec_of_nat.simps [of n] take_digits_append [of 10 0 "dec_of_nat (n div 10)"] digit_char)
  qed
qed

lemma dec_head: "\<exists>d cs. d < 10 \<and> dec_of_nat n = char_of (48 + d :: nat) # cs"
proof (induction n rule: dec_of_nat.induct)
  case (1 n)
  then show ?case by (cases "n < 10") (auto simp: dec_of_nat.simps [of n])
qed

lemma strtol_dec:
  assumes "LONG_MIN \<le> i" "i \<le> LONG_MAX"
  shows "strtol 10 (dec_of_int i) = (i, [], False)"
proof -
  obtain d cs where d: "d < 10" "dec_of_nat (nat \<bar>i\<bar>) = char_of (48 + d :: nat) # cs" using dec_head by blast
  let ?c = "char_of (48 + d :: nat)"
  have b: "byte ?c = 48 + int d" using d(1) by (simp add: byte_def)
  have "byte CHR ''-'' = 45" "byte CHR ''+'' = 43" by (simp_all add: byte_def of_char_Char)
  then have sign: "?c \<noteq> CHR ''-''" "?c \<noteq> CHR ''+''" using b by auto
  have "byte x < 48" if "x \<in> {CHR '' '', CHR 0x09, CHR 0x0A, CHR 0x0B, CHR 0x0C, CHR 0x0D}" for x
    using that by (auto simp: byte_def of_char_Char)
  then have blank: "\<not> isspace ?c" "\<not> isspace CHR ''-''" using b by (fastforce simp: isspace_def)+
  have digit: "digit_of 10 ?c = Some (int d)" using d(1) by (rule digit_char)
  have v: "take_digits 10 0 (?c # cs) = (\<bar>i\<bar>, [])" using take_digits_dec [of "nat \<bar>i\<bar>"] d(2) by simp
  show ?thesis
  proof (cases "i < 0")
    case True
    then have "dec_of_int i = CHR ''-'' # ?c # cs" using d(2) by (simp add: dec_of_int_def)
    then show ?thesis
      using True v digit blank assms by (simp add: strtol_def starts_digit_def Let_def del: take_digits.simps)
  next
    case False
    then have "dec_of_int i = ?c # cs" using d(2) by (simp add: dec_of_int_def)
    then show ?thesis
      using False v digit blank sign assms by (simp add: strtol_def starts_digit_def Let_def del: take_digits.simps)
  qed
qed

text \<open>A message of the function \<open>fname\<close> was printed and the process ends with status 1.\<close>

definition gn_failed :: "string \<Rightarrow> proc \<Rightarrow> stop \<Rightarrow> proc \<Rightarrow> bool" where
  "gn_failed fname s e t \<longleftrightarrow> e = Exit 1 \<and> (\<exists>m. p_stderr t = p_stderr s @ fname @ '' error'' @ m)"

lemma gnFail_wp: "wp (gnFail fname msg arg name s) Q (gn_failed fname s)"
  by (auto simp: gnFail_def gn_failed_def eputs_def exit3_def fflush_stdout_def EXIT_FAILURE_def Let_def split: option.splits)

lemma gn_failed_errno [simp]: "gn_failed fname (s\<lparr>p_errno := e\<rparr>) = gn_failed fname s"
  by (simp add: fun_eq_iff gn_failed_def)

lemma gnFail_errno_wp: "wp (gnFail fname msg arg name (s\<lparr>p_errno := e\<rparr>)) Q (gn_failed fname s)"
  using gnFail_wp [of fname msg arg name "s\<lparr>p_errno := e\<rparr>"] by simp

lemma getNum_wp:
  "wp (getNum fname arg flags name s)
     (\<lambda>r t. t = s\<lparr>p_errno := 0\<rparr> \<and> (\<exists>a. arg = Some a \<and> a \<noteq> [] \<and> strtol (gn_base flags) a = (r, [], False)) \<and>
        (flags AND GN_NONNEG \<noteq> 0 \<longrightarrow> 0 \<le> r) \<and> (flags AND GN_GT_0 \<noteq> 0 \<longrightarrow> 0 < r))
     (gn_failed fname s)"
proof (cases arg)
  case (Some a)
  obtain res e erange where "strtol (gn_base flags) a = (res, e, erange)" by (metis prod_cases3)
  then show ?thesis
    using Some by (simp add: getNum_def Let_def gnFail_wp gnFail_errno_wp not_less not_le)
qed (simp add: getNum_def gnFail_wp)

section \<open>Properties\<close>

text \<open>
  C34: a number that \<open>getInt()\<close> returns is what \<open>strtol()\<close> reads from the whole argument in the
  base the flags ask for; it fits in an \<open>int\<close> and satisfies the tests \<open>GN_NONNEG\<close> and \<open>GN_GT_0\<close>
  if they are asked for. In all other cases (missing, empty or malformed text, a value out
  of range) a message that starts with the name of the function is printed and the process
  exits with status 1.
\<close>

theorem getInt_checked:
  "wp (getInt arg flags name s)
     (\<lambda>r t. (\<exists>a. arg = Some a \<and> a \<noteq> [] \<and> strtol (gn_base flags) a = (r, [], False)) \<and> INT_MIN \<le> r \<and> r \<le> INT_MAX \<and>
        (flags AND GN_NONNEG \<noteq> 0 \<longrightarrow> 0 \<le> r) \<and> (flags AND GN_GT_0 \<noteq> 0 \<longrightarrow> 0 < r))
     (gn_failed ''getInt'' s)"
proof (cases "getNum ''getInt'' arg flags name s")
  case (Ret r t)
  then show ?thesis
    using getNum_wp [of "''getInt''" arg flags name s]
      gnFail_errno_wp [of "''getInt''" "''integer out of range''" arg name 0 s] by (auto simp: getInt_def)
next
  case (Stop e t)
  then show ?thesis using getNum_wp [of "''getInt''" arg flags name s] by (auto simp: getInt_def)
qed

definition sample_proc :: proc where
  "sample_proc = \<lparr>p_stderr = [], p_stdout = [], p_pending = ''out'', p_errno = 2, p_dumpcore = None\<rparr>"

theorem getInt_checked_witness:
  "wp (getInt (Some ''-5'') GN_NONNEG None sample_proc) (\<lambda>r t. INT_MIN \<le> r \<and> r \<le> INT_MAX \<and> 0 \<le> r) (gn_failed ''getInt'' sample_proc)"
  by (rule wp_mono [OF getInt_checked]) (auto simp: GN_NONNEG_def)

text \<open>
  \<open>getInt()\<close> reads back every \<open>int\<close> printed with \<open>%d\<close>, the limits of the type and negative
  numbers included.
\<close>

lemma getInt_roundtrip:
  assumes "INT_MIN \<le> i" "i \<le> INT_MAX"
  shows "getInt (Some (dec_of_int i)) 0 name s = Ret i (s\<lparr>p_errno := 0\<rparr>)"
proof -
  have "dec_of_int i \<noteq> []"
    using dec_head [of "nat i"] dec_head [of "nat (- i)"] by (auto simp: dec_of_int_def)
  moreover have "strtol 10 (dec_of_int i) = (i, [], False)"
    using assms by (intro strtol_dec) (simp_all add: INT_MIN_def INT_MAX_def LONG_MIN_def LONG_MAX_def)
  ultimately show ?thesis
    using assms by (simp add: getInt_def getNum_def gn_base_def)
qed

definition error_line :: "proc \<Rightarrow> proc \<Rightarrow> bool" where
  "error_line s t \<longleftrightarrow> (\<exists>m. p_stderr t = p_stderr s @ ''ERROR'' @ m \<and> length m \<le> 494)"

definition how_end :: "proc \<Rightarrow> stop" where
  "how_end s = (if p_dumpcore s \<in> {None, Some []} then Exit 1 else Abort)"

lemma error_line_errno [simp]: "error_line s (t\<lparr>p_errno := e\<rparr>) = error_line s t"
  by (simp add: error_line_def)

lemma outputError_parts:
  "error_line s (outputError lib u e f txt s)"
  "p_stdout (outputError lib u e f txt s) = (if f then p_stdout s @ p_pending s else p_stdout s)"
  "p_pending (outputError lib u e f txt s) = (if f then [] else p_pending s)"
  "p_dumpcore (outputError lib u e f txt s) = p_dumpcore s"
  by (simp_all add: outputError_def error_line_def Let_def eputs_def fflush_stdout_def snprintf_buf_def BUF_SIZE_def)

lemma terminate_wp:
  assumes "p_dumpcore t = p_dumpcore s" "error_line s t" "p_stdout t = x" "useExit3 \<Longrightarrow> p_pending t = []"
  shows "wp (terminate useExit3 t) (\<lambda>_ _. False) (\<lambda>r u. r = how_end s \<and> error_line s u \<and> p_stdout u = x)"
  using assms
  by (auto simp: terminate_def exit3_def exit2_def fflush_stdout_def EXIT_FAILURE_def how_end_def error_line_def split: option.splits)

text \<open>
  How the error functions end. \<open>errMsg()\<close> returns and leaves \<open>errno\<close> as it was, whatever the
  output functions do to it. \<open>errExit()\<close>, \<open>errExitEN()\<close> and \<open>fatal()\<close> flush standard output and never
  return: they dump core if \<open>EF_DUMPCORE\<close> is set to a nonempty text and exit with status 1
  otherwise. \<open>err_exit()\<close> does the same without flushing. Each prints one message that starts
  with \<open>ERROR\<close> and has at most 499 bytes.
\<close>

lemma error_functions_end:
  "wp (errMsg lib txt s) (\<lambda>_ t. error_line s t \<and> p_errno t = p_errno s \<and> p_stdout t = p_stdout s @ p_pending s) (\<lambda>_ _. False) \<and>
   wp (errExit_tlpi lib txt s) (\<lambda>_ _. False) (\<lambda>r t. r = how_end s \<and> error_line s t \<and> p_stdout t = p_stdout s @ p_pending s) \<and>
   wp (errExitEN lib n txt s) (\<lambda>_ _. False) (\<lambda>r t. r = how_end s \<and> error_line s t \<and> p_stdout t = p_stdout s @ p_pending s) \<and>
   wp (fatal lib txt s) (\<lambda>_ _. False) (\<lambda>r t. r = how_end s \<and> error_line s t \<and> p_stdout t = p_stdout s @ p_pending s) \<and>
   wp (err_exit_tlpi lib txt s) (\<lambda>_ _. False) (\<lambda>r t. r = how_end s \<and> error_line s t \<and> p_stdout t = p_stdout s)"
  unfolding errMsg_def errExit_tlpi_def errExitEN_def fatal_def err_exit_tlpi_def Let_def
  by (intro conjI terminate_wp) (simp_all add: outputError_parts)

end
