(* ===== verification/Interleaving.thy ===== *)
theory Interleaving
  imports Prelude
begin

text \<open>
  Threads and processes that run interleaved. A program is a partial function \<open>step\<close> of an event
  (which thread goes on, or what happens to it) and a state; \<open>None\<close> means that the event cannot
  happen in the state. A schedule is a list of events.

  The locales are the contracts of such programs: \<open>interleaved\<close> for an invariant, \<open>charged\<close> for a
  measure that every step uses up, apart from events that pay for themselves, and
  \<open>progressing\<close> for the absence of deadlock. The theories of the concurrent programs interpret them.
\<close>

text \<open>
  The events of the programs with threads: thread \<open>k\<close> goes on, a thread that waits on a
  condition variable is woken without a signal, the library call that thread \<open>k\<close> is about to make fails.
\<close>

datatype sched = Run nat | Spurious | Fail nat

text \<open>A thread that is woken without a signal takes the mutex, tests its condition and waits again.\<close>

definition pay :: "sched \<Rightarrow> nat" where
  "pay e = (if e = Spurious then 3 else 0)"

lemma pay_total: "sum_list (map pay es) = 3 * count_list es Spurious"
  by (induction es) (auto simp: pay_def)

fun run :: "('e \<Rightarrow> 's \<Rightarrow> 's option) \<Rightarrow> 'e list \<Rightarrow> 's \<Rightarrow> 's option" where
  "run step [] s = Some s"
| "run step (e # es) s = (case step e s of None \<Rightarrow> None | Some t \<Rightarrow> run step es t)"

lemma run_append: "run step (es @ fs) s = (case run step es s of None \<Rightarrow> None | Some t \<Rightarrow> run step fs t)"
  by (induction es arbitrary: s) (auto split: option.split)

lemma run_snoc: "run step es s = Some t \<Longrightarrow> step e t = Some u \<Longrightarrow> run step (es @ [e]) s = Some u"
  by (simp add: run_append)

locale interleaved =
  fixes step :: "'e \<Rightarrow> 's \<Rightarrow> 's option" and start :: "'s \<Rightarrow> bool" and inv :: "'s \<Rightarrow> bool"
  assumes inv_start: "start s \<Longrightarrow> inv s"
    and inv_step: "inv s \<Longrightarrow> step e s = Some t \<Longrightarrow> inv t"
begin

lemma inv_run: "inv s \<Longrightarrow> run step es s = Some t \<Longrightarrow> inv t"
  by (induction es arbitrary: s) (auto split: option.splits intro: inv_step)

lemma inv_reached: "start s \<Longrightarrow> run step es s = Some t \<Longrightarrow> inv t"
  using inv_run inv_start by blast

end

locale charged = interleaved +
  fixes fuel :: "'b \<Rightarrow> nat" and grant :: "'a \<Rightarrow> nat"
  assumes paid: "inv s \<Longrightarrow> step e s = Some t \<Longrightarrow> fuel t < fuel s + grant e"
begin

lemma run_bound: "inv s \<Longrightarrow> run step es s = Some t \<Longrightarrow> length es + fuel t \<le> fuel s + sum_list (map grant es)"
proof (induction es arbitrary: s)
  case (Cons e es)
  then obtain u where u: "step e s = Some u" "run step es u = Some t" by (auto split: option.splits)
  then show ?case using Cons.IH [OF inv_step [OF Cons.prems(1) u(1)] u(2)] paid [OF Cons.prems(1) u(1)] by simp
qed simp

end

locale progressing = charged +
  fixes final :: "'b \<Rightarrow> bool"
  assumes progress: "inv s \<Longrightarrow> \<not> final s \<Longrightarrow> \<exists>e t. grant e = 0 \<and> step e s = Some t"
begin

text \<open>A run that cannot be continued has ended, and every run can be continued to one that has.\<close>

lemma stuck_final: "inv s \<Longrightarrow> run step es s = Some t \<Longrightarrow> (\<And>e. step e t = None) \<Longrightarrow> final t"
  using progress [OF inv_run] by fastforce

lemma completes: "inv s \<Longrightarrow> \<exists>es t. run step es s = Some t \<and> final t \<and> (\<forall>e\<in>set es. grant e = 0)"
proof (induction "fuel s" arbitrary: s rule: less_induct)
  case less
  show ?case
  proof (cases "final s")
    case True
    then show ?thesis by (intro exI [of _ "[]"]) simp
  next
    case False
    then obtain e u where e: "grant e = 0" "step e s = Some u" using progress less.prems by blast
    have "fuel u < fuel s" using paid [OF less.prems e(2)] e(1) by simp
    then obtain es t where "run step es u = Some t" "final t" "\<forall>e\<in>set es. grant e = 0"
      using less.hyps inv_step [OF less.prems e(2)] by blast
    then show ?thesis using e by (intro exI [of _ "e # es"]) auto
  qed
qed

end

section \<open>Sums over the threads\<close>

lemma sum_list_map_update:
  fixes f :: "'a \<Rightarrow> int"
  assumes "k < length xs"
  shows "sum_list (map f (xs[k := y])) = sum_list (map f xs) + f y - f (xs ! k)"
  using assms
proof (induction xs arbitrary: k)
  case (Cons x xs)
  then show ?case by (cases k) auto
qed simp

lemma sum_list_map_update_nat:
  fixes f :: "'a \<Rightarrow> nat"
  assumes "k < length xs"
  shows "sum_list (map f (xs[k := y])) + f (xs ! k) = sum_list (map f xs) + f y"
  using assms
proof (induction xs arbitrary: k)
  case (Cons x xs)
  then show ?case by (cases k) auto
qed simp

lemma sum_list_map_member:
  fixes f :: "'a \<Rightarrow> nat"
  shows "k < length xs \<Longrightarrow> f (xs ! k) \<le> sum_list (map f xs)"
  using elem_le_sum_list [of k "map f xs"] by simp

text \<open>Where one sum is strictly smaller, one of its terms is.\<close>

lemma sum_list_less_nth:
  fixes f g :: "'a \<Rightarrow> int"
  assumes "sum_list (map f xs) < sum_list (map g xs)"
  shows "\<exists>k<length xs. f (xs ! k) < g (xs ! k)"
proof (rule ccontr)
  assume "\<not> ?thesis"
  then have "g x \<le> f x" if "x \<in> set xs" for x using that by (metis in_set_conv_nth not_less)
  then have "sum_list (map g xs) \<le> sum_list (map f xs)" by (rule sum_list_mono)
  then show False using assms by simp
qed

section \<open>Signed arithmetic\<close>

text \<open>Whether a value fits a C \<open>int\<close>; a signed addition whose result does not is undefined.\<close>

definition fits_int :: "int \<Rightarrow> bool" where
  "fits_int x \<longleftrightarrow> - (2 ^ 31) \<le> x \<and> x < 2 ^ 31"

abbreviation overflow :: stop where
  "overflow \<equiv> Undefined ''signed overflow''"

end
