(* ===== verification/Shm_Transfer.thy ===== *)
theory Shm_Transfer
  imports Stream_Io Interleaving
begin

text \<open>
  Binary semaphores and event flags over System V semaphores (\<open>svsem/binary_sems.c\<close>,
  \<open>svsem/event_flags.c\<close>) and the two programs
  that copy a stream through shared memory with them: \<open>svshm/svshm_xfr_writer.c\<close> and
  \<open>svshm/svshm_xfr_reader.c\<close>.

  The two processes run interleaved. Each is a step function over the common state (the
  semaphores, the shared segment, the writer's standard input and the reader's standard
  output) and the position in its own code; \<open>runs\<close> is the set of states any interleaving can
  reach. The lemmas give the invariant of the protocol; from it follow exclusive access, the
  correctness of the copy and the absence of deadlock.
\<close>

section \<open>Binary semaphores\<close>

type_synonym sems = "nat \<Rightarrow> nat"

text \<open>\<open>semctl()\<close> with \<open>SETVAL\<close>, and \<open>semop()\<close> adding 1; \<open>ok\<close> says whether the call succeeds.\<close>

definition sem_setval :: "bool \<Rightarrow> nat \<Rightarrow> nat \<Rightarrow> sems \<Rightarrow> int \<times> sems" where
  "sem_setval ok semNum v sems = (if ok then (0, sems(semNum := v)) else (-1, sems))"

definition initSemAvailable :: "bool \<Rightarrow> nat \<Rightarrow> sems \<Rightarrow> int \<times> sems" where
  "initSemAvailable ok semNum sems = sem_setval ok semNum 1 sems"

definition initSemInUse :: "bool \<Rightarrow> nat \<Rightarrow> sems \<Rightarrow> int \<times> sems" where
  "initSemInUse ok semNum sems = sem_setval ok semNum 0 sems"

text \<open>
  \<open>reserveSem()\<close>: the list says how the next calls of \<open>semop()\<close> come back, \<open>None\<close> when the
  operation was done and \<open>Some e\<close> when it failed with \<open>errno\<close> \<open>e\<close>. At the end of the list the
  process is still blocked.
\<close>

fun reserveSem :: "bool \<Rightarrow> int option list \<Rightarrow> nat \<Rightarrow> sems \<Rightarrow> (int \<times> sems) option" where
  "reserveSem bsRetryOnEintr [] semNum sems = None"
| "reserveSem bsRetryOnEintr (None # rs) semNum sems = Some (0, sems(semNum := sems semNum - 1))"
| "reserveSem bsRetryOnEintr (Some e # rs) semNum sems =
     (if e \<noteq> EINTR \<or> \<not> bsRetryOnEintr then Some (-1, sems) else reserveSem bsRetryOnEintr rs semNum sems)"

definition releaseSem :: "bool \<Rightarrow> nat \<Rightarrow> sems \<Rightarrow> int \<times> sems" where
  "releaseSem ok semNum sems = (if ok then (0, sems(semNum := sems semNum + 1)) else (-1, sems))"

section \<open>Event flags\<close>

text \<open>
  \<open>svsem/event_flags.c\<close>: a flag is set when its semaphore is 0. \<open>waitForEventFlag()\<close> takes the
  outcomes of \<open>semop()\<close> as \<open>reserveSem()\<close> does; \<open>semctl()\<close> with \<open>GETVAL\<close> returns -1 or the value.
\<close>

fun waitForEventFlag :: "int option list \<Rightarrow> nat \<Rightarrow> sems \<Rightarrow> int option" where
  "waitForEventFlag [] semNum sems = None"
| "waitForEventFlag (None # rs) semNum sems = Some 0"
| "waitForEventFlag (Some e # rs) semNum sems = (if e \<noteq> EINTR then Some (-1) else waitForEventFlag rs semNum sems)"

definition clearEventFlag :: "bool \<Rightarrow> nat \<Rightarrow> sems \<Rightarrow> int \<times> sems" where
  "clearEventFlag ok semNum sems = sem_setval ok semNum 1 sems"

definition setEventFlag :: "bool \<Rightarrow> nat \<Rightarrow> sems \<Rightarrow> int \<times> sems" where
  "setEventFlag ok semNum sems = sem_setval ok semNum 0 sems"

text \<open>The result and the value of \<open>*isSet\<close> afterwards.\<close>

definition getFlagState :: "bool \<Rightarrow> nat \<Rightarrow> bool \<Rightarrow> sems \<Rightarrow> int \<times> bool" where
  "getFlagState ok semNum isSet sems =
     (let sem_val = (if ok then int (sems semNum) else -1)
      in if sem_val = -1 then (-1, isSet) else (0, sem_val = 0))"

lemma flag_state:
  "getFlagState True n b (snd (setEventFlag True n sems)) = (0, True)"
  "getFlagState True n b (snd (clearEventFlag True n sems)) = (0, False)"
  "m \<noteq> n \<Longrightarrow> getFlagState True m b (snd (setEventFlag ok n sems)) = getFlagState True m b sems"
  "m \<noteq> n \<Longrightarrow> getFlagState True m b (snd (clearEventFlag ok n sems)) = getFlagState True m b sems"
  by (simp_all add: getFlagState_def setEventFlag_def clearEventFlag_def sem_setval_def)

text \<open>Interruptions are transparent to both waiting functions.\<close>

lemma interrupted_waits:
  "waitForEventFlag (replicate k (Some EINTR) @ rs) n sems = waitForEventFlag rs n sems"
  "reserveSem True (replicate k (Some EINTR) @ rs) n sems = reserveSem True rs n sems"
  by (induction k) simp_all

section \<open>The two programs\<close>

definition WRITE_SEM :: nat where "WRITE_SEM = 0"
definition READ_SEM :: nat where "READ_SEM = 1"
definition XFR_BUF_SIZE :: nat where "XFR_BUF_SIZE = 1024"

text \<open>Positions in the code: the next thing the process does.\<close>

datatype writer_pc = W_Reserve | W_Read | W_Release | W_Test | W_Last | W_Remove | W_Shmdt | W_Rmshm | W_Done | W_Fail
datatype reader_pc = R_Reserve | R_Test | R_Write | R_Release | R_Detach | R_Last | R_Done | R_Fail

record xfr =
  x_sems :: sems
  x_cnt :: int
  x_buf :: string
  x_in :: "rd_event list"
  x_out :: string
  x_removed :: bool
  x_w :: writer_pc
  w_bytes :: int
  w_xfrs :: nat
  x_r :: reader_pc
  r_bytes :: int
  r_xfrs :: nat
  x_wdead :: bool
  x_rdead :: bool
  x_ub :: "stop option"

definition xfr_start :: "rd_event list \<Rightarrow> sems \<Rightarrow> string \<Rightarrow> xfr" where
  "xfr_start es sems0 buf =
     \<lparr>x_sems = snd (initSemInUse True READ_SEM (snd (initSemAvailable True WRITE_SEM sems0))), x_cnt = 0, x_buf = buf,
      x_in = es, x_out = [], x_removed = False, x_w = W_Reserve, w_bytes = 0, w_xfrs = 0,
      x_r = R_Reserve, r_bytes = 0, r_xfrs = 0, x_wdead = False, x_rdead = False, x_ub = None\<rparr>"

text \<open>
  The start of the two programs: which of their calls succeed, and the messages on standard error. The
  reader finds the objects only after the writer has made them.
\<close>

definition writer_setup :: "bool \<Rightarrow> bool \<Rightarrow> bool \<Rightarrow> bool \<Rightarrow> bool \<Rightarrow> rd_event list \<Rightarrow> sems \<Rightarrow> string \<Rightarrow> string list \<Rightarrow> (xfr, string list) outcome" where
  "writer_setup semget_ok avail_ok inuse_ok shmget_ok shmat_ok es sems0 buf err =
     (if \<not> semget_ok then Stop (Exit 1) (err @ [''semget''])
      else case initSemAvailable avail_ok WRITE_SEM sems0 of (r, sems1) \<Rightarrow>
        if r = -1 then Stop (Exit 1) (err @ [''initSemAvailable''])
        else case initSemInUse inuse_ok READ_SEM sems1 of (r, sems2) \<Rightarrow>
          if r = -1 then Stop (Exit 1) (err @ [''initSemInUse''])
          else if \<not> shmget_ok then Stop (Exit 1) (err @ [''shmget''])
          else if \<not> shmat_ok then Stop (Exit 1) (err @ [''shmat''])
          else Ret ((xfr_start es sems0 buf)\<lparr>x_sems := sems2\<rparr>) err)"

definition reader_setup :: "bool \<Rightarrow> bool \<Rightarrow> bool \<Rightarrow> string list \<Rightarrow> (unit, string list) outcome" where
  "reader_setup semget_ok shmget_ok shmat_ok err =
     (if \<not> semget_ok then Stop (Exit 1) (err @ [''semget''])
      else if \<not> shmget_ok then Stop (Exit 1) (err @ [''shmget''])
      else if \<not> shmat_ok then Stop (Exit 1) (err @ [''shmat''])
      else Ret () err)"

text \<open>The last messages.\<close>

definition writer_message :: "xfr \<Rightarrow> msg" where
  "writer_message s = (''Sent %d bytes (%d xfrs)\<newline>'', [ArgI (w_bytes s), ArgI (int (w_xfrs s))])"

definition reader_message :: "xfr \<Rightarrow> msg" where
  "reader_message s = (''Received %d bytes (%d xfrs)\<newline>'', [ArgI (r_bytes s), ArgI (int (r_xfrs s))])"

lemma writer_setup_start: "writer_setup b1 b2 b3 b4 b5 es sems0 buf err = Ret s t \<Longrightarrow> s = xfr_start es sems0 buf"
  by (auto simp: writer_setup_def xfr_start_def initSemAvailable_def initSemInUse_def sem_setval_def split: if_splits)

lemma setups_return:
  "wp (writer_setup b1 b2 b3 b4 b5 es sems0 buf err) (\<lambda>_ t. b1 \<and> b2 \<and> b3 \<and> b4 \<and> b5 \<and> t = err) (\<lambda>r _. r = Exit 1 \<and> \<not> (b1 \<and> b2 \<and> b3 \<and> b4 \<and> b5))"
  "wp (reader_setup b1 b2 b3 err) (\<lambda>_ t. b1 \<and> b2 \<and> b3 \<and> t = err) (\<lambda>r _. r = Exit 1 \<and> \<not> (b1 \<and> b2 \<and> b3))"
  by (auto simp: writer_setup_def reader_setup_def initSemAvailable_def initSemInUse_def sem_setval_def)

text \<open>
  A reservation that is not blocked forever: it takes place when the semaphore is positive,
  after any number of interruptions.
\<close>

definition reserve_now :: "nat \<Rightarrow> xfr \<Rightarrow> xfr option" where
  "reserve_now n s =
     (if 0 < x_sems s n then map_option (\<lambda>(r, sems). s\<lparr>x_sems := sems\<rparr>) (reserveSem True [None] n (x_sems s)) else None)"

text \<open>
  The writer; \<open>None\<close> if it is blocked or has ended. Both programs count bytes and transfers in an
  \<open>int\<close>; a count that does not fit is a signed overflow, noted in \<open>x_ub\<close>, and the model ends there.
\<close>

definition writer_act :: "xfr \<Rightarrow> xfr option" where
  "writer_act s =
     (case x_w s of
        W_Reserve \<Rightarrow> map_option (\<lambda>s. s\<lparr>x_w := W_Read\<rparr>) (reserve_now WRITE_SEM s)
      | W_Read \<Rightarrow>
          (case sys_read XFR_BUF_SIZE (x_in s) of (r, es) \<Rightarrow>
             Some (case r of
                     RdFail e \<Rightarrow> s\<lparr>x_in := es, x_cnt := -1, x_w := W_Fail\<rparr>
                   | Got x \<Rightarrow> s\<lparr>x_in := es, x_cnt := int (length x), x_buf := overlay (x_buf s) 0 x, x_w := W_Release\<rparr>))
      | W_Release \<Rightarrow> Some (s\<lparr>x_sems := snd (releaseSem True READ_SEM (x_sems s)), x_w := W_Test\<rparr>)
      | W_Test \<Rightarrow>
          Some (if x_cnt s = 0 then s\<lparr>x_w := W_Last\<rparr>
                else if \<not> fits_int (int (w_xfrs s) + 1) \<or> \<not> fits_int (w_bytes s + x_cnt s) then s\<lparr>x_ub := Some overflow\<rparr>
                else s\<lparr>w_xfrs := w_xfrs s + 1, w_bytes := w_bytes s + x_cnt s, x_w := W_Reserve\<rparr>)
      | W_Last \<Rightarrow> map_option (\<lambda>s. s\<lparr>x_w := W_Remove\<rparr>) (reserve_now WRITE_SEM s)
      | W_Remove \<Rightarrow> Some (s\<lparr>x_removed := True, x_w := W_Shmdt\<rparr>)
      | W_Shmdt \<Rightarrow> Some (s\<lparr>x_w := W_Rmshm\<rparr>)
      | W_Rmshm \<Rightarrow> Some (s\<lparr>x_w := W_Done\<rparr>)
      | W_Done \<Rightarrow> None
      | W_Fail \<Rightarrow> None)"

text \<open>The reader; \<open>k\<close> is the most \<open>write()\<close> takes.\<close>

definition reader_act :: "nat \<Rightarrow> xfr \<Rightarrow> xfr option" where
  "reader_act k s =
     (case x_r s of
        R_Reserve \<Rightarrow> map_option (\<lambda>s. s\<lparr>x_r := R_Test\<rparr>) (reserve_now READ_SEM s)
      | R_Test \<Rightarrow>
          Some (if x_cnt s = 0 then s\<lparr>x_r := R_Detach\<rparr>
                else if \<not> fits_int (r_bytes s + x_cnt s) then s\<lparr>x_ub := Some overflow\<rparr>
                else s\<lparr>r_bytes := r_bytes s + x_cnt s, x_r := R_Write\<rparr>)
      | R_Write \<Rightarrow>
          (let x = take k (take (nat (x_cnt s)) (x_buf s)); s = s\<lparr>x_out := x_out s @ x\<rparr>
           in Some (if int (length x) \<noteq> x_cnt s then s\<lparr>x_r := R_Fail\<rparr> else s\<lparr>x_r := R_Release\<rparr>))
      | R_Release \<Rightarrow>
          (let s = s\<lparr>x_sems := snd (releaseSem True WRITE_SEM (x_sems s)), x_r := R_Reserve\<rparr>
           in Some (if fits_int (int (r_xfrs s) + 1) then s\<lparr>r_xfrs := r_xfrs s + 1\<rparr> else s\<lparr>x_ub := Some overflow\<rparr>))
      | R_Detach \<Rightarrow> Some (s\<lparr>x_r := R_Last\<rparr>)
      | R_Last \<Rightarrow> Some (s\<lparr>x_sems := snd (releaseSem True WRITE_SEM (x_sems s)), x_r := R_Done\<rparr>)
      | R_Done \<Rightarrow> None
      | R_Fail \<Rightarrow> None)"

text \<open>
  A call on a semaphore or on the segment may also fail (\<open>ok\<close> is false); then the process ends
  at that place by \<open>errExit()\<close>.
\<close>

definition writer_step :: "bool \<Rightarrow> xfr \<Rightarrow> xfr option" where
  "writer_step ok s =
     (if x_wdead s \<or> x_ub s \<noteq> None then None
      else if \<not> ok \<and> x_w s \<in> {W_Reserve, W_Release, W_Last, W_Remove, W_Shmdt, W_Rmshm} then Some (s\<lparr>x_wdead := True\<rparr>)
      else writer_act s)"

definition reader_step :: "bool \<Rightarrow> nat \<Rightarrow> xfr \<Rightarrow> xfr option" where
  "reader_step ok k s =
     (if x_rdead s \<or> x_ub s \<noteq> None then None
      else if \<not> ok \<and> x_r s \<in> {R_Reserve, R_Release, R_Detach, R_Last} then Some (s\<lparr>x_rdead := True\<rparr>)
      else reader_act k s)"

inductive runs :: "rd_event list \<Rightarrow> string \<Rightarrow> xfr \<Rightarrow> bool" for es buf where
  start: "runs es buf (xfr_start es sems0 buf)"
| writer: "runs es buf s \<Longrightarrow> writer_step ok s = Some t \<Longrightarrow> runs es buf t"
| reader: "runs es buf s \<Longrightarrow> reader_step ok k s = Some t \<Longrightarrow> runs es buf t"

section \<open>The invariant\<close>

text \<open>
  How the positions of the two processes and the semaphores go together: \<open>u\<close> and \<open>v\<close> are the
  values of the writer's and the reader's semaphore, \<open>z\<close> says that the count is 0.
\<close>

definition phase :: "writer_pc \<Rightarrow> reader_pc \<Rightarrow> nat \<Rightarrow> nat \<Rightarrow> bool \<Rightarrow> bool" where
  "phase w r u v z =
     (case r of
        R_Reserve \<Rightarrow>
          (case w of
             W_Reserve \<Rightarrow> u = 1 \<and> v = 0 \<or> u = 0 \<and> v = 1 \<and> \<not> z
           | W_Read \<Rightarrow> u = 0 \<and> v = 0
           | W_Release \<Rightarrow> u = 0 \<and> v = 0
           | W_Test \<Rightarrow> u = 0 \<and> v = 1 \<or> u = 1 \<and> v = 0 \<and> \<not> z
           | W_Last \<Rightarrow> u = 0 \<and> v = 1 \<and> z
           | W_Remove \<Rightarrow> False
           | W_Shmdt \<Rightarrow> False
           | W_Rmshm \<Rightarrow> False
           | W_Done \<Rightarrow> False
           | W_Fail \<Rightarrow> u = 0 \<and> v = 0)
      | R_Test \<Rightarrow> u = 0 \<and> v = 0 \<and> (w = W_Test \<or> w = W_Reserve \<and> \<not> z \<or> w = W_Last \<and> z)
      | R_Write \<Rightarrow> u = 0 \<and> v = 0 \<and> \<not> z \<and> w \<in> {W_Test, W_Reserve}
      | R_Release \<Rightarrow> u = 0 \<and> v = 0 \<and> \<not> z \<and> w \<in> {W_Test, W_Reserve}
      | R_Fail \<Rightarrow> u = 0 \<and> v = 0 \<and> \<not> z \<and> w \<in> {W_Test, W_Reserve}
      | R_Detach \<Rightarrow> u = 0 \<and> v = 0 \<and> z \<and> w \<in> {W_Test, W_Last}
      | R_Last \<Rightarrow> u = 0 \<and> v = 0 \<and> z \<and> w \<in> {W_Test, W_Last}
      | R_Done \<Rightarrow> z \<and> (u = 1 \<and> v = 0 \<and> w \<in> {W_Test, W_Last} \<or> u = 0 \<and> v = 0 \<and> w \<in> {W_Remove, W_Shmdt, W_Rmshm, W_Done}))"

abbreviation phase_of :: "xfr \<Rightarrow> bool" where
  "phase_of s \<equiv> phase (x_w s) (x_r s) (x_sems s WRITE_SEM) (x_sems s READ_SEM) (x_cnt s = 0)"

lemma sem_numbers [simp]: "WRITE_SEM \<noteq> READ_SEM" "READ_SEM \<noteq> WRITE_SEM"
  by (simp_all add: WRITE_SEM_def READ_SEM_def)

lemma reserve_now_Some: "reserve_now n s = Some t \<longleftrightarrow> 0 < x_sems s n \<and> t = s\<lparr>x_sems := (x_sems s)(n := x_sems s n - 1)\<rparr>"
  by (auto simp: reserve_now_def)

lemma sys_read_any:
  "0 < n \<Longrightarrow> sys_read n es = (Got x, es') \<Longrightarrow> bytes es = x @ bytes es' \<and> length x \<le> n"
  "0 < n \<Longrightarrow> sys_read n es = (RdFail e, es') \<Longrightarrow> bytes es' = bytes es"
  by (cases "(n, es)" rule: sys_read.cases; auto split: if_splits)+

lemma buf_size_pos: "0 < XFR_BUF_SIZE"
  by (simp add: XFR_BUF_SIZE_def)

text \<open>The steps of the writer and the reader, one equation and one rule for each position.\<close>

lemma writer_at:
  "x_w s = W_Reserve \<Longrightarrow> writer_act s = map_option (\<lambda>s. s\<lparr>x_w := W_Read\<rparr>) (reserve_now WRITE_SEM s)"
  "x_w s = W_Release \<Longrightarrow> writer_act s = Some (s\<lparr>x_sems := (x_sems s)(READ_SEM := x_sems s READ_SEM + 1), x_w := W_Test\<rparr>)"
  "x_w s = W_Test \<Longrightarrow> writer_act s = Some (if x_cnt s = 0 then s\<lparr>x_w := W_Last\<rparr>
     else if \<not> fits_int (int (w_xfrs s) + 1) \<or> \<not> fits_int (w_bytes s + x_cnt s) then s\<lparr>x_ub := Some overflow\<rparr>
     else s\<lparr>w_xfrs := w_xfrs s + 1, w_bytes := w_bytes s + x_cnt s, x_w := W_Reserve\<rparr>)"
  "x_w s = W_Last \<Longrightarrow> writer_act s = map_option (\<lambda>s. s\<lparr>x_w := W_Remove\<rparr>) (reserve_now WRITE_SEM s)"
  "x_w s = W_Remove \<Longrightarrow> writer_act s = Some (s\<lparr>x_removed := True, x_w := W_Shmdt\<rparr>)"
  "x_w s = W_Shmdt \<Longrightarrow> writer_act s = Some (s\<lparr>x_w := W_Rmshm\<rparr>)" "x_w s = W_Rmshm \<Longrightarrow> writer_act s = Some (s\<lparr>x_w := W_Done\<rparr>)"
  "x_w s = W_Done \<Longrightarrow> writer_act s = None" "x_w s = W_Fail \<Longrightarrow> writer_act s = None"
  "x_w s = W_Read \<Longrightarrow> sys_read XFR_BUF_SIZE (x_in s) = (Got x, es) \<Longrightarrow> writer_act s =
     Some (s\<lparr>x_in := es, x_cnt := int (length x), x_buf := overlay (x_buf s) 0 x, x_w := W_Release\<rparr>)"
  "x_w s = W_Read \<Longrightarrow> sys_read XFR_BUF_SIZE (x_in s) = (RdFail e, es) \<Longrightarrow> writer_act s =
     Some (s\<lparr>x_in := es, x_cnt := -1, x_w := W_Fail\<rparr>)"
  by (simp_all add: writer_act_def releaseSem_def)

lemma reader_at:
  "x_r s = R_Reserve \<Longrightarrow> reader_act k s = map_option (\<lambda>s. s\<lparr>x_r := R_Test\<rparr>) (reserve_now READ_SEM s)"
  "x_r s = R_Test \<Longrightarrow> reader_act k s = Some (if x_cnt s = 0 then s\<lparr>x_r := R_Detach\<rparr>
     else if \<not> fits_int (r_bytes s + x_cnt s) then s\<lparr>x_ub := Some overflow\<rparr>
     else s\<lparr>r_bytes := r_bytes s + x_cnt s, x_r := R_Write\<rparr>)"
  "x_r s = R_Write \<Longrightarrow> reader_act k s = (let x = take k (take (nat (x_cnt s)) (x_buf s)) in
     Some (if int (length x) \<noteq> x_cnt s then s\<lparr>x_out := x_out s @ x, x_r := R_Fail\<rparr>
           else s\<lparr>x_out := x_out s @ x, x_r := R_Release\<rparr>))"
  "x_r s = R_Release \<Longrightarrow> reader_act k s = Some (if fits_int (int (r_xfrs s) + 1)
     then s\<lparr>x_sems := (x_sems s)(WRITE_SEM := x_sems s WRITE_SEM + 1), r_xfrs := r_xfrs s + 1, x_r := R_Reserve\<rparr>
     else s\<lparr>x_sems := (x_sems s)(WRITE_SEM := x_sems s WRITE_SEM + 1), x_r := R_Reserve, x_ub := Some overflow\<rparr>)"
  "x_r s = R_Detach \<Longrightarrow> reader_act k s = Some (s\<lparr>x_r := R_Last\<rparr>)"
  "x_r s = R_Last \<Longrightarrow> reader_act k s = Some (s\<lparr>x_sems := (x_sems s)(WRITE_SEM := x_sems s WRITE_SEM + 1), x_r := R_Done\<rparr>)"
  "x_r s = R_Done \<Longrightarrow> reader_act k s = None" "x_r s = R_Fail \<Longrightarrow> reader_act k s = None"
  by (simp_all add: reader_act_def releaseSem_def Let_def)

lemma writer_act_cases:
  assumes step: "writer_act s = Some t"
  obtains
    (reserve) "x_w s = W_Reserve" "0 < x_sems s WRITE_SEM"
      "t = s\<lparr>x_sems := (x_sems s)(WRITE_SEM := x_sems s WRITE_SEM - 1), x_w := W_Read\<rparr>"
  | (read) x es where "x_w s = W_Read" "sys_read XFR_BUF_SIZE (x_in s) = (Got x, es)"
      "t = s\<lparr>x_in := es, x_cnt := int (length x), x_buf := overlay (x_buf s) 0 x, x_w := W_Release\<rparr>"
  | (fail) e es where "x_w s = W_Read" "sys_read XFR_BUF_SIZE (x_in s) = (RdFail e, es)"
      "t = s\<lparr>x_in := es, x_cnt := -1, x_w := W_Fail\<rparr>"
  | (release) "x_w s = W_Release" "t = s\<lparr>x_sems := (x_sems s)(READ_SEM := x_sems s READ_SEM + 1), x_w := W_Test\<rparr>"
  | (eof) "x_w s = W_Test" "x_cnt s = 0" "t = s\<lparr>x_w := W_Last\<rparr>"
  | (overflow) "x_w s = W_Test" "x_cnt s \<noteq> 0" "\<not> fits_int (int (w_xfrs s) + 1) \<or> \<not> fits_int (w_bytes s + x_cnt s)"
      "t = s\<lparr>x_ub := Some overflow\<rparr>"
  | (again) "x_w s = W_Test" "x_cnt s \<noteq> 0" "t = s\<lparr>w_xfrs := w_xfrs s + 1, w_bytes := w_bytes s + x_cnt s, x_w := W_Reserve\<rparr>"
  | (last) "x_w s = W_Last" "0 < x_sems s WRITE_SEM"
      "t = s\<lparr>x_sems := (x_sems s)(WRITE_SEM := x_sems s WRITE_SEM - 1), x_w := W_Remove\<rparr>"
  | (remove) "x_w s = W_Remove" "t = s\<lparr>x_removed := True, x_w := W_Shmdt\<rparr>"
  | (shmdt) "x_w s = W_Shmdt" "t = s\<lparr>x_w := W_Rmshm\<rparr>"
  | (rmshm) "x_w s = W_Rmshm" "t = s\<lparr>x_w := W_Done\<rparr>"
proof (cases "x_w s")
  case W_Read
  obtain r es where r: "sys_read XFR_BUF_SIZE (x_in s) = (r, es)" by fastforce
  show ?thesis
  proof (cases r)
    case (Got x)
    with step r W_Read show ?thesis by (intro read [of x es]) (simp_all add: writer_at)
  next
    case (RdFail e)
    with step r W_Read show ?thesis by (intro fail [of e es]) (simp_all add: writer_at)
  qed
next
  case W_Reserve
  with step show ?thesis by (intro reserve) (auto simp: writer_at reserve_now_Some)
next
  case W_Release
  with step show ?thesis by (intro release) (simp_all add: writer_at)
next
  case W_Test
  show ?thesis
  proof (cases "x_cnt s = 0")
    case True
    with step W_Test show ?thesis by (intro eof) (simp_all add: writer_at)
  next
    case False
    with step W_Test show ?thesis
      by (cases "fits_int (int (w_xfrs s) + 1) \<and> fits_int (w_bytes s + x_cnt s)") (simp_all add: writer_at again overflow)
  qed
next
  case W_Last
  with step show ?thesis by (intro last) (auto simp: writer_at reserve_now_Some)
next
  case W_Remove
  with step show ?thesis by (intro remove) (simp_all add: writer_at)
next
  case W_Shmdt
  with step show ?thesis by (intro shmdt) (simp_all add: writer_at)
next
  case W_Rmshm
  with step show ?thesis by (intro rmshm) (simp_all add: writer_at)
next
  case W_Done
  with step show ?thesis by (simp add: writer_at)
next
  case W_Fail
  with step show ?thesis by (simp add: writer_at)
qed

lemma reader_act_cases:
  assumes step: "reader_act k s = Some t"
  obtains
    (reserve) "x_r s = R_Reserve" "0 < x_sems s READ_SEM"
      "t = s\<lparr>x_sems := (x_sems s)(READ_SEM := x_sems s READ_SEM - 1), x_r := R_Test\<rparr>"
  | (eof) "x_r s = R_Test" "x_cnt s = 0" "t = s\<lparr>x_r := R_Detach\<rparr>"
  | (overflow) "x_r s = R_Test" "x_cnt s \<noteq> 0" "\<not> fits_int (r_bytes s + x_cnt s)" "t = s\<lparr>x_ub := Some overflow\<rparr>"
  | (block) "x_r s = R_Test" "x_cnt s \<noteq> 0" "t = s\<lparr>r_bytes := r_bytes s + x_cnt s, x_r := R_Write\<rparr>"
  | (fail) x where "x_r s = R_Write" "x = take k (take (nat (x_cnt s)) (x_buf s))" "t = s\<lparr>x_out := x_out s @ x, x_r := R_Fail\<rparr>"
  | (wrote) x where "x_r s = R_Write" "x = take k (take (nat (x_cnt s)) (x_buf s))" "int (length x) = x_cnt s"
      "t = s\<lparr>x_out := x_out s @ x, x_r := R_Release\<rparr>"
  | (release) "x_r s = R_Release"
      "t = s\<lparr>x_sems := (x_sems s)(WRITE_SEM := x_sems s WRITE_SEM + 1), r_xfrs := r_xfrs s + 1, x_r := R_Reserve\<rparr>"
  | (late) "x_r s = R_Release" "\<not> fits_int (int (r_xfrs s) + 1)"
      "t = s\<lparr>x_sems := (x_sems s)(WRITE_SEM := x_sems s WRITE_SEM + 1), x_r := R_Reserve, x_ub := Some overflow\<rparr>"
  | (detach) "x_r s = R_Detach" "t = s\<lparr>x_r := R_Last\<rparr>"
  | (last) "x_r s = R_Last" "t = s\<lparr>x_sems := (x_sems s)(WRITE_SEM := x_sems s WRITE_SEM + 1), x_r := R_Done\<rparr>"
proof (cases "x_r s")
  case R_Reserve
  with step show ?thesis by (intro reserve) (auto simp: reader_at reserve_now_Some)
next
  case R_Test
  show ?thesis
  proof (cases "x_cnt s = 0")
    case True
    with step R_Test show ?thesis by (intro eof) (simp_all add: reader_at)
  next
    case False
    with step R_Test show ?thesis by (cases "fits_int (r_bytes s + x_cnt s)") (simp_all add: reader_at block overflow)
  qed
next
  case R_Write
  with step fail [OF R_Write refl] wrote [OF R_Write refl] show ?thesis
    by (cases "int (length (take k (take (nat (x_cnt s)) (x_buf s)))) = x_cnt s") (simp_all add: reader_at Let_def)
next
  case R_Release
  with step show ?thesis by (cases "fits_int (int (r_xfrs s) + 1)") (simp_all add: reader_at release late)
next
  case R_Detach
  with step show ?thesis by (intro detach) (simp_all add: reader_at)
next
  case R_Last
  with step show ?thesis by (intro last) (simp_all add: reader_at)
next
  case R_Done
  with step show ?thesis by (simp add: reader_at)
next
  case R_Fail
  with step show ?thesis by (simp add: reader_at)
qed

lemma phase_writer:
  assumes "phase_of s" "writer_act s = Some t"
  shows "phase_of t"
  using assms(2,1)
  by (cases rule: writer_act_cases; cases "x_r s"; simp add: phase_def; fastforce)

lemma phase_reader:
  assumes "phase_of s" "reader_act k s = Some t"
  shows "phase_of t"
  using assms(2,1)
  by (cases rule: reader_act_cases; cases "x_w s"; simp add: phase_def; fastforce)

text \<open>The block in the segment that the reader has not written yet, and the data so far.\<close>

definition full :: "xfr \<Rightarrow> bool" where
  "full s \<longleftrightarrow> x_w s = W_Release \<or> 0 < x_sems s READ_SEM \<or> x_r s \<in> {R_Test, R_Write}"

definition block :: "xfr \<Rightarrow> string" where
  "block s = (if full s then take (nat (x_cnt s)) (x_buf s) else [])"

definition segment_ok :: "xfr \<Rightarrow> bool" where
  "segment_ok s \<longleftrightarrow> length (x_buf s) = XFR_BUF_SIZE \<and> x_cnt s \<le> int XFR_BUF_SIZE \<and> (x_w s \<noteq> W_Fail \<longrightarrow> 0 \<le> x_cnt s)"

definition copied :: "string \<Rightarrow> xfr \<Rightarrow> bool" where
  "copied X s \<longleftrightarrow> (if x_r s = R_Fail then \<exists>y. X = x_out s @ y else X = x_out s @ block s @ bytes (x_in s))"

definition counted :: "xfr \<Rightarrow> bool" where
  "counted s \<longleftrightarrow> x_r s \<noteq> R_Fail \<and> x_w s \<noteq> W_Fail \<longrightarrow>
     r_bytes s = int (length (x_out s)) + (if x_r s = R_Write then x_cnt s else 0) \<and>
     w_bytes s + (if x_w s \<in> {W_Release, W_Test} then x_cnt s else 0) = int (length (x_out s @ block s))"

definition ended :: "xfr \<Rightarrow> bool" where
  "ended s \<longleftrightarrow> x_cnt s = 0 \<and> x_w s \<in> {W_Release, W_Test, W_Last, W_Remove, W_Shmdt, W_Rmshm, W_Done} \<longrightarrow> bytes (x_in s) = []"

lemma phase_Read: "phase W_Read r u v z \<Longrightarrow> r = R_Reserve \<and> u = 0 \<and> v = 0"
  by (cases r) (simp_all add: phase_def)

lemma segment_writer: "phase_of s \<Longrightarrow> segment_ok s \<Longrightarrow> writer_act s = Some t \<Longrightarrow> segment_ok t"
  by (erule writer_act_cases) (use sys_read_any(1) [OF buf_size_pos, of "x_in s"] in \<open>auto simp: segment_ok_def\<close>)

lemma segment_reader: "segment_ok s \<Longrightarrow> reader_act k s = Some t \<Longrightarrow> segment_ok t"
  by (erule reader_act_cases) (simp_all add: segment_ok_def)

lemma copied_writer:
  assumes "phase_of s" "segment_ok s" "copied X s" "counted s" "writer_act s = Some t"
  shows "copied X t \<and> counted t"
  using assms(5)
proof (cases rule: writer_act_cases)
  case (read x es)
  then have "x_r s = R_Reserve" "x_sems s READ_SEM = 0" using phase_Read assms(1) by auto
  then show ?thesis
    using read assms(2-4) sys_read_any(1) [OF buf_size_pos read(2)]
    by (auto simp: copied_def counted_def block_def full_def overlay_def segment_ok_def)
next
  case (fail e es)
  then have "x_r s = R_Reserve" "x_sems s READ_SEM = 0" using phase_Read assms(1) by auto
  then show ?thesis
    using fail assms(3,4) sys_read_any(2) [OF buf_size_pos fail(2)]
    by (auto simp: copied_def counted_def block_def full_def)
next
  case last
  then have "x_cnt s = 0" using assms(1) by (cases "x_r s") (auto simp: phase_def)
  with last show ?thesis using assms(3,4) by (auto simp: copied_def counted_def block_def full_def)
qed (use assms(3,4) in \<open>auto simp: copied_def counted_def block_def full_def split: if_splits\<close>)

lemma copied_reader:
  assumes "phase_of s" "segment_ok s" "copied X s" "counted s" "reader_act k s = Some t"
  shows "copied X t \<and> counted t"
  using assms(5)
proof (cases rule: reader_act_cases)
  case (fail x)
  then have "take (nat (x_cnt s)) (x_buf s) = x @ drop k (take (nat (x_cnt s)) (x_buf s))"
    by (simp only: append_take_drop_id)
  then obtain y where "take (nat (x_cnt s)) (x_buf s) = x @ y" by blast
  with fail show ?thesis using assms(3) by (auto simp: copied_def counted_def block_def full_def)
next
  case (wrote x)
  have w: "x_sems s READ_SEM = 0" "x_w s \<noteq> W_Release" "x_w s \<noteq> W_Fail"
    using assms(1) wrote(1) by (cases "x_w s"; simp add: phase_def)+
  have "length (take (nat (x_cnt s)) (x_buf s)) = nat (x_cnt s)" using assms(2) w(3) by (auto simp: segment_ok_def)
  then have "length (take (nat (x_cnt s)) (x_buf s)) \<le> k" using wrote(2,3) by auto
  then have "x = take (nat (x_cnt s)) (x_buf s)" using wrote(2) by (simp only: take_all)
  then have "block s = x" "block t = []" using wrote w by (simp_all add: block_def full_def)
  with wrote w(3) show ?thesis using assms(3,4) by (auto simp: copied_def counted_def split: if_splits)
next
  case reserve
  then have "x_sems s READ_SEM = 1" using assms(1) by (cases "x_w s") (auto simp: phase_def)
  with reserve show ?thesis using assms(3,4) by (auto simp: copied_def counted_def block_def full_def)
next
  case eof
  then show ?thesis using assms(3,4) by (auto simp: copied_def counted_def block_def full_def split: if_splits)
qed (use assms(3,4) in \<open>auto simp: copied_def counted_def block_def full_def\<close>)

lemma ended_writer:
  assumes "ended s" "live (x_in s)" "writer_act s = Some t"
  shows "ended t \<and> live (x_in t)"
  using assms(3)
proof (cases rule: writer_act_cases)
  case (read x es)
  then show ?thesis
    using sys_read_live(1,2) [OF assms(2) buf_size_pos read(2)] by (auto simp: ended_def)
next
  case (fail e es)
  then show ?thesis using sys_read_live(1) [OF assms(2) buf_size_pos fail(2)] by (simp add: ended_def)
qed (use assms(1,2) in \<open>auto simp: ended_def\<close>)

lemma ended_reader: "ended s \<Longrightarrow> live (x_in s) \<Longrightarrow> reader_act k s = Some t \<Longrightarrow> ended t \<and> live (x_in t)"
  by (erule reader_act_cases) (simp_all add: ended_def)

abbreviation removed_pcs :: "writer_pc set" where
  "removed_pcs \<equiv> {W_Shmdt, W_Rmshm, W_Done}"

lemma removed_writer: "(x_removed s \<longrightarrow> x_w s \<in> removed_pcs) \<Longrightarrow> writer_act s = Some t \<Longrightarrow> x_removed t \<longrightarrow> x_w t \<in> removed_pcs"
  by (erule writer_act_cases) auto

lemma removed_reader: "(x_removed s \<longrightarrow> x_w s \<in> removed_pcs) \<Longrightarrow> reader_act k s = Some t \<Longrightarrow> x_removed t \<longrightarrow> x_w t \<in> removed_pcs"
  by (erule reader_act_cases) auto

text \<open>A step is an action, or the end of the process at a failing call.\<close>

lemma writer_step_act:
  "writer_step ok s = Some t \<Longrightarrow> writer_act s = Some t \<or> t = s\<lparr>x_wdead := True\<rparr>"
  by (auto simp: writer_step_def split: if_splits)

lemma reader_step_act:
  "reader_step ok k s = Some t \<Longrightarrow> reader_act k s = Some t \<or> t = s\<lparr>x_rdead := True\<rparr>"
  by (auto simp: reader_step_def split: if_splits)

lemma dead_simps [simp]:
  "segment_ok (s\<lparr>x_wdead := b\<rparr>) = segment_ok s" "segment_ok (s\<lparr>x_rdead := b\<rparr>) = segment_ok s"
  "copied X (s\<lparr>x_wdead := b\<rparr>) = copied X s" "copied X (s\<lparr>x_rdead := b\<rparr>) = copied X s"
  "counted (s\<lparr>x_wdead := b\<rparr>) = counted s" "counted (s\<lparr>x_rdead := b\<rparr>) = counted s"
  "ended (s\<lparr>x_wdead := b\<rparr>) = ended s" "ended (s\<lparr>x_rdead := b\<rparr>) = ended s"
  by (simp_all add: segment_ok_def copied_def counted_def block_def full_def ended_def)

text \<open>
  The counters stay within the length of the input; every transfer has at least one byte. So
  they do not overflow while the input is shorter than \<open>2 ^ 31\<close> bytes.
\<close>

definition tallied :: "string \<Rightarrow> xfr \<Rightarrow> bool" where
  "tallied X s \<longleftrightarrow>
     w_bytes s + (if x_w s \<in> {W_Release, W_Test} then x_cnt s else 0) + int (length (bytes (x_in s))) = int (length X) \<and>
     int (w_xfrs s) \<le> w_bytes s \<and>
     int (r_xfrs s) + (if x_r s \<in> {R_Write, R_Release} then 1 else 0) \<le> r_bytes s"

lemma tallied_writer:
  assumes "phase_of s" "segment_ok s" "tallied X s" "writer_act s = Some t"
  shows "tallied X t"
  using assms(4)
proof (cases rule: writer_act_cases)
  case (read x es)
  then show ?thesis using assms(3) sys_read_any(1) [OF buf_size_pos read(2)] by (auto simp: tallied_def)
next
  case (fail e es)
  then show ?thesis using assms(3) sys_read_any(2) [OF buf_size_pos fail(2)] by (auto simp: tallied_def)
qed (use assms(2,3) in \<open>auto simp: tallied_def segment_ok_def\<close>)

lemma tallied_reader:
  assumes "phase_of s" "segment_ok s" "tallied X s" "reader_act k s = Some t"
  shows "tallied X t"
  using assms(4)
proof (cases rule: reader_act_cases)
  case block
  then have "x_w s \<noteq> W_Fail" using assms(1) by (auto simp: phase_def)
  then show ?thesis using block assms(2,3) by (auto simp: tallied_def segment_ok_def)
qed (use assms(3) in \<open>auto simp: tallied_def\<close>)

lemma no_overflow_writer:
  assumes "tallied X s" "segment_ok s" "int (length X) < 2 ^ 31" "x_ub s = None" "writer_act s = Some t"
  shows "x_ub t = None"
  using assms(5)
proof (cases rule: writer_act_cases)
  case overflow
  then show ?thesis using assms(1-3) by (auto simp: tallied_def segment_ok_def fits_int_def)
qed (use assms(4) in auto)

lemma no_overflow_reader:
  assumes "phase_of s" "tallied X s" "segment_ok s" "copied X s" "counted s" "int (length X) < 2 ^ 31"
    and "x_ub s = None" "reader_act k s = Some t"
  shows "x_ub t = None"
  using assms(8)
proof (cases rule: reader_act_cases)
  case overflow
  then have "x_w s \<noteq> W_Fail" using assms(1) by (auto simp: phase_def)
  moreover have "length (x_out s @ block s) \<le> length X" using overflow(1) assms(4) by (simp add: copied_def)
  ultimately show ?thesis
    using overflow assms(3,5,6) by (auto simp: counted_def segment_ok_def block_def full_def fits_int_def)
next
  case late
  then have "x_w s \<noteq> W_Fail" using assms(1) by (auto simp: phase_def)
  moreover have "length (x_out s) \<le> length X" using late(1) assms(4) by (simp add: copied_def)
  ultimately show ?thesis using late assms(2,5,6) by (auto simp: counted_def tallied_def fits_int_def)
qed (use assms(7) in auto)

text \<open>All together, for a segment of the right size.\<close>

lemma runs_invariant:
  assumes "runs es buf s" "length buf = XFR_BUF_SIZE"
  shows "phase_of s \<and> segment_ok s \<and> copied (bytes es) s \<and> counted s \<and> (x_removed s \<longrightarrow> x_w s \<in> removed_pcs)"
  using assms
proof (induction rule: runs.induct)
  case (start sems0)
  then show ?case
    by (simp add: xfr_start_def phase_def segment_ok_def copied_def counted_def block_def full_def
        initSemAvailable_def initSemInUse_def sem_setval_def)
next
  case (writer s ok t)
  from writer_step_act [OF writer.hyps(2)] show ?case
  proof
    assume "writer_act s = Some t"
    then show ?thesis
      using phase_writer [of s t] segment_writer [of s t] copied_writer [of s "bytes es" t] removed_writer [of s t] writer by blast
  qed (use writer in simp)
next
  case (reader s ok k t)
  from reader_step_act [OF reader.hyps(2)] show ?case
  proof
    assume "reader_act k s = Some t"
    then show ?thesis
      using phase_reader [of s k t] segment_reader [of s k t] copied_reader [of s "bytes es" k t] removed_reader [of s k t] reader by blast
  qed (use reader in simp)
qed

lemma runs_no_overflow:
  assumes "runs es buf s" "length buf = XFR_BUF_SIZE"
  shows "tallied (bytes es) s \<and> (length (bytes es) < 2 ^ 31 \<longrightarrow> x_ub s = None)"
  using assms
proof (induction rule: runs.induct)
  case (start sems0)
  then show ?case by (simp add: xfr_start_def tallied_def)
next
  case (writer s ok t)
  note inv = runs_invariant [OF writer.hyps(1) writer.prems]
  from writer_step_act [OF writer.hyps(2)] show ?case
  proof
    assume "writer_act s = Some t"
    then show ?thesis
      using tallied_writer [of s "bytes es" t] no_overflow_writer [of "bytes es" s t] inv writer by simp
  qed (use writer in \<open>auto simp: tallied_def\<close>)
next
  case (reader s ok k t)
  note inv = runs_invariant [OF reader.hyps(1) reader.prems]
  from reader_step_act [OF reader.hyps(2)] show ?case
  proof
    assume "reader_act k s = Some t"
    then show ?thesis
      using tallied_reader [of s "bytes es" k t] no_overflow_reader [of s "bytes es" k t] inv reader by simp
  qed (use reader in \<open>auto simp: tallied_def\<close>)
qed

lemma runs_ended: "runs es buf s \<Longrightarrow> live es \<Longrightarrow> ended s \<and> live (x_in s)"
proof (induction rule: runs.induct)
  case (start sems0)
  then show ?case by (simp add: xfr_start_def ended_def)
next
  case (writer s ok t)
  then show ?case using writer_step_act [OF writer.hyps(2)] ended_writer [of s t] by fastforce
next
  case (reader s ok k t)
  then show ?case using reader_step_act [OF reader.hyps(2)] ended_reader [of s k t] by fastforce
qed

section \<open>Properties\<close>

text \<open>
  C12: the semaphores give the writer and the reader exclusive, alternating access. In every
  interleaving, when the writer is about to read a block into the shared segment the reader
  is waiting for its turn, so the block it copies cannot change under it; and the writer
  removes the semaphores only after the reader has done its last operation on them.
\<close>

theorem xfr_exclusive:
  assumes "runs es buf s" "length buf = XFR_BUF_SIZE"
  shows "(x_w s = W_Read \<longrightarrow> x_r s = R_Reserve \<and> x_sems s READ_SEM = 0) \<and> (x_removed s \<longrightarrow> x_r s = R_Done) \<and>
    x_sems s WRITE_SEM \<le> 1 \<and> x_sems s READ_SEM \<le> 1"
proof -
  have p: "phase_of s" "x_removed s \<longrightarrow> x_w s \<in> removed_pcs" using runs_invariant [OF assms] by auto
  have "x_w s \<in> removed_pcs \<longrightarrow> x_r s = R_Done" "x_sems s WRITE_SEM \<le> 1 \<and> x_sems s READ_SEM \<le> 1"
    using p(1) by (cases "x_r s"; cases "x_w s"; auto simp: phase_def)+
  moreover have "x_w s = W_Read \<longrightarrow> x_r s = R_Reserve \<and> x_sems s READ_SEM = 0" using p(1) phase_Read by metis
  ultimately show ?thesis using p(2) by blast
qed

text \<open>A short transfer: the writer sends one block of three bytes.\<close>

lemma sample_start: "runs [Piece ''abc''] (replicate 1024 CHR 0x00) (xfr_start [Piece ''abc''] (\<lambda>_. 0) (replicate 1024 CHR 0x00))"
  by (rule runs.start)

lemma sample_buf: "length (replicate 1024 CHR 0x00) = XFR_BUF_SIZE"
  by (simp add: XFR_BUF_SIZE_def)

text \<open>Runs with a given schedule: \<open>True\<close> for a step of the writer.\<close>

fun exec :: "bool list \<Rightarrow> xfr \<Rightarrow> xfr option" where
  "exec [] s = Some s"
| "exec (b # bs) s = (case (if b then writer_step True s else reader_step True XFR_BUF_SIZE s) of None \<Rightarrow> None | Some t \<Rightarrow> exec bs t)"

lemma exec_runs: "runs es buf s \<Longrightarrow> exec bs s = Some t \<Longrightarrow> runs es buf t"
  by (induction bs arbitrary: s) (auto split: option.splits if_splits intro: runs.writer runs.reader)

definition sample_schedule :: "bool list" where
  "sample_schedule = replicate 4 True @ replicate 4 False @ replicate 4 True @ replicate 4 False @ replicate 4 True"

theorem xfr_exclusive_witness:
  "case exec [True] (xfr_start [Piece ''abc''] (\<lambda>_. 0) (replicate 1024 CHR 0x00)) of
     None \<Rightarrow> False | Some s \<Rightarrow> x_w s = W_Read \<and> x_r s = R_Reserve \<and> x_sems s READ_SEM = 0"
proof -
  have "case exec [True] (xfr_start [Piece ''abc''] (\<lambda>_. 0) (replicate 1024 CHR 0x00)) of
      None \<Rightarrow> False | Some s \<Rightarrow> x_w s = W_Read" by code_simp
  then obtain s where s: "exec [True] (xfr_start [Piece ''abc''] (\<lambda>_. 0) (replicate 1024 CHR 0x00)) = Some s" "x_w s = W_Read"
    by (auto split: option.splits)
  from xfr_exclusive [OF exec_runs [OF sample_start s(1)] sample_buf] s show ?thesis by simp
qed

lemma runs_done:
  assumes "runs es buf s" "length buf = XFR_BUF_SIZE" "live es" "x_w s = W_Done"
  shows "x_r s = R_Done \<and> x_out s = bytes es \<and> w_bytes s = int (length (bytes es)) \<and> r_bytes s = int (length (bytes es))"
proof -
  have inv: "phase_of s" "copied (bytes es) s" "counted s" using runs_invariant [OF assms(1,2)] by auto
  have p: "x_r s = R_Done" "x_sems s READ_SEM = 0" "x_cnt s = 0"
    using inv(1) assms(4) by (cases "x_r s"; simp add: phase_def)+
  then have "block s = []" using assms(4) by (simp add: block_def full_def)
  moreover have "bytes (x_in s) = []" using runs_ended [OF assms(1,3)] assms(4) p(3) by (auto simp: ended_def)
  ultimately show ?thesis using inv(2,3) p assms(4) by (simp add: copied_def counted_def)
qed

text \<open>The last messages of both programs report the length of the input.\<close>

lemma final_messages:
  assumes "runs es buf s" "length buf = XFR_BUF_SIZE" "live es" "x_w s = W_Done"
  shows "hd (snd (writer_message s)) = ArgI (int (length (bytes es))) \<and> hd (snd (reader_message s)) = ArgI (int (length (bytes es)))"
  using runs_done [OF assms] by (simp add: writer_message_def reader_message_def)

text \<open>
  C11: the reader's output is a copy of the writer's input. In every interleaving what the
  reader has written is a prefix of the input; when the writer has ended normally the
  reader has ended too, has written the whole input, and both report its length; and while the
  input is shorter than \<open>2 ^ 31\<close> bytes none of the \<open>int\<close> counters of the programs overflows.
\<close>

theorem xfr_copies:
  assumes "runs es buf s" "length buf = XFR_BUF_SIZE" "live es"
  shows "(\<exists>y. bytes es = x_out s @ y) \<and>
    (x_w s = W_Done \<longrightarrow> x_r s = R_Done \<and> x_out s = bytes es \<and>
       w_bytes s = int (length (bytes es)) \<and> r_bytes s = int (length (bytes es))) \<and>
    (length (bytes es) < 2 ^ 31 \<longrightarrow> x_ub s = None)"
proof -
  have "copied (bytes es) s" using runs_invariant [OF assms(1,2)] by auto
  then have "\<exists>y. bytes es = x_out s @ y" by (auto simp: copied_def split: if_splits)
  then show ?thesis using runs_done [OF assms] runs_no_overflow [OF assms(1,2)] by blast
qed

theorem xfr_copies_witness:
  "case exec sample_schedule (xfr_start [Piece ''abc''] (\<lambda>_. 0) (replicate 1024 CHR 0x00)) of
     None \<Rightarrow> False | Some s \<Rightarrow> x_w s = W_Done \<and> x_r s = R_Done \<and> x_out s = ''abc'' \<and> w_bytes s = 3 \<and> x_ub s = None"
proof -
  have "case exec sample_schedule (xfr_start [Piece ''abc''] (\<lambda>_. 0) (replicate 1024 CHR 0x00)) of
      None \<Rightarrow> False | Some s \<Rightarrow> x_w s = W_Done" by code_simp
  then obtain s where s: "exec sample_schedule (xfr_start [Piece ''abc''] (\<lambda>_. 0) (replicate 1024 CHR 0x00)) = Some s" "x_w s = W_Done"
    by (auto split: option.splits)
  from xfr_copies [OF exec_runs [OF sample_start s(1)] sample_buf] s show ?thesis by simp
qed

text \<open>
  The two programs do not block each other: in every state that an interleaving can
  reach on an input shorter than \<open>2 ^ 31\<close> bytes, if neither has stopped with an error, no call fails and they are not both at their end, one of
  them can go on.
\<close>

lemma xfr_progress:
  assumes "runs es buf s" "length buf = XFR_BUF_SIZE"
    and "length (bytes es) < 2 ^ 31" "x_w s \<noteq> W_Fail" "\<not> x_wdead s" "\<not> x_rdead s" "x_r s \<noteq> R_Fail" "\<not> (x_w s = W_Done \<and> x_r s = R_Done)"
  shows "writer_step True s \<noteq> None \<or> reader_step True k s \<noteq> None"
proof -
  have p: "phase_of s" using runs_invariant [OF assms(1,2)] by blast
  have ub: "x_ub s = None" using runs_no_overflow [OF assms(1,2)] assms(3) by blast
  have r: "0 < x_sems s n \<Longrightarrow> reserve_now n s \<noteq> None" for n by (simp add: reserve_now_def)
  have rd: "x_w s = W_Read \<Longrightarrow> writer_act s \<noteq> None"
    by (cases "sys_read XFR_BUF_SIZE (x_in s)"; cases "fst (sys_read XFR_BUF_SIZE (x_in s))") (auto simp: writer_at)
  show ?thesis
    using p ub assms(4-8) r [of WRITE_SEM] r [of READ_SEM] rd
    by (cases "x_w s"; cases "x_r s"; simp add: phase_def writer_step_def reader_step_def writer_at reader_at Let_def; fastforce)
qed

end
