(* ===== verification/Environ.thy ===== *)
theory Environ
  imports Prelude
begin

text \<open>
  \<open>proc/setenv.c\<close>: \<open>setenv()\<close> and \<open>unsetenv()\<close> over the array \<open>environ\<close>, here the list of its
  texts \<open>name=value\<close>. The interface that a client of an environment relies on is the locale
  \<open>env_store\<close>; it is interpreted on the functions of the source.
\<close>

section \<open>Definitions\<close>

definition ENV_EINVAL :: int where "ENV_EINVAL = 22"

text \<open>The entry test: \<open>strncmp(*ep, name, len) == 0 && (*ep)[len] == '='\<close>.\<close>

definition names_entry :: "string \<Rightarrow> string \<Rightarrow> bool" where
  "names_entry name e \<longleftrightarrow> strncmp e name (length name) = 0 \<and> char_at e (length name) = CHR ''=''"

text \<open>\<open>getenv()\<close> and \<open>putenv()\<close> of the C library; \<open>putenv()\<close> replaces an entry of the same name.\<close>

fun getenv :: "string \<Rightarrow> string list \<Rightarrow> string option" where
  "getenv name [] = None"
| "getenv name (e # es) = (if names_entry name e then Some (drop (length name + 1) e) else getenv name es)"

fun putenv :: "string \<Rightarrow> string \<Rightarrow> string list \<Rightarrow> string list" where
  "putenv name es [] = [es]"
| "putenv name es (e # env) = (if names_entry name e then es # env else e # putenv name es env)"

definition bad_name :: "string option \<Rightarrow> bool" where
  "bad_name name \<longleftrightarrow> (case name of None \<Rightarrow> True | Some n \<Rightarrow> n = [] \<or> CHR ''='' \<in> set n)"

text \<open>The loop of \<open>unsetenv()\<close>: a matching entry is removed by moving the rest back.\<close>

fun unset_loop :: "string \<Rightarrow> string list \<Rightarrow> string list" where
  "unset_loop name [] = []"
| "unset_loop name (e # es) = (if names_entry name e then unset_loop name es else e # unset_loop name es)"

text \<open>
  The state is \<open>environ\<close> and \<open>errno\<close>. An \<open>environ\<close> that is NULL is not modelled: the loop of \<open>unsetenv()\<close> would follow it.
  Calls of the library that succeed are taken to leave \<open>errno\<close> alone.
\<close>

definition unsetenv :: "string option \<Rightarrow> string list \<times> int \<Rightarrow> int \<times> string list \<times> int" where
  "unsetenv name s =
     (case s of (environ, errno) \<Rightarrow>
        if bad_name name then (-1, environ, ENV_EINVAL)
        else (0, unset_loop (the name) environ, errno))"

text \<open>\<open>malloc_ok\<close> and \<open>putenv_ok\<close> say whether the two library calls succeed.\<close>

definition setenv :: "bool \<Rightarrow> bool \<Rightarrow> string option \<Rightarrow> string option \<Rightarrow> int \<Rightarrow> string list \<times> int \<Rightarrow> int \<times> string list \<times> int" where
  "setenv malloc_ok putenv_ok name val overwrite s =
     (case s of (environ, errno) \<Rightarrow>
        if bad_name name \<or> val = None then (-1, environ, ENV_EINVAL)
        else if getenv (the name) environ \<noteq> None \<and> overwrite = 0 then (0, environ, errno)
        else (case unsetenv name (environ, errno) of (_, environ, errno) \<Rightarrow>
          if \<not> malloc_ok then (-1, environ, errno)
          else if putenv_ok then (0, putenv (the name) (the name @ ''='' @ the val) environ, errno)
          else (-1, environ, errno)))"

text \<open>A sequence of calls that find enough memory, and the map they mean.\<close>

datatype env_call = Setenv string string int | Unsetenv string

fun env_exec :: "env_call \<Rightarrow> string list \<times> int \<Rightarrow> string list \<times> int" where
  "env_exec (Setenv n v overwrite) s = snd (setenv True True (Some n) (Some v) overwrite s)"
| "env_exec (Unsetenv n) s = snd (unsetenv (Some n) s)"

fun env_meaning :: "env_call \<Rightarrow> (string \<rightharpoonup> string) \<Rightarrow> (string \<rightharpoonup> string)" where
  "env_meaning (Setenv n v overwrite) m = (if m n \<noteq> None \<and> overwrite = 0 then m else m(n \<mapsto> v))"
| "env_meaning (Unsetenv n) m = m(n := None)"

section \<open>The interface of an environment\<close>

text \<open>What a program that sets, unsets and looks up variables relies on.\<close>

locale env_store =
  fixes valid :: "'k \<Rightarrow> bool"
    and ok :: "'v \<Rightarrow> bool"
    and wf :: "'s \<Rightarrow> bool"
    and get :: "'k \<Rightarrow> 's \<Rightarrow> 'v option"
    and put :: "'k \<Rightarrow> 'v \<Rightarrow> 's \<Rightarrow> 's"
    and del :: "'k \<Rightarrow> 's \<Rightarrow> 's"
  assumes wf_put: "wf s \<Longrightarrow> valid k \<Longrightarrow> ok v \<Longrightarrow> wf (put k v s)"
    and wf_del: "wf s \<Longrightarrow> valid k \<Longrightarrow> wf (del k s)"
    and get_put: "wf s \<Longrightarrow> valid k \<Longrightarrow> ok v \<Longrightarrow> valid j \<Longrightarrow> get j (put k v s) = (if j = k then Some v else get j s)"
    and get_del: "wf s \<Longrightarrow> valid k \<Longrightarrow> valid j \<Longrightarrow> get j (del k s) = (if j = k then None else get j s)"
begin

definition change :: "'k \<times> 'v option \<Rightarrow> 's \<Rightarrow> 's" where
  "change c s = (case snd c of None \<Rightarrow> del (fst c) s | Some v \<Rightarrow> put (fst c) v s)"

definition allowed :: "'k \<times> 'v option \<Rightarrow> bool" where
  "allowed c \<longleftrightarrow> valid (fst c) \<and> (\<forall>v. snd c = Some v \<longrightarrow> ok v)"

lemma wf_change: "wf s \<Longrightarrow> allowed c \<Longrightarrow> wf (change c s)"
  by (simp add: change_def allowed_def wf_put wf_del split: option.split)

lemma get_change: "wf s \<Longrightarrow> allowed c \<Longrightarrow> valid j \<Longrightarrow> get j (change c s) = (if j = fst c then snd c else get j s)"
  by (simp add: change_def allowed_def get_put get_del split: option.split)

text \<open>After any changes a variable has the value of the last change to it.\<close>

lemma get_changes:
  assumes "wf s" "\<forall>c\<in>set cs. allowed c" "valid j"
  shows "get j (fold change cs s) = (case map_of (rev cs) j of None \<Rightarrow> get j s | Some r \<Rightarrow> r)"
  using assms
proof (induction cs rule: rev_induct)
  case Nil
  then show ?case by simp
next
  case (snoc c cs)
  have w: "wf (fold change ds s)" if "\<forall>c\<in>set ds. allowed c" for ds
    using that by (induction ds rule: rev_induct) (auto simp: wf_change snoc.prems(1))
  show ?case using snoc w [of cs] by (cases c) (auto simp: get_change)
qed

lemma put_put: "wf s \<Longrightarrow> valid k \<Longrightarrow> ok v \<Longrightarrow> ok w \<Longrightarrow> valid j \<Longrightarrow> get j (put k w (put k v s)) = get j (put k w s)"
  by (simp add: get_put wf_put)

end

section \<open>Entries\<close>

definition env_name :: "string \<Rightarrow> bool" where
  "env_name n \<longleftrightarrow> n \<noteq> [] \<and> CHR ''='' \<notin> set n \<and> cstring n"

lemma bad_name_env [simp]: "env_name n \<Longrightarrow> \<not> bad_name (Some n)"
  by (simp add: env_name_def bad_name_def)

lemma names_entry_iff:
  assumes "env_name n" "cstring e"
  shows "names_entry n e \<longleftrightarrow> (\<exists>v. e = n @ CHR ''='' # v)"
proof
  assume "names_entry n e"
  then obtain t where t: "e = n @ t" and c: "char_at e (length n) = CHR ''=''"
    using assms strncmp_prefix [of n e] by (auto simp: names_entry_def env_name_def strncmp_sym0 [of e])
  show "\<exists>v. e = n @ CHR ''='' # v" using c unfolding t by (cases t) (auto simp: char_at_def)
next
  assume "\<exists>v. e = n @ CHR ''='' # v"
  then show "names_entry n e"
    using assms strncmp_prefix [of n e] by (auto simp: names_entry_def env_name_def strncmp_sym0 [of e] char_at_def nth_append)
qed

lemma equals_unique:
  assumes "CHR ''='' \<notin> set n" "CHR ''='' \<notin> set m" "n @ CHR ''='' # v = m @ CHR ''='' # w"
  shows "n = m"
  using assms
proof (induction n arbitrary: m)
  case Nil
  then show ?case by (cases m) auto
next
  case (Cons c n)
  then show ?case by (cases m) auto
qed

lemma names_one:
  assumes "env_name n" "env_name m" "cstring e" "names_entry n e" "names_entry m e"
  shows "n = m"
  using assms names_entry_iff [of n e] names_entry_iff [of m e] equals_unique [of n m] by (auto simp: env_name_def)

lemma unset_filter: "unset_loop n env = filter (\<lambda>e. \<not> names_entry n e) env"
  by (induction env) auto

lemma names_own [simp]: "env_name n \<Longrightarrow> cstring v \<Longrightarrow> names_entry m (n @ CHR ''='' # v) \<longleftrightarrow> m = n" if "env_name m"
  using that names_entry_iff [of m "n @ CHR ''='' # v"] equals_unique [of n m v] by (auto simp: env_name_def)

lemma getenv_skip: "\<forall>e\<in>set env. \<not> names_entry n e \<Longrightarrow> getenv n env = None"
  by (induction env) auto

lemma getenv_unset:
  assumes "env_name n" "env_name m" "\<forall>e\<in>set env. cstring e"
  shows "getenv m (unset_loop n env) = (if m = n then None else getenv m env)"
proof (cases "m = n")
  case True
  then show ?thesis by (simp add: unset_filter getenv_skip)
next
  case False
  then have "getenv m (unset_loop n env) = getenv m env"
    using assms(3) names_one [OF assms(1,2)] by (induction env) auto
  then show ?thesis using False by simp
qed

lemma putenv_fresh: "\<forall>e\<in>set env. \<not> names_entry n e \<Longrightarrow> putenv n es env = env @ [es]"
  by (induction env) auto

lemma getenv_append: "getenv n (env @ [e]) =
    (case getenv n env of Some v \<Rightarrow> Some v | None \<Rightarrow> if names_entry n e then Some (drop (length n + 1) e) else None)"
  by (induction env) auto

definition env_set :: "string \<Rightarrow> string \<Rightarrow> string list \<Rightarrow> string list" where
  "env_set n v env = unset_loop n env @ [n @ ''='' @ v]"

definition env_wf :: "string list \<Rightarrow> bool" where
  "env_wf env \<longleftrightarrow> (\<forall>e\<in>set env. cstring e)"

interpretation environ: env_store env_name cstring env_wf getenv env_set unset_loop
proof
  fix s k v j
  show "env_wf (env_set k v s)" if "env_wf s" "env_name k" "cstring v"
    using that by (auto simp: env_wf_def env_set_def env_name_def unset_filter)
  show "env_wf (unset_loop k s)" if "env_wf s" "env_name k"
    using that by (simp add: env_wf_def unset_filter)
  show "getenv j (env_set k v s) = (if j = k then Some v else getenv j s)"
    if "env_wf s" "env_name k" "cstring v" "env_name j"
    using that by (simp add: env_set_def getenv_append getenv_unset env_wf_def split: option.split)
  show "getenv j (unset_loop k s) = (if j = k then None else getenv j s)"
    if "env_wf s" "env_name k" "env_name j"
    using that by (simp add: getenv_unset env_wf_def)
qed

lemma unsetenv_eq: "env_name n \<Longrightarrow> unsetenv (Some n) (env, er) = (0, unset_loop n env, er)"
  by (simp add: unsetenv_def)

lemma setenv_eq:
  assumes "env_name n"
  shows "setenv True True (Some n) (Some v) overwrite (env, er) =
    (0, if getenv n env \<noteq> None \<and> overwrite = 0 then env else env_set n v env, er)"
  using assms by (simp add: setenv_def unsetenv_eq env_set_def putenv_fresh unset_filter)

fun env_call_ok :: "env_call \<Rightarrow> bool" where
  "env_call_ok (Setenv n v overwrite) \<longleftrightarrow> env_name n \<and> cstring v"
| "env_call_ok (Unsetenv n) \<longleftrightarrow> env_name n"

lemma env_exec_step:
  assumes "env_wf env" "env_call_ok c"
  shows "env_wf (fst (env_exec c (env, er)))" and "snd (env_exec c (env, er)) = er"
    and "env_name m \<Longrightarrow> getenv m (fst (env_exec c (env, er))) = env_meaning c (\<lambda>n. getenv n env) m"
  using assms by (cases c; auto simp: setenv_eq unsetenv_eq environ.wf_put environ.wf_del environ.get_put environ.get_del)+

lemma env_meaning_local:
  "env_call_ok c \<Longrightarrow> \<forall>m. env_name m \<longrightarrow> f m = g m \<Longrightarrow> env_name m \<Longrightarrow> env_meaning c f m = env_meaning c g m"
  by (cases c) auto

lemma env_fold_local:
  "\<forall>c\<in>set cs. env_call_ok c \<Longrightarrow> \<forall>m. env_name m \<longrightarrow> f m = g m \<Longrightarrow> env_name m \<Longrightarrow> fold env_meaning cs f m = fold env_meaning cs g m"
proof (induction cs arbitrary: f g)
  case Nil
  then show ?case by simp
next
  case (Cons c cs)
  show ?case using Cons.prems env_meaning_local [of c f g] by (simp add: Cons.IH [of "env_meaning c f" "env_meaning c g"])
qed

section \<open>Properties\<close>

text \<open>C13: any sequence of calls of \<open>setenv()\<close> and \<open>unsetenv()\<close> with proper names changes the
  environment as the updates of a map from names to values do: \<open>setenv()\<close> with \<open>overwrite\<close> 0 keeps
  a value that is there, every other \<open>setenv()\<close> sets the value, \<open>unsetenv()\<close> removes the name, all
  its duplicates included, and no call changes another variable or \<open>errno\<close>.\<close>

theorem environ_refines_map:
  assumes "env_wf env" "\<forall>c\<in>set cs. env_call_ok c" "env_name m"
  shows "getenv m (fst (fold env_exec cs (env, er))) = fold env_meaning cs (\<lambda>n. getenv n env) m
    \<and> snd (fold env_exec cs (env, er)) = er"
  using assms
proof (induction cs arbitrary: env)
  case Nil
  then show ?case by simp
next
  case (Cons c cs)
  obtain env' where e: "env_exec c (env, er) = (env', er)"
    using env_exec_step(2) [of env c er] Cons.prems by (cases "env_exec c (env, er)") auto
  have g: "getenv n env' = env_meaning c (\<lambda>n. getenv n env) n" if "env_name n" for n
    using env_exec_step(3) [of env c n er] that Cons.prems e by simp
  have w: "env_wf env'" using env_exec_step(1) [of env c er] Cons.prems e by simp
  have "fold env_meaning cs (\<lambda>n. getenv n env') m = fold env_meaning cs (env_meaning c (\<lambda>n. getenv n env)) m"
    by (rule env_fold_local) (use Cons.prems g in auto)
  then show ?case using Cons.IH [OF w] Cons.prems e by simp
qed

theorem environ_refines_map_witness:
  "getenv ''A'' (fst (fold env_exec [Setenv ''A'' ''1'' 1, Setenv ''A'' ''2'' 0, Unsetenv ''B''] ([''A=0'', ''B=1'', ''A=3''], 5))) = Some ''1''"
  using environ_refines_map [of "[''A=0'', ''B=1'', ''A=3'']" "[Setenv ''A'' ''1'' 1, Setenv ''A'' ''2'' 0, Unsetenv ''B'']" "''A''" 5]
  by (simp add: env_wf_def env_name_def cstring_def)

text \<open>A \<open>setenv()\<close> that fails for an argument changes nothing but \<open>errno\<close>; one that fails for
  lack of memory has already removed the variable, so that the old value is lost.\<close>

lemma setenv_failure:
  "(bad_name name \<or> val = None \<longrightarrow> setenv mok pok name val overwrite (env, er) = (-1, env, ENV_EINVAL))
   \<and> (env_name n \<and> env_wf env \<and> overwrite \<noteq> 0 \<and> \<not> (mok \<and> pok) \<longrightarrow>
        (\<exists>env'. setenv mok pok (Some n) (Some v) overwrite (env, er) = (-1, env', er) \<and> getenv n env' = None))"
  by (auto simp: setenv_def unsetenv_eq environ.get_del)

end
