(* ===== verification/Inet_Sockets.thy ===== *)
theory Inet_Sockets
  imports Stream_Io
begin

text \<open>
  \<open>sockets/inet_sockets.c\<close>: making connected, bound and listening Internet sockets, over the
  table of open descriptors of the process. The kernel and the resolver are parameters: they
  say for each call, by its position among the calls made, whether it succeeds. The lemmas show
  which descriptors a call leaves open.
\<close>

section \<open>Descriptors\<close>

record addrinfo =
  ai_family :: int
  ai_socktype :: int
  ai_protocol :: int
  ai_addr :: string
  ai_addrlen :: nat
  ai_flags :: int

record sockinfo =
  s_info :: "int \<times> int \<times> int"
  s_reuse :: bool
  s_peer :: "string option"
  s_bound :: "string option"
  s_listen :: "int option"

text \<open>The state of the process: its descriptors, the number of calls made so far, \<open>errno\<close>.\<close>

record netst =
  n_fds :: "sockinfo option list"
  n_clock :: nat
  n_errno :: int

record netops =
  k_getaddrinfo :: "string option \<Rightarrow> string \<Rightarrow> addrinfo \<Rightarrow> nat \<Rightarrow> int \<times> addrinfo list"
  k_socket :: "addrinfo \<Rightarrow> nat \<Rightarrow> bool"
  k_connect :: "addrinfo \<Rightarrow> nat \<Rightarrow> bool"
  k_reuse :: "nat \<Rightarrow> bool"
  k_bind :: "addrinfo \<Rightarrow> nat \<Rightarrow> bool"
  k_listen :: "nat \<Rightarrow> bool"
  k_errno :: "nat \<Rightarrow> int"
  k_getnameinfo :: "string \<Rightarrow> nat \<Rightarrow> (string \<times> string) option"

definition fd_get :: "sockinfo option list \<Rightarrow> int \<Rightarrow> sockinfo option" where
  "fd_get t fd = (if 0 \<le> fd \<and> fd < int (length t) then t ! nat fd else None)"

definition fd_set :: "int \<Rightarrow> sockinfo option \<Rightarrow> netst \<Rightarrow> netst" where
  "fd_set fd v s = s\<lparr>n_fds := (n_fds s)[nat fd := v]\<rparr>"

text \<open>The lowest free descriptor.\<close>

fun free_fd :: "sockinfo option list \<Rightarrow> nat" where
  "free_fd [] = 0"
| "free_fd (None # t) = 0"
| "free_fd (Some x # t) = Suc (free_fd t)"

definition tick :: "netst \<Rightarrow> netst" where
  "tick s = s\<lparr>n_clock := n_clock s + 1\<rparr>"

definition fails :: "netops \<Rightarrow> netst \<Rightarrow> int \<times> netst" where
  "fails K s = (-1, tick (s\<lparr>n_errno := k_errno K (n_clock s)\<rparr>))"

definition sys_socket :: "netops \<Rightarrow> addrinfo \<Rightarrow> netst \<Rightarrow> int \<times> netst" where
  "sys_socket K rp s =
     (if k_socket K rp (n_clock s)
      then (let fd = free_fd (n_fds s);
                t = (if fd < length (n_fds s) then n_fds s else n_fds s @ [None]);
                x = \<lparr>s_info = (ai_family rp, ai_socktype rp, ai_protocol rp), s_reuse = False,
                     s_peer = None, s_bound = None, s_listen = None\<rparr>
            in (int fd, tick (s\<lparr>n_fds := t[fd := Some x]\<rparr>)))
      else fails K s)"

definition on_fd :: "netops \<Rightarrow> bool \<Rightarrow> (sockinfo \<Rightarrow> sockinfo) \<Rightarrow> int \<Rightarrow> netst \<Rightarrow> int \<times> netst" where
  "on_fd K ok f fd s =
     (if ok then (0, tick (fd_set fd (map_option f (fd_get (n_fds s) fd)) s)) else fails K s)"

definition sys_connect :: "netops \<Rightarrow> int \<Rightarrow> addrinfo \<Rightarrow> netst \<Rightarrow> int \<times> netst" where
  "sys_connect K fd rp s =
     on_fd K (k_connect K rp (n_clock s)) (\<lambda>x. x\<lparr>s_peer := Some (take (ai_addrlen rp) (ai_addr rp))\<rparr>) fd s"

definition sys_reuse :: "netops \<Rightarrow> int \<Rightarrow> netst \<Rightarrow> int \<times> netst" where
  "sys_reuse K fd s = on_fd K (k_reuse K (n_clock s)) (\<lambda>x. x\<lparr>s_reuse := True\<rparr>) fd s"

definition sys_bind :: "netops \<Rightarrow> int \<Rightarrow> addrinfo \<Rightarrow> netst \<Rightarrow> int \<times> netst" where
  "sys_bind K fd rp s =
     on_fd K (k_bind K rp (n_clock s)) (\<lambda>x. x\<lparr>s_bound := Some (take (ai_addrlen rp) (ai_addr rp))\<rparr>) fd s"

definition sys_listen :: "netops \<Rightarrow> int \<Rightarrow> int \<Rightarrow> netst \<Rightarrow> int \<times> netst" where
  "sys_listen K fd backlog s = on_fd K (k_listen K (n_clock s)) (\<lambda>x. x\<lparr>s_listen := Some backlog\<rparr>) fd s"

definition sys_close :: "int \<Rightarrow> netst \<Rightarrow> netst" where
  "sys_close fd s = tick (fd_set fd None s)"

section \<open>The functions of the source\<close>

definition AF_UNSPEC :: int where "AF_UNSPEC = 0"
definition SOCK_STREAM :: int where "SOCK_STREAM = 1"
definition SOCK_DGRAM :: int where "SOCK_DGRAM = 2"
definition AI_PASSIVE :: int where "AI_PASSIVE = 1"
definition ENOSYS :: int where "ENOSYS = 38"

text \<open>The loop of \<open>inetConnect()\<close>: \<open>None\<close> if \<open>rp\<close> ends as \<open>NULL\<close>.\<close>

fun connect_loop :: "netops \<Rightarrow> addrinfo list \<Rightarrow> netst \<Rightarrow> int option \<times> netst" where
  "connect_loop K [] s = (None, s)"
| "connect_loop K (rp # rps) s =
     (case sys_socket K rp s of (sfd, s) \<Rightarrow>
        if sfd = -1 then connect_loop K rps s
        else (case sys_connect K sfd rp s of (r, s) \<Rightarrow>
          if r \<noteq> -1 then (Some sfd, s) else connect_loop K rps (sys_close sfd s)))"

definition inetConnect :: "netops \<Rightarrow> string option \<Rightarrow> string \<Rightarrow> int \<Rightarrow> netst \<Rightarrow> int \<times> netst" where
  "inetConnect K host service type s =
     (let hints = \<lparr>ai_family = AF_UNSPEC, ai_socktype = type, ai_protocol = 0, ai_addr = [], ai_addrlen = 0, ai_flags = 0\<rparr>
      in case k_getaddrinfo K host service hints (n_clock s) of (r, result) \<Rightarrow>
         if r \<noteq> 0 then (-1, tick (s\<lparr>n_errno := ENOSYS\<rparr>))
         else (case connect_loop K result (tick s) of (sfd, s) \<Rightarrow>
           (case sfd of None \<Rightarrow> -1 | Some sfd \<Rightarrow> sfd, s)))"

text \<open>
  The loop of \<open>inetPassiveSocket()\<close>: \<open>Inl\<close> for the return from inside the loop, otherwise the
  socket and the entry \<open>rp\<close> it was bound with, or \<open>None\<close> at the end of the list.
\<close>

fun passive_loop :: "netops \<Rightarrow> bool \<Rightarrow> addrinfo list \<Rightarrow> netst \<Rightarrow> (int + (int \<times> addrinfo) option) \<times> netst" where
  "passive_loop K doListen [] s = (Inr None, s)"
| "passive_loop K doListen (rp # rps) s =
     (case sys_socket K rp s of (sfd, s) \<Rightarrow>
        if sfd = -1 then passive_loop K doListen rps s
        else (case (if doListen then sys_reuse K sfd s else (0, s)) of (r, s) \<Rightarrow>
          if r = -1 then (Inl (-1), sys_close sfd s)
          else (case sys_bind K sfd rp s of (b, s) \<Rightarrow>
            if b = 0 then (Inr (Some (sfd, rp)), s)
            else passive_loop K doListen rps (sys_close sfd s))))"

text \<open>The result and, where \<open>addrlen\<close> is not \<open>NULL\<close>, what is stored in it.\<close>

definition inetPassiveSocket ::
  "netops \<Rightarrow> string \<Rightarrow> int \<Rightarrow> nat option \<Rightarrow> bool \<Rightarrow> int \<Rightarrow> netst \<Rightarrow> int \<times> nat option \<times> netst" where
  "inetPassiveSocket K service type addrlen doListen backlog s =
     (let hints = \<lparr>ai_family = AF_UNSPEC, ai_socktype = type, ai_protocol = 0, ai_addr = [], ai_addrlen = 0,
                   ai_flags = AI_PASSIVE\<rparr>
      in case k_getaddrinfo K None service hints (n_clock s) of (r, result) \<Rightarrow>
         if r \<noteq> 0 then (-1, addrlen, tick s)
         else (case passive_loop K doListen result (tick s) of
             (Inl r, s) \<Rightarrow> (r, addrlen, s)
           | (Inr None, s) \<Rightarrow> (-1, addrlen, s)
           | (Inr (Some (sfd, rp)), s) \<Rightarrow>
               (case (if doListen then sys_listen K sfd backlog s else (0, s)) of (l, s) \<Rightarrow>
                  if l = -1 then (-1, addrlen, s)
                  else (sfd, map_option (\<lambda>_. ai_addrlen rp) addrlen, s))))"

definition inetListen :: "netops \<Rightarrow> string \<Rightarrow> int \<Rightarrow> nat option \<Rightarrow> netst \<Rightarrow> int \<times> nat option \<times> netst" where
  "inetListen K service backlog addrlen s = inetPassiveSocket K service SOCK_STREAM addrlen True backlog s"

definition inetBind :: "netops \<Rightarrow> string \<Rightarrow> int \<Rightarrow> nat option \<Rightarrow> netst \<Rightarrow> int \<times> nat option \<times> netst" where
  "inetBind K service type addrlen s = inetPassiveSocket K service type addrlen False 0 s"

text \<open>\<open>snprintf()\<close> into a buffer of \<open>n\<close> bytes leaves at most \<open>n - 1\<close> characters and a NUL.\<close>

definition inetAddressStr :: "netops \<Rightarrow> string \<Rightarrow> nat \<Rightarrow> nat \<Rightarrow> string" where
  "inetAddressStr K addr addrlen addrStrLen =
     snprintf_buf addrStrLen
       (case k_getnameinfo K addr addrlen of
          Some (host, service) \<Rightarrow> ''('' @ host @ '', '' @ service @ '')''
        | None \<Rightarrow> ''(?UNKNOWN?)'')"

section \<open>Lemmas\<close>

lemma free_fd_le: "free_fd t \<le> length t"
  by (induction t rule: free_fd.induct) auto

lemma free_fd_free: "fd_get t (int (free_fd t)) = None"
proof -
  have "free_fd t < length t \<Longrightarrow> t ! free_fd t = None" by (induction t rule: free_fd.induct) auto
  then show ?thesis by (simp add: fd_get_def)
qed

text \<open>Two tables that agree outside of one descriptor.\<close>

definition same_but :: "int \<Rightarrow> sockinfo option list \<Rightarrow> sockinfo option list \<Rightarrow> bool" where
  "same_but fd t u \<longleftrightarrow> (\<forall>i. i \<noteq> fd \<longrightarrow> fd_get u i = fd_get t i)"

definition same_fds :: "sockinfo option list \<Rightarrow> sockinfo option list \<Rightarrow> bool" where
  "same_fds t u \<longleftrightarrow> (\<forall>i. fd_get u i = fd_get t i)"

lemma same_fds_refl [simp]: "same_fds t t"
  by (simp add: same_fds_def)

lemma same_fds_trans: "same_fds t u \<Longrightarrow> same_fds u v \<Longrightarrow> same_fds t v"
  by (simp add: same_fds_def)

lemma same_fds_but: "same_fds t u \<Longrightarrow> same_but fd u v \<Longrightarrow> same_but fd t v"
  by (simp add: same_fds_def same_but_def)

lemma same_but_fds: "same_but fd t u \<Longrightarrow> fd_get u fd = fd_get t fd \<Longrightarrow> same_fds t u"
  unfolding same_but_def same_fds_def by metis

lemma tick_simps [simp]: "n_fds (tick s) = n_fds s" "n_errno (tick s) = n_errno s"
  by (simp_all add: tick_def)

lemma fails_simps [simp]: "fst (fails K s) = -1" "n_fds (snd (fails K s)) = n_fds s"
  by (simp_all add: fails_def)

lemma fd_get_set: "fd_get (n_fds (fd_set fd v s)) i =
    (if i = fd \<and> 0 \<le> fd \<and> fd < int (length (n_fds s)) then v else fd_get (n_fds s) i)" if "0 \<le> fd"
  using that by (auto simp: fd_get_def fd_set_def nth_list_update)

lemma open_lt: "fd_get t fd \<noteq> None \<Longrightarrow> 0 \<le> fd \<and> fd < int (length t)"
  by (auto simp: fd_get_def split: if_splits)

text \<open>\<open>socket()\<close> opens a descriptor that was free, or changes no descriptor.\<close>

lemma socket_cases:
  assumes "sys_socket K rp s = (fd, u)"
  obtains (failed) "\<not> k_socket K rp (n_clock s)" "fd = -1" "n_fds u = n_fds s"
    | (opened) x where "k_socket K rp (n_clock s)" "0 \<le> fd" "fd_get (n_fds s) fd = None" "fd_get (n_fds u) fd = Some x"
      "same_but fd (n_fds s) (n_fds u)" "s_info x = (ai_family rp, ai_socktype rp, ai_protocol rp)"
      "s_listen x = None" "\<not> s_reuse x" "s_bound x = None"
proof (cases "k_socket K rp (n_clock s)")
  case False
  then show thesis using assms failed by (auto simp: sys_socket_def fails_def)
next
  case True
  let ?f = "free_fd (n_fds s)"
  define t where "t = (if ?f < length (n_fds s) then n_fds s else n_fds s @ [None])"
  define x where "x = \<lparr>s_info = (ai_family rp, ai_socktype rp, ai_protocol rp), s_reuse = False,
                     s_peer = None, s_bound = None, s_listen = None\<rparr>"
  have r: "fd = int ?f" "n_fds u = t[?f := Some x]"
    using assms True by (auto simp: sys_socket_def Let_def t_def x_def)
  have l: "?f < length t" using free_fd_le [of "n_fds s"] by (auto simp: t_def)
  have g: "fd_get t i = fd_get (n_fds s) i" for i
    by (auto simp: t_def fd_get_def nth_append)
  show thesis
  proof (rule opened [of x])
    show "fd_get (n_fds s) fd = None" using r free_fd_free by simp
    show "fd_get (n_fds u) fd = Some x" using r l by (simp add: fd_get_def)
    show "same_but fd (n_fds s) (n_fds u)"
      unfolding same_but_def g [symmetric] using r by (auto simp: fd_get_def nth_list_update)
  qed (use r True in \<open>simp_all add: x_def\<close>)
qed

text \<open>The calls on an open socket change that socket only, and nothing when they fail.\<close>

lemma on_fd_cases:
  assumes "on_fd K ok f fd s = (r, u)" "fd_get (n_fds s) fd = Some x"
  obtains (failed) "\<not> ok" "r = -1" "n_fds u = n_fds s"
    | (worked) "ok" "r = 0" "fd_get (n_fds u) fd = Some (f x)" "same_but fd (n_fds s) (n_fds u)"
proof (cases ok)
  case False
  then show thesis using assms failed by (auto simp: on_fd_def fails_def)
next
  case True
  have "0 \<le> fd" "fd < int (length (n_fds s))" using open_lt [of "n_fds s" fd] assms by auto
  then show thesis using assms True by (intro worked) (auto simp: on_fd_def same_but_def fd_get_set)
qed

lemma same_but_trans: "same_but fd t u \<Longrightarrow> same_but fd u v \<Longrightarrow> same_but fd t v"
  by (simp add: same_but_def)

lemma close_restores:
  assumes "same_but fd t (n_fds u)" "fd_get t fd = None" "fd_get (n_fds u) fd = Some x"
  shows "same_fds t (n_fds (sys_close fd u))"
proof -
  have "0 \<le> fd" "fd < int (length (n_fds u))" using open_lt [of "n_fds u" fd] assms by auto
  then show ?thesis using assms by (auto simp: same_fds_def same_but_def sys_close_def fd_get_set)
qed

text \<open>What \<open>fd\<close> is after it was opened for \<open>rp\<close>: a fresh descriptor, all others unchanged.\<close>

definition fresh_fd :: "int \<Rightarrow> netst \<Rightarrow> netst \<Rightarrow> bool" where
  "fresh_fd fd s u \<longleftrightarrow> 0 \<le> fd \<and> fd_get (n_fds s) fd = None \<and> same_but fd (n_fds s) (n_fds u)"

lemma fresh_fd_weaken:
  "same_fds (n_fds s) (n_fds t) \<Longrightarrow> fresh_fd fd t u \<Longrightarrow> fresh_fd fd s u"
  unfolding fresh_fd_def using same_fds_but by (metis same_fds_def)

text \<open>One round of the loop of \<open>inetConnect()\<close>.\<close>

lemma connect_round:
  obtains (next_entry) u where "connect_loop K (rp # rps) s = connect_loop K rps u" "same_fds (n_fds s) (n_fds u)"
      "\<exists>t. \<not> k_socket K rp t \<or> \<not> k_connect K rp t"
    | (connected) fd u x where "connect_loop K (rp # rps) s = (Some fd, u)" "fresh_fd fd s u"
      "fd_get (n_fds u) fd = Some x" "s_peer x = Some (take (ai_addrlen rp) (ai_addr rp))"
proof -
  obtain fd u where o: "sys_socket K rp s = (fd, u)" by force
  obtain r v where c: "sys_connect K fd rp u = (r, v)" by force
  from o show thesis
  proof (cases rule: socket_cases)
    case failed
    then show thesis using o next_entry [of u] by auto
  next
    case (opened x)
    from c [unfolded sys_connect_def] opened(4) show thesis
    proof (cases rule: on_fd_cases)
      case failed
      have "same_fds (n_fds s) (n_fds (sys_close fd v))"
        using close_restores [of fd "n_fds s" v x] opened failed by simp
      then show thesis using o c opened failed next_entry [of "sys_close fd v"] by auto
    next
      case worked
      have "fresh_fd fd s v" using opened same_but_trans [OF opened(5) worked(4)] by (simp add: fresh_fd_def)
      then show thesis using o c opened worked by (intro connected [OF _ _ worked(3)]) auto
    qed
  qed
qed

lemma connect_loop_spec:
  assumes "connect_loop K rps s = (r, u)"
  shows "(r = None \<and> same_fds (n_fds s) (n_fds u) \<and> (\<forall>rp\<in>set rps. \<exists>t. \<not> k_socket K rp t \<or> \<not> k_connect K rp t))
    \<or> (\<exists>fd rp x. r = Some fd \<and> fresh_fd fd s u \<and> rp \<in> set rps \<and> fd_get (n_fds u) fd = Some x
         \<and> s_peer x = Some (take (ai_addrlen rp) (ai_addr rp)))"
  using assms
proof (induction rps arbitrary: s)
  case Nil
  then show ?case by simp
next
  case (Cons rp rps)
  show ?case
  proof (cases rule: connect_round [of K rp rps s])
    case (next_entry v)
    then show ?thesis using Cons.IH [of v] Cons.prems
      by (auto intro: same_fds_trans fresh_fd_weaken)
  next
    case (connected fd v x)
    then show ?thesis using Cons.prems by auto
  qed
qed

text \<open>\<open>SO_REUSEADDR\<close> is set on a new socket exactly if it will listen.\<close>

lemma reuse_if:
  assumes "(if doListen then sys_reuse K fd u else (0, u)) = (q, w)" "fd_get (n_fds u) fd = Some x" "\<not> s_reuse x"
  shows "doListen \<and> q = -1 \<and> n_fds w = n_fds u \<or>
      (\<exists>y. q = 0 \<and> fd_get (n_fds w) fd = Some y \<and> same_but fd (n_fds u) (n_fds w) \<and> s_reuse y = doListen)"
proof (cases doListen)
  case True
  with assms(1) have "on_fd K (k_reuse K (n_clock u)) (\<lambda>x. x\<lparr>s_reuse := True\<rparr>) fd u = (q, w)" by (simp add: sys_reuse_def)
  from this assms(2) show ?thesis by (cases rule: on_fd_cases) (use True in auto)
qed (use assms in \<open>auto simp: same_but_def\<close>)

text \<open>One round of the loop of \<open>inetPassiveSocket()\<close>.\<close>

lemma passive_round:
  obtains (next_entry) u where "passive_loop K doListen (rp # rps) s = passive_loop K doListen rps u"
      "same_fds (n_fds s) (n_fds u)"
    | (given_up) u where "passive_loop K doListen (rp # rps) s = (Inl (-1), u)" "doListen" "same_fds (n_fds s) (n_fds u)"
    | (bound) fd u x where "passive_loop K doListen (rp # rps) s = (Inr (Some (fd, rp)), u)" "fresh_fd fd s u"
      "fd_get (n_fds u) fd = Some x" "s_bound x = Some (take (ai_addrlen rp) (ai_addr rp))" "s_reuse x = doListen"
proof -
  obtain fd u where o: "sys_socket K rp s = (fd, u)" by force
  obtain q w where q: "(if doListen then sys_reuse K fd u else (0, u)) = (q, w)" by force
  obtain r v where b: "sys_bind K fd rp w = (r, v)" by force
  have loop: "passive_loop K doListen (rp # rps) s =
      (if fd = -1 then passive_loop K doListen rps u else if q = -1 then (Inl (-1), sys_close fd w)
       else if r = 0 then (Inr (Some (fd, rp)), v) else passive_loop K doListen rps (sys_close fd v))"
    using o q b by (cases doListen) simp_all
  from o show thesis
  proof (cases rule: socket_cases)
    case failed
    then show thesis using loop next_entry [of u] by auto
  next
    case (opened x)
    from reuse_if [OF q opened(4) opened(8)] show thesis
    proof (elim disjE exE conjE)
      assume "doListen" "q = -1" "n_fds w = n_fds u"
      then show thesis using loop opened given_up [of "sys_close fd w"] close_restores [of fd "n_fds s" w x] by simp
    next
      fix y assume y: "q = 0" "fd_get (n_fds w) fd = Some y" "same_but fd (n_fds u) (n_fds w)" "s_reuse y = doListen"
      have sw: "same_but fd (n_fds s) (n_fds w)" using opened y same_but_trans by blast
      from b [unfolded sys_bind_def] y(2) show thesis
      proof (cases rule: on_fd_cases)
        case failed
        have "same_fds (n_fds s) (n_fds (sys_close fd v))"
          using opened sw y(2) failed(3) by (intro close_restores [of _ _ _ y]) simp_all
        moreover have "passive_loop K doListen (rp # rps) s = passive_loop K doListen rps (sys_close fd v)"
          unfolding loop using opened failed y by simp
        ultimately show thesis by (rule next_entry [rotated])
      next
        case worked
        have "fresh_fd fd s v" using opened same_but_trans [OF sw worked(4)] by (simp add: fresh_fd_def)
        moreover have "passive_loop K doListen (rp # rps) s = (Inr (Some (fd, rp)), v)"
          unfolding loop using opened worked y by simp
        ultimately show thesis using y(4) by (intro bound [OF _ _ worked(3)]) simp_all
      qed
    qed
  qed
qed

lemma passive_loop_spec:
  assumes "passive_loop K doListen rps s = (r, u)"
  shows "((r = Inl (-1) \<and> doListen \<or> r = Inr None) \<and> same_fds (n_fds s) (n_fds u))
    \<or> (\<exists>fd rp x. r = Inr (Some (fd, rp)) \<and> fresh_fd fd s u \<and> rp \<in> set rps \<and> fd_get (n_fds u) fd = Some x
         \<and> s_bound x = Some (take (ai_addrlen rp) (ai_addr rp)) \<and> s_reuse x = doListen)"
  using assms
proof (induction rps arbitrary: s)
  case Nil
  then show ?case by simp
next
  case (Cons rp rps)
  show ?case
  proof (cases rule: passive_round [of K doListen rp rps s])
    case (next_entry v)
    then show ?thesis using Cons.IH [of v] Cons.prems
      by (auto intro: same_fds_trans fresh_fd_weaken)
  next
    case (given_up v)
    then show ?thesis using Cons.prems by auto
  next
    case (bound fd v x)
    then show ?thesis using Cons.prems by auto
  qed
qed

lemma same_fds_tick: "same_fds (n_fds (tick s)) t \<longleftrightarrow> same_fds (n_fds s) t"
  by simp

lemma fresh_tick: "fresh_fd fd (tick s) u \<longleftrightarrow> fresh_fd fd s u"
  by (simp add: fresh_fd_def)

lemma fresh_ge: "fresh_fd fd s u \<Longrightarrow> 0 \<le> fd"
  by (simp add: fresh_fd_def)

section \<open>Properties\<close>

text \<open>C14: \<open>inetConnect()\<close> leaves no descriptor behind. Either it returns -1 and every descriptor
  is as before, or it returns a descriptor that was free, now a socket connected to one of the
  addresses that \<open>getaddrinfo()\<close> returned, all others as before. It returns -1 only if the name
  was not resolved, with \<open>errno\<close> set to \<open>ENOSYS\<close>, or each address was refused.\<close>

theorem inetConnect_descriptors:
  assumes "k_getaddrinfo K host service
      \<lparr>ai_family = AF_UNSPEC, ai_socktype = type, ai_protocol = 0, ai_addr = [], ai_addrlen = 0, ai_flags = 0\<rparr> (n_clock s) = (e, rps)"
    and "inetConnect K host service type s = (r, u)"
  shows "r = -1 \<and> same_fds (n_fds s) (n_fds u)
      \<and> (if e \<noteq> 0 then n_errno u = ENOSYS else \<forall>rp\<in>set rps. \<exists>t. \<not> k_socket K rp t \<or> \<not> k_connect K rp t)
    \<or> e = 0 \<and> fresh_fd r s u \<and> (\<exists>rp\<in>set rps. \<exists>x. fd_get (n_fds u) r = Some x \<and> s_peer x = Some (take (ai_addrlen rp) (ai_addr rp)))"
proof (cases "e = 0")
  case False
  then show ?thesis using assms by (auto simp: inetConnect_def)
next
  case True
  obtain q v where l: "connect_loop K rps (tick s) = (q, v)" by force
  have "r = (case q of None \<Rightarrow> -1 | Some sfd \<Rightarrow> sfd)" "u = v" using assms l True by (auto simp: inetConnect_def)
  then show ?thesis using connect_loop_spec [OF l] True by (auto simp: fresh_tick)
qed

definition addr1 :: addrinfo where
  "addr1 = \<lparr>ai_family = 2, ai_socktype = 1, ai_protocol = 6, ai_addr = ''10.0.0.1:80'', ai_addrlen = 11, ai_flags = 0\<rparr>"

definition addr2 :: addrinfo where
  "addr2 = \<lparr>ai_family = 10, ai_socktype = 1, ai_protocol = 6, ai_addr = ''[::1]:80'', ai_addrlen = 8, ai_flags = 0\<rparr>"

definition sample_net :: netops where
  "sample_net = \<lparr>k_getaddrinfo = (\<lambda>h v i n. (0, [addr1, addr2])), k_socket = (\<lambda>rp n. True), k_connect = (\<lambda>rp n. rp = addr2),
     k_reuse = (\<lambda>n. True), k_bind = (\<lambda>rp n. True), k_listen = (\<lambda>n. False), k_errno = (\<lambda>n. 98),
     k_getnameinfo = (\<lambda>a n. None)\<rparr>"

definition sample_st :: netst where
  "sample_st = \<lparr>n_fds = [Some \<lparr>s_info = (0, 0, 0), s_reuse = False, s_peer = None, s_bound = None, s_listen = None\<rparr>],
     n_clock = 0, n_errno = 0\<rparr>"

lemmas sample_run = sample_net_def sample_st_def addr1_def addr2_def sys_socket_def sys_connect_def sys_close_def sys_reuse_def
  sys_bind_def sys_listen_def on_fd_def fails_def fd_set_def fd_get_def tick_def Let_def

theorem inetConnect_descriptors_witness:
  "fst (inetConnect sample_net (Some ''host'') ''http'' SOCK_STREAM sample_st) = 1
   \<and> fresh_fd 1 sample_st (snd (inetConnect sample_net (Some ''host'') ''http'' SOCK_STREAM sample_st))"
proof -
  let ?r = "inetConnect sample_net (Some ''host'') ''http'' SOCK_STREAM sample_st"
  have r: "fst ?r = 1" by (simp add: inetConnect_def sample_run)
  have "k_getaddrinfo sample_net (Some ''host'') ''http''
      \<lparr>ai_family = AF_UNSPEC, ai_socktype = SOCK_STREAM, ai_protocol = 0, ai_addr = [], ai_addrlen = 0, ai_flags = 0\<rparr>
      (n_clock sample_st) = (0, [addr1, addr2])" by (simp add: sample_net_def)
  from inetConnect_descriptors [OF this prod.collapse [symmetric]] show ?thesis using r by auto
qed

text \<open>C37: \<open>inetPassiveSocket()\<close> as \<open>inetBind()\<close> calls it leaves no descriptor behind: it returns -1 with every descriptor as before,
  or a descriptor that was free, now a socket bound to one of the addresses found, and stores
  the length of that address. As \<open>inetListen()\<close> calls it, it does the same, with the socket listening and
  reusable, except that a failing \<open>listen()\<close> leaves the bound socket open while -1 is returned.\<close>

lemma inet_passive_descriptors:
  assumes "k_getaddrinfo K None service
      \<lparr>ai_family = AF_UNSPEC, ai_socktype = type, ai_protocol = 0, ai_addr = [], ai_addrlen = 0, ai_flags = AI_PASSIVE\<rparr> (n_clock s) = (e, rps)"
  shows "case inetPassiveSocket K service type addrlen doListen backlog s of (r, al, u) \<Rightarrow>
      r = -1 \<and> al = addrlen \<and> same_fds (n_fds s) (n_fds u)
    \<or> e = 0 \<and> fresh_fd r s u \<and> (\<exists>rp\<in>set rps. al = map_option (\<lambda>_. ai_addrlen rp) addrlen \<and> (\<exists>x. fd_get (n_fds u) r = Some x
        \<and> s_bound x = Some (take (ai_addrlen rp) (ai_addr rp)) \<and> s_reuse x = doListen \<and> (doListen \<longrightarrow> s_listen x = Some backlog)))
    \<or> r = -1 \<and> al = addrlen \<and> doListen \<and> (\<exists>t. \<not> k_listen K t) \<and> (\<exists>fd. fresh_fd fd s u \<and> fd_get (n_fds u) fd \<noteq> None)"
proof (cases "e = 0")
  case False
  then show ?thesis using assms by (simp add: inetPassiveSocket_def)
next
  case True
  obtain q v where l: "passive_loop K doListen rps (tick s) = (q, v)" by force
  from passive_loop_spec [OF l] show ?thesis
  proof (elim disjE exE conjE)
    fix fd rp x
    assume q: "q = Inr (Some (fd, rp))" and f: "fresh_fd fd (tick s) v" and rp: "rp \<in> set rps"
      and x: "fd_get (n_fds v) fd = Some x" "s_bound x = Some (take (ai_addrlen rp) (ai_addr rp))" "s_reuse x = doListen"
    show ?thesis
    proof (cases doListen)
      case False
      then show ?thesis using assms True l q f rp x fresh_ge [OF f] by (auto simp: inetPassiveSocket_def fresh_tick)
    next
      case doL: True
      obtain m w where m: "sys_listen K fd backlog v = (m, w)" by force
      from m [unfolded sys_listen_def] x(1) show ?thesis
      proof (cases rule: on_fd_cases)
        case failed
        then show ?thesis using assms True l q f m x doL
          by (auto simp: inetPassiveSocket_def fresh_fd_def same_but_def)
      next
        case worked
        have "fresh_fd fd s w" using f same_but_trans [OF _ worked(4)] by (simp add: fresh_fd_def)
        then show ?thesis using assms True l q m x doL worked rp by (auto simp: inetPassiveSocket_def)
      qed
    qed
  qed (use assms True l in \<open>auto simp: inetPassiveSocket_def\<close>)
qed

text \<open>A server that cannot listen: \<open>inetListen()\<close> returns -1 and leaves the bound socket open;
  the caller has no descriptor to close it with.\<close>

lemma inetListen_leaks:
  "\<exists>K s. fst (inetListen K ''http'' 5 None s) = -1
     \<and> fd_get (n_fds s) 1 = None \<and> fd_get (n_fds (snd (snd (inetListen K ''http'' 5 None s)))) 1 \<noteq> None"
proof (intro exI conjI)
  let ?r = "inetListen sample_net ''http'' 5 None sample_st"
  show "fst ?r = -1" by (simp add: inetListen_def inetPassiveSocket_def sample_run)
  show "fd_get (n_fds sample_st) 1 = None" by (simp add: sample_run)
  show "fd_get (n_fds (snd (snd ?r))) 1 \<noteq> None" by (simp add: inetListen_def inetPassiveSocket_def sample_run)
qed

text \<open>The text of an address fits in the buffer.\<close>

lemma inetAddressStr_fits: "0 < n \<Longrightarrow> length (inetAddressStr K addr addrlen n) < n"
  by (simp add: inetAddressStr_def snprintf_buf_def)

end
