(* ===== verification/Tlpi_Text.thy ===== *)
theory Tlpi_Text
  imports Tlpi_Lib
begin

text \<open>
  Conversions between values and texts of the TLPI programs: permissions
  (\<open>files/file_perms.c\<close>), user and group identifiers (\<open>users_groups/ugid_functions.c\<close>) and timer
  settings (\<open>timers/itimerspec_from_str.c\<close>). The user and group databases are parameters. The
  lemmas show that the texts determine the values.
\<close>

section \<open>Permissions\<close>

type_synonym mode_t = "32 word"

definition FP_SPECIAL :: "32 word" where "FP_SPECIAL = 1"

definition perm_char :: "mode_t \<Rightarrow> mode_t \<Rightarrow> char \<Rightarrow> char" where
  "perm_char perm m c = (if perm AND m \<noteq> 0 then c else CHR ''-'')"

text \<open>The execute field of a class, with the special bit \<open>special\<close> shown as \<open>lower\<close> or \<open>upper\<close>.\<close>

definition exec_char :: "mode_t \<Rightarrow> 32 word \<Rightarrow> mode_t \<Rightarrow> mode_t \<Rightarrow> char \<Rightarrow> char \<Rightarrow> char" where
  "exec_char perm flags m special lower upper =
     (if perm AND m \<noteq> 0
      then (if perm AND special \<noteq> 0 \<and> flags AND FP_SPECIAL \<noteq> 0 then lower else CHR ''x'')
      else (if perm AND special \<noteq> 0 \<and> flags AND FP_SPECIAL \<noteq> 0 then upper else CHR ''-''))"

definition filePermStr :: "mode_t \<Rightarrow> 32 word \<Rightarrow> string" where
  "filePermStr perm flags = snprintf_buf 10
     [perm_char perm 0x100 CHR ''r'', perm_char perm 0x80 CHR ''w'', exec_char perm flags 0x40 0x800 CHR ''s'' CHR ''S'',
      perm_char perm 0x20 CHR ''r'', perm_char perm 0x10 CHR ''w'', exec_char perm flags 0x08 0x400 CHR ''s'' CHR ''S'',
      perm_char perm 0x04 CHR ''r'', perm_char perm 0x02 CHR ''w'', exec_char perm flags 0x01 0x200 CHR ''t'' CHR ''T'']"

lemma and_mask_bit: "(w :: 32 word) AND push_bit n 1 \<noteq> 0 \<longleftrightarrow> bit w n"
  by (simp add: and_exp_eq_0_iff_not_bit push_bit_eq_mult)

lemma perm_masks:
  "(w :: 32 word) AND 0x100 \<noteq> 0 \<longleftrightarrow> bit w 8" "w AND 0x80 \<noteq> 0 \<longleftrightarrow> bit w 7" "w AND 0x40 \<noteq> 0 \<longleftrightarrow> bit w 6"
  "w AND 0x20 \<noteq> 0 \<longleftrightarrow> bit w 5" "w AND 0x10 \<noteq> 0 \<longleftrightarrow> bit w 4" "w AND 0x08 \<noteq> 0 \<longleftrightarrow> bit w 3"
  "w AND 0x04 \<noteq> 0 \<longleftrightarrow> bit w 2" "w AND 0x02 \<noteq> 0 \<longleftrightarrow> bit w 1" "w AND 0x01 \<noteq> 0 \<longleftrightarrow> bit w 0"
  "w AND 0x800 \<noteq> 0 \<longleftrightarrow> bit w 11" "w AND 0x400 \<noteq> 0 \<longleftrightarrow> bit w 10" "w AND 0x200 \<noteq> 0 \<longleftrightarrow> bit w 9"
  using and_mask_bit [of w 8] and_mask_bit [of w 7] and_mask_bit [of w 6] and_mask_bit [of w 5] and_mask_bit [of w 4]
    and_mask_bit [of w 3] and_mask_bit [of w 2] and_mask_bit [of w 1] and_mask_bit [of w 0] and_mask_bit [of w 11]
    and_mask_bit [of w 10] and_mask_bit [of w 9]
  by (simp_all add: push_bit_eq_mult)

lemma length_filePermStr: "length (filePermStr perm flags) = 9"
  by (simp add: filePermStr_def snprintf_buf_def)

lemma perm_char_eq: "c \<noteq> CHR ''-'' \<Longrightarrow> perm_char p m c = perm_char q m c \<longleftrightarrow> (p AND m \<noteq> 0) = (q AND m \<noteq> 0)"
  by (auto simp: perm_char_def)

lemma exec_char_eq:
  "distinct [lower, upper, CHR ''x'', CHR ''-''] \<Longrightarrow>
    exec_char p FP_SPECIAL m s lower upper = exec_char q FP_SPECIAL m s lower upper \<longleftrightarrow>
      (p AND m \<noteq> 0) = (q AND m \<noteq> 0) \<and> (p AND s \<noteq> 0) = (q AND s \<noteq> 0)"
  by (auto simp: exec_char_def FP_SPECIAL_def)

text \<open>With \<open>FP_SPECIAL\<close> the text determines all twelve permission bits.\<close>

lemma filePermStr_determines:
  assumes "filePermStr p FP_SPECIAL = filePermStr q FP_SPECIAL"
  shows "take_bit 12 p = take_bit 12 q"
proof (rule bit_eqI)
  fix n :: nat
  have b: "bit p 0 = bit q 0" "bit p 1 = bit q 1" "bit p 2 = bit q 2" "bit p 3 = bit q 3" "bit p 4 = bit q 4" "bit p 5 = bit q 5"
    "bit p 6 = bit q 6" "bit p 7 = bit q 7" "bit p 8 = bit q 8" "bit p 9 = bit q 9" "bit p 10 = bit q 10" "bit p 11 = bit q 11"
    using assms by (simp_all add: filePermStr_def snprintf_buf_def perm_char_eq exec_char_eq perm_masks)
  have "bit p n = bit q n" if "n < 12"
  proof -
    from that have "n \<in> {0, 1, 2, 3, 4, 5, 6, 7, 8, 9, 10, 11}" by (simp only: insert_iff empty_iff) presburger
    then show ?thesis by (elim insertE; simp only: b empty_iff)
  qed
  then show "bit (take_bit 12 p) n = bit (take_bit 12 q) n"
    by (auto simp only: bit_take_bit_iff)
qed

section \<open>Users and groups\<close>

type_synonym id_t = "32 word"

text \<open>An entry of a database: name and number.\<close>

record id_entry =
  e_name :: string
  e_id :: id_t

record id_db =
  by_id :: "id_t \<Rightarrow> id_entry option"
  by_name :: "string \<Rightarrow> id_entry option"

definition userNameFromId :: "id_db \<Rightarrow> id_t \<Rightarrow> string option" where
  "userNameFromId pw uid = (case by_id pw uid of None \<Rightarrow> None | Some pwd \<Rightarrow> Some (e_name pwd))"

definition userIdFromName :: "id_db \<Rightarrow> string option \<Rightarrow> id_t" where
  "userIdFromName pw name =
     (case name of
        None \<Rightarrow> -1
      | Some n \<Rightarrow>
          if n = [] then -1
          else (case strtol 10 n of (u, endptr, _) \<Rightarrow>
            if endptr = [] then word_of_int u
            else (case by_name pw n of None \<Rightarrow> -1 | Some pwd \<Rightarrow> e_id pwd)))"

definition groupNameFromId :: "id_db \<Rightarrow> id_t \<Rightarrow> string option" where
  "groupNameFromId gr gid = (case by_id gr gid of None \<Rightarrow> None | Some grp \<Rightarrow> Some (e_name grp))"

definition groupIdFromName :: "id_db \<Rightarrow> string option \<Rightarrow> id_t" where
  "groupIdFromName gr name =
     (case name of
        None \<Rightarrow> -1
      | Some n \<Rightarrow>
          if n = [] then -1
          else (case strtol 10 n of (g, endptr, _) \<Rightarrow>
            if endptr = [] then word_of_int g
            else (case by_name gr n of None \<Rightarrow> -1 | Some grp \<Rightarrow> e_id grp)))"

definition numeric :: "string \<Rightarrow> bool" where
  "numeric n \<longleftrightarrow> fst (snd (strtol 10 n)) = []"

text \<open>What the functions for users and for groups have in common.\<close>

locale id_names =
  fixes name_of :: "id_db \<Rightarrow> id_t \<Rightarrow> string option"
    and id_of :: "id_db \<Rightarrow> string option \<Rightarrow> id_t"
  assumes name_of_entry: "name_of db i = map_option e_name (by_id db i)"
    and id_of_number: "n \<noteq> [] \<Longrightarrow> numeric n \<Longrightarrow> id_of db (Some n) = word_of_int (fst (strtol 10 n))"
    and id_of_name: "n \<noteq> [] \<Longrightarrow> \<not> numeric n \<Longrightarrow> id_of db (Some n) = (case by_name db n of None \<Rightarrow> -1 | Some e \<Rightarrow> e_id e)"
    and id_of_nothing: "id_of db None = -1" "id_of db (Some []) = -1"
begin

text \<open>A printed number is read back, whether or not the database knows it.\<close>

lemma number_back: "id_of db (Some (dec_of_int (uint i))) = i"
proof -
  have "uint i < 2 ^ 32" using uint_bounded [of i] by simp
  then have s: "strtol 10 (dec_of_int (uint i)) = (uint i, [], False)"
    by (intro strtol_dec) (simp_all add: LONG_MIN_def LONG_MAX_def order_trans [OF _ uint_ge_0])
  have "dec_of_int (uint i) \<noteq> []"
    using dec_head [of "nat (uint i)"] by (auto simp: dec_of_int_def)
  then show ?thesis using s by (simp add: id_of_number numeric_def)
qed

text \<open>A name is read back where the database is consistent and the name is not a number.\<close>

lemma name_back:
  assumes "name_of db i = Some n" "n \<noteq> []" "\<not> numeric n"
    and "\<And>e. by_id db i = Some e \<Longrightarrow> e_id e = i \<and> by_name db (e_name e) = Some e"
  shows "id_of db (Some n) = i"
  using assms by (auto simp: name_of_entry id_of_name)

end

interpretation users: id_names userNameFromId userIdFromName
  by unfold_locales (auto simp: userNameFromId_def userIdFromName_def numeric_def split: option.split prod.splits)

interpretation groups: id_names groupNameFromId groupIdFromName
  by unfold_locales (auto simp: groupNameFromId_def groupIdFromName_def numeric_def split: option.split prod.splits)

section \<open>Timer settings\<close>

record timespec =
  tv_sec :: int
  tv_nsec :: int

record itimerspec =
  it_value :: timespec
  it_interval :: timespec

text \<open>\<open>atoi()\<close> is \<open>strtol()\<close> cut to an \<open>int\<close>.\<close>

definition atoi_int :: "string \<Rightarrow> int" where
  "atoi_int s = sint (word_of_int (fst (strtol 10 s)) :: 32 word)"

text \<open>\<open>strchr()\<close> and the NUL it is replaced by: the text before and, if found, after \<open>c\<close>.\<close>

definition cut_at :: "char \<Rightarrow> string \<Rightarrow> string \<times> string option" where
  "cut_at c s = (takeWhile (\<lambda>x. x \<noteq> c) s, if c \<in> set s then Some (tl (dropWhile (\<lambda>x. x \<noteq> c) s)) else None)"

definition spec_part :: "string \<Rightarrow> timespec" where
  "spec_part s =
     (case cut_at CHR ''/'' s of (a, r) \<Rightarrow>
        \<lparr>tv_sec = atoi_int a, tv_nsec = (case r of None \<Rightarrow> 0 | Some n \<Rightarrow> atoi_int n)\<rparr>)"

definition itimerspecFromStr :: "string \<Rightarrow> itimerspec" where
  "itimerspecFromStr str =
     (case cut_at CHR '':'' str of (v, r) \<Rightarrow>
        \<lparr>it_value = spec_part v,
         it_interval = (case r of None \<Rightarrow> \<lparr>tv_sec = 0, tv_nsec = 0\<rparr> | Some i \<Rightarrow> spec_part i)\<rparr>)"

lemma cut_at_append: "c \<notin> set a \<Longrightarrow> cut_at c (a @ c # b) = (a, Some b)"
  by (induction a) (auto simp: cut_at_def)

lemma cut_at_none: "c \<notin> set a \<Longrightarrow> cut_at c a = (a, None)"
  by (auto simp: cut_at_def takeWhile_eq_all_conv)

lemma byte_digit: "d < 10 \<Longrightarrow> byte (char_of (48 + d :: nat)) = 48 + int d"
  by (simp add: byte_def)

lemma dec_nat_chars: "c \<in> set (dec_of_nat n) \<Longrightarrow> 48 \<le> byte c \<and> byte c \<le> 57"
proof (induction n rule: dec_of_nat.induct)
  case (1 n)
  have "n mod 10 < 10" by simp
  then show ?case
    using 1 byte_digit [of n] byte_digit [of "n mod 10"]
    by (cases "n < 10") (simp_all only: dec_of_nat.simps [of n] if_True if_False set_append, auto)
qed

lemma dec_int_chars: "c \<in> set (dec_of_int i) \<Longrightarrow> c = CHR ''-'' \<or> 48 \<le> byte c \<and> byte c \<le> 57"
  using dec_nat_chars by (auto simp: dec_of_int_def split: if_splits)

lemma no_separators: "CHR ''/'' \<notin> set (dec_of_int i)" "CHR '':'' \<notin> set (dec_of_int i)"
  using dec_int_chars [of "CHR ''/''" i] dec_int_chars [of "CHR '':''" i] by (auto simp: byte_def)

lemma atoi_int_dec:
  assumes "INT_MIN \<le> i" "i \<le> INT_MAX"
  shows "atoi_int (dec_of_int i) = i"
proof -
  have "strtol 10 (dec_of_int i) = (i, [], False)"
    using assms by (intro strtol_dec) (simp_all add: INT_MIN_def INT_MAX_def LONG_MIN_def LONG_MAX_def)
  moreover have "sint (word_of_int i :: 32 word) = i"
    using assms by (simp add: INT_MIN_def INT_MAX_def sint_sbintrunc' signed_take_bit_int_eq_self)
  ultimately show ?thesis by (simp add: atoi_int_def)
qed

text \<open>The full form of a setting is read back; the parts left out are 0.\<close>

lemma itimerspec_roundtrip:
  assumes "\<forall>i \<in> {a, b, c, d}. INT_MIN \<le> i \<and> i \<le> INT_MAX"
  shows "itimerspecFromStr (dec_of_int a @ ''/'' @ dec_of_int b @ '':'' @ dec_of_int c @ ''/'' @ dec_of_int d)
      = \<lparr>it_value = \<lparr>tv_sec = a, tv_nsec = b\<rparr>, it_interval = \<lparr>tv_sec = c, tv_nsec = d\<rparr>\<rparr>"
    and "itimerspecFromStr (dec_of_int a) = \<lparr>it_value = \<lparr>tv_sec = a, tv_nsec = 0\<rparr>, it_interval = \<lparr>tv_sec = 0, tv_nsec = 0\<rparr>\<rparr>"
proof -
  have p: "spec_part (dec_of_int i @ CHR ''/'' # dec_of_int j) = \<lparr>tv_sec = i, tv_nsec = j\<rparr>"
    if "i \<in> {a, b, c, d}" "j \<in> {a, b, c, d}" for i j
    using that assms atoi_int_dec [of i] atoi_int_dec [of j] by (auto simp: spec_part_def cut_at_append no_separators)
  have "cut_at CHR '':'' ((dec_of_int a @ CHR ''/'' # dec_of_int b) @ CHR '':'' # dec_of_int c @ CHR ''/'' # dec_of_int d)
      = (dec_of_int a @ CHR ''/'' # dec_of_int b, Some (dec_of_int c @ CHR ''/'' # dec_of_int d))"
    by (rule cut_at_append) (simp add: no_separators)
  then show "itimerspecFromStr (dec_of_int a @ ''/'' @ dec_of_int b @ '':'' @ dec_of_int c @ ''/'' @ dec_of_int d)
      = \<lparr>it_value = \<lparr>tv_sec = a, tv_nsec = b\<rparr>, it_interval = \<lparr>tv_sec = c, tv_nsec = d\<rparr>\<rparr>"
    by (simp add: itimerspecFromStr_def p)
  show "itimerspecFromStr (dec_of_int a) = \<lparr>it_value = \<lparr>tv_sec = a, tv_nsec = 0\<rparr>, it_interval = \<lparr>tv_sec = 0, tv_nsec = 0\<rparr>\<rparr>"
    using assms by (simp add: itimerspecFromStr_def spec_part_def cut_at_none no_separators atoi_int_dec)
qed

end
