(* ===== verification/Bpf.thy ===== *)
theory Bpf
  imports Prelude "HOL-Library.Word"
begin

text \<open>
  Classic BPF as seccomp uses it: the instructions that the filters of the repository are
  written in, and the machine that runs a filter on the description of a system call. A
  filter only jumps forward, so the machine is a recursive function on the rest of the program.

  The lemmas show that a filter that passes the checks made on installation always returns
  an action.
\<close>

unbundle bit_operations_syntax

section \<open>Instructions\<close>

type_synonym u32 = "32 word"
type_synonym u64 = "64 word"

record sock_filter =
  f_code :: "16 word"
  f_jt :: "8 word"
  f_jf :: "8 word"
  f_k :: u32

definition BPF_LD :: "16 word" where "BPF_LD = 0x00"
definition BPF_ALU :: "16 word" where "BPF_ALU = 0x04"
definition BPF_JMP :: "16 word" where "BPF_JMP = 0x05"
definition BPF_RET :: "16 word" where "BPF_RET = 0x06"
definition BPF_W :: "16 word" where "BPF_W = 0x00"
definition BPF_ABS :: "16 word" where "BPF_ABS = 0x20"
definition BPF_ADD :: "16 word" where "BPF_ADD = 0x00"
definition BPF_JA :: "16 word" where "BPF_JA = 0x00"
definition BPF_JEQ :: "16 word" where "BPF_JEQ = 0x10"
definition BPF_JGT :: "16 word" where "BPF_JGT = 0x20"
definition BPF_JGE :: "16 word" where "BPF_JGE = 0x30"
definition BPF_JSET :: "16 word" where "BPF_JSET = 0x40"
definition BPF_K :: "16 word" where "BPF_K = 0x00"

lemmas bpf_codes = BPF_LD_def BPF_ALU_def BPF_JMP_def BPF_RET_def BPF_W_def BPF_ABS_def BPF_ADD_def BPF_JA_def
  BPF_JEQ_def BPF_JGT_def BPF_JGE_def BPF_JSET_def BPF_K_def

definition BPF_STMT :: "16 word \<Rightarrow> u32 \<Rightarrow> sock_filter" where
  "BPF_STMT code k = \<lparr>f_code = code, f_jt = 0, f_jf = 0, f_k = k\<rparr>"

definition BPF_JUMP :: "16 word \<Rightarrow> u32 \<Rightarrow> 8 word \<Rightarrow> 8 word \<Rightarrow> sock_filter" where
  "BPF_JUMP code k jt jf = \<lparr>f_code = code, f_jt = jt, f_jf = jf, f_k = k\<rparr>"

section \<open>The system call\<close>

text \<open>\<open>struct seccomp_data\<close> and the offsets of its fields on a little-endian machine.\<close>

record seccomp_data =
  sd_nr :: u32
  sd_arch :: u32
  sd_ip :: u64
  sd_args :: "u64 list"

definition OFF_NR :: u32 where "OFF_NR = 0"
definition OFF_ARCH :: u32 where "OFF_ARCH = 4"
definition OFF_ARG :: "nat \<Rightarrow> u32" where "OFF_ARG i = 16 + 8 * of_nat i"

definition low32 :: "u64 \<Rightarrow> u32" where "low32 w = ucast w"
definition high32 :: "u64 \<Rightarrow> u32" where "high32 w = ucast (drop_bit 32 w)"

definition data_words :: "seccomp_data \<Rightarrow> u32 list" where
  "data_words d = [sd_nr d, sd_arch d, low32 (sd_ip d), high32 (sd_ip d)]
     @ concat (map (\<lambda>a. [low32 a, high32 a]) (sd_args d))"

definition data_ok :: "seccomp_data \<Rightarrow> bool" where
  "data_ok d \<longleftrightarrow> length (sd_args d) = 6"

section \<open>The machine\<close>

text \<open>
  The argument \<open>a\<close> is the accumulator. \<open>None\<close>: a wrong instruction, or the end of the program
  was passed.
\<close>

definition bpf_load :: "seccomp_data \<Rightarrow> u32 \<Rightarrow> u32 option" where
  "bpf_load d k = (if unat k mod 4 = 0 \<and> unat k div 4 < length (data_words d) then Some (data_words d ! (unat k div 4)) else None)"

definition bpf_test :: "sock_filter \<Rightarrow> u32 \<Rightarrow> bool option" where
  "bpf_test i a =
     (if f_code i = BPF_JMP OR BPF_JEQ OR BPF_K then Some (a = f_k i)
      else if f_code i = BPF_JMP OR BPF_JGT OR BPF_K then Some (f_k i < a)
      else if f_code i = BPF_JMP OR BPF_JGE OR BPF_K then Some (f_k i \<le> a)
      else if f_code i = BPF_JMP OR BPF_JSET OR BPF_K then Some (a AND f_k i \<noteq> 0)
      else None)"

function bpf_run :: "sock_filter list \<Rightarrow> seccomp_data \<Rightarrow> u32 \<Rightarrow> u32 option" where
  "bpf_run [] d a = None"
| "bpf_run (i # js) d a =
     (if f_code i = BPF_RET OR BPF_K then Some (f_k i)
      else if f_code i = BPF_LD OR BPF_W OR BPF_ABS then
        (case bpf_load d (f_k i) of None \<Rightarrow> None | Some a \<Rightarrow> bpf_run js d a)
      else if f_code i = BPF_ALU OR BPF_ADD OR BPF_K then bpf_run js d (a + f_k i)
      else if f_code i = BPF_JMP OR BPF_JA then bpf_run (drop (unat (f_k i)) js) d a
      else (case bpf_test i a of
              None \<Rightarrow> None
            | Some b \<Rightarrow> bpf_run (drop (unat (if b then f_jt i else f_jf i)) js) d a))"
  by pat_completeness auto
termination
  by (relation "measure (\<lambda>(js, d, a). length js)") auto

declare bpf_run.simps [simp del]

lemma bpf_run_stmt [simp]:
  "bpf_run (BPF_STMT (BPF_RET OR BPF_K) k # js) d a = Some k"
  "bpf_run (BPF_STMT (BPF_LD OR BPF_W OR BPF_ABS) k # js) d a =
     (case bpf_load d k of None \<Rightarrow> None | Some a \<Rightarrow> bpf_run js d a)"
  "bpf_run (BPF_STMT (BPF_ALU OR BPF_ADD OR BPF_K) k # js) d a = bpf_run js d (a + k)"
  by (simp_all add: bpf_run.simps BPF_STMT_def bpf_codes cong: option.case_cong)

lemma bpf_run_jump [simp]:
  "bpf_run (BPF_JUMP (BPF_JMP OR BPF_JA) k jt jf # js) d a = bpf_run (drop (unat k) js) d a"
  "bpf_run (BPF_JUMP (BPF_JMP OR BPF_JEQ OR BPF_K) k jt jf # js) d a = bpf_run (drop (unat (if a = k then jt else jf)) js) d a"
  "bpf_run (BPF_JUMP (BPF_JMP OR BPF_JGT OR BPF_K) k jt jf # js) d a = bpf_run (drop (unat (if k < a then jt else jf)) js) d a"
  "bpf_run (BPF_JUMP (BPF_JMP OR BPF_JGE OR BPF_K) k jt jf # js) d a = bpf_run (drop (unat (if k \<le> a then jt else jf)) js) d a"
  "bpf_run (BPF_JUMP (BPF_JMP OR BPF_JSET OR BPF_K) k jt jf # js) d a =
     bpf_run (drop (unat (if a AND k \<noteq> 0 then jt else jf)) js) d a"
  by (simp_all add: bpf_run.simps bpf_test_def BPF_JUMP_def bpf_codes)

lemma bpf_load_fields [simp]:
  "bpf_load d OFF_NR = Some (sd_nr d)" "bpf_load d OFF_ARCH = Some (sd_arch d)"
  by (simp_all add: bpf_load_def OFF_NR_def OFF_ARCH_def data_words_def)

lemma data_args: "data_ok d \<Longrightarrow> \<exists>a0 a1 a2 a3 a4 a5. sd_args d = [a0, a1, a2, a3, a4, a5]"
  by (auto simp: data_ok_def numeral_eq_Suc length_Suc_conv)

lemma bpf_load_args:
  assumes "data_ok d"
  shows "bpf_load d (OFF_ARG 1) = Some (low32 (sd_args d ! 1))" "bpf_load d (OFF_ARG 1 + 4) = Some (high32 (sd_args d ! 1))"
    "bpf_load d (OFF_ARG 2) = Some (low32 (sd_args d ! 2))"
proof -
  obtain a0 a1 a2 a3 a4 a5 where a: "sd_args d = [a0, a1, a2, a3, a4, a5]" using data_args [OF assms] by blast
  have off: "OFF_ARG 1 = 24" "OFF_ARG 1 + 4 = 28" "OFF_ARG 2 = 32" by (simp_all add: OFF_ARG_def)
  show "bpf_load d (OFF_ARG 1) = Some (low32 (sd_args d ! 1))" "bpf_load d (OFF_ARG 1 + 4) = Some (high32 (sd_args d ! 1))"
    "bpf_load d (OFF_ARG 2) = Some (low32 (sd_args d ! 2))"
    unfolding off by (simp_all add: bpf_load_def data_words_def a)
qed

section \<open>The checks on installation\<close>

text \<open>Known instructions, loads inside of \<open>struct seccomp_data\<close>, jumps inside of the program.\<close>

definition jump_code :: "16 word \<Rightarrow> bool" where
  "jump_code c \<longleftrightarrow> c \<in> {BPF_JMP OR BPF_JEQ OR BPF_K, BPF_JMP OR BPF_JGT OR BPF_K, BPF_JMP OR BPF_JGE OR BPF_K, BPF_JMP OR BPF_JSET OR BPF_K}"

definition instr_ok :: "sock_filter \<Rightarrow> nat \<Rightarrow> bool" where
  "instr_ok i rest \<longleftrightarrow>
     (if f_code i = BPF_RET OR BPF_K then True
      else if f_code i = BPF_LD OR BPF_W OR BPF_ABS then unat (f_k i) mod 4 = 0 \<and> unat (f_k i) < 64
      else if f_code i = BPF_ALU OR BPF_ADD OR BPF_K then True
      else if f_code i = BPF_JMP OR BPF_JA then unat (f_k i) < rest
      else jump_code (f_code i) \<and> unat (f_jt i) < rest \<and> unat (f_jf i) < rest)"

fun instrs_ok :: "sock_filter list \<Rightarrow> bool" where
  "instrs_ok [] = True"
| "instrs_ok (i # js) \<longleftrightarrow> instr_ok i (length js) \<and> instrs_ok js"

definition BPF_MAXINSNS :: nat where "BPF_MAXINSNS = 4096"

definition check_filter :: "sock_filter list \<Rightarrow> bool" where
  "check_filter p \<longleftrightarrow> p \<noteq> [] \<and> length p \<le> BPF_MAXINSNS \<and> instrs_ok p \<and> f_code (last p) = BPF_RET OR BPF_K"

lemma instrs_ok_drop: "instrs_ok p \<Longrightarrow> instrs_ok (drop n p)"
  by (induction p arbitrary: n) (auto simp: drop_Cons split: nat.split)

lemma bpf_load_ok: "data_ok d \<Longrightarrow> unat k mod 4 = 0 \<Longrightarrow> unat k < 64 \<Longrightarrow> \<exists>a. bpf_load d k = Some a"
  by (auto simp: bpf_load_def data_ok_def data_words_def length_concat sum_list_triv o_def)

lemma bpf_test_ok: "jump_code (f_code i) \<Longrightarrow> \<exists>b. bpf_test i a = Some b"
  by (auto simp: bpf_test_def jump_code_def)

text \<open>A filter that passes the checks returns an action.\<close>

lemma bpf_run_returns:
  assumes "instrs_ok p" "p \<noteq> []" "f_code (last p) = BPF_RET OR BPF_K" "data_ok d"
  shows "\<exists>r. bpf_run p d a = Some r"
  using assms
proof (induction p d a rule: bpf_run.induct)
  case (1 d a)
  then show ?case by simp
next
  case (2 i js d a)
  have rest: "js \<noteq> []" if "f_code i \<noteq> BPF_RET OR BPF_K" using 2 that by (cases "js") auto
  have target: "drop n js \<noteq> [] \<and> instrs_ok (drop n js) \<and> f_code (last (drop n js)) = BPF_RET OR BPF_K"
    if "n < length js" for n
    using that 2 by (auto simp: instrs_ok_drop split: if_splits)
  show ?case
  proof (cases "f_code i = BPF_RET OR BPF_K")
    case True
    then show ?thesis by (simp add: bpf_run.simps)
  next
    case noret: False
    show ?thesis
    proof (cases "f_code i = BPF_LD OR BPF_W OR BPF_ABS")
      case True
      then obtain b where "bpf_load d (f_k i) = Some b"
        using "2.prems"(1,4) noret bpf_load_ok [of d "f_k i"] by (auto simp: instr_ok_def)
      then show ?thesis using "2.IH"(1) "2.prems"(4) noret rest True target [of 0] by (simp add: bpf_run.simps)
    next
      case nold: False
      show ?thesis
      proof (cases "f_code i = BPF_ALU OR BPF_ADD OR BPF_K \<or> f_code i = BPF_JMP OR BPF_JA")
        case True
        then show ?thesis
          using "2.IH"(2,3) "2.prems"(1,4) noret nold rest target [of 0] target [of "unat (f_k i)"]
          by (auto simp: bpf_run.simps instr_ok_def)
      next
        case False
        have j: "jump_code (f_code i)" "unat (f_jt i) < length js" "unat (f_jf i) < length js"
          using False "2.prems"(1) noret nold by (auto simp: instr_ok_def)
        obtain b where b: "bpf_test i a = Some b" using bpf_test_ok j(1) by blast
        let ?n = "unat (if b then f_jt i else f_jf i)"
        have "\<exists>r. bpf_run (drop ?n js) d a = Some r"
          using "2.IH"(4) [OF noret nold _ _ b] False target [of ?n] j "2.prems"(4) by simp
        then show ?thesis using noret nold False b by (simp add: bpf_run.simps)
      qed
    qed
  qed
qed

section \<open>Actions\<close>

definition SECCOMP_RET_KILL_PROCESS :: u32 where "SECCOMP_RET_KILL_PROCESS = 0x80000000"
definition SECCOMP_RET_KILL :: u32 where "SECCOMP_RET_KILL = 0"
definition SECCOMP_RET_TRAP :: u32 where "SECCOMP_RET_TRAP = 0x00030000"
definition SECCOMP_RET_ERRNO :: u32 where "SECCOMP_RET_ERRNO = 0x00050000"
definition SECCOMP_RET_USER_NOTIF :: u32 where "SECCOMP_RET_USER_NOTIF = 0x7fc00000"
definition SECCOMP_RET_TRACE :: u32 where "SECCOMP_RET_TRACE = 0x7ff00000"
definition SECCOMP_RET_LOG :: u32 where "SECCOMP_RET_LOG = 0x7ffc0000"
definition SECCOMP_RET_ALLOW :: u32 where "SECCOMP_RET_ALLOW = 0x7fff0000"

lemmas seccomp_actions = SECCOMP_RET_KILL_PROCESS_def SECCOMP_RET_KILL_def SECCOMP_RET_TRAP_def SECCOMP_RET_ERRNO_def
  SECCOMP_RET_USER_NOTIF_def SECCOMP_RET_TRACE_def SECCOMP_RET_LOG_def SECCOMP_RET_ALLOW_def

text \<open>
  All filters of a process are run, the newest first; of their results the one with the
  action of the highest precedence counts, which is the smallest action as a signed number.
\<close>

definition action_rank :: "u32 \<Rightarrow> int" where
  "action_rank r = sint (r AND 0xffff0000)"

fun seccomp_action :: "sock_filter list list \<Rightarrow> seccomp_data \<Rightarrow> u32 \<Rightarrow> u32 option" where
  "seccomp_action [] d best = Some best"
| "seccomp_action (p # ps) d best =
     (case bpf_run p d 0 of
        None \<Rightarrow> None
      | Some r \<Rightarrow> seccomp_action ps d (if action_rank r < action_rank best then r else best))"

end
