(* ===== verification/Seccomp_Filters.thy ===== *)
theory Seccomp_Filters
  imports Bpf
begin

text \<open>
  The filters of the programs under \<open>seccomp\<close>, instruction by instruction, with the functions
  that install them, and the two programs that dump a filter to a file and load it again. For
  each filter a lemma says which action every system call gets.
\<close>

section \<open>Installing filters\<close>

text \<open>
  \<open>seccomp()\<close>: whether the kernel takes a filter is the parameter \<open>accepts\<close>; a filter stays
  installed, before those installed earlier.
\<close>

record secproc =
  sp_filters :: "sock_filter list list"
  sp_stderr :: "string list"

definition seccomp :: "(sock_filter list \<Rightarrow> bool) \<Rightarrow> sock_filter list \<Rightarrow> secproc \<Rightarrow> int \<times> secproc" where
  "seccomp accepts prog s = (if accepts prog then (0, s\<lparr>sp_filters := prog # sp_filters s\<rparr>) else (-1, s))"

definition sec_errExit :: "string \<Rightarrow> secproc \<Rightarrow> ('a, secproc) outcome" where
  "sec_errExit msg s = Stop (Exit 1) (s\<lparr>sp_stderr := sp_stderr s @ [msg]\<rparr>)"

definition install :: "(sock_filter list \<Rightarrow> bool) \<Rightarrow> sock_filter list \<Rightarrow> secproc \<Rightarrow> (unit, secproc) outcome" where
  "install accepts prog s =
     (case seccomp accepts prog s of (r, s) \<Rightarrow> if r = -1 then sec_errExit ''seccomp'' s else Ret () s)"

section \<open>The filters\<close>

definition AUDIT_ARCH_X86_64 :: u32 where "AUDIT_ARCH_X86_64 = 0xC000003E"
definition AUDIT_ARCH_I386 :: u32 where "AUDIT_ARCH_I386 = 0x40000003"
definition X32_SYSCALL_BIT :: u32 where "X32_SYSCALL_BIT = 0x40000000"

definition NR_open :: u32 where "NR_open = 2"
definition NR_lseek :: u32 where "NR_lseek = 8"
definition NR_mkdir :: u32 where "NR_mkdir = 83"
definition NR_getppid :: u32 where "NR_getppid = 110"
definition NR_openat :: u32 where "NR_openat = 257"
definition NR_mq_notify_x86_64 :: u32 where "NR_mq_notify_x86_64 = 244"
definition NR_mq_notify_i386 :: u32 where "NR_mq_notify_i386 = 281"
definition NR_mq_notify_x32 :: u32 where "NR_mq_notify_x32 = 527"

definition O_CREAT :: u32 where "O_CREAT = 0x40"
definition O_WRONLY :: u32 where "O_WRONLY = 1"
definition O_RDWR :: u32 where "O_RDWR = 2"
definition ENOTSUP :: u32 where "ENOTSUP = 95"

lemmas filter_consts = AUDIT_ARCH_X86_64_def AUDIT_ARCH_I386_def X32_SYSCALL_BIT_def NR_open_def NR_lseek_def NR_mkdir_def
  NR_getppid_def NR_openat_def NR_mq_notify_x86_64_def NR_mq_notify_i386_def NR_mq_notify_x32_def
  O_CREAT_def O_WRONLY_def O_RDWR_def ENOTSUP_def

abbreviation LOAD :: "u32 \<Rightarrow> sock_filter" where
  "LOAD \<equiv> BPF_STMT (BPF_LD OR BPF_W OR BPF_ABS)"

abbreviation RETURN :: "u32 \<Rightarrow> sock_filter" where
  "RETURN \<equiv> BPF_STMT (BPF_RET OR BPF_K)"

abbreviation JEQ :: "u32 \<Rightarrow> 8 word \<Rightarrow> 8 word \<Rightarrow> sock_filter" where
  "JEQ \<equiv> BPF_JUMP (BPF_JMP OR BPF_JEQ OR BPF_K)"

abbreviation JGE :: "u32 \<Rightarrow> 8 word \<Rightarrow> 8 word \<Rightarrow> sock_filter" where
  "JGE \<equiv> BPF_JUMP (BPF_JMP OR BPF_JGE OR BPF_K)"

abbreviation JGT :: "u32 \<Rightarrow> 8 word \<Rightarrow> 8 word \<Rightarrow> sock_filter" where
  "JGT \<equiv> BPF_JUMP (BPF_JMP OR BPF_JGT OR BPF_K)"

abbreviation JSET :: "u32 \<Rightarrow> 8 word \<Rightarrow> 8 word \<Rightarrow> sock_filter" where
  "JSET \<equiv> BPF_JUMP (BPF_JMP OR BPF_JSET OR BPF_K)"

abbreviation JA :: "u32 \<Rightarrow> 8 word \<Rightarrow> 8 word \<Rightarrow> sock_filter" where
  "JA \<equiv> BPF_JUMP (BPF_JMP OR BPF_JA)"

text \<open>The macro \<open>X86_64_CHECK_ARCH_AND_LOAD_SYSCALL_NR\<close>, written out in the other programs.\<close>

definition check_arch_and_load_nr :: "sock_filter list" where
  "check_arch_and_load_nr =
     [LOAD OFF_ARCH,
      JEQ AUDIT_ARCH_X86_64 0 2,
      LOAD OFF_NR,
      JGE X32_SYSCALL_BIT 0 1,
      RETURN SECCOMP_RET_KILL_PROCESS]"

text \<open>\<open>seccomp_arg64.c\<close>\<close>

definition filter_arg64 :: "sock_filter list" where
  "filter_arg64 =
     [LOAD OFF_ARCH,
      JEQ AUDIT_ARCH_X86_64 0 2,
      LOAD OFF_NR,
      JGE X32_SYSCALL_BIT 0 1,
      RETURN SECCOMP_RET_KILL_PROCESS,
      JEQ NR_lseek 1 0,
      RETURN SECCOMP_RET_ALLOW,
      LOAD (OFF_ARG 1 + 4),
      JEQ 0 1 0,
      RETURN (SECCOMP_RET_ERRNO OR 2),
      LOAD (OFF_ARG 1),
      JGT 1000 0 1,
      RETURN (SECCOMP_RET_ERRNO OR 1),
      RETURN SECCOMP_RET_ALLOW]"

definition install_arg64 :: "(sock_filter list \<Rightarrow> bool) \<Rightarrow> secproc \<Rightarrow> (unit, secproc) outcome" where
  "install_arg64 accepts s = install accepts filter_arg64 s"

text \<open>\<open>seccomp_control_open.c\<close>\<close>

definition filter_control_open :: "sock_filter list" where
  "filter_control_open =
     [LOAD OFF_ARCH,
      JEQ AUDIT_ARCH_X86_64 0 2,
      LOAD OFF_NR,
      JGE X32_SYSCALL_BIT 0 1,
      RETURN SECCOMP_RET_KILL_PROCESS,
      JEQ NR_open 2 0,
      JEQ NR_openat 3 0,
      RETURN SECCOMP_RET_ALLOW,
      LOAD (OFF_ARG 1),
      JA 1 0 0,
      LOAD (OFF_ARG 2),
      JSET O_CREAT 0 1,
      RETURN SECCOMP_RET_KILL_PROCESS,
      JSET (O_WRONLY OR O_RDWR) 0 1,
      RETURN (SECCOMP_RET_ERRNO OR ENOTSUP),
      RETURN SECCOMP_RET_ALLOW]"

definition install_control_open :: "(sock_filter list \<Rightarrow> bool) \<Rightarrow> secproc \<Rightarrow> (unit, secproc) outcome" where
  "install_control_open accepts s = install accepts filter_control_open s"

text \<open>\<open>seccomp_deny_open.c\<close>\<close>

definition filter_deny_open :: "sock_filter list" where
  "filter_deny_open =
     [LOAD OFF_ARCH,
      JEQ AUDIT_ARCH_X86_64 1 0,
      RETURN SECCOMP_RET_KILL_PROCESS,
      LOAD OFF_NR,
      JGE X32_SYSCALL_BIT 0 1,
      RETURN SECCOMP_RET_KILL_PROCESS,
      JEQ NR_open 2 0,
      JEQ NR_openat 1 0,
      RETURN SECCOMP_RET_ALLOW,
      RETURN SECCOMP_RET_KILL_PROCESS]"

definition install_deny_open :: "(sock_filter list \<Rightarrow> bool) \<Rightarrow> secproc \<Rightarrow> (unit, secproc) outcome" where
  "install_deny_open accepts s = install accepts filter_deny_open s"

text \<open>\<open>seccomp_multiarch.c\<close>\<close>

definition filter_multiarch :: "sock_filter list" where
  "filter_multiarch =
     [LOAD OFF_ARCH,
      JEQ AUDIT_ARCH_X86_64 0 5,
      LOAD OFF_NR,
      JEQ NR_mq_notify_x86_64 0 1,
      RETURN (SECCOMP_RET_ERRNO OR NR_mq_notify_x86_64),
      JEQ (NR_mq_notify_x32 + X32_SYSCALL_BIT) 0 5,
      RETURN (SECCOMP_RET_ERRNO OR NR_mq_notify_x32),
      JEQ AUDIT_ARCH_I386 0 4,
      LOAD OFF_NR,
      JEQ NR_mq_notify_i386 0 1,
      RETURN (SECCOMP_RET_ERRNO OR NR_mq_notify_i386),
      RETURN SECCOMP_RET_ALLOW,
      RETURN SECCOMP_RET_KILL_PROCESS]"

definition install_multiarch :: "(sock_filter list \<Rightarrow> bool) \<Rightarrow> secproc \<Rightarrow> (unit, secproc) outcome" where
  "install_multiarch accepts s = install accepts filter_multiarch s"

text \<open>\<open>seccomp_trap_sigsys.c\<close>, \<open>seccomp_logging.c\<close>, \<open>seccomp_perf.c\<close>\<close>

definition filter_trap_sigsys :: "sock_filter list" where
  "filter_trap_sigsys =
     [LOAD OFF_ARCH,
      JEQ AUDIT_ARCH_X86_64 1 0,
      RETURN SECCOMP_RET_KILL,
      LOAD OFF_NR,
      JGE X32_SYSCALL_BIT 0 1,
      RETURN SECCOMP_RET_KILL_PROCESS,
      JEQ NR_getppid 0 1,
      RETURN SECCOMP_RET_TRAP,
      RETURN SECCOMP_RET_ALLOW]"

definition install_trap_sigsys :: "(sock_filter list \<Rightarrow> bool) \<Rightarrow> secproc \<Rightarrow> (unit, secproc) outcome" where
  "install_trap_sigsys accepts s = install accepts filter_trap_sigsys s"

definition filter_logging :: "sock_filter list" where
  "filter_logging =
     [LOAD OFF_ARCH,
      JEQ AUDIT_ARCH_X86_64 0 2,
      LOAD OFF_NR,
      JGE X32_SYSCALL_BIT 0 1,
      RETURN SECCOMP_RET_KILL_PROCESS,
      RETURN SECCOMP_RET_LOG]"

definition install_logging :: "(sock_filter list \<Rightarrow> bool) \<Rightarrow> secproc \<Rightarrow> (unit, secproc) outcome" where
  "install_logging accepts s = install accepts filter_logging s"

definition filter_perf :: "sock_filter list" where
  "filter_perf =
     [LOAD OFF_ARCH,
      JEQ AUDIT_ARCH_X86_64 0 2,
      LOAD OFF_NR,
      JGE X32_SYSCALL_BIT 0 1,
      RETURN SECCOMP_RET_KILL_PROCESS,
      JEQ NR_open 1 0,
      RETURN SECCOMP_RET_ALLOW,
      RETURN SECCOMP_RET_KILL_PROCESS]"

definition install_perf :: "(sock_filter list \<Rightarrow> bool) \<Rightarrow> secproc \<Rightarrow> (unit, secproc) outcome" where
  "install_perf accepts s = install accepts filter_perf s"

text \<open>
  \<open>seccomp_bench.c\<close>: \<open>icnt\<close> copies of one instruction and a return. The result of \<open>calloc()\<close>
  is not tested: \<open>alloc\<close> says whether it succeeds.
\<close>

definition bench_instruction :: "string \<Rightarrow> sock_filter option" where
  "bench_instruction instr =
     (if char_at instr 0 = CHR ''a'' then Some (BPF_STMT (BPF_ALU OR BPF_ADD OR BPF_K) 1)
      else if char_at instr 0 = CHR ''j'' then Some (JEQ 0 0 0)
      else if char_at instr 0 = CHR ''l'' then Some (LOAD 0)
      else None)"

definition install_bench :: "bool \<Rightarrow> (sock_filter list \<Rightarrow> bool) \<Rightarrow> string \<Rightarrow> nat \<Rightarrow> secproc \<Rightarrow> (unit, secproc) outcome" where
  "install_bench alloc accepts instr icnt s =
     (case bench_instruction instr of
        None \<Rightarrow> Stop (Exit 1) (s\<lparr>sp_stderr := sp_stderr s @ [''Bad instruction value: '' @ instr @ ''\<newline>'']\<rparr>)
      | Some i \<Rightarrow>
          if alloc then install accepts (replicate icnt i @ [RETURN SECCOMP_RET_ALLOW]) s
          else Stop (Undefined ''store through a null pointer'') s)"


section \<open>Dumping and loading filters\<close>

text \<open>
  The eight bytes of \<open>struct sock_filter\<close> in the memory of the x86-64, for which the filters are
  made: the fields follow each other without gaps, least significant byte first.
\<close>

definition filter_bytes :: "sock_filter \<Rightarrow> 8 word list" where
  "filter_bytes i = [ucast (f_code i), ucast (drop_bit 8 (f_code i)), f_jt i, f_jf i,
     ucast (f_k i), ucast (drop_bit 8 (f_k i)), ucast (drop_bit 16 (f_k i)), ucast (drop_bit 24 (f_k i))]"

fun bytes_filters :: "8 word list \<Rightarrow> sock_filter list" where
  "bytes_filters (c0 # c1 # jt # jf # k0 # k1 # k2 # k3 # bs) =
     \<lparr>f_code = ucast c0 OR push_bit 8 (ucast c1), f_jt = jt, f_jf = jf,
      f_k = ucast k0 OR push_bit 8 (ucast k1) OR push_bit 16 (ucast k2) OR push_bit 24 (ucast k3)\<rparr> # bytes_filters bs"
| "bytes_filters bs = []"

definition SIZEOF_FILTER :: nat where "SIZEOF_FILTER = 8"

text \<open>
  \<open>dumpFilter()\<close> of \<open>dump_seccomp_filter.c\<close>: \<open>written\<close> is the result of \<open>write()\<close>, \<open>None\<close> for an
  error. The result is what the file holds at the end and the message.
\<close>

definition dumpFilter :: "bool \<Rightarrow> nat option \<Rightarrow> bool \<Rightarrow> sock_filter list \<Rightarrow> string list
    \<Rightarrow> (8 word list, string list) outcome" where
  "dumpFilter open_ok written close_ok prog err =
     (if \<not> open_ok then Stop (Exit 1) (err @ [''open''])
      else case written of
        None \<Rightarrow> Stop (Exit 1) (err @ [''write''])
      | Some n \<Rightarrow>
          if \<not> close_ok then Stop (Exit 1) (err @ [''close''])
          else Ret (take n (concat (map filter_bytes prog))) (err @ [''Dumped '' @ dec_of_nat (length prog) @ '' BPF instructions\<newline>'']))"

text \<open>
  \<open>loadFilter()\<close> of \<open>seccomp_launch.c\<close>: \<open>file\<close> is the contents of the file, \<open>None\<close> if it cannot be
  opened, \<open>lc_read\<close> the result of \<open>read()\<close>; the flags say whether the other calls succeed. The size
  of the file becomes an \<open>int\<close>, and the number of instructions the 16 bits of \<open>fprog.len\<close>. The
  static variable \<open>noNewPrivsAlreadySet\<close> is an argument and a result.
\<close>

definition int_of_off :: "int \<Rightarrow> int" where
  "int_of_off x = (x + 2 ^ 31) mod 2 ^ 32 - 2 ^ 31"

record load_calls =
  lc_prctl :: bool
  lc_file :: "8 word list option"
  lc_fstat :: bool
  lc_malloc :: bool
  lc_read :: int
  lc_close :: bool

definition loadFilter :: "load_calls \<Rightarrow> (sock_filter list \<Rightarrow> bool) \<Rightarrow> bool \<Rightarrow> secproc \<Rightarrow> (bool, secproc) outcome" where
  "loadFilter c accepts noNewPrivsAlreadySet s =
     (if \<not> noNewPrivsAlreadySet \<and> \<not> lc_prctl c then sec_errExit ''prctl'' s
      else case lc_file c of
        None \<Rightarrow> sec_errExit ''open'' s
      | Some bs \<Rightarrow>
          if \<not> lc_fstat c then sec_errExit ''fstat'' s
          else
            let filterSize = int_of_off (int (length bs)) in
            if filterSize mod int SIZEOF_FILTER \<noteq> 0 then sec_errExit ''Filter has odd size\<newline>'' s
            else if \<not> lc_malloc c then sec_errExit ''malloc'' s
            else if lc_read c \<noteq> filterSize then sec_errExit ''Failure reading filter\<newline>'' s
            else if \<not> lc_close c then sec_errExit ''close'' s
            else
              let filter = bytes_filters (take (nat filterSize) bs);
                  len = nat filterSize div SIZEOF_FILTER mod 2 ^ 16
              in bnd (install accepts (take len filter) s) (\<lambda>_ s. Ret True s))"

section \<open>What the filters do\<close>

lemma unat_low32: "unat (low32 w) = unat w mod 2 ^ 32"
  by (simp add: low32_def unsigned_ucast_eq take_bit_eq_mod)

lemma unat_high32: "unat (high32 w) = unat w div 2 ^ 32"
proof -
  have "unat w < 2 ^ 64" using unsigned_less [of w] by simp
  then have "unat w div 2 ^ 32 < 2 ^ 32" by (simp add: less_mult_imp_div_less)
  then show ?thesis by (simp add: high32_def unsigned_ucast_eq drop_bit_eq_div take_bit_eq_mod unat_div_distrib)
qed

text \<open>The common opening: other architectures and the x32 system calls end the process.\<close>

definition foreign :: "seccomp_data \<Rightarrow> bool" where
  "foreign d \<longleftrightarrow> sd_arch d \<noteq> AUDIT_ARCH_X86_64 \<or> X32_SYSCALL_BIT \<le> sd_nr d"

lemma run_arg64:
  assumes "data_ok d"
  shows "bpf_run filter_arg64 d a = Some
    (if foreign d then SECCOMP_RET_KILL_PROCESS
     else if sd_nr d \<noteq> NR_lseek then SECCOMP_RET_ALLOW
     else if high32 (sd_args d ! 1) \<noteq> 0 then SECCOMP_RET_ERRNO OR 2
     else if 1000 < low32 (sd_args d ! 1) then SECCOMP_RET_ERRNO OR 1
     else SECCOMP_RET_ALLOW)"
  by (simp add: filter_arg64_def foreign_def bpf_load_args [OF assms, simplified] Let_def)

lemma run_control_open:
  assumes "data_ok d"
  shows "bpf_run filter_control_open d a = Some
    (let flags = low32 (sd_args d ! (if sd_nr d = NR_open then 1 else 2)) in
     if foreign d then SECCOMP_RET_KILL_PROCESS
     else if sd_nr d \<noteq> NR_open \<and> sd_nr d \<noteq> NR_openat then SECCOMP_RET_ALLOW
     else if flags AND O_CREAT \<noteq> 0 then SECCOMP_RET_KILL_PROCESS
     else if flags AND (O_WRONLY OR O_RDWR) \<noteq> 0 then SECCOMP_RET_ERRNO OR ENOTSUP
     else SECCOMP_RET_ALLOW)"
  by (simp add: filter_control_open_def foreign_def bpf_load_args [OF assms, simplified] Let_def)

lemma run_deny_open:
  "bpf_run filter_deny_open d a = Some
    (if foreign d \<or> sd_nr d = NR_open \<or> sd_nr d = NR_openat then SECCOMP_RET_KILL_PROCESS else SECCOMP_RET_ALLOW)"
  by (simp add: filter_deny_open_def foreign_def)

lemma run_multiarch:
  "bpf_run filter_multiarch d a = Some
    (if sd_arch d = AUDIT_ARCH_X86_64 then
       (if sd_nr d = NR_mq_notify_x86_64 then SECCOMP_RET_ERRNO OR NR_mq_notify_x86_64
        else if sd_nr d = NR_mq_notify_x32 + X32_SYSCALL_BIT then SECCOMP_RET_ERRNO OR NR_mq_notify_x32
        else SECCOMP_RET_ALLOW)
     else if sd_arch d = AUDIT_ARCH_I386 then
       (if sd_nr d = NR_mq_notify_i386 then SECCOMP_RET_ERRNO OR NR_mq_notify_i386 else SECCOMP_RET_ALLOW)
     else SECCOMP_RET_KILL_PROCESS)"
  by (simp add: filter_multiarch_def)

lemma run_trap_sigsys:
  "bpf_run filter_trap_sigsys d a = Some
    (if sd_arch d \<noteq> AUDIT_ARCH_X86_64 then SECCOMP_RET_KILL
     else if foreign d then SECCOMP_RET_KILL_PROCESS
     else if sd_nr d = NR_getppid then SECCOMP_RET_TRAP else SECCOMP_RET_ALLOW)"
  by (simp add: filter_trap_sigsys_def foreign_def)

lemma run_logging:
  "bpf_run filter_logging d a = Some (if foreign d then SECCOMP_RET_KILL_PROCESS else SECCOMP_RET_LOG)"
  by (simp add: filter_logging_def foreign_def)

lemma run_perf:
  "bpf_run filter_perf d a = Some
    (if foreign d \<or> sd_nr d = NR_open then SECCOMP_RET_KILL_PROCESS else SECCOMP_RET_ALLOW)"
  by (simp add: filter_perf_def foreign_def)

text \<open>The macro at the beginning of any other filter.\<close>

lemma run_checked:
  "bpf_run (check_arch_and_load_nr @ p) d a =
    (if foreign d then Some SECCOMP_RET_KILL_PROCESS else bpf_run p d (sd_nr d))"
  by (simp add: check_arch_and_load_nr_def foreign_def)

lemma bench_cases:
  "bench_instruction instr = Some i \<longleftrightarrow>
    char_at instr 0 = CHR ''a'' \<and> i = BPF_STMT (BPF_ALU OR BPF_ADD OR BPF_K) 1 \<or>
    char_at instr 0 = CHR ''j'' \<and> i = JEQ 0 0 0 \<or> char_at instr 0 = CHR ''l'' \<and> i = LOAD 0"
  by (auto simp: bench_instruction_def)

text \<open>The filters for measurements let every system call pass.\<close>

lemma run_bench:
  assumes "bench_instruction instr = Some i"
  shows "bpf_run (replicate n i @ [RETURN SECCOMP_RET_ALLOW]) d a = Some SECCOMP_RET_ALLOW"
proof -
  have nr: "bpf_load d 0 = Some (sd_nr d)" using bpf_load_fields(1) [of d] by (simp add: OFF_NR_def)
  show ?thesis using assms nr by (induction n arbitrary: a) (auto simp: bench_cases)
qed

section \<open>Several filters\<close>

lemma action_best:
  assumes "seccomp_action ps d best = Some r"
  shows "action_rank r \<le> action_rank best"
  using assms by (induction ps arbitrary: best) (force split: option.splits if_splits)+

lemma action_mono:
  "action_rank b \<le> action_rank c \<Longrightarrow> seccomp_action ps d b = Some r \<Longrightarrow> seccomp_action ps d c = Some q \<Longrightarrow>
    action_rank r \<le> action_rank q"
proof (induction ps arbitrary: b c)
  case Nil
  then show ?case by simp
next
  case (Cons p ps)
  obtain v where v: "bpf_run p d 0 = Some v" using Cons.prems by (cases "bpf_run p d 0") auto
  show ?case
    by (rule Cons.IH [of "if action_rank v < action_rank b then v else b" "if action_rank v < action_rank c then v else c"])
      (use Cons.prems v in auto)
qed

lemma action_total:
  assumes "\<forall>p\<in>set ps. \<exists>r. bpf_run p d 0 = Some r"
  shows "\<exists>r. seccomp_action ps d best = Some r"
  using assms by (induction ps arbitrary: best) auto

section \<open>Properties\<close>

text \<open>\<open>seccomp_unotify_mkdir.c\<close> and \<open>seccomp_unotify_openat.c\<close> use the macro.\<close>

definition filter_notify :: "u32 \<Rightarrow> sock_filter list" where
  "filter_notify nr = check_arch_and_load_nr @
     [JEQ nr 0 1, RETURN SECCOMP_RET_USER_NOTIF, RETURN SECCOMP_RET_ALLOW]"

definition filter_second :: "u32 \<Rightarrow> sock_filter list" where
  "filter_second secondFilter = check_arch_and_load_nr @
     [JEQ NR_mkdir 1 0, RETURN SECCOMP_RET_ALLOW,
      if secondFilter = SECCOMP_RET_ERRNO then RETURN (SECCOMP_RET_ERRNO OR ENOTSUP) else RETURN SECCOMP_RET_TRACE]"

definition bench_filter :: "string \<Rightarrow> nat \<Rightarrow> sock_filter list" where
  "bench_filter instr icnt = replicate icnt (the (bench_instruction instr)) @ [RETURN SECCOMP_RET_ALLOW]"

definition tlpi_filters :: "sock_filter list list" where
  "tlpi_filters = [filter_arg64, filter_control_open, filter_deny_open, filter_multiarch, filter_trap_sigsys,
     filter_logging, filter_perf, filter_notify NR_mkdir, filter_notify NR_openat,
     filter_second SECCOMP_RET_ERRNO, filter_second SECCOMP_RET_TRACE]"

lemma tlpi_filters_ok: "\<forall>p\<in>set tlpi_filters. check_filter p"
  by code_simp

lemma bench_filter_ok:
  assumes "bench_instruction instr \<noteq> None" "icnt < BPF_MAXINSNS"
  shows "check_filter (bench_filter instr icnt)"
proof -
  obtain i where i: "bench_instruction instr = Some i" using assms by auto
  have "instr_ok i (Suc n)" for n
    using i by (auto simp: bench_cases instr_ok_def BPF_STMT_def BPF_JUMP_def bpf_codes jump_code_def)
  then have "instrs_ok (replicate icnt i @ [RETURN SECCOMP_RET_ALLOW])"
    by (induction icnt) (auto simp: instr_ok_def BPF_STMT_def)
  then show ?thesis using assms i by (simp add: check_filter_def bench_filter_def BPF_STMT_def)
qed

lemma checked_returns: "check_filter p \<Longrightarrow> data_ok d \<Longrightarrow> \<exists>r. bpf_run p d a = Some r"
  by (rule bpf_run_returns) (simp_all add: check_filter_def)

text \<open>
  Every filter that the programs install passes the checks on installation, and a process
  that has installed any number of them, in any order, has an action for every system call. It
  is never weaker than that of fewer filters: installing one more filter can only take
  permissions away.
\<close>

lemma filters_decide:
  assumes "\<forall>p\<in>set (q # ps). p \<in> set tlpi_filters \<or> (\<exists>instr n. bench_instruction instr \<noteq> None \<and> n < BPF_MAXINSNS \<and> p = bench_filter instr n)"
    and "data_ok d"
  shows "(\<forall>p\<in>set (q # ps). check_filter p) \<and>
    (\<exists>r r'. seccomp_action ps d SECCOMP_RET_ALLOW = Some r \<and> seccomp_action (q # ps) d SECCOMP_RET_ALLOW = Some r' \<and>
       action_rank r' \<le> action_rank r)"
proof -
  have c: "\<forall>p\<in>set (q # ps). check_filter p" using assms(1) tlpi_filters_ok bench_filter_ok by metis
  then have run: "\<forall>p\<in>set (q # ps). \<exists>r. bpf_run p d 0 = Some r"
    using checked_returns assms(2) by blast
  obtain r where r: "seccomp_action ps d SECCOMP_RET_ALLOW = Some r" using action_total [of ps d] run by auto
  obtain v where v: "bpf_run q d 0 = Some v" using run by auto
  let ?b = "if action_rank v < action_rank SECCOMP_RET_ALLOW then v else SECCOMP_RET_ALLOW"
  obtain r' where r': "seccomp_action ps d ?b = Some r'" using action_total [of ps d ?b] run by auto
  have "action_rank r' \<le> action_rank r" by (rule action_mono [OF _ r' r]) simp
  then show ?thesis using c r r' v by simp
qed

definition sample_call :: "u32 \<Rightarrow> u64 \<Rightarrow> seccomp_data" where
  "sample_call nr x = \<lparr>sd_nr = nr, sd_arch = AUDIT_ARCH_X86_64, sd_ip = 0, sd_args = [3, x, 0, 0, 0, 0]\<rparr>"

lemma sample_call_ok: "data_ok (sample_call nr x)"
  by (simp add: sample_call_def data_ok_def)

text \<open>What the filter is for, on the 64-bit offset.\<close>

definition lseek_decision :: "u64 \<Rightarrow> u32" where
  "lseek_decision offset =
     (if offset \<le> 1000 then SECCOMP_RET_ALLOW
      else if offset < 0x100000000 then SECCOMP_RET_ERRNO OR 1 else SECCOMP_RET_ERRNO OR 2)"

text \<open>
  C18: the filter of \<open>seccomp_arg64.c\<close> compares a 64-bit offset in two halves of 32 bits; on
  \<open>lseek()\<close> of the native architecture it decides exactly as one comparison of the whole offset,
  as an unsigned number, would. (So a negative offset is refused like one that is too large.)
\<close>

theorem arg64_equivalent:
  assumes "data_ok d" "sd_arch d = AUDIT_ARCH_X86_64" "sd_nr d = NR_lseek"
  shows "bpf_run filter_arg64 d a = Some (lseek_decision (sd_args d ! 1))"
proof -
  let ?w = "sd_args d ! 1"
  have f: "\<not> foreign d" using assms by (simp add: foreign_def filter_consts)
  have h: "high32 ?w \<noteq> 0 \<longleftrightarrow> \<not> ?w < 0x100000000"
    using unat_high32 [of ?w] by (auto simp: word_less_nat_alt unat_eq_zero [symmetric] div_eq_0_iff)
  have l: "high32 ?w = 0 \<Longrightarrow> 1000 < low32 ?w \<longleftrightarrow> \<not> ?w \<le> 1000"
    using unat_low32 [of ?w] h by (auto simp: word_less_nat_alt word_le_nat_alt)
  have "?w \<le> 1000 \<Longrightarrow> ?w < 0x100000000" by (simp add: word_less_nat_alt word_le_nat_alt)
  then show ?thesis using run_arg64 [OF assms(1)] f h l assms(3) by (auto simp: lseek_decision_def)
qed

theorem arg64_equivalent_witness:
  "bpf_run filter_arg64 (sample_call 8 0x100000001) 0 = Some (SECCOMP_RET_ERRNO OR 2)
   \<and> bpf_run filter_arg64 (sample_call 8 (- 1)) 0 = Some (SECCOMP_RET_ERRNO OR 2)"
proof -
  have "lseek_decision 0x100000001 = SECCOMP_RET_ERRNO OR 2" "lseek_decision (- 1) = SECCOMP_RET_ERRNO OR 2"
    by code_simp+
  then show ?thesis
    using arg64_equivalent [OF sample_call_ok [of 8 "0x100000001"], of 0] arg64_equivalent [OF sample_call_ok [of 8 "- 1"], of 0]
    by (simp add: sample_call_def filter_consts)
qed

text \<open>The three ways to enter the kernel of an x86-64 system, and what \<open>mq_notify()\<close> is in each.\<close>

datatype abi = ABI_x86_64 | ABI_x32 | ABI_i386

definition abi_of :: "seccomp_data \<Rightarrow> abi option" where
  "abi_of d =
     (if sd_arch d = AUDIT_ARCH_X86_64 then Some (if sd_nr d AND X32_SYSCALL_BIT = 0 then ABI_x86_64 else ABI_x32)
      else if sd_arch d = AUDIT_ARCH_I386 then Some ABI_i386 else None)"

definition syscall_number :: "seccomp_data \<Rightarrow> u32" where
  "syscall_number d = (if abi_of d = Some ABI_x32 then sd_nr d AND NOT X32_SYSCALL_BIT else sd_nr d)"

fun mq_notify_number :: "abi \<Rightarrow> u32" where
  "mq_notify_number ABI_x86_64 = NR_mq_notify_x86_64"
| "mq_notify_number ABI_x32 = NR_mq_notify_x32"
| "mq_notify_number ABI_i386 = NR_mq_notify_i386"

lemma split_and:
  fixes w m :: u32
  shows "(w AND NOT m) + (w AND m) = w"
proof -
  have "(w AND NOT m) AND (w AND m) = 0" by (intro bit_eqI) (auto simp: bit_and_iff bit_not_iff)
  then have "(w AND NOT m) + (w AND m) = (w AND NOT m) OR (w AND m)" by (rule disjunctive_add_eq_or)
  also have "\<dots> = w" by (intro bit_eqI) (auto simp: bit_and_iff bit_or_iff bit_not_iff)
  finally show ?thesis .
qed

lemma x32_number:
  fixes w :: u32
  shows "w AND 0x40000000 \<noteq> 0 \<and> w AND NOT 0x40000000 = 527 \<longleftrightarrow> w = 527 + 0x40000000"
proof
  assume a: "w AND 0x40000000 \<noteq> 0 \<and> w AND NOT 0x40000000 = 527"
  have p: "(0x40000000 :: u32) = 2 ^ 30" by simp
  have "bit w 30" using a and_exp_eq_0_iff_not_bit [of w 30] unfolding p by blast
  then have "w AND 2 ^ 30 = 2 ^ 30" by (intro bit_eqI) (auto simp only: bit_and_iff bit_exp_iff)
  then have m: "w AND 0x40000000 = 0x40000000" unfolding p .
  have "w = (w AND NOT 0x40000000) + (w AND 0x40000000)" by (rule split_and [symmetric])
  also have "\<dots> = 527 + 0x40000000" using a m by simp
  finally show "w = 527 + 0x40000000" .
qed simp

text \<open>
  C19: the filter of \<open>seccomp_multiarch.c\<close> cannot be evaded by a change of the ABI: \<open>mq_notify()\<close>
  fails with its own number as the error under each of the three ABIs, every other call of these
  ABIs is allowed, and any other architecture ends the process.
\<close>

theorem multiarch_complete:
  "bpf_run filter_multiarch d a = Some
     (case abi_of d of
        None \<Rightarrow> SECCOMP_RET_KILL_PROCESS
      | Some abi \<Rightarrow> if syscall_number d = mq_notify_number abi then SECCOMP_RET_ERRNO OR mq_notify_number abi else SECCOMP_RET_ALLOW)"
proof -
  have "sd_nr d = 244 \<Longrightarrow> sd_nr d AND 0x40000000 = 0" by simp
  then show ?thesis
    using x32_number [of "sd_nr d"] by (auto simp: run_multiarch abi_of_def syscall_number_def filter_consts)
qed

lemma code_bytes: "ucast (ucast (w :: 16 word) :: 8 word) OR push_bit 8 (ucast (ucast (drop_bit 8 w) :: 8 word)) = w"
  by (rule bit_word_eqI) (auto simp: bit_simps)

lemma k_bytes:
  "ucast (ucast (w :: u32) :: 8 word) OR push_bit 8 (ucast (ucast (drop_bit 8 w) :: 8 word))
     OR push_bit 16 (ucast (ucast (drop_bit 16 w) :: 8 word)) OR push_bit 24 (ucast (ucast (drop_bit 24 w) :: 8 word)) = w"
proof (rule bit_word_eqI)
  fix n
  assume "n < LENGTH(32)"
  then have "n < 32" by simp
  then consider "n < 8" | "8 \<le> n" "n < 16" | "16 \<le> n" "n < 24" | "24 \<le> n" "n < 32" by linarith
  then show "bit ((ucast (ucast w :: 8 word) :: u32) OR push_bit 8 (ucast (ucast (drop_bit 8 w) :: 8 word))
     OR push_bit 16 (ucast (ucast (drop_bit 16 w) :: 8 word)) OR push_bit 24 (ucast (ucast (drop_bit 24 w) :: 8 word))) n \<longleftrightarrow> bit w n"
    by cases (auto simp: bit_simps)
qed

lemma bytes_filters_back: "bytes_filters (concat (map filter_bytes p)) = p"
  by (induction p) (simp_all add: filter_bytes_def code_bytes k_bytes)

lemma length_filter_bytes: "length (concat (map filter_bytes p)) = SIZEOF_FILTER * length p"
  by (induction p) (simp_all add: filter_bytes_def SIZEOF_FILTER_def)

lemma int_of_off_id: "0 \<le> x \<Longrightarrow> x < 2 ^ 31 \<Longrightarrow> int_of_off x = x"
  by (simp add: int_of_off_def)

lemma bytes_filters_take: "bytes_filters (take (SIZEOF_FILTER * k) (concat (map filter_bytes p))) = take k p"
proof (induction p arbitrary: k)
  case (Cons i p)
  have l: "length (filter_bytes i) = SIZEOF_FILTER" by (simp add: filter_bytes_def SIZEOF_FILTER_def)
  show ?case
  proof (cases k)
    case (Suc j)
    have "take (SIZEOF_FILTER * k) (filter_bytes i @ concat (map filter_bytes p))
        = filter_bytes i @ take (SIZEOF_FILTER * j) (concat (map filter_bytes p))"
      unfolding Suc take_append l by (simp add: l)
    moreover have "bytes_filters (filter_bytes i @ bs) = i # bytes_filters bs" for bs
      by (simp add: filter_bytes_def code_bytes k_bytes)
    ultimately show ?thesis using Cons.IH [of j] by (simp add: Suc)
  qed simp
qed simp

text \<open>
  C21: what the two programs do together with a filter. \<open>dump_seccomp_filter\<close> does not test for a
  partial write: of the \<open>n\<close> bytes that reached the file, \<open>seccomp_launch\<close> refuses to make a filter
  if they are not a whole number of instructions, or if it cannot read all of them; otherwise it
  installs the instructions that were written, the first \<open>n div 8\<close> of the filter, as far as the 16
  bits of \<open>fprog.len\<close> count them (that is, all of them up to 65535). So a filter of at most that
  length that was written completely is installed unchanged.
\<close>

theorem dump_load_roundtrip:
  assumes "dumpFilter True (Some n) True prog err = Ret bs err'" "n \<le> SIZEOF_FILTER * length prog" "n < 2 ^ 31"
    and "lc_file c = Some bs" "b \<or> lc_prctl c" "lc_fstat c" "lc_malloc c" "lc_close c"
  shows "loadFilter c accepts b s =
    (let installed = take (n div SIZEOF_FILTER mod 2 ^ 16) prog in
     if n mod SIZEOF_FILTER \<noteq> 0 then sec_errExit ''Filter has odd size\<newline>'' s
     else if lc_read c \<noteq> int n then sec_errExit ''Failure reading filter\<newline>'' s
     else if accepts installed then Ret True (s\<lparr>sp_filters := installed # sp_filters s\<rparr>)
     else sec_errExit ''seccomp'' s)"
proof -
  have bs: "bs = take n (concat (map filter_bytes prog))" using assms(1) by (simp add: dumpFilter_def)
  have l: "length bs = n" using assms(2) by (simp add: bs length_filter_bytes)
  have fs: "int_of_off (int (length bs)) = int n" using assms(3) by (simp add: l int_of_off_id)
  have m: "int n mod int SIZEOF_FILTER = 0 \<longleftrightarrow> n mod SIZEOF_FILTER = 0" by (simp flip: zmod_int)
  have f: "take (n div SIZEOF_FILTER mod 2 ^ 16) (bytes_filters (take n bs)) = take (n div SIZEOF_FILTER mod 2 ^ 16) prog"
    if "n mod SIZEOF_FILTER = 0"
  proof -
    have "n = SIZEOF_FILTER * (n div SIZEOF_FILTER)" using that by auto
    then have "bytes_filters (take n bs) = take (n div SIZEOF_FILTER) prog"
      using bytes_filters_take [of "n div SIZEOF_FILTER" prog] by (simp add: bs)
    then show ?thesis by (simp add: min_def)
  qed
  show ?thesis
    using assms(4-8) m f by (auto simp: loadFilter_def fs Let_def install_def seccomp_def sec_errExit_def)
qed

theorem dump_load_roundtrip_witness:
  "loadFilter \<lparr>lc_prctl = True, lc_file = Some (take 24 (concat (map filter_bytes filter_perf))), lc_fstat = True, lc_malloc = True,
      lc_read = 24, lc_close = True\<rparr> (\<lambda>_. True) False \<lparr>sp_filters = [], sp_stderr = []\<rparr>
   = Ret True \<lparr>sp_filters = [take 3 filter_perf], sp_stderr = []\<rparr>"
proof -
  have "length filter_perf = 8" by (simp add: filter_perf_def)
  then have d: "dumpFilter True (Some 24) True filter_perf [] =
      Ret (take 24 (concat (map filter_bytes filter_perf))) [''Dumped '' @ dec_of_nat 8 @ '' BPF instructions\<newline>'']"
      "24 \<le> SIZEOF_FILTER * length filter_perf"
    by (simp_all add: dumpFilter_def SIZEOF_FILTER_def)
  show ?thesis
    by (subst dump_load_roundtrip [OF d]) (simp_all add: SIZEOF_FILTER_def)
qed

text \<open>When it ends with an error it has installed nothing, whatever the file holds.\<close>

lemma loadFilter_fails:
  "wp (loadFilter c accepts b s) (\<lambda>r t. r \<and> length (sp_filters t) = length (sp_filters s) + 1)
     (\<lambda>r t. r = Exit 1 \<and> sp_filters t = sp_filters s)"
  by (simp add: loadFilter_def sec_errExit_def install_def seccomp_def Let_def split: option.split)

end
