(* ===== verification/Seccomp_Notify.thy ===== *)
theory Seccomp_Notify
  imports Seccomp_Filters Stream_Io
begin

text \<open>
  System calls decided by a supervisor process: \<open>seccomp_functions.c\<close>, \<open>seccomp_unotify_mkdir.c\<close> and
  \<open>seccomp_unotify_openat.c\<close>. The target installs a filter that sends its calls of \<open>mkdir()\<close> or
  \<open>openat()\<close> to the supervisor, which reads the pathname from the memory of the target and answers.

  The kernel is the record \<open>notif_kernel\<close>. Each of its functions has the number of calls made so
  far as an argument, so that the target may end, be interrupted or change its memory between
  any two calls of the supervisor. The notifications to come are a list; at its end the
  supervisor waits.
\<close>

section \<open>State and system calls\<close>

definition NOTIF_PATH_MAX :: nat where "NOTIF_PATH_MAX = 4096"

record seccomp_notif =
  n_id :: u64
  n_pid :: int
  n_data :: seccomp_data

record seccomp_notif_resp =
  r_id :: u64
  r_val :: int
  r_error :: int
  r_flags :: u32

record seccomp_notif_addfd =
  a_id :: u64
  a_flags :: u32
  a_srcfd :: int
  a_newfd :: int
  a_newfd_flags :: u32

record notif_kernel =
  k_open_mem :: "nat \<Rightarrow> string \<Rightarrow> bool"
  k_id_valid :: "nat \<Rightarrow> u64 \<Rightarrow> bool"
  k_pread :: "nat \<Rightarrow> int \<Rightarrow> u64 \<Rightarrow> string option"
  k_mkdir :: "nat \<Rightarrow> string \<Rightarrow> u64 \<Rightarrow> int option"
  k_openat :: "nat \<Rightarrow> u64 \<Rightarrow> string \<Rightarrow> u64 \<Rightarrow> u64 \<Rightarrow> int + int"
  k_addfd :: "nat \<Rightarrow> seccomp_notif_addfd \<Rightarrow> int option"
  k_send :: "nat \<Rightarrow> seccomp_notif_resp \<Rightarrow> int option"
  k_strerror :: "int \<Rightarrow> string"

datatype recv_result = RecvFail int | Recv seccomp_notif

text \<open>
  The supervisor: number of system calls made, the array \<open>path\<close>, descriptors it has open, and
  what it has done: its calls of \<open>mkdir()\<close>, its calls of \<open>openat()\<close>, responses, output.
\<close>

record super =
  su_clock :: nat
  su_path :: string
  su_fds :: int
  su_mkdirs :: "(string \<times> u64) list"
  su_opens :: "(string \<times> u64) list"
  su_sent :: "seccomp_notif_resp list"
  su_out :: "(string \<times> fmt_arg list) list"

definition tick_su :: "super \<Rightarrow> super" where
  "tick_su s = s\<lparr>su_clock := su_clock s + 1\<rparr>"

definition tab :: string where "tab = [CHR 0x09]"

definition say :: "string \<Rightarrow> fmt_arg list \<Rightarrow> super \<Rightarrow> super" where
  "say fmt args s = s\<lparr>su_out := su_out s @ [(fmt, args)]\<rparr>"

text \<open>The string in the array \<open>path\<close>.\<close>

definition path_str :: "super \<Rightarrow> string" where
  "path_str s = takeWhile (\<lambda>c. c \<noteq> CHR 0x00) (su_path s)"

section \<open>\<open>seccomp_functions.c\<close>\<close>

definition GTP_BAD_READ :: int where "GTP_BAD_READ = -1"
definition GTP_ID_NOT_VALID :: int where "GTP_ID_NOT_VALID = -2"
definition GTP_BAD_PATH :: int where "GTP_BAD_PATH = -3"

definition cookieIsValid :: "notif_kernel \<Rightarrow> u64 \<Rightarrow> super \<Rightarrow> bool \<times> super" where
  "cookieIsValid K cookie s = (k_id_valid K (su_clock s) cookie, tick_su s)"

definition close_mem :: "super \<Rightarrow> super" where
  "close_mem s = tick_su (s\<lparr>su_fds := su_fds s - 1\<rparr>)"

text \<open>\<open>strnlen(path, nread) < nread\<close>: there is a NUL among the first \<open>nread\<close> bytes.\<close>

definition strnlen :: "string \<Rightarrow> nat \<Rightarrow> nat" where
  "strnlen p n = length (takeWhile (\<lambda>c. c \<noteq> CHR 0x00) (take n p))"

definition getTargetPathname :: "notif_kernel \<Rightarrow> seccomp_notif \<Rightarrow> nat \<Rightarrow> nat \<Rightarrow> super \<Rightarrow> int \<times> super" where
  "getTargetPathname K req argNum len s =
     (if \<not> k_open_mem K (su_clock s) (''/proc/'' @ dec_of_int (n_pid req) @ ''/mem'') then (GTP_BAD_READ, tick_su s)
      else case cookieIsValid K (n_id req) (tick_su (s\<lparr>su_fds := su_fds s + 1\<rparr>)) of (valid, s) \<Rightarrow>
        if \<not> valid then (GTP_ID_NOT_VALID, close_mem s)
        else
          let bytes = (case k_pread K (su_clock s) (n_pid req) (sd_args (n_data req) ! argNum) of None \<Rightarrow> [] | Some b \<Rightarrow> take len b);
              s = close_mem (tick_su (s\<lparr>su_path := overlay (su_path s) 0 bytes\<rparr>))
          in if bytes = [] then (GTP_BAD_READ, s)
             else case cookieIsValid K (n_id req) s of (valid, s) \<Rightarrow>
               if \<not> valid then (GTP_ID_NOT_VALID, s)
               else if strnlen (su_path s) (length bytes) < length bytes then (0, s)
               else (GTP_BAD_PATH, s))"

text \<open>
  \<open>allocSeccompNotifBuffers()\<close>: whether the three calls succeed. The result says whether \<open>*resp\<close> is
  not null: the code tests \<open>resp\<close>, which never is.
\<close>

definition allocSeccompNotifBuffers :: "bool \<Rightarrow> bool \<Rightarrow> bool \<Rightarrow> super \<Rightarrow> (bool, super) outcome" where
  "allocSeccompNotifBuffers sizes_ok malloc_req malloc_resp s =
     (if \<not> sizes_ok then Stop (Exit 1) (say ''seccomp-SECCOMP_GET_NOTIF_SIZES'' [] s)
      else if \<not> malloc_req then Stop (Exit 1) (say ''malloc-seccomp_notif'' [] s)
      else Ret malloc_resp s)"

section \<open>\<open>seccomp_unotify_mkdir.c\<close>\<close>

record cmdLineOpts =
  delaySecs :: int
  secondFilter :: int

definition EOPNOTSUPP :: int where "EOPNOTSUPP = 95"
definition ENOENT :: int where "ENOENT = 2"
definition SECCOMP_USER_NOTIF_FLAG_CONTINUE :: u32 where "SECCOMP_USER_NOTIF_FLAG_CONTINUE = 1"

definition usage_mkdir :: "string \<Rightarrow> string list \<Rightarrow> ('a, string list) outcome" where
  "usage_mkdir msg err = Stop (Exit 1) (err @ [msg @ ''\<newline>'', ''Usage: %s [options] <dir> <dir>...\<newline>'',
     ''      Options\<newline>'',
     ''      -d <nsecs>    Supervisor delays 'nsecs' before inspecting target\<newline>'',
     ''      -f <val>      Install second filter whose return value is:\<newline>'',
     ''                    'e' - SECCOMP_RET_ERRNO\<newline>'',
     ''                    't' - SECCOMP_RET_TRACE\<newline>''])"

text \<open>The options as \<open>getopt()\<close> delivers them, and the number of arguments after them.\<close>

fun parse_opts :: "(char \<times> string) list \<Rightarrow> nat \<Rightarrow> cmdLineOpts \<Rightarrow> string list \<Rightarrow> (cmdLineOpts, string list) outcome" where
  "parse_opts [] nargs opts err =
     (if nargs = 0 then usage_mkdir ''At least one pathname argument should be supplied'' err else Ret opts err)"
| "parse_opts ((opt, optarg) # os) nargs opts err =
     (if opt = CHR ''f'' then
        (if char_at optarg 0 = CHR ''e'' then parse_opts os nargs (opts\<lparr>secondFilter := uint SECCOMP_RET_ERRNO\<rparr>) err
         else if char_at optarg 0 = CHR ''t'' then parse_opts os nargs (opts\<lparr>secondFilter := uint SECCOMP_RET_TRACE\<rparr>) err
         else usage_mkdir ''Bad value for -f'' err)
      else if opt = CHR ''d'' then parse_opts os nargs (opts\<lparr>delaySecs := atoi optarg\<rparr>) err
      else usage_mkdir ''Bad option'' err)"

definition parseCommandLineOptions :: "(char \<times> string) list \<Rightarrow> nat \<Rightarrow> string list \<Rightarrow> (cmdLineOpts, string list) outcome" where
  "parseCommandLineOptions os nargs err = parse_opts os nargs \<lparr>delaySecs = 0, secondFilter = -1\<rparr> err"

definition installNotifyFilter :: "(sock_filter list \<Rightarrow> bool) \<Rightarrow> u32 \<Rightarrow> secproc \<Rightarrow> (unit, secproc) outcome" where
  "installNotifyFilter accepts nr s =
     (case seccomp accepts (filter_notify nr) s of (r, s) \<Rightarrow>
        if r = -1 then sec_errExit ''seccomp-install-notify-filter'' s else Ret () s)"

definition installFilter2 :: "(sock_filter list \<Rightarrow> bool) \<Rightarrow> cmdLineOpts \<Rightarrow> secproc \<Rightarrow> (unit, secproc) outcome" where
  "installFilter2 accepts opts s =
     (case seccomp accepts (filter_second (word_of_int (secondFilter opts))) s of (r, s) \<Rightarrow>
        if r = -1 then sec_errExit ''seccomp-install-filter-2'' s else Ret () s)"

text \<open>The filters of the target process, as \<open>targetProcess()\<close> installs them after \<open>prctl()\<close>.\<close>

definition target_filters :: "bool \<Rightarrow> (sock_filter list \<Rightarrow> bool) \<Rightarrow> cmdLineOpts \<Rightarrow> secproc \<Rightarrow> (unit, secproc) outcome" where
  "target_filters prctl_ok accepts opts s =
     (if \<not> prctl_ok then sec_errExit ''prctl'' s
      else bnd (installNotifyFilter accepts NR_mkdir s) (\<lambda>_ s.
        if secondFilter opts \<noteq> -1 then installFilter2 accepts opts s else Ret () s))"

text \<open>The delay, with a test of the identifier before and after it.\<close>

definition delay :: "notif_kernel \<Rightarrow> cmdLineOpts \<Rightarrow> seccomp_notif \<Rightarrow> super \<Rightarrow> (unit, super) outcome" where
  "delay K opts req s =
     (if delaySecs opts > 0 then
        (case cookieIsValid K (n_id req) (say (tab @ ''S: delaying for %d seconds:'') [ArgI (delaySecs opts)] s) of (valid, s) \<Rightarrow>
           if \<not> valid then Stop (Exit 1) (say (tab @ ''S: notification ID check failed!!!'') [] s)
           else
             let s = say ''\<newline>'' [] (fold (\<lambda>d. say '' %d'' [ArgI d]) (rev [1..delaySecs opts]) s)
             in case cookieIsValid K (n_id req) s of (valid, s) \<Rightarrow>
               if \<not> valid then Stop (Exit 1) (say (tab @ ''S: notification ID check failed!!!'') [] s) else Ret () s)
      else Ret () s)"

text \<open>The response to a notification, after the path was fetched with the given status.\<close>

definition mkdir_response :: "notif_kernel \<Rightarrow> seccomp_notif \<Rightarrow> int \<Rightarrow> super \<Rightarrow> seccomp_notif_resp \<times> super" where
  "mkdir_response K req pathStatus s =
     (let resp = \<lparr>r_id = n_id req, r_val = 0, r_error = 0, r_flags = 0\<rparr>; path = path_str s in
      if pathStatus \<noteq> 0 then
        (resp\<lparr>r_error := - EINVAL\<rparr>, say (tab @ ''S: spoofing error for invalid pathname (%s)\<newline>'') [ArgS (k_strerror K EINVAL)] s)
      else if strncmp path ''/tmp/'' (length ''/tmp/'') = 0 then
        let mode = sd_args (n_data req) ! 1;
            s = say (tab @ ''S: executing: mkdir(\"%s\", %#llo)\<newline>'') [ArgS path, ArgI (uint mode)] s;
            r = k_mkdir K (su_clock s) path mode;
            s = tick_su (s\<lparr>su_mkdirs := su_mkdirs s @ [(path, mode)]\<rparr>)
        in (case r of
              None \<Rightarrow> (resp\<lparr>r_val := int (length path)\<rparr>, say (tab @ ''S: success! spoofed return = %lld\<newline>'') [ArgI (int (length path))] s)
            | Some e \<Rightarrow> (resp\<lparr>r_error := - e\<rparr>, say (tab @ ''S: failure! (errno = %d; %s)\<newline>'') [ArgI e, ArgS (k_strerror K e)] s))
      else if strncmp path ''./'' (length ''./'') = 0 then
        (resp\<lparr>r_flags := SECCOMP_USER_NOTIF_FLAG_CONTINUE\<rparr>, say (tab @ ''S: target can execute system call\<newline>'') [] s)
      else
        (resp\<lparr>r_error := - EOPNOTSUPP\<rparr>, say (tab @ ''S: spoofing error response (%s)\<newline>'') [ArgS (k_strerror K EOPNOTSUPP)] s))"

definition send_response :: "notif_kernel \<Rightarrow> seccomp_notif_resp \<Rightarrow> super \<Rightarrow> super" where
  "send_response K resp s =
     (let s = say (tab @ ''S: sending response (flags = %#x; val = %lld; error = %d)\<newline>'')
                [ArgI (uint (r_flags resp)), ArgI (r_val resp), ArgI (r_error resp)] s;
          r = k_send K (su_clock s) resp;
          s = tick_su (s\<lparr>su_sent := su_sent s @ [resp]\<rparr>)
      in case r of
           None \<Rightarrow> s
         | Some e \<Rightarrow> if e = ENOENT
             then say (tab @ ''S: response failed with ENOENT; perhaps target process's syscall was interrupted by a signal?\<newline>'') [] s
             else say ''ioctl-SECCOMP_IOCTL_NOTIF_SEND'' [] s)"

text \<open>One notification; the result says whether the loop goes on.\<close>

definition handle_mkdir :: "notif_kernel \<Rightarrow> cmdLineOpts \<Rightarrow> bool \<Rightarrow> seccomp_notif \<Rightarrow> super \<Rightarrow> (bool, super) outcome" where
  "handle_mkdir K opts resp_ok req s =
     (let s = say (tab @ ''S: got notification (ID %#llx) for PID %d\<newline>'') [ArgI (uint (n_id req)), ArgI (n_pid req)] s in
      if sd_nr (n_data req) \<noteq> NR_mkdir
      then Stop (Exit 1) (say (tab @ ''S: notification contained unexpected system call number; bye!!!\<newline>'') [] s)
      else bnd (delay K opts req s) (\<lambda>_ s.
        case getTargetPathname K req 0 NOTIF_PATH_MAX s of (pathStatus, s) \<Rightarrow>
          if \<not> resp_ok then Stop (Undefined ''store through a null pointer'') s
          else case mkdir_response K req pathStatus s of (resp, s) \<Rightarrow>
            let s = send_response K resp s
            in Ret (strcmp (path_str s) ''/bye'' \<noteq> 0) s))"

fun mkdir_loop :: "notif_kernel \<Rightarrow> cmdLineOpts \<Rightarrow> bool \<Rightarrow> recv_result list \<Rightarrow> super \<Rightarrow> (unit, super) outcome" where
  "mkdir_loop K opts resp_ok [] s = Ret () s"
| "mkdir_loop K opts resp_ok (RecvFail e # es) s =
     (if e = EINTR then mkdir_loop K opts resp_ok es s
      else Stop (Exit 1) (say ''ioctl-SECCOMP_IOCTL_NOTIF_RECV'' [] s))"
| "mkdir_loop K opts resp_ok (Recv req # es) s =
     bnd (handle_mkdir K opts resp_ok req s) (\<lambda>again s.
       if again then mkdir_loop K opts resp_ok es s
       else Stop (Exit 1) (say (tab @ ''S: terminating **********\<newline>'') [] s))"

definition handleNotifications_mkdir :: "notif_kernel \<Rightarrow> cmdLineOpts \<Rightarrow> bool \<Rightarrow> bool \<Rightarrow> bool \<Rightarrow> recv_result list \<Rightarrow> super
    \<Rightarrow> (unit, super) outcome" where
  "handleNotifications_mkdir K opts sizes_ok malloc_req malloc_resp es s =
     bnd (allocSeccompNotifBuffers sizes_ok malloc_req malloc_resp s) (\<lambda>resp_ok s. mkdir_loop K opts resp_ok es s)"

section \<open>\<open>seccomp_unotify_openat.c\<close>\<close>

definition SECCOMP_ADDFD_FLAG_SETFD :: u32 where "SECCOMP_ADDFD_FLAG_SETFD = 1"
definition O_CLOEXEC :: u32 where "O_CLOEXEC = 0x80000"

definition openat_response :: "notif_kernel \<Rightarrow> seccomp_notif \<Rightarrow> int \<Rightarrow> super \<Rightarrow> (seccomp_notif_resp, super) outcome" where
  "openat_response K req pathStatus s =
     (let resp = \<lparr>r_id = n_id req, r_val = 0, r_error = 0, r_flags = 0\<rparr>; path = path_str s; args = sd_args (n_data req) in
      if pathStatus \<noteq> 0 then
        Ret (resp\<lparr>r_error := - EINVAL\<rparr>) (say (tab @ ''S: spoofing error for invalid pathname (%s)\<newline>'') [ArgS (k_strerror K EINVAL)] s)
      else
        let s = say (tab @ ''S: executing: openat(%#llo, \"%s\", %#llo, %#llo)\<newline>'')
                  [ArgI (uint (args ! 0)), ArgS path, ArgI (uint (args ! 2)), ArgI (uint (args ! 3))] s;
            r = k_openat K (su_clock s) (args ! 0) path (args ! 2) (args ! 3);
            s = tick_su (s\<lparr>su_opens := su_opens s @ [(path, args ! 2)]\<rparr>)
        in (case r of
              Inl e \<Rightarrow> Ret (resp\<lparr>r_error := - e\<rparr>) (say (tab @ ''S: failure! (errno = %d; %s)\<newline>'') [ArgI e, ArgS (k_strerror K e)] s)
            | Inr fd \<Rightarrow>
                let s = s\<lparr>su_fds := su_fds s + 1\<rparr>;
                    addfd = \<lparr>a_id = n_id req, a_flags = SECCOMP_ADDFD_FLAG_SETFD, a_srcfd = fd, a_newfd = 42 + fd, a_newfd_flags = O_CLOEXEC\<rparr>;
                    q = k_addfd K (su_clock s) addfd;
                    s = tick_su s
                in (case q of
                      None \<Rightarrow> Stop (Exit 1) (say ''SECCOMP_IOCTL_NOTIF_ADDFD'' [] s)
                    | Some remoteFd \<Rightarrow>
                        Ret (resp\<lparr>r_val := remoteFd\<rparr>) (say (tab @ ''S: success! spoofed return = %lld\<newline>'') [ArgI remoteFd] (close_mem s)))))"

definition handle_openat :: "notif_kernel \<Rightarrow> bool \<Rightarrow> seccomp_notif \<Rightarrow> super \<Rightarrow> (unit, super) outcome" where
  "handle_openat K resp_ok req s =
     (let s = say (tab @ ''S: got notification (ID %#llx) for PID %d\<newline>'') [ArgI (uint (n_id req)), ArgI (n_pid req)] s in
      if sd_nr (n_data req) \<noteq> NR_openat
      then Stop (Exit 1) (say (tab @ ''S: notification contained unexpected system call number; bye!!!\<newline>'') [] s)
      else case getTargetPathname K req 1 NOTIF_PATH_MAX s of (pathStatus, s) \<Rightarrow>
        if \<not> resp_ok then Stop (Undefined ''store through a null pointer'') s
        else bnd (openat_response K req pathStatus s) (\<lambda>resp s. Ret () (send_response K resp s)))"

fun openat_loop :: "notif_kernel \<Rightarrow> bool \<Rightarrow> recv_result list \<Rightarrow> super \<Rightarrow> (unit, super) outcome" where
  "openat_loop K resp_ok [] s = Ret () s"
| "openat_loop K resp_ok (RecvFail e # es) s =
     (if e = EINTR then openat_loop K resp_ok es s
      else Stop (Exit 1) (say ''ioctl-SECCOMP_IOCTL_NOTIF_RECV'' [] s))"
| "openat_loop K resp_ok (Recv req # es) s =
     bnd (handle_openat K resp_ok req s) (\<lambda>_ s. openat_loop K resp_ok es s)"

definition handleNotifications_openat :: "notif_kernel \<Rightarrow> bool \<Rightarrow> bool \<Rightarrow> bool \<Rightarrow> recv_result list \<Rightarrow> super
    \<Rightarrow> (unit, super) outcome" where
  "handleNotifications_openat K sizes_ok malloc_req malloc_resp es s =
     bnd (allocSeccompNotifBuffers sizes_ok malloc_req malloc_resp s) (\<lambda>resp_ok s. openat_loop K resp_ok es s)"

section \<open>What the operations leave alone\<close>

lemma say_simps [simp]:
  "su_clock (say f as s) = su_clock s" "su_path (say f as s) = su_path s" "su_fds (say f as s) = su_fds s"
  "su_mkdirs (say f as s) = su_mkdirs s" "su_opens (say f as s) = su_opens s" "su_sent (say f as s) = su_sent s"
  by (simp_all add: say_def)

lemma tick_su_simps [simp]:
  "su_clock (tick_su s) = Suc (su_clock s)" "su_path (tick_su s) = su_path s" "su_fds (tick_su s) = su_fds s"
  "su_mkdirs (tick_su s) = su_mkdirs s" "su_opens (tick_su s) = su_opens s" "su_sent (tick_su s) = su_sent s"
  by (simp_all add: tick_su_def)

lemma close_mem_simps [simp]:
  "su_clock (close_mem s) = Suc (su_clock s)" "su_path (close_mem s) = su_path s" "su_fds (close_mem s) = su_fds s - 1"
  "su_mkdirs (close_mem s) = su_mkdirs s" "su_opens (close_mem s) = su_opens s" "su_sent (close_mem s) = su_sent s"
  by (simp_all add: close_mem_def)

lemma path_str_frame [simp]: "path_str (say f as s) = path_str s" "path_str (tick_su s) = path_str s"
  by (simp_all add: path_str_def)

lemma fold_say_simps [simp]:
  "su_clock (fold (\<lambda>d. say f (g d)) ds s) = su_clock s" "su_path (fold (\<lambda>d. say f (g d)) ds s) = su_path s"
  "su_fds (fold (\<lambda>d. say f (g d)) ds s) = su_fds s" "su_mkdirs (fold (\<lambda>d. say f (g d)) ds s) = su_mkdirs s"
  "su_opens (fold (\<lambda>d. say f (g d)) ds s) = su_opens s" "su_sent (fold (\<lambda>d. say f (g d)) ds s) = su_sent s"
  by (induction ds arbitrary: s) simp_all

definition same_deeds :: "super \<Rightarrow> super \<Rightarrow> bool" where
  "same_deeds s t \<longleftrightarrow> su_fds t = su_fds s \<and> su_mkdirs t = su_mkdirs s \<and> su_opens t = su_opens s \<and> su_sent t = su_sent s"

lemma length_overlay_path: "length x \<le> length b \<Longrightarrow> length (overlay b 0 x) = length b"
  by (simp add: overlay_def)

text \<open>\<open>getTargetPathname()\<close> closes what it opens and only changes the array.\<close>

lemma getTargetPathname_frame:
  assumes "getTargetPathname K req n len s = (st, t)" "len \<le> length (su_path s)"
  shows "same_deeds s t \<and> length (su_path t) = length (su_path s)"
  using assms
  by (auto simp: getTargetPathname_def cookieIsValid_def same_deeds_def Let_def length_overlay_path min_def
      split: if_splits option.splits)

lemma takeWhile_stops: "length (takeWhile P xs) < length xs \<Longrightarrow> takeWhile P (xs @ ys) = takeWhile P xs"
  by (induction xs) auto

text \<open>
  When it reports success the array holds a string, which is what was read from the target, and the
  notification was still valid after the reading.
\<close>

lemma getTargetPathname_success:
  assumes "getTargetPathname K req n len s = (0, t)"
  shows "\<exists>c b. k_pread K c (n_pid req) (sd_args (n_data req) ! n) = Some b \<and>
      path_str t = takeWhile (\<lambda>c. c \<noteq> CHR 0x00) (take len b) \<and> length (path_str t) < length (take len b) \<and>
      k_id_valid K (su_clock t - 1) (n_id req)"
proof -
  let ?b = "case k_pread K (Suc (Suc (su_clock s))) (n_pid req) (sd_args (n_data req) ! n) of None \<Rightarrow> [] | Some b \<Rightarrow> take len b"
  let ?P = "\<lambda>c. c \<noteq> CHR 0x00"
  have t: "?b \<noteq> []" "su_path t = overlay (su_path s) 0 ?b" "strnlen (su_path t) (length ?b) < length ?b"
    "k_id_valid K (su_clock t - 1) (n_id req)"
    using assms
    by (auto simp: getTargetPathname_def cookieIsValid_def Let_def GTP_BAD_READ_def GTP_ID_NOT_VALID_def GTP_BAD_PATH_def split: if_splits)
  then obtain b where b: "k_pread K (Suc (Suc (su_clock s))) (n_pid req) (sd_args (n_data req) ! n) = Some b" "?b = take len b"
    by (auto split: option.splits)
  define x where "x = take len b"
  have p: "su_path t = x @ drop (length x) (su_path s)" using t(2) b(2) by (simp add: overlay_def x_def)
  have l: "length (takeWhile ?P x) < length x"
    using t(3) unfolding strnlen_def b(2) x_def [symmetric] p by simp
  have "takeWhile ?P (su_path t) = takeWhile ?P x" unfolding p by (rule takeWhile_stops [OF l])
  then show ?thesis using b(1) l t(4) by (auto simp: path_str_def x_def)
qed

lemma path_str_cstring: "cstring (path_str s)"
  by (auto simp: path_str_def cstring_def dest: set_takeWhileD)

section \<open>The supervisor of \<open>mkdir()\<close>\<close>

definition tmp_path :: "string \<times> u64 \<Rightarrow> bool" where
  "tmp_path c \<longleftrightarrow> (\<exists>q. fst c = ''/tmp/'' @ q) \<and> cstring (fst c) \<and> length (fst c) < NOTIF_PATH_MAX"

text \<open>What the supervisor may have done between \<open>s\<close> and \<open>t\<close>, answering the given identifiers.\<close>

definition confined :: "u64 list \<Rightarrow> super \<Rightarrow> super \<Rightarrow> bool" where
  "confined ids s t \<longleftrightarrow> su_fds t = su_fds s \<and> su_opens t = su_opens s \<and> length (su_path t) = length (su_path s) \<and>
     (\<exists>ms. su_mkdirs t = su_mkdirs s @ ms \<and> (\<forall>c\<in>set ms. tmp_path c)) \<and>
     (\<exists>rs. su_sent t = su_sent s @ rs \<and> map r_id rs = ids)"

lemma confined_refl [simp]: "confined [] s s"
  by (simp add: confined_def)

lemma confined_say [simp]: "confined ids s (say f as t) = confined ids s t"
  by (simp add: confined_def)

lemma confined_trans: "confined i s t \<Longrightarrow> confined j t u \<Longrightarrow> confined (i @ j) s u"
  unfolding confined_def by (elim conjE exE) (auto intro!: exI)

lemma delay_confined: "wp (delay K opts req s) (\<lambda>_ t. confined [] s t) (\<lambda>r t. r = Exit 1 \<and> confined [] s t)"
  by (simp add: delay_def cookieIsValid_def Let_def confined_def)

lemma mkdir_response_confined:
  assumes "mkdir_response K req st s = (resp, t)" "st = 0 \<Longrightarrow> length (path_str s) < NOTIF_PATH_MAX"
  shows "confined [] s t \<and> r_id resp = n_id req \<and> path_str t = path_str s"
proof -
  have "strncmp (path_str s) ''/tmp/'' (length ''/tmp/'') = 0 \<Longrightarrow> \<exists>q. path_str s = ''/tmp/'' @ q"
    using strncmp_begins [of "''/tmp/''" "path_str s"] path_str_cstring by simp
  then show ?thesis
    using assms path_str_cstring [of s]
    by (auto simp: mkdir_response_def confined_def tmp_path_def path_str_def Let_def split: if_splits option.splits)
qed

lemma send_response_confined: "r_id resp = i \<Longrightarrow> confined [i] s (send_response K resp s)"
  by (auto simp: send_response_def confined_def Let_def split: option.split)

lemma path_str_send [simp]: "path_str (send_response K resp s) = path_str s"
  by (auto simp: send_response_def path_str_def Let_def split: option.split)

lemma getTargetPathname_length:
  assumes "getTargetPathname K req n NOTIF_PATH_MAX s = (0, t)"
  shows "length (path_str t) < NOTIF_PATH_MAX"
  using getTargetPathname_success [OF assms] by auto

lemma handle_mkdir_confined:
  assumes "length (su_path s) = NOTIF_PATH_MAX"
  shows "wp (handle_mkdir K opts True req s) (\<lambda>_ t. confined [n_id req] s t) (\<lambda>r t. r = Exit 1 \<and> confined [] s t)"
proof -
  have body: "confined [n_id req] s (send_response K resp v)"
    if d: "confined [] s u" and g: "getTargetPathname K req 0 NOTIF_PATH_MAX u = (st, w)" and m: "mkdir_response K req st w = (resp, v)"
    for u st w resp v
  proof -
    have len: "NOTIF_PATH_MAX \<le> length (su_path u)" using d assms by (simp add: confined_def)
    have "confined [] u w" using getTargetPathname_frame [OF g len] by (simp add: same_deeds_def confined_def)
    moreover have "confined [] w v \<and> r_id resp = n_id req"
      using mkdir_response_confined [OF m] getTargetPathname_length g by blast
    ultimately show ?thesis
      using confined_trans [OF confined_trans [OF confined_trans [OF d]] send_response_confined] by force
  qed
  let ?s = "say (tab @ ''S: got notification (ID %#llx) for PID %d\<newline>'') [ArgI (uint (n_id req)), ArgI (n_pid req)] s"
  have "confined [] s u" if "confined [] ?s u" for u using that by (simp add: confined_def)
  then have "wp (delay K opts req ?s) (\<lambda>_ u. confined [] s u) (\<lambda>r u. r = Exit 1 \<and> confined [] s u)"
    using delay_confined [of K opts req ?s] by (auto elim: wp_mono)
  then show ?thesis
    by (auto simp: handle_mkdir_def Let_def split_beta intro!: body elim!: wp_mono)
qed

fun notifications :: "recv_result list \<Rightarrow> seccomp_notif list" where
  "notifications [] = []"
| "notifications (RecvFail e # es) = notifications es"
| "notifications (Recv r # es) = r # notifications es"

definition answers_some :: "recv_result list \<Rightarrow> super \<Rightarrow> super \<Rightarrow> bool" where
  "answers_some es s t \<longleftrightarrow> (\<exists>k. confined (map n_id (take k (notifications es))) s t)"

lemma mkdir_loop_confined:
  assumes "length (su_path s) = NOTIF_PATH_MAX"
  shows "wp (mkdir_loop K opts True es s) (\<lambda>_ t. confined (map n_id (notifications es)) s t) (\<lambda>r t. r = Exit 1 \<and> answers_some es s t)"
  using assms
proof (induction es arbitrary: s)
  case Nil
  then show ?case by simp
next
  case (Cons e es)
  show ?case
  proof (cases e)
    case (RecvFail x)
    have "answers_some es s t \<Longrightarrow> answers_some (e # es) s t" for t by (simp add: answers_some_def RecvFail)
    moreover have "answers_some (e # es) s (say ''ioctl-SECCOMP_IOCTL_NOTIF_RECV'' [] s)"
      by (auto simp: answers_some_def intro!: exI [of _ 0])
    ultimately show ?thesis using Cons.IH [OF Cons.prems] by (auto simp: RecvFail elim!: wp_mono)
  next
    case (Recv req)
    have more: "answers_some (Recv req # es) s t" if "confined [n_id req] s u" "answers_some es u t" for u t
    proof -
      from that obtain k where "confined (map n_id (take k (notifications es))) u t" by (auto simp: answers_some_def)
      then have "confined (map n_id (take (Suc k) (notifications (Recv req # es)))) s t"
        using confined_trans [OF that(1)] by simp
      then show ?thesis unfolding answers_some_def by blast
    qed
    have one: "answers_some (Recv req # es) s t" if "confined [n_id req] s t" for t
      using that by (auto simp: answers_some_def intro!: exI [of _ 1])
    have none: "answers_some (Recv req # es) s t" if "confined [] s t" for t
      using that by (auto simp: answers_some_def intro!: exI [of _ 0])
    have go: "wp (mkdir_loop K opts True es u) (\<lambda>_ t. confined (n_id req # map n_id (notifications es)) s t)
        (\<lambda>r t. r = Exit 1 \<and> answers_some (Recv req # es) s t)" if u: "confined [n_id req] s u" for u
    proof -
      have "length (su_path u) = NOTIF_PATH_MAX" using u Cons.prems by (simp add: confined_def)
      from Cons.IH [OF this] show ?thesis
        by (rule wp_mono) (use confined_trans [OF u] more [OF u] in auto)
    qed
    show ?thesis
      unfolding Recv mkdir_loop.simps wp_bnd notifications.simps list.map
      by (rule wp_mono [OF handle_mkdir_confined [OF Cons.prems]]) (use go one none in auto)
  qed
qed

section \<open>A target that stays blocked\<close>

text \<open>
  The notification stays valid, and whenever the supervisor reads argument \<open>n\<close> of the call in the
  memory of the target, it finds the string \<open>p\<close>.
\<close>

definition stable :: "notif_kernel \<Rightarrow> seccomp_notif \<Rightarrow> nat \<Rightarrow> string \<Rightarrow> bool" where
  "stable K req n p \<longleftrightarrow> (\<forall>c. k_id_valid K c (n_id req)) \<and> (\<forall>c q. k_open_mem K c q) \<and>
     (\<forall>c. \<exists>b. k_pread K c (n_pid req) (sd_args (n_data req) ! n) = Some b \<and>
        takeWhile (\<lambda>x. x \<noteq> CHR 0x00) (take NOTIF_PATH_MAX b) = p \<and> length p < length (take NOTIF_PATH_MAX b))"

lemma getTargetPathname_stable:
  assumes "stable K req n p"
  shows "\<exists>t. getTargetPathname K req n NOTIF_PATH_MAX s = (0, t) \<and> path_str t = p \<and> same_deeds s t"
proof -
  let ?P = "\<lambda>x. x \<noteq> CHR 0x00"
  obtain b where b: "k_pread K (Suc (Suc (su_clock s))) (n_pid req) (sd_args (n_data req) ! n) = Some b"
    "takeWhile ?P (take NOTIF_PATH_MAX b) = p" "length p < length (take NOTIF_PATH_MAX b)"
    using assms unfolding stable_def by blast
  define x where "x = take NOTIF_PATH_MAX b"
  have x: "takeWhile ?P x = p" "length p < length x" "x \<noteq> []" using b by (auto simp: x_def)
  have o: "overlay q 0 x = x @ drop (length x) q" for q by (simp add: overlay_def)
  have "takeWhile ?P (x @ y) = p" for y using takeWhile_stops [of ?P x y] x by simp
  moreover have "strnlen (x @ y) (length x) < length x" for y using x by (simp add: strnlen_def)
  ultimately show ?thesis
    using assms b(1) x(3)
    by (simp add: getTargetPathname_def cookieIsValid_def stable_def x_def [symmetric] o Let_def path_str_def same_deeds_def)
qed

text \<open>The answer that the program promises for a path.\<close>

definition mkdir_answer :: "notif_kernel \<Rightarrow> nat \<Rightarrow> seccomp_notif \<Rightarrow> string \<Rightarrow> seccomp_notif_resp" where
  "mkdir_answer K c req p =
     (let none = \<lparr>r_id = n_id req, r_val = 0, r_error = 0, r_flags = 0\<rparr> in
      if take (length ''/tmp/'') p = ''/tmp/'' then
        (case k_mkdir K c p (sd_args (n_data req) ! 1) of None \<Rightarrow> none\<lparr>r_val := int (length p)\<rparr> | Some e \<Rightarrow> none\<lparr>r_error := - e\<rparr>)
      else if take (length ''./'') p = ''./'' then none\<lparr>r_flags := SECCOMP_USER_NOTIF_FLAG_CONTINUE\<rparr>
      else none\<lparr>r_error := - EOPNOTSUPP\<rparr>)"

lemma begins_take: "(\<exists>t. p = q @ t) \<longleftrightarrow> take (length q) p = q"
  by (metis append_eq_conv_conj append_take_drop_id)

lemma mkdir_response_answer:
  "\<exists>c. fst (mkdir_response K req 0 s) = mkdir_answer K c req (path_str s)"
proof -
  let ?p = "path_str s"
  have "strncmp ?p ''/tmp/'' (length ''/tmp/'') = 0 \<longleftrightarrow> take (length ''/tmp/'') ?p = ''/tmp/''"
    using strncmp_begins [of "''/tmp/''" ?p] begins_take [of ?p "''/tmp/''"] path_str_cstring by simp
  moreover have "strncmp ?p ''./'' (length ''./'') = 0 \<longleftrightarrow> take (length ''./'') ?p = ''./''"
    using strncmp_begins [of "''./''" ?p] begins_take [of ?p "''./''"] path_str_cstring by simp
  ultimately show ?thesis
    by (intro exI [of _ "su_clock s"]) (auto simp: mkdir_response_def mkdir_answer_def Let_def split: option.split)
qed

lemma delay_stable: "stable K req n p \<Longrightarrow> \<exists>t. delay K opts req s = Ret () t \<and> same_deeds s t"
  by (simp add: delay_def cookieIsValid_def stable_def same_deeds_def Let_def)

lemma send_response_sent [simp]: "su_sent (send_response K resp s) = su_sent s @ [resp]"
  by (auto simp: send_response_def Let_def split: option.split)

lemma mkdir_response_sent: "su_sent (snd (mkdir_response K req st s)) = su_sent s"
  by (auto simp: mkdir_response_def Let_def split: option.split)

lemma handle_mkdir_stable:
  assumes "stable K req 0 p" "sd_nr (n_data req) = NR_mkdir"
  shows "\<exists>again t c. handle_mkdir K opts True req s = Ret again t \<and> su_sent t = su_sent s @ [mkdir_answer K c req p]"
proof -
  let ?s = "say (tab @ ''S: got notification (ID %#llx) for PID %d\<newline>'') [ArgI (uint (n_id req)), ArgI (n_pid req)] s"
  obtain u where u: "delay K opts req ?s = Ret () u" "same_deeds ?s u" using delay_stable [OF assms(1)] by blast
  obtain w where w: "getTargetPathname K req 0 NOTIF_PATH_MAX u = (0, w)" "path_str w = p" "same_deeds u w"
    using getTargetPathname_stable [OF assms(1)] by blast
  obtain c where c: "fst (mkdir_response K req 0 w) = mkdir_answer K c req p" using mkdir_response_answer [of K req w] w(2) by auto
  have "su_sent w = su_sent s" using u w by (simp add: same_deeds_def)
  then show ?thesis
    using u(1) w(1) c mkdir_response_sent [of K req 0 w] assms(2)
    by (auto simp: handle_mkdir_def Let_def split_beta)
qed

section \<open>What the target sees\<close>

text \<open>
  How the kernel treats a system call of a process with filters, given the supervisor's response
  where one is asked for (\<open>seccomp(2)\<close>, \<open>seccomp_unotify(2)\<close>); there is no tracer.
\<close>

datatype call_result = Executed | Returned int | Failed int | Killed

definition notified :: "seccomp_notif_resp \<Rightarrow> call_result" where
  "notified resp =
     (if r_flags resp = SECCOMP_USER_NOTIF_FLAG_CONTINUE then Executed
      else if r_error resp \<noteq> 0 then Failed (- r_error resp) else Returned (r_val resp))"

definition call_result :: "sock_filter list list \<Rightarrow> seccomp_data \<Rightarrow> seccomp_notif_resp \<Rightarrow> call_result" where
  "call_result fs d resp =
     (case seccomp_action fs d SECCOMP_RET_ALLOW of
        None \<Rightarrow> Killed
      | Some r \<Rightarrow>
          let act = r AND 0xffff0000 in
          if act = SECCOMP_RET_ALLOW \<or> act = SECCOMP_RET_LOG then Executed
          else if act = SECCOMP_RET_ERRNO then Failed (uint (r AND 0xffff))
          else if act = SECCOMP_RET_USER_NOTIF then notified resp
          else if act = SECCOMP_RET_TRACE then Failed 38
          else Killed)"

lemma run_notify:
  "bpf_run (filter_notify nr) d a = Some (if foreign d then SECCOMP_RET_KILL_PROCESS
     else if sd_nr d = nr then SECCOMP_RET_USER_NOTIF else SECCOMP_RET_ALLOW)"
  by (simp add: filter_notify_def run_checked)

lemma run_second:
  "bpf_run (filter_second x) d a = Some (if foreign d then SECCOMP_RET_KILL_PROCESS
     else if sd_nr d \<noteq> NR_mkdir then SECCOMP_RET_ALLOW
     else if x = SECCOMP_RET_ERRNO then SECCOMP_RET_ERRNO OR ENOTSUP else SECCOMP_RET_TRACE)"
  by (simp add: filter_second_def run_checked)

lemma ranks:
  "action_rank SECCOMP_RET_KILL_PROCESS = - 2147483648" "action_rank SECCOMP_RET_USER_NOTIF = 0x7fc00000"
  "action_rank SECCOMP_RET_TRACE = 0x7ff00000" "action_rank SECCOMP_RET_ALLOW = 0x7fff0000"
  "action_rank (SECCOMP_RET_ERRNO OR ENOTSUP) = 0x50000"
  by code_simp+

lemma masks:
  "SECCOMP_RET_USER_NOTIF AND 0xffff0000 = SECCOMP_RET_USER_NOTIF" "SECCOMP_RET_ALLOW AND 0xffff0000 = SECCOMP_RET_ALLOW"
  "(SECCOMP_RET_ERRNO OR ENOTSUP) AND 0xffff0000 = SECCOMP_RET_ERRNO" "uint ((SECCOMP_RET_ERRNO OR ENOTSUP) AND 0xffff) = 95"
  "SECCOMP_RET_USER_NOTIF \<noteq> SECCOMP_RET_ALLOW" "SECCOMP_RET_USER_NOTIF \<noteq> SECCOMP_RET_LOG" "SECCOMP_RET_USER_NOTIF \<noteq> SECCOMP_RET_ERRNO"
  "SECCOMP_RET_ERRNO \<noteq> SECCOMP_RET_ALLOW" "SECCOMP_RET_ERRNO \<noteq> SECCOMP_RET_LOG" "SECCOMP_RET_TRACE \<noteq> SECCOMP_RET_ERRNO"
  by code_simp+

lemma parse_second:
  "wp (parse_opts os nargs opts err) (\<lambda>o' _. secondFilter o' \<in> {secondFilter opts, uint SECCOMP_RET_ERRNO, uint SECCOMP_RET_TRACE}) (\<lambda>r _. r = Exit 1)"
proof (induction os nargs opts err rule: parse_opts.induct)
  case (1 nargs opts err)
  then show ?case by (simp add: usage_mkdir_def)
next
  case (2 opt optarg os nargs opts err)
  then show ?case
    by (cases "opt = CHR ''f''"; cases "opt = CHR ''d''"; cases "char_at optarg 0 = CHR ''e''"; cases "char_at optarg 0 = CHR ''t''")
      (simp_all add: usage_mkdir_def, (erule wp_mono, auto)+)
qed

lemma target_filters_installed:
  assumes "target_filters True accepts opts s = Ret () t" "sp_filters s = []"
  shows "sp_filters t = (if secondFilter opts = -1 then [filter_notify NR_mkdir]
    else [filter_second (word_of_int (secondFilter opts)), filter_notify NR_mkdir])"
  using assms
  by (auto simp: target_filters_def installNotifyFilter_def installFilter2_def seccomp_def sec_errExit_def split: if_splits)

lemma parsed_second:
  assumes "parseCommandLineOptions os nargs err = Ret opts err'"
  shows "secondFilter opts \<in> {-1, uint SECCOMP_RET_ERRNO, uint SECCOMP_RET_TRACE}"
  using parse_second [of os nargs "\<lparr>delaySecs = 0, secondFilter = -1\<rparr>" err] assms
  by (simp add: parseCommandLineOptions_def)

text \<open>
  The user notification has precedence over a tracer, and \<open>SECCOMP_RET_ERRNO\<close> over the
  notification: what the target sees of its call of \<open>mkdir()\<close>.
\<close>

lemma mkdir_call_result:
  assumes "secondFilter opts \<in> {-1, uint SECCOMP_RET_ERRNO, uint SECCOMP_RET_TRACE}"
    "target_filters True accepts opts s = Ret () t" "sp_filters s = []" "\<not> foreign d" "sd_nr d = NR_mkdir"
  shows "call_result (sp_filters t) d resp = (if secondFilter opts = uint SECCOMP_RET_ERRNO then Failed EOPNOTSUPP else notified resp)"
proof -
  note facts = target_filters_installed [OF assms(2,3)] run_notify run_second ranks masks call_result_def
  have ne: "uint SECCOMP_RET_ERRNO \<noteq> -1" "uint SECCOMP_RET_TRACE \<noteq> -1" "uint SECCOMP_RET_TRACE \<noteq> uint SECCOMP_RET_ERRNO"
    by (simp_all add: seccomp_actions)
  consider "secondFilter opts = -1" | "secondFilter opts = uint SECCOMP_RET_ERRNO" | "secondFilter opts = uint SECCOMP_RET_TRACE"
    using assms(1) by auto
  then show ?thesis
    by cases (use assms(4,5) ne in \<open>simp_all add: facts EOPNOTSUPP_def\<close>)
qed

lemma notified_answer:
  assumes "\<And>c q m e. k_mkdir K c q m = Some e \<Longrightarrow> e \<noteq> 0"
  shows "notified (mkdir_answer K c req p) =
    (if take (length ''/tmp/'') p = ''/tmp/''
     then (case k_mkdir K c p (sd_args (n_data req) ! 1) of None \<Rightarrow> Returned (int (length p)) | Some e \<Rightarrow> Failed e)
     else if take (length ''./'') p = ''./'' then Executed
     else Failed EOPNOTSUPP)"
  using assms by (auto simp: notified_def mkdir_answer_def SECCOMP_USER_NOTIF_FLAG_CONTINUE_def EOPNOTSUPP_def Let_def split: option.split)

section \<open>The supervisor of \<open>openat()\<close>\<close>

lemma openat_response_frame:
  "wp (openat_response K req st s) (\<lambda>r t. r_id r = n_id req \<and> su_fds t = su_fds s \<and> su_sent t = su_sent s \<and> su_path t = su_path s)
     (\<lambda>r t. r = Exit 1 \<and> su_sent t = su_sent s)"
  by (auto simp: openat_response_def Let_def split: sum.split option.split)

text \<open>A file the supervisor opened reaches the target under the number that the target is told, and no copy stays open.\<close>

lemma openat_response_fd:
  assumes "openat_response K req 0 s = Ret resp t" "k_openat K (su_clock s) (sd_args (n_data req) ! 0) (path_str s) (sd_args (n_data req) ! 2) (sd_args (n_data req) ! 3) = Inr fd"
  shows "k_addfd K (Suc (su_clock s)) \<lparr>a_id = n_id req, a_flags = SECCOMP_ADDFD_FLAG_SETFD, a_srcfd = fd, a_newfd = 42 + fd, a_newfd_flags = O_CLOEXEC\<rparr>
      = Some (r_val resp) \<and> r_error resp = 0 \<and> su_fds t = su_fds s"
  using assms by (auto simp: openat_response_def Let_def split: option.splits)

lemma handle_openat_frame:
  assumes "length (su_path s) = NOTIF_PATH_MAX"
  shows "wp (handle_openat K True req s)
     (\<lambda>_ t. su_fds t = su_fds s \<and> length (su_path t) = length (su_path s) \<and> (\<exists>r. su_sent t = su_sent s @ [r] \<and> r_id r = n_id req))
     (\<lambda>r t. r = Exit 1 \<and> su_sent t = su_sent s)"
proof -
  let ?s = "say (tab @ ''S: got notification (ID %#llx) for PID %d\<newline>'') [ArgI (uint (n_id req)), ArgI (n_pid req)] s"
  obtain st u where g: "getTargetPathname K req 1 NOTIF_PATH_MAX ?s = (st, u)" by fastforce
  then have u: "same_deeds ?s u" "length (su_path u) = length (su_path s)"
    using getTargetPathname_frame [OF g] assms by simp_all
  have send: "su_fds (send_response K r t) = su_fds t \<and> su_path (send_response K r t) = su_path t" for r t
    by (auto simp: send_response_def Let_def split: option.split)
  show ?thesis
    unfolding handle_openat_def Let_def g prod.case
    using u by (auto simp: same_deeds_def send intro!: wp_mono [OF openat_response_frame])
qed

section \<open>Null response, stale path\<close>

text \<open>When the allocation of the response failed, the first notification for a directory is a store through null.\<close>

lemma null_response_undefined:
  assumes "sd_nr (n_data req) = NR_mkdir" "delaySecs opts \<le> 0"
  shows "wp (handleNotifications_mkdir K opts True True False (Recv req # es) s) (\<lambda>_ _. False) (\<lambda>r _. r = Undefined ''store through a null pointer'')"
  using assms by (simp add: handleNotifications_mkdir_def allocSeccompNotifBuffers_def handle_mkdir_def delay_def Let_def split_beta)

text \<open>A notification whose path could not be fetched ends the supervisor when the array still holds \<open>/bye\<close>.\<close>

lemma stale_path_ends:
  assumes "sd_nr (n_data req) = NR_mkdir" "delaySecs opts \<le> 0" "\<And>c q. \<not> k_open_mem K c q" "path_str s = ''/bye''"
  shows "wp (mkdir_loop K opts True (Recv req # es) s) (\<lambda>_ _. False) (\<lambda>r _. r = Exit 1)"
  using assms
  by (simp add: handle_mkdir_def delay_def getTargetPathname_def mkdir_response_def GTP_BAD_READ_def Let_def split_beta)

section \<open>Properties\<close>

text \<open>
  C16: whatever the target does between the calls of the supervisor, the supervisor only makes
  directories whose names start with the five characters \<open>/tmp/\<close> and fit the array \<open>path\<close>, opens nothing else,
  closes every file of the target's memory it opens, and sends exactly one response for each notification, in
  their order, with the notification's identifier; it ends with an error after a prefix of the notifications, or
  waits for more. The prefix is a textual one: \<open>/tmp/../x\<close> has it, and is made outside \<open>/tmp\<close>.
\<close>

theorem supervisor_confined:
  assumes "length (su_path s) = NOTIF_PATH_MAX"
  shows "wp (handleNotifications_mkdir K opts sizes_ok malloc_req True es s)
    (\<lambda>_ t. confined (map n_id (notifications es)) s t)
    (\<lambda>r t. r = Exit 1 \<and> answers_some es s t)"
proof -
  have "answers_some es s (say m [] s)" for m by (auto simp: answers_some_def intro!: exI [of _ 0])
  then show ?thesis
    using mkdir_loop_confined [OF assms, of K opts es]
    by (simp add: handleNotifications_mkdir_def allocSeccompNotifBuffers_def)
qed

definition sample_notif :: seccomp_notif where
  "sample_notif = \<lparr>n_id = 7, n_pid = 100,
     n_data = \<lparr>sd_nr = NR_mkdir, sd_arch = AUDIT_ARCH_X86_64, sd_ip = 0, sd_args = [4096, 448, 0, 0, 0, 0]\<rparr>\<rparr>"

definition sample_kernel :: notif_kernel where
  "sample_kernel = \<lparr>k_open_mem = \<lambda>_ _. True, k_id_valid = \<lambda>_ _. True, k_pread = \<lambda>_ _ _. Some (''/tmp/a'' @ [CHR 0x00]),
     k_mkdir = \<lambda>_ _ _. None, k_openat = \<lambda>_ _ _ _ _. Inl 2, k_addfd = \<lambda>_ _. None, k_send = \<lambda>_ _. None, k_strerror = \<lambda>_. ''''\<rparr>"

definition sample_super :: super where
  "sample_super = \<lparr>su_clock = 0, su_path = replicate NOTIF_PATH_MAX (CHR 0x00), su_fds = 3, su_mkdirs = [], su_opens = [], su_sent = [], su_out = []\<rparr>"

theorem supervisor_confined_witness:
  "wp (handleNotifications_mkdir sample_kernel \<lparr>delaySecs = 2, secondFilter = -1\<rparr> True True True [RecvFail EINTR, Recv sample_notif] sample_super)
    (\<lambda>_ t. confined [7] sample_super t)
    (\<lambda>r t. r = Exit 1 \<and> answers_some [RecvFail EINTR, Recv sample_notif] sample_super t)"
  using supervisor_confined [of sample_super sample_kernel "\<lparr>delaySecs = 2, secondFilter = -1\<rparr>" True True "[RecvFail EINTR, Recv sample_notif]"]
  by (simp add: sample_super_def sample_notif_def)

text \<open>
  C17: the two programs together. With the options as parsed and the filters as \<open>targetProcess()\<close>
  installs them, a target whose call of \<open>mkdir()\<close> stays blocked gets, for a pathname that starts with
  \<open>/tmp/\<close>, the result of the supervisor's own \<open>mkdir()\<close> (the length of the pathname on success, the error
  otherwise), may execute the call itself for a pathname that starts with \<open>./\<close>, and gets \<open>EOPNOTSUPP\<close> for every
  other; with \<open>-f e\<close> it always gets \<open>EOPNOTSUPP\<close>, and \<open>-f t\<close> makes no difference. The comment in
  \<open>handleNotifications()\<close> says that a pathname starting with \<open>.\<close> is executed by the target; for \<open>.x\<close> and
  \<open>../x\<close>, which do not start with \<open>./\<close>, the code (and the theorem) gives the error instead.
\<close>

theorem mkdir_mediated:
  assumes "parseCommandLineOptions os nargs err = Ret opts err'"
    "target_filters True accepts opts s0 = Ret () s1" "sp_filters s0 = []"
    "stable K req 0 p" "\<not> foreign (n_data req)" "sd_nr (n_data req) = NR_mkdir"
    "\<And>c q m e. k_mkdir K c q m = Some e \<Longrightarrow> e \<noteq> 0"
  shows "\<exists>again t resp c. handle_mkdir K opts True req s = Ret again t \<and> su_sent t = su_sent s @ [resp] \<and>
    call_result (sp_filters s1) (n_data req) resp =
      (if secondFilter opts = uint SECCOMP_RET_ERRNO then Failed EOPNOTSUPP
       else if take (length ''/tmp/'') p = ''/tmp/''
       then (case k_mkdir K c p (sd_args (n_data req) ! 1) of None \<Rightarrow> Returned (int (length p)) | Some e \<Rightarrow> Failed e)
       else if take (length ''./'') p = ''./'' then Executed
       else Failed EOPNOTSUPP)"
proof -
  obtain again t c where h: "handle_mkdir K opts True req s = Ret again t" "su_sent t = su_sent s @ [mkdir_answer K c req p]"
    using handle_mkdir_stable [OF assms(4,6)] by blast
  have n: "notified (mkdir_answer K c req p) = (if take (length ''/tmp/'') p = ''/tmp/''
      then (case k_mkdir K c p (sd_args (n_data req) ! 1) of None \<Rightarrow> Returned (int (length p)) | Some e \<Rightarrow> Failed e)
      else if take (length ''./'') p = ''./'' then Executed else Failed EOPNOTSUPP)"
    by (rule notified_answer [OF assms(7)])
  show ?thesis
    unfolding mkdir_call_result [OF parsed_second [OF assms(1)] assms(2,3,5,6)]
    by (rule exI [of _ again], rule exI [of _ t], rule exI [of _ "mkdir_answer K c req p"], rule exI [of _ c]) (simp only: h n simp_thms)
qed

lemma sample_stable: "stable sample_kernel sample_notif 0 ''/tmp/a''"
proof -
  have "take NOTIF_PATH_MAX (''/tmp/a'' @ [CHR 0x00]) = ''/tmp/a'' @ [CHR 0x00]" by (simp add: NOTIF_PATH_MAX_def)
  then show ?thesis by (simp add: stable_def sample_kernel_def)
qed

theorem mkdir_mediated_witness:
  "\<exists>again t resp. handle_mkdir sample_kernel \<lparr>delaySecs = 2, secondFilter = uint SECCOMP_RET_TRACE\<rparr> True sample_notif sample_super = Ret again t \<and>
    su_sent t = [resp] \<and>
    call_result [filter_second SECCOMP_RET_TRACE, filter_notify NR_mkdir] (n_data sample_notif) resp = Returned 6"
proof -
  let ?o = "\<lparr>delaySecs = 2, secondFilter = uint SECCOMP_RET_TRACE\<rparr>"
  have p: "parseCommandLineOptions [(CHR ''d'', ''2''), (CHR ''f'', ''t'')] 1 [] = Ret ?o []" by code_simp
  let ?s1 = "\<lparr>sp_filters = [filter_second SECCOMP_RET_TRACE, filter_notify NR_mkdir], sp_stderr = []\<rparr>"
  have f: "target_filters True (\<lambda>_. True) ?o \<lparr>sp_filters = [], sp_stderr = []\<rparr> = Ret () ?s1"
    by (simp add: target_filters_def installNotifyFilter_def installFilter2_def seccomp_def SECCOMP_RET_TRACE_def)
  have n: "\<not> foreign (n_data sample_notif)" "sd_nr (n_data sample_notif) = NR_mkdir" by code_simp+
  have k: "k_mkdir sample_kernel c q m = None" for c q m by (simp add: sample_kernel_def)
  show ?thesis
    using mkdir_mediated [OF p f _ sample_stable n, of sample_super]
    by (simp add: k sample_super_def seccomp_actions)
qed

end
