(* ===== verification/Thread_Incr.thy ===== *)
theory Thread_Incr
  imports Interleaving
begin

text \<open>
  Two threads that increment a global variable (\<open>threads/thread_incr.c\<close>, \<open>thread_incr_mutex.c\<close>,
  \<open>thread_incr_rwlock.c\<close>, \<open>thread_incr_spinlock.c\<close>), one read or write of a volatile variable or one library call at a
  time. The three programs with a lock have the same code apart from the calls of the lock; the
  locale \<open>exclusive_lock\<close> is what they need of it, and is interpreted on the three kinds of lock.
\<close>

section \<open>Locks\<close>

text \<open>A mutex: whether it is locked. A blocked call is \<open>None\<close>.\<close>

definition pthread_mutex_lock :: "bool \<Rightarrow> bool option" where
  "pthread_mutex_lock locked = (if locked then None else Some True)"

definition pthread_mutex_unlock :: "bool \<Rightarrow> bool" where
  "pthread_mutex_unlock locked = False"

text \<open>A read-write lock: whether a writer holds it, and the number of readers.\<close>

definition pthread_rwlock_wrlock :: "bool \<times> nat \<Rightarrow> (bool \<times> nat) option" where
  "pthread_rwlock_wrlock l = (case l of (writer, readers) \<Rightarrow> if writer \<or> readers > 0 then None else Some (True, 0))"

definition pthread_rwlock_unlock :: "bool \<times> nat \<Rightarrow> bool \<times> nat" where
  "pthread_rwlock_unlock l = (case l of (writer, readers) \<Rightarrow> if writer then (False, readers) else (False, readers - 1))"

text \<open>A spin lock: the lock word, 1 when it is free.\<close>

definition pthread_spin_lock :: "int \<Rightarrow> int option" where
  "pthread_spin_lock w = (if w = 1 then Some 0 else None)"

definition pthread_spin_unlock :: "int \<Rightarrow> int" where
  "pthread_spin_unlock w = 1"

section \<open>The programs\<close>

datatype thread_pc = T_Test | T_Lock | T_Load | T_Inc | T_Store | T_Unlock | T_Return
datatype main_pc = M_Create nat | M_Join nat | M_Print

record ithread =
  t_pc :: thread_pc
  t_j :: int
  t_loc :: int

record 'l incr =
  i_glob :: int
  i_lock :: 'l
  i_loops :: int
  i_thr :: "ithread list"
  i_main :: main_pc
  i_out :: "int list"
  i_end :: "stop option"

definition put :: "nat \<Rightarrow> ithread \<Rightarrow> 'l incr \<Rightarrow> 'l incr" where
  "put k p s = s\<lparr>i_thr := (i_thr s)[k := p]\<rparr>"

text \<open>\<open>loc = glob; loc++; glob = loc;\<close>, one statement at a time, then on to \<open>next\<close>.\<close>

definition increment :: "nat \<Rightarrow> ithread \<Rightarrow> thread_pc \<Rightarrow> 'l incr \<Rightarrow> 'l incr option" where
  "increment k p next s =
     (case t_pc p of
        T_Load \<Rightarrow> Some (put k (p\<lparr>t_loc := i_glob s, t_pc := T_Inc\<rparr>) s)
      | T_Inc \<Rightarrow> Some (if fits_int (t_loc p + 1) then put k (p\<lparr>t_loc := t_loc p + 1, t_pc := T_Store\<rparr>) s
                     else s\<lparr>i_end := Some overflow\<rparr>)
      | T_Store \<Rightarrow> Some (put k (p\<lparr>t_pc := next\<rparr>) (s\<lparr>i_glob := t_loc p\<rparr>))
      | _ \<Rightarrow> None)"

definition threadFunc :: "('l \<Rightarrow> 'l option) \<Rightarrow> ('l \<Rightarrow> 'l) \<Rightarrow> nat \<Rightarrow> 'l incr \<Rightarrow> 'l incr option" where
  "threadFunc acquire release k s =
     (let p = i_thr s ! k in
      case t_pc p of
        T_Test \<Rightarrow> Some (put k (p\<lparr>t_pc := if t_j p < i_loops s then T_Lock else T_Return\<rparr>) s)
      | T_Lock \<Rightarrow> map_option (\<lambda>l. put k (p\<lparr>t_pc := T_Load\<rparr>) (s\<lparr>i_lock := l\<rparr>)) (acquire (i_lock s))
      | T_Unlock \<Rightarrow> Some (put k (p\<lparr>t_j := t_j p + 1, t_pc := T_Test\<rparr>) (s\<lparr>i_lock := release (i_lock s)\<rparr>))
      | T_Return \<Rightarrow> None
      | _ \<Rightarrow> increment k p T_Unlock s)"

definition threadFunc_mutex :: "nat \<Rightarrow> bool incr \<Rightarrow> bool incr option" where
  "threadFunc_mutex = threadFunc pthread_mutex_lock pthread_mutex_unlock"

definition threadFunc_rwlock :: "nat \<Rightarrow> (bool \<times> nat) incr \<Rightarrow> (bool \<times> nat) incr option" where
  "threadFunc_rwlock = threadFunc pthread_rwlock_wrlock pthread_rwlock_unlock"

definition threadFunc_spinlock :: "nat \<Rightarrow> int incr \<Rightarrow> int incr option" where
  "threadFunc_spinlock = threadFunc pthread_spin_lock pthread_spin_unlock"

text \<open>The thread of \<open>thread_incr.c\<close>, which has no lock.\<close>

definition threadFunc_plain :: "nat \<Rightarrow> unit incr \<Rightarrow> unit incr option" where
  "threadFunc_plain k s =
     (let p = i_thr s ! k in
      case t_pc p of
        T_Test \<Rightarrow> Some (put k (p\<lparr>t_pc := if t_j p < i_loops s then T_Load else T_Return\<rparr>) s)
      | T_Store \<Rightarrow> Some (put k (p\<lparr>t_j := t_j p + 1, t_pc := T_Test\<rparr>) (s\<lparr>i_glob := t_loc p\<rparr>))
      | T_Return \<Rightarrow> None
      | _ \<Rightarrow> increment k p T_Test s)"

text \<open>\<open>main()\<close> (thread 0) after the lock was made: create two threads, join them, print.\<close>

definition main_act :: "'l incr \<Rightarrow> 'l incr option" where
  "main_act s =
     (case i_main s of
        M_Create n \<Rightarrow> Some (s\<lparr>i_thr := i_thr s @ [\<lparr>t_pc = T_Test, t_j = 0, t_loc = 0\<rparr>], i_main := if n < 1 then M_Create (n + 1) else M_Join 0\<rparr>)
      | M_Join n \<Rightarrow> if t_pc (i_thr s ! n) = T_Return then Some (s\<lparr>i_main := if n < 1 then M_Join (n + 1) else M_Print\<rparr>) else None
      | M_Print \<Rightarrow> Some (s\<lparr>i_out := i_out s @ [i_glob s], i_end := Some (Exit 0)\<rparr>))"

definition may_fail :: "nat \<Rightarrow> 'l incr \<Rightarrow> bool" where
  "may_fail k s = (if k = 0 then i_main s \<noteq> M_Print else t_pc (i_thr s ! (k - 1)) \<in> {T_Lock, T_Unlock})"

fun incr_step :: "(nat \<Rightarrow> 'l incr \<Rightarrow> 'l incr option) \<Rightarrow> sched \<Rightarrow> 'l incr \<Rightarrow> 'l incr option" where
  "incr_step thread (Run k) s =
     (if i_end s \<noteq> None \<or> k > length (i_thr s) then None else if k = 0 then main_act s else thread (k - 1) s)"
| "incr_step thread Spurious s = None"
| "incr_step thread (Fail k) s =
     (if i_end s \<noteq> None \<or> k > length (i_thr s) \<or> \<not> may_fail k s then None else Some (s\<lparr>i_end := Some (Exit 1)\<rparr>))"

definition incr_start :: "'l \<Rightarrow> int \<Rightarrow> 'l incr" where
  "incr_start l loops = \<lparr>i_glob = 0, i_lock = l, i_loops = loops, i_thr = [], i_main = M_Create 0, i_out = [], i_end = None\<rparr>"

section \<open>Programs with a lock\<close>

definition crit :: "ithread \<Rightarrow> bool" where
  "crit p \<longleftrightarrow> t_pc p \<in> {T_Load, T_Inc, T_Store, T_Unlock}"

definition added :: "ithread \<Rightarrow> int" where
  "added p = t_j p + (if t_pc p = T_Unlock then 1 else 0)"

text \<open>What holds of one thread, given the number of loops and the value of \<open>glob\<close>.\<close>

definition thread_ok :: "int \<Rightarrow> int \<Rightarrow> ithread \<Rightarrow> bool" where
  "thread_ok n g p \<longleftrightarrow> 0 \<le> t_j p \<and> t_j p \<le> n \<and> (t_pc p \<in> {T_Lock, T_Load, T_Inc, T_Store, T_Unlock} \<longrightarrow> t_j p < n) \<and>
     (t_pc p = T_Return \<longrightarrow> t_j p = n) \<and> (t_pc p = T_Inc \<longrightarrow> t_loc p = g) \<and> (t_pc p = T_Store \<longrightarrow> t_loc p = g + 1)"

definition main_ok :: "'l incr \<Rightarrow> bool" where
  "main_ok s \<longleftrightarrow>
     (case i_main s of
        M_Create n \<Rightarrow> n < 2 \<and> length (i_thr s) = n
      | M_Join n \<Rightarrow> n < 2 \<and> length (i_thr s) = 2 \<and> (n = 1 \<longrightarrow> t_pc (i_thr s ! 0) = T_Return)
      | M_Print \<Rightarrow> length (i_thr s) = 2 \<and> t_pc (i_thr s ! 0) = T_Return \<and> t_pc (i_thr s ! 1) = T_Return)"

definition end_ok :: "'l incr \<Rightarrow> bool" where
  "end_ok s \<longleftrightarrow>
     (case i_end s of
        None \<Rightarrow> i_out s = []
      | Some r \<Rightarrow> r = Exit 1 \<and> i_out s = [] \<or> r = Exit 0 \<and> i_out s = [2 * i_loops s] \<and> i_glob s = 2 * i_loops s)"

definition thread_fuel :: "int \<Rightarrow> ithread \<Rightarrow> nat" where
  "thread_fuel n p = 7 * nat (n - t_j p) + (case t_pc p of T_Test \<Rightarrow> 7 | T_Lock \<Rightarrow> 6 | T_Load \<Rightarrow> 5 | T_Inc \<Rightarrow> 4 | T_Store \<Rightarrow> 3 | T_Unlock \<Rightarrow> 2 | T_Return \<Rightarrow> 0)"

definition incr_fuel :: "'l incr \<Rightarrow> nat" where
  "incr_fuel s =
     (if i_end s \<noteq> None then 0
      else 1 + sum_list (map (thread_fuel (i_loops s)) (i_thr s)) +
        (case i_main s of M_Create n \<Rightarrow> (2 - n) * (7 * nat (i_loops s) + 8) + 4 | M_Join n \<Rightarrow> 3 - n | M_Print \<Rightarrow> 1))"

locale exclusive_lock =
  fixes acquire :: "'l \<Rightarrow> 'l option" and release :: "'l \<Rightarrow> 'l" and free :: "'l \<Rightarrow> bool" and held :: "'l \<Rightarrow> bool"
  assumes acquire_free: "free l \<Longrightarrow> \<exists>l'. acquire l = Some l' \<and> held l'"
    and acquire_held: "held l \<Longrightarrow> acquire l = None"
    and release_free: "held l \<Longrightarrow> free (release l)"
begin

definition lock_ok :: "'l incr \<Rightarrow> bool" where
  "lock_ok s \<longleftrightarrow> (\<forall>i<length (i_thr s). \<forall>j<length (i_thr s). crit (i_thr s ! i) \<longrightarrow> crit (i_thr s ! j) \<longrightarrow> i = j) \<and>
     (if \<exists>i<length (i_thr s). crit (i_thr s ! i) then held (i_lock s) else free (i_lock s))"

definition incr_inv :: "'l incr \<Rightarrow> bool" where
  "incr_inv s \<longleftrightarrow> 0 \<le> i_loops s \<and> i_loops s < 2 ^ 30 \<and> lock_ok s \<and> sum_list (map added (i_thr s)) = i_glob s \<and>
     (\<forall>p\<in>set (i_thr s). thread_ok (i_loops s) (i_glob s) p) \<and> main_ok s \<and> end_ok s"

definition incr_init :: "'l incr \<Rightarrow> bool" where
  "incr_init s \<longleftrightarrow> (\<exists>l n. s = incr_start l n \<and> free l \<and> 0 \<le> n \<and> n < 2 ^ 30)"

lemmas inv_defs = incr_inv_def lock_ok_def main_ok_def end_ok_def thread_ok_def added_def crit_def

lemma init_inv: "incr_init s \<Longrightarrow> incr_inv s"
  by (auto simp: incr_init_def incr_start_def inv_defs)

text \<open>How a step of thread \<open>k\<close> from \<open>p\<close> to \<open>p'\<close> may change the lock.\<close>

definition lock_change :: "'l \<Rightarrow> 'l \<Rightarrow> bool \<Rightarrow> bool \<Rightarrow> bool" where
  "lock_change l l' c c' \<longleftrightarrow> (if c = c' then l' = l else if c' then free l \<and> held l' else free l')"

lemma lock_ok_put:
  assumes "lock_ok s" "k < length (i_thr s)" "lock_change (i_lock s) l (crit (i_thr s ! k)) (crit p)"
    "crit (i_thr s ! k) \<or> \<not> crit p \<or> \<not> held (i_lock s)"
  shows "lock_ok (put k p (s\<lparr>i_glob := g, i_lock := l\<rparr>))"
proof -
  let ?thr = "i_thr s"
  have excl: "i = j" if "i < length ?thr" "j < length ?thr" "crit (?thr ! i)" "crit (?thr ! j)" for i j
    using assms(1) that by (auto simp: lock_ok_def)
  have lk: "if \<exists>i<length ?thr. crit (?thr ! i) then held (i_lock s) else free (i_lock s)"
    using assms(1) unfolding lock_ok_def by blast
  have none: "\<not> crit (?thr ! i)" if "crit p" "\<not> crit (?thr ! k)" "i < length ?thr" for i
    using lk assms(4) that by (auto split: if_splits)
  have "i = j" if "i < length ?thr" "j < length ?thr" "crit (?thr[k := p] ! i)" "crit (?thr[k := p] ! j)" for i j
  proof -
    have new: "i = k \<and> crit p \<or> i \<noteq> k \<and> crit (?thr ! i)" "j = k \<and> crit p \<or> j \<noteq> k \<and> crit (?thr ! j)"
      using that assms(2) by (auto simp: nth_list_update split: if_splits)
    show ?thesis using new excl none that(1,2) assms(2) by metis
  qed
  moreover have "if \<exists>i<length ?thr. crit (?thr[k := p] ! i) then held l else free l"
  proof (cases "crit p = crit (?thr ! k)")
    case True
    then have "crit (?thr[k := p] ! i) = crit (?thr ! i)" for i using assms(2) by (simp add: nth_list_update)
    then show ?thesis using lk assms(3) True by (simp add: lock_change_def)
  next
    case False
    show ?thesis
    proof (cases "crit p")
      case True
      then show ?thesis using assms(2,3) False by (auto simp: lock_change_def)
    next
      case no: False
      then have "\<not> crit (?thr[k := p] ! i)" if "i < length ?thr" for i
        using excl [of i k] that assms(2) False by (auto simp: nth_list_update)
      then show ?thesis using assms(3) False no by (auto simp: lock_change_def)
    qed
  qed
  ultimately show ?thesis
    unfolding lock_ok_def put_def by simp
qed

text \<open>One step of a thread, from the changes it makes.\<close>

lemma incr_inv_put:
  assumes inv: "incr_inv s" and k: "k < length (i_thr s)" "t_pc (i_thr s ! k) \<noteq> T_Return" and e: "i_end s = None"
    and lock: "lock_change (i_lock s) l (crit (i_thr s ! k)) (crit p)"
    and g: "g = i_glob s + added p - added (i_thr s ! k)" and p: "thread_ok (i_loops s) g p"
    and excl: "g = i_glob s \<or> crit (i_thr s ! k)"
  shows "incr_inv (put k p (s\<lparr>i_glob := g, i_lock := l\<rparr>))"
proof -
  let ?thr = "i_thr s"
  have ok: "lock_ok s" "\<forall>p\<in>set ?thr. thread_ok (i_loops s) (i_glob s) p" "main_ok s" "end_ok s"
    "sum_list (map added ?thr) = i_glob s"
    using inv by (auto simp: incr_inv_def)
  have "crit (?thr ! k) \<or> \<not> crit p \<or> \<not> held (i_lock s)"
    using lock acquire_free [of "i_lock s"] acquire_held [of "i_lock s"] by (auto simp: lock_change_def split: if_splits)
  then have "lock_ok (put k p (s\<lparr>i_glob := g, i_lock := l\<rparr>))" by (rule lock_ok_put [OF ok(1) k(1) lock])
  moreover have "g = sum_list (map added (?thr[k := p]))" using sum_list_map_update [OF k(1)] g ok(5) by simp
  moreover have "thread_ok (i_loops s) g (?thr ! i)" if "i < length ?thr" "i \<noteq> k" for i
  proof (cases "g = i_glob s")
    case True
    then show ?thesis using ok(2) that by simp
  next
    case False
    then have "\<not> crit (?thr ! i)" using excl ok(1) that k(1) by (auto simp: lock_ok_def)
    then show ?thesis using ok(2) that(1) nth_mem [OF that(1)] by (auto simp: thread_ok_def crit_def)
  qed
  then have "\<forall>q\<in>set (?thr[k := p]). thread_ok (i_loops s) g q"
    using p k(1) by (auto simp: in_set_conv_nth nth_list_update)
  moreover have "main_ok (put k p (s\<lparr>i_glob := g, i_lock := l\<rparr>))"
    using ok(3) k by (auto simp: main_ok_def put_def nth_list_update less_2_cases_iff split: main_pc.splits)
  ultimately show ?thesis using inv e by (simp add: incr_inv_def put_def end_ok_def)
qed

lemma glob_bound:
  assumes "incr_inv s" "k < length (i_thr s)" "t_pc (i_thr s ! k) = T_Inc"
  shows "fits_int (i_glob s + 1)"
proof -
  have "length (i_thr s) \<le> 2" using assms(1) by (auto simp: incr_inv_def main_ok_def split: main_pc.splits)
  then have n: "int (length (i_thr s)) * i_loops s \<le> 2 * i_loops s"
    using assms(1) by (intro mult_right_mono) (auto simp: incr_inv_def)
  have t: "0 \<le> added p \<and> added p \<le> i_loops s" if "p \<in> set (i_thr s)" for p
    using assms(1) that by (auto simp: incr_inv_def thread_ok_def added_def)
  have "i_glob s \<le> sum_list (map (\<lambda>_. i_loops s) (i_thr s))"
    using assms(1) t sum_list_mono [of "i_thr s" added "\<lambda>_. i_loops s"] by (simp add: incr_inv_def)
  also have "\<dots> = int (length (i_thr s)) * i_loops s" by (simp add: sum_list_triv)
  finally have "i_glob s < 2 ^ 31 - 1" using n assms(1) by (simp add: incr_inv_def)
  moreover have "0 \<le> i_glob s" using assms(1) t sum_list_nonneg [of "map added (i_thr s)"] by (auto simp: incr_inv_def)
  ultimately show ?thesis by (simp add: fits_int_def)
qed

lemma acquired: "incr_inv s \<Longrightarrow> acquire (i_lock s) = Some l' \<Longrightarrow> free (i_lock s) \<and> held l'"
  using acquire_free [of "i_lock s"] acquire_held [of "i_lock s"] by (auto simp: incr_inv_def lock_ok_def split: if_splits)

lemma crit_held: "incr_inv s \<Longrightarrow> k < length (i_thr s) \<Longrightarrow> crit (i_thr s ! k) \<Longrightarrow> held (i_lock s)"
  by (auto simp: incr_inv_def lock_ok_def split: if_splits)

lemma thread_inv:
  assumes inv: "incr_inv s" and e: "i_end s = None" and k: "k < length (i_thr s)"
    and t: "threadFunc acquire release k s = Some t"
  shows "incr_inv t"
proof -
  define p where "p = i_thr s ! k"
  have p: "thread_ok (i_loops s) (i_glob s) p" using inv nth_mem [OF k] unfolding incr_inv_def p_def by blast
  have put: "incr_inv (put k q (s\<lparr>i_glob := g, i_lock := l\<rparr>))"
    if "t_pc p \<noteq> T_Return" "lock_change (i_lock s) l (crit p) (crit q)" "g = i_glob s + added q - added p"
      "thread_ok (i_loops s) g q" "g = i_glob s \<or> crit p" for q g l
    using incr_inv_put [OF inv k _ e] that by (simp add: p_def)
  have same: "s\<lparr>i_glob := i_glob s, i_lock := l\<rparr> = s\<lparr>i_lock := l\<rparr>" "s\<lparr>i_glob := g, i_lock := i_lock s\<rparr> = s\<lparr>i_glob := g\<rparr>" for l g by simp_all
  note put_lock = put [where g = "i_glob s", unfolded same] and put_glob = put [where l = "i_lock s", unfolded same]
  note defs = threadFunc_def Let_def p_def [symmetric] thread_ok_def added_def crit_def lock_change_def
  show ?thesis
  proof (cases "t_pc p")
    case T_Test
    then show ?thesis using t p put [where g = "i_glob s" and l = "i_lock s"] by (auto simp: defs)
  next
    case T_Lock
    then show ?thesis using t p acquired [OF inv] by (auto simp: defs intro!: put_lock)
  next
    case T_Load
    then show ?thesis using t p put [where g = "i_glob s" and l = "i_lock s"] by (auto simp: defs increment_def)
  next
    case T_Inc
    then show ?thesis using t p put [where g = "i_glob s" and l = "i_lock s"] glob_bound [OF inv k] by (auto simp: defs increment_def)
  next
    case T_Store
    then show ?thesis using t p by (auto simp: defs increment_def intro!: put_glob)
  next
    case T_Unlock
    then show ?thesis using t p release_free [OF crit_held [OF inv k]] by (auto simp: defs intro!: put_lock)
  next
    case T_Return
    then show ?thesis using t by (simp add: defs)
  qed
qed

lemma frames [simp]:
  "lock_ok (s\<lparr>i_main := m\<rparr>) = lock_ok s" "lock_ok (s\<lparr>i_end := e\<rparr>) = lock_ok s" "lock_ok (s\<lparr>i_out := out\<rparr>) = lock_ok s"
  "main_ok (s\<lparr>i_end := e\<rparr>) = main_ok s" "main_ok (s\<lparr>i_out := out\<rparr>) = main_ok s"
  unfolding lock_ok_def main_ok_def by (simp_all split: main_pc.split) blast+

lemma main_inv:
  assumes inv: "incr_inv s" and e: "i_end s = None" and t: "main_act s = Some t"
  shows "incr_inv t"
proof (cases "i_main s")
  case (M_Create n)
  let ?p = "\<lparr>t_pc = T_Test, t_j = 0, t_loc = 0\<rparr>"
  have "lock_ok (s\<lparr>i_thr := i_thr s @ [?p], i_main := m\<rparr>) = lock_ok s" for m
  proof -
    have c: "i < length (i_thr s) + 1 \<and> crit ((i_thr s @ [?p]) ! i) \<longleftrightarrow> i < length (i_thr s) \<and> crit (i_thr s ! i)" for i
      by (auto simp: nth_append crit_def)
    show ?thesis using c unfolding lock_ok_def by simp (metis (no_types, lifting) less_Suc_eq)
  qed
  then show ?thesis
    using M_Create inv e t
    by (auto simp: incr_inv_def main_act_def main_ok_def end_ok_def added_def thread_ok_def less_2_cases_iff split: if_splits)
next
  case (M_Join n)
  then obtain m where m: "t = s\<lparr>i_main := m\<rparr>" "m = (if n < 1 then M_Join (n + 1) else M_Print)" "t_pc (i_thr s ! n) = T_Return"
    using t by (auto simp: main_act_def split: if_splits)
  moreover have "main_ok s" using inv by (simp add: incr_inv_def)
  then have "main_ok t" using M_Join m by (auto simp: main_ok_def less_2_cases_iff)
  ultimately show ?thesis using inv e unfolding incr_inv_def end_ok_def by simp
next
  case M_Print
  then obtain a b where ab: "i_thr s = [a, b]" "t_pc a = T_Return" "t_pc b = T_Return"
    using inv by (auto simp: incr_inv_def main_ok_def length_Suc_conv numeral_2_eq_2)
  then have "i_glob s = 2 * i_loops s" using inv by (auto simp: incr_inv_def thread_ok_def added_def)
  moreover have "t = s\<lparr>i_out := i_out s @ [i_glob s], i_end := Some (Exit 0)\<rparr>" using M_Print t by (simp add: main_act_def)
  ultimately show ?thesis using inv e unfolding incr_inv_def end_ok_def by simp
qed

lemma step_inv: "incr_inv s \<Longrightarrow> incr_step (threadFunc acquire release) e s = Some t \<Longrightarrow> incr_inv t"
proof (cases e)
  case (Run k)
  assume "incr_inv s" "incr_step (threadFunc acquire release) e s = Some t"
  then show ?thesis using Run main_inv thread_inv [of s "k - 1" t] by (auto split: if_splits)
next
  case (Fail k)
  assume "incr_inv s" "incr_step (threadFunc acquire release) e s = Some t"
  then have "incr_inv s" "t = s\<lparr>i_end := Some (Exit 1)\<rparr>" "i_end s = None" using Fail by (auto split: if_splits)
  then show ?thesis unfolding incr_inv_def end_ok_def by simp
qed simp

lemma thread_fuel_less:
  assumes "k < length (i_thr s)" "thread_fuel (i_loops s) p < thread_fuel (i_loops s) (i_thr s ! k)" "i_end s = None"
  shows "incr_fuel (put k p (s\<lparr>i_glob := g, i_lock := l\<rparr>)) < incr_fuel s"
  using assms(2,3) sum_list_map_update_nat [OF assms(1), of "thread_fuel (i_loops s)" p] by (simp add: incr_fuel_def put_def split: main_pc.split)

lemma thread_paid:
  assumes inv: "incr_inv s" and e: "i_end s = None" and k: "k < length (i_thr s)"
    and t: "threadFunc acquire release k s = Some t"
  shows "incr_fuel t < incr_fuel s"
proof -
  define p where "p = i_thr s ! k"
  have p: "thread_ok (i_loops s) (i_glob s) p" using inv nth_mem [OF k] unfolding incr_inv_def p_def by blast
  note less = thread_fuel_less [OF k _ e, folded p_def]
  have same: "s\<lparr>i_glob := i_glob s, i_lock := l\<rparr> = s\<lparr>i_lock := l\<rparr>" "s\<lparr>i_glob := g, i_lock := i_lock s\<rparr> = s\<lparr>i_glob := g\<rparr>"
    "s\<lparr>i_glob := i_glob s, i_lock := i_lock s\<rparr> = s" for l g by simp_all
  note rules = less [where g = "i_glob s", unfolded same] less [where l = "i_lock s", unfolded same]
    less [where g = "i_glob s" and l = "i_lock s", unfolded same(3)]
  have stop: "incr_fuel (s\<lparr>i_end := Some r\<rparr>) < incr_fuel s" for r using e by (simp add: incr_fuel_def)
  show ?thesis
    using t p stop
    by (cases "t_pc p") (auto simp: threadFunc_def increment_def Let_def p_def [symmetric] thread_ok_def thread_fuel_def nat_diff_distrib intro!: rules)
qed

lemma main_paid:
  assumes "incr_inv s" "i_end s = None" "main_act s = Some t"
  shows "incr_fuel t < incr_fuel s"
  using assms
  by (cases "i_main s") (auto simp: incr_fuel_def main_act_def incr_inv_def main_ok_def thread_fuel_def less_2_cases_iff split: if_splits)

lemma step_paid: "incr_inv s \<Longrightarrow> incr_step (threadFunc acquire release) e s = Some t \<Longrightarrow> incr_fuel t < incr_fuel s"
proof (cases e)
  case (Run k)
  assume "incr_inv s" "incr_step (threadFunc acquire release) e s = Some t"
  then show ?thesis using Run main_paid thread_paid [of s "k - 1" t] by (auto split: if_splits)
next
  case (Fail k)
  assume "incr_inv s" "incr_step (threadFunc acquire release) e s = Some t"
  then show ?thesis using Fail by (auto simp: incr_fuel_def split: if_splits)
qed simp

lemma thread_enabled:
  assumes inv: "incr_inv s" and k: "k < length (i_thr s)" "t_pc (i_thr s ! k) \<noteq> T_Return" and e: "i_end s = None"
  shows "\<exists>j t. incr_step (threadFunc acquire release) (Run j) s = Some t"
proof -
  have busy: "\<exists>t. incr_step (threadFunc acquire release) (Run (Suc i)) s = Some t"
    if "i < length (i_thr s)" "crit (i_thr s ! i)" for i
    using that e by (cases "t_pc (i_thr s ! i)") (auto simp: threadFunc_def increment_def crit_def Let_def)
  show ?thesis
  proof (cases "\<exists>i<length (i_thr s). crit (i_thr s ! i)")
    case True
    then show ?thesis using busy by blast
  next
    case False
    then have "free (i_lock s)" using inv by (auto simp: incr_inv_def lock_ok_def)
    then obtain l where "acquire (i_lock s) = Some l" using acquire_free by blast
    then have "\<exists>t. incr_step (threadFunc acquire release) (Run (Suc k)) s = Some t"
      using k e False by (cases "t_pc (i_thr s ! k)") (auto simp: threadFunc_def crit_def Let_def)
    then show ?thesis by blast
  qed
qed

lemma step_progress:
  assumes inv: "incr_inv s" and e: "i_end s = None"
  shows "\<exists>k t. incr_step (threadFunc acquire release) (Run k) s = Some t"
proof (cases "main_act s")
  case None
  then obtain n where "n < length (i_thr s)" "t_pc (i_thr s ! n) \<noteq> T_Return"
    using inv by (auto simp: main_act_def incr_inv_def main_ok_def less_2_cases_iff split: main_pc.splits if_splits)
  then show ?thesis using thread_enabled [OF inv _ _ e] by blast
next
  case (Some t)
  then have "incr_step (threadFunc acquire release) (Run 0) s = Some t" using e by simp
  then show ?thesis by blast
qed

end

text \<open>Every lock of the contract gives the contract of an interleaved program.\<close>

sublocale exclusive_lock \<subseteq> locked: progressing "incr_step (threadFunc acquire release)" incr_init incr_inv incr_fuel "\<lambda>_. 0" "\<lambda>s. i_end s \<noteq> None"
  proof
  show "\<exists>e t. 0 = 0 \<and> incr_step (threadFunc acquire release) e s = Some t" if "incr_inv s" "\<not> i_end s \<noteq> None" for s
    using step_progress [of s] that by blast
qed (auto intro: init_inv step_inv step_paid)

section \<open>The three kinds of lock\<close>

interpretation mutex: exclusive_lock pthread_mutex_lock pthread_mutex_unlock "\<lambda>l. \<not> l" "\<lambda>l. l"
  by unfold_locales (auto simp: pthread_mutex_lock_def pthread_mutex_unlock_def)

interpretation rwlock: exclusive_lock pthread_rwlock_wrlock pthread_rwlock_unlock "\<lambda>l. l = (False, 0)" "\<lambda>l. l = (True, 0)"
  by unfold_locales (auto simp: pthread_rwlock_wrlock_def pthread_rwlock_unlock_def)

interpretation spinlock: exclusive_lock pthread_spin_lock pthread_spin_unlock "\<lambda>w. w = 1" "\<lambda>w. w = 0"
  by unfold_locales (auto simp: pthread_spin_lock_def pthread_spin_unlock_def)

text \<open>
  What is expected of the program: the schedules are bounded, some thread can go on as long as the
  process has not ended, and it ends with twice the number of loops unless a library call failed.
\<close>

definition increments_ok :: "(nat \<Rightarrow> 'l incr \<Rightarrow> 'l incr option) \<Rightarrow> 'l \<Rightarrow> int \<Rightarrow> bool" where
  "increments_ok thread l n \<longleftrightarrow>
     (\<forall>es t. run (incr_step thread) es (incr_start l n) = Some t \<longrightarrow>
        length es \<le> 14 * nat n + 21 \<and>
        (case i_end t of
           None \<Rightarrow> \<exists>k u. incr_step thread (Run k) t = Some u
         | Some r \<Rightarrow> r = Exit 0 \<and> i_out t = [2 * n] \<or> r = Exit 1 \<and> (\<exists>k. Fail k \<in> set es)))"

context exclusive_lock
begin

lemma run_frame:
  assumes "run (incr_step (threadFunc acquire release)) es (incr_start l n) = Some t"
  shows "i_loops t = n \<and> (i_end t = Some (Exit 1) \<longrightarrow> (\<exists>k. Fail k \<in> set es))"
  using assms
proof (induction es arbitrary: t rule: rev_induct)
  case Nil
  then show ?case by (auto simp: incr_start_def)
next
  case (snoc e es)
  then obtain u where u: "run (incr_step (threadFunc acquire release)) es (incr_start l n) = Some u"
    "incr_step (threadFunc acquire release) e u = Some t"
    by (auto simp: run_append split: option.splits)
  have act: "i_loops v = i_loops u \<and> (i_end u = None \<longrightarrow> i_end v \<noteq> Some (Exit 1))"
    if "main_act u = Some v \<or> threadFunc acquire release k u = Some v" for k v
    using that by (auto simp: main_act_def threadFunc_def increment_def put_def Let_def split: if_splits main_pc.splits thread_pc.splits)
  have "i_loops t = i_loops u \<and> (i_end t = Some (Exit 1) \<longrightarrow> (\<exists>k. e = Fail k))"
    using u(2) act by (cases e) (auto split: if_splits)
  then show ?case using snoc.IH [OF u(1)] by auto
qed

lemma increments: "free l \<Longrightarrow> 0 \<le> n \<Longrightarrow> n < 2 ^ 30 \<Longrightarrow> increments_ok (threadFunc acquire release) l n"
  unfolding increments_ok_def
proof (intro allI impI)
  fix es t
  assume asms: "free l" "0 \<le> n" "n < 2 ^ 30" and r: "run (incr_step (threadFunc acquire release)) es (incr_start l n) = Some t"
  have inv0: "incr_inv (incr_start l n)" using asms init_inv by (auto simp: incr_init_def)
  have "length es \<le> incr_fuel (incr_start l n)" using locked.run_bound [OF inv0 r] by simp
  moreover have "incr_fuel (incr_start l n) = 14 * nat n + 21" by (simp add: incr_fuel_def incr_start_def)
  moreover have inv: "incr_inv t" using locked.inv_run [OF inv0 r] .
  then have "end_ok t" by (simp add: incr_inv_def)
  ultimately show "length es \<le> 14 * nat n + 21 \<and>
        (case i_end t of
           None \<Rightarrow> \<exists>k u. incr_step (threadFunc acquire release) (Run k) t = Some u
         | Some r \<Rightarrow> r = Exit 0 \<and> i_out t = [2 * n] \<or> r = Exit 1 \<and> (\<exists>k. Fail k \<in> set es))"
    using step_progress [OF inv] run_frame [OF r] by (auto simp: end_ok_def split: option.splits)
qed

end

section \<open>No lock\<close>

text \<open>Both threads in lockstep: each round adds 1 to \<open>glob\<close> though each thread incremented it.\<close>

definition round :: "sched list" where
  "round = [Run 1, Run 2, Run 1, Run 2, Run 1, Run 2, Run 1, Run 2]"

definition both :: "thread_pc \<Rightarrow> int \<Rightarrow> int \<Rightarrow> unit incr \<Rightarrow> bool" where
  "both pc j n s \<longleftrightarrow> i_end s = None \<and> i_loops s = n \<and> i_glob s = j \<and> i_main s = M_Join 0 \<and> i_out s = [] \<and>
     (\<exists>x. i_thr s = [\<lparr>t_pc = pc, t_j = j, t_loc = x\<rparr>, \<lparr>t_pc = pc, t_j = j, t_loc = x\<rparr>])"

lemma lockstep_round:
  assumes "both T_Test j n s" "0 \<le> j" "j < n" "n < 2 ^ 31"
  shows "\<exists>t. run (incr_step threadFunc_plain) round s = Some t \<and> both T_Test (j + 1) n t"
proof -
  have "fits_int (j + 1)" using assms by (simp add: fits_int_def)
  then show ?thesis
    using assms by (auto simp: both_def round_def threadFunc_plain_def increment_def put_def Let_def)
qed

lemma lockstep_rounds:
  assumes "both T_Test j n s" "0 \<le> j" "j + int k \<le> n" "n < 2 ^ 31"
  shows "\<exists>es t. run (incr_step threadFunc_plain) es s = Some t \<and> both T_Test (j + int k) n t"
  using assms
proof (induction k arbitrary: j s)
  case 0
  then show ?case by (intro exI [of _ "[]"]) auto
next
  case (Suc k)
  obtain u where u: "run (incr_step threadFunc_plain) round s = Some u" "both T_Test (j + 1) n u"
    using lockstep_round [of j n s] Suc.prems by auto
  obtain es t where "run (incr_step threadFunc_plain) es u = Some t" "both T_Test (j + 1 + int k) n t"
    using Suc.IH [OF u(2)] Suc.prems by auto
  then show ?case using u(1) by (intro exI [of _ "round @ es"] exI [of _ t]) (simp add: run_append add.assoc)
qed

text \<open>So the program may print half of what the number of increments is.\<close>

lemma lost_updates:
  assumes "0 < n" "n < 2 ^ 31"
  shows "\<exists>es t. run (incr_step threadFunc_plain) es (incr_start () n) = Some t \<and> i_end t = Some (Exit 0) \<and> i_out t = [n]"
proof -
  obtain s where s: "run (incr_step threadFunc_plain) [Run 0, Run 0] (incr_start () n) = Some s" "both T_Test 0 n s"
    by (simp add: incr_start_def main_act_def both_def)
  obtain es t where t: "run (incr_step threadFunc_plain) es s = Some t" "both T_Test n n t"
    using lockstep_rounds [OF s(2), of "nat n"] assms by auto
  obtain u where u: "run (incr_step threadFunc_plain) [Run 1, Run 2, Run 0, Run 0, Run 0] t = Some u" "i_end u = Some (Exit 0)" "i_out u = [n]"
    using t(2) by (auto simp: both_def threadFunc_plain_def main_act_def put_def Let_def)
  have "run (incr_step threadFunc_plain) ([Run 0, Run 0] @ es @ [Run 1, Run 2, Run 0, Run 0, Run 0]) (incr_start () n) = Some u"
    unfolding run_append s(1) option.case t(1) u(1) ..
  then show ?thesis using u by blast
qed

section \<open>Properties\<close>

text \<open>
  C22: two threads that increment a variable under a mutex, under the write lock of a read-write lock or under
  a spin lock. Every schedule has at most 14 steps for each loop and 21 more; while the process has not ended
  some thread can go on; and when it ends, either a library call failed or it prints twice the number of loops, so that no increment is lost.
\<close>

theorem locked_increments:
  assumes "0 \<le> n" "n < 2 ^ 30"
  shows "increments_ok threadFunc_mutex False n \<and> increments_ok threadFunc_rwlock (False, 0) n \<and> increments_ok threadFunc_spinlock 1 n"
  unfolding threadFunc_mutex_def threadFunc_rwlock_def threadFunc_spinlock_def
  using mutex.increments [of False n] rwlock.increments [of "(False, 0)" n] spinlock.increments [of 1 n] assms by simp

theorem locked_increments_witness:
  "increments_ok threadFunc_mutex False 10000000 \<and> increments_ok threadFunc_rwlock (False, 0) 10000000 \<and>
   increments_ok threadFunc_spinlock 1 10000000"
  using locked_increments [of 10000000] by simp

end
