(* ===== verification/Producer_Consumer.thy ===== *)
theory Producer_Consumer
  imports Interleaving Tlpi_Text
begin

text \<open>
  Producers and a consumer (\<open>threads/prod_condvar.c\<close>, \<open>threads/prod_no_condvar.c\<close>). Each argument of
  the program is the number of units that one thread produces; \<open>main()\<close> consumes them.

  The main thread is thread 0, the producer of argument \<open>k\<close> is thread \<open>k + 1\<close>. Each step is one library call, or
  what a thread does between two of them. \<open>pthread_cond_wait()\<close> releases the mutex and
  blocks in one step; it comes back after \<open>pthread_cond_signal()\<close> or, as POSIX allows, without one, and then takes
  the mutex again.
\<close>

section \<open>State\<close>

datatype prod_pc = P_Test | P_Lock | P_Incr | P_Unlock | P_Signal | P_Return
datatype cons_pc = C_Create | C_Lock | C_Test | C_Wait | C_Relock | C_Consume | C_Unlock | C_Check

record prod =
  p_pc :: prod_pc
  p_j :: int
  p_cnt :: int

record shop =
  mtx :: "nat option"
  avail :: int
  prods :: "prod list"
  argv :: "string list"
  totRequired :: int
  cons :: cons_pc
  numConsumed :: int
  all_done :: bool
  out :: "int list"
  ended :: "stop option"

definition prod_start :: "string list \<Rightarrow> shop" where
  "prod_start args = \<lparr>mtx = None, avail = 0, prods = [], argv = args, totRequired = 0, cons = C_Create, numConsumed = 0,
     all_done = False, out = [], ended = None\<rparr>"

definition put_prod :: "nat \<Rightarrow> prod \<Rightarrow> shop \<Rightarrow> shop" where
  "put_prod k p s = s\<lparr>prods := (prods s)[k := p]\<rparr>"

definition take_mutex :: "nat \<Rightarrow> shop \<Rightarrow> shop option" where
  "take_mutex t s = (if mtx s = None then Some (s\<lparr>mtx := Some t\<rparr>) else None)"

section \<open>The producers\<close>

definition produce :: "nat \<Rightarrow> prod \<Rightarrow> shop \<Rightarrow> shop" where
  "produce k p s =
     (if fits_int (avail s + 1) then put_prod k (p\<lparr>p_pc := P_Unlock\<rparr>) (s\<lparr>avail := avail s + 1\<rparr>) else s\<lparr>ended := Some overflow\<rparr>)"

definition producer :: "nat \<Rightarrow> shop \<Rightarrow> shop option" where
  "producer k s =
     (let p = prods s ! k in
      case p_pc p of
        P_Test \<Rightarrow> Some (put_prod k (p\<lparr>p_pc := if p_j p < p_cnt p then P_Lock else P_Return\<rparr>) s)
      | P_Lock \<Rightarrow> map_option (put_prod k (p\<lparr>p_pc := P_Incr\<rparr>)) (take_mutex (k + 1) s)
      | P_Incr \<Rightarrow> Some (produce k p s)
      | P_Unlock \<Rightarrow> Some (put_prod k (p\<lparr>p_pc := P_Signal\<rparr>) (s\<lparr>mtx := None\<rparr>))
      | P_Signal \<Rightarrow> Some (put_prod k (p\<lparr>p_j := p_j p + 1, p_pc := P_Test\<rparr>) (if cons s = C_Wait then s\<lparr>cons := C_Relock\<rparr> else s))
      | P_Return \<Rightarrow> None)"

text \<open>The producer of \<open>prod_no_condvar.c\<close> does not signal.\<close>

definition producer_poll :: "nat \<Rightarrow> shop \<Rightarrow> shop option" where
  "producer_poll k s =
     (let p = prods s ! k in
      case p_pc p of
        P_Test \<Rightarrow> Some (put_prod k (p\<lparr>p_pc := if p_j p < p_cnt p then P_Lock else P_Return\<rparr>) s)
      | P_Lock \<Rightarrow> map_option (put_prod k (p\<lparr>p_pc := P_Incr\<rparr>)) (take_mutex (k + 1) s)
      | P_Incr \<Rightarrow> Some (produce k p s)
      | P_Unlock \<Rightarrow> Some (put_prod k (p\<lparr>p_j := p_j p + 1, p_pc := P_Test\<rparr>) (s\<lparr>mtx := None\<rparr>))
      | _ \<Rightarrow> None)"

section \<open>The main thread\<close>

text \<open>One round of the loop that creates the threads.\<close>

definition create_next :: "shop \<Rightarrow> shop" where
  "create_next s =
     (case argv s of
        [] \<Rightarrow> s\<lparr>cons := C_Lock\<rparr>
      | a # as \<Rightarrow>
          if fits_int (totRequired s + atoi_int a)
          then s\<lparr>argv := as, totRequired := totRequired s + atoi_int a,
                 prods := prods s @ [\<lparr>p_pc = P_Test, p_j = 0, p_cnt = atoi_int a\<rparr>]\<rparr>
          else s\<lparr>ended := Some overflow\<rparr>)"

text \<open>One round of the loop that consumes all available units.\<close>

definition consume :: "shop \<Rightarrow> shop" where
  "consume s =
     (if avail s > 0 then
        if fits_int (numConsumed s + 1)
        then s\<lparr>numConsumed := numConsumed s + 1, avail := avail s - 1, out := out s @ [numConsumed s + 1],
               all_done := totRequired s \<le> numConsumed s + 1\<rparr>
        else s\<lparr>ended := Some overflow\<rparr>
      else s\<lparr>cons := C_Unlock\<rparr>)"

definition consumer :: "shop \<Rightarrow> shop option" where
  "consumer s =
     (case cons s of
        C_Create \<Rightarrow> Some (create_next s)
      | C_Lock \<Rightarrow> map_option (\<lambda>s. s\<lparr>cons := C_Test\<rparr>) (take_mutex 0 s)
      | C_Test \<Rightarrow> Some (if avail s = 0 then s\<lparr>mtx := None, cons := C_Wait\<rparr> else s\<lparr>cons := C_Consume\<rparr>)
      | C_Wait \<Rightarrow> None
      | C_Relock \<Rightarrow> map_option (\<lambda>s. s\<lparr>cons := C_Test\<rparr>) (take_mutex 0 s)
      | C_Consume \<Rightarrow> Some (consume s)
      | C_Unlock \<Rightarrow> Some (s\<lparr>mtx := None, cons := C_Check\<rparr>)
      | C_Check \<Rightarrow> Some (if all_done s then s\<lparr>ended := Some (Exit 0)\<rparr> else s\<lparr>cons := C_Lock\<rparr>))"

definition consumer_poll :: "shop \<Rightarrow> shop option" where
  "consumer_poll s =
     (case cons s of
        C_Create \<Rightarrow> Some (create_next s)
      | C_Lock \<Rightarrow> map_option (\<lambda>s. s\<lparr>cons := C_Consume\<rparr>) (take_mutex 0 s)
      | C_Consume \<Rightarrow> Some (consume s)
      | C_Unlock \<Rightarrow> Some (s\<lparr>mtx := None, cons := C_Check\<rparr>)
      | C_Check \<Rightarrow> Some (if all_done s then s\<lparr>ended := Some (Exit 0)\<rparr> else s\<lparr>cons := C_Lock\<rparr>)
      | _ \<Rightarrow> None)"

text \<open>Whether the next thing a thread does is a library call that may fail.\<close>

definition shop_may_fail :: "nat \<Rightarrow> shop \<Rightarrow> bool" where
  "shop_may_fail k s =
     (if k = 0 then cons s \<in> {C_Lock, C_Relock, C_Unlock} \<or> cons s = C_Create \<and> argv s \<noteq> [] \<or> cons s = C_Test \<and> avail s = 0
      else p_pc (prods s ! (k - 1)) \<in> {P_Lock, P_Unlock, P_Signal})"

fun shop_step :: "(shop \<Rightarrow> shop option) \<Rightarrow> (nat \<Rightarrow> shop \<Rightarrow> shop option) \<Rightarrow> sched \<Rightarrow> shop \<Rightarrow> shop option" where
  "shop_step main thread (Run k) s =
     (if ended s \<noteq> None \<or> k > length (prods s) then None else if k = 0 then main s else thread (k - 1) s)"
| "shop_step main thread Spurious s = (if ended s \<noteq> None \<or> cons s \<noteq> C_Wait then None else Some (s\<lparr>cons := C_Relock\<rparr>))"
| "shop_step main thread (Fail k) s =
     (if ended s \<noteq> None \<or> k > length (prods s) \<or> \<not> shop_may_fail k s then None else Some (s\<lparr>ended := Some (Exit 1)\<rparr>))"

definition prod_condvar :: "sched \<Rightarrow> shop \<Rightarrow> shop option" where
  "prod_condvar = shop_step consumer producer"

definition prod_no_condvar :: "sched \<Rightarrow> shop \<Rightarrow> shop option" where
  "prod_no_condvar = shop_step consumer_poll producer_poll"

section \<open>Invariant\<close>

definition prod_ok :: "prod \<Rightarrow> bool" where
  "prod_ok p \<longleftrightarrow> 0 \<le> p_j p \<and> p_j p \<le> p_cnt p \<and> (p_pc p \<in> {P_Lock, P_Incr, P_Unlock, P_Signal} \<longrightarrow> p_j p < p_cnt p) \<and>
     (p_pc p = P_Return \<longrightarrow> p_j p = p_cnt p)"

definition made :: "prod \<Rightarrow> int" where
  "made p = p_j p + (if p_pc p \<in> {P_Unlock, P_Signal} then 1 else 0)"

definition inside :: "prod \<Rightarrow> bool" where
  "inside p \<longleftrightarrow> p_pc p \<in> {P_Incr, P_Unlock}"

definition signalling :: "prod \<Rightarrow> bool" where
  "signalling p \<longleftrightarrow> p_pc p \<in> {P_Unlock, P_Signal}"

definition mutex_ok :: "nat option \<Rightarrow> cons_pc \<Rightarrow> prod list \<Rightarrow> bool" where
  "mutex_ok m c ps \<longleftrightarrow> (m = Some 0 \<longleftrightarrow> c \<in> {C_Test, C_Consume, C_Unlock}) \<and>
     (\<forall>k. m = Some (Suc k) \<longleftrightarrow> k < length ps \<and> inside (ps ! k))"

definition consumer_ok :: "shop \<Rightarrow> bool" where
  "consumer_ok s \<longleftrightarrow> 0 \<le> avail s \<and> 0 \<le> numConsumed s \<and> out s = [1..numConsumed s] \<and>
     ((0 < numConsumed s \<and> totRequired s \<le> numConsumed s) = all_done s) \<and>
     (if cons s = C_Create then numConsumed s = 0 else argv s = []) \<and>
     (cons s \<in> {C_Lock, C_Test, C_Wait, C_Relock} \<longrightarrow> \<not> all_done s) \<and>
     (\<forall>r. ended s = Some r \<longrightarrow> r = Exit 1 \<or> r = Exit 0 \<and> all_done s \<and> cons s = C_Check)"

text \<open>A consumer that waits while units are available will be woken.\<close>

definition wake_ok :: "shop \<Rightarrow> bool" where
  "wake_ok s \<longleftrightarrow> cons s = C_Wait \<and> 0 < avail s \<longrightarrow> (\<exists>k<length (prods s). signalling (prods s ! k))"

definition required :: "string list \<Rightarrow> int" where
  "required as = sum_list (map atoi_int as)"

definition shop_ok :: "int \<Rightarrow> shop \<Rightarrow> bool" where
  "shop_ok n s \<longleftrightarrow> n < 2 ^ 31 \<and> totRequired s + required (argv s) = n \<and> sum_list (map p_cnt (prods s)) = totRequired s \<and>
     (\<forall>a\<in>set (argv s). 0 \<le> atoi_int a) \<and> (\<forall>p\<in>set (prods s). prod_ok p) \<and>
     sum_list (map made (prods s)) = avail s + numConsumed s \<and> mutex_ok (mtx s) (cons s) (prods s) \<and> consumer_ok s \<and> wake_ok s"

lemma range_snoc: "0 \<le> n \<Longrightarrow> [1..n] @ [n + 1] = [1..n + 1 :: int]"
  using upto_rec2 [of 1 "n + 1"] by simp

lemma start_ok:
  assumes "\<forall>a\<in>set args. 0 \<le> atoi_int a" "required args < 2 ^ 31"
  shows "shop_ok (required args) (prod_start args)"
  using assms by (auto simp: shop_ok_def prod_start_def mutex_ok_def consumer_ok_def wake_ok_def)

text \<open>No producer makes more than its share, so that the counters fit an \<open>int\<close>.\<close>

lemma counters:
  assumes "shop_ok n s"
  shows "avail s + numConsumed s \<le> totRequired s" "totRequired s \<le> n" "0 \<le> required (argv s)"
proof -
  have "sum_list (map made (prods s)) \<le> sum_list (map p_cnt (prods s))"
    using assms by (intro sum_list_mono) (auto simp: shop_ok_def prod_ok_def made_def)
  then show "avail s + numConsumed s \<le> totRequired s" using assms by (simp add: shop_ok_def)
  show r: "0 \<le> required (argv s)" using assms unfolding required_def shop_ok_def by (intro sum_list_nonneg) auto
  then show "totRequired s \<le> n" using assms by (simp add: shop_ok_def)
qed

text \<open>A step of a producer, from the changes it makes.\<close>

lemma shop_ok_put:
  assumes ok: "shop_ok n s" and k: "k < length (prods s)" and e: "ended s = None"
    and p: "prod_ok p" "p_cnt p = p_cnt (prods s ! k)"
    and a: "a = avail s + made p - made (prods s ! k)" "0 \<le> a"
    and m: "mutex_ok m c ((prods s)[k := p])"
    and c: "c = cons s \<or> cons s = C_Wait \<and> c = C_Relock"
    and w: "c = C_Wait \<and> 0 < a \<longrightarrow> signalling p \<or> 0 < avail s \<and> \<not> signalling (prods s ! k)"
  shows "shop_ok n (put_prod k p (s\<lparr>mtx := m, avail := a, cons := c\<rparr>))"
proof -
  let ?t = "put_prod k p (s\<lparr>mtx := m, avail := a, cons := c\<rparr>)"
  have "sum_list (map p_cnt ((prods s)[k := p])) = totRequired s"
    using sum_list_map_update [OF k, of p_cnt p] ok p(2) by (simp add: shop_ok_def)
  moreover have "sum_list (map made ((prods s)[k := p])) = a + numConsumed s"
    using sum_list_map_update [OF k, of made p] ok a(1) by (simp add: shop_ok_def)
  moreover have "\<forall>q\<in>set ((prods s)[k := p]). prod_ok q"
    using ok p(1) set_update_subset_insert [of "prods s" k p] by (auto simp: shop_ok_def)
  moreover have "consumer_ok ?t"
    using ok a(2) c e by (auto simp: shop_ok_def consumer_ok_def put_prod_def)
  moreover have "wake_ok ?t"
  proof -
    have "\<exists>j<length (prods s). signalling ((prods s)[k := p] ! j)" if wait: "c = C_Wait" "0 < a"
    proof (cases "signalling p")
      case True
      then show ?thesis using k by (intro exI [of _ k]) simp
    next
      case False
      then have av: "0 < avail s" "\<not> signalling (prods s ! k)" using w wait by auto
      moreover have "cons s = C_Wait" using c wait by auto
      ultimately obtain j where j: "j < length (prods s)" "signalling (prods s ! j)" using ok by (auto simp: shop_ok_def wake_ok_def)
      then show ?thesis using av(2) k by (intro exI [of _ j]) (auto simp: nth_list_update)
    qed
    then show ?thesis by (simp add: wake_ok_def put_prod_def)
  qed
  ultimately show ?thesis using ok m by (simp add: shop_ok_def put_prod_def)
qed

lemma mutex_okI:
  assumes "mutex_ok m c ps" "k < length ps"
  shows "inside (ps ! k) = inside p \<Longrightarrow> mutex_ok m c (ps[k := p])"
    and "m = None \<Longrightarrow> inside p \<Longrightarrow> mutex_ok (Some (Suc k)) c (ps[k := p])"
    and "inside (ps ! k) \<Longrightarrow> \<not> inside p \<Longrightarrow> mutex_ok None c (ps[k := p])"
proof -
  have nth: "ps[k := p] ! j = (if j = k then p else ps ! j)" for j using assms(2) by (auto simp: nth_list_update)
  have owner: "inside (ps ! j) \<Longrightarrow> j < length ps \<Longrightarrow> m = Some (Suc j)" for j using assms(1) by (auto simp: mutex_ok_def)
  show "mutex_ok m c (ps[k := p])" if "inside (ps ! k) = inside p"
    using assms that unfolding mutex_ok_def by (auto simp: nth)
  show "mutex_ok (Some (Suc k)) c (ps[k := p])" if "m = None" "inside p"
    using assms that unfolding mutex_ok_def by (auto simp: nth split: if_splits)
  show "mutex_ok None c (ps[k := p])" if "inside (ps ! k)" "\<not> inside p"
    using assms that owner [of k] owner unfolding mutex_ok_def by (auto simp: nth split: if_splits)
qed

lemma mutex_ok_relock: "mutex_ok m C_Wait ps = mutex_ok m C_Relock ps"
  by (simp add: mutex_ok_def)

text \<open>Steps of the producers of both programs.\<close>

lemma producer_ok:
  assumes ok: "shop_ok n s" and k: "k < length (prods s)" and e: "ended s = None"
    and t: "producer k s = Some t \<or> producer_poll k s = Some t \<and> cons s \<noteq> C_Wait"
  shows "shop_ok n t"
proof -
  define p where "p = prods s ! k"
  have p: "prod_ok p" using ok nth_mem [OF k] unfolding shop_ok_def p_def by blast
  have m: "mutex_ok (mtx s) (cons s) (prods s)" and av: "0 \<le> avail s" using ok by (auto simp: shop_ok_def consumer_ok_def)
  note put = shop_ok_put [OF ok k e, folded p_def] and mx = mutex_okI [OF m k, folded p_def]
  have upd: "s\<lparr>mtx := mtx s, avail := avail s, cons := cons s\<rparr> = s" "s\<lparr>mtx := x, avail := avail s, cons := cons s\<rparr> = s\<lparr>mtx := x\<rparr>"
    "s\<lparr>mtx := mtx s, avail := y, cons := cons s\<rparr> = s\<lparr>avail := y\<rparr>" "s\<lparr>mtx := mtx s, avail := avail s, cons := z\<rparr> = s\<lparr>cons := z\<rparr>" for x y z
    by simp_all
  note put0 = put [where m = "mtx s" and a = "avail s" and c = "cons s", unfolded upd(1)]
    and put_m = put [where a = "avail s" and c = "cons s", unfolded upd(2)]
    and put_a = put [where m = "mtx s" and c = "cons s", unfolded upd(3)]
    and put_c = put [where m = "mtx s" and a = "avail s", unfolded upd(4)]
  note defs = prod_ok_def made_def inside_def signalling_def
  show ?thesis
  proof (cases "p_pc p")
    case P_Test
    then have "t = put_prod k (p\<lparr>p_pc := if p_j p < p_cnt p then P_Lock else P_Return\<rparr>) s"
      using t by (auto simp: producer_def producer_poll_def p_def)
    then show ?thesis using P_Test p av by (auto simp: defs intro!: put0 mx(1))
  next
    case P_Lock
    then have "mtx s = None" "t = put_prod k (p\<lparr>p_pc := P_Incr\<rparr>) (s\<lparr>mtx := Some (Suc k)\<rparr>)"
      using t by (auto simp: producer_def producer_poll_def take_mutex_def p_def split: if_splits)
    then show ?thesis using P_Lock p av by (auto simp: defs intro!: put_m mx(2))
  next
    case P_Incr
    have t': "shop_ok n (put_prod k (p\<lparr>p_pc := P_Unlock\<rparr>) (s\<lparr>avail := avail s + 1\<rparr>))"
      using P_Incr p av by (auto simp: defs intro!: put_a mx(1))
    have "avail s + 1 + numConsumed s \<le> totRequired s" using counters(1) [OF t'] by (simp add: put_prod_def)
    moreover have "0 \<le> numConsumed s" "totRequired s < 2 ^ 31"
      using ok counters(2) [OF ok] by (auto simp: shop_ok_def consumer_ok_def)
    ultimately have "fits_int (avail s + 1)" using av by (simp add: fits_int_def)
    then have "t = put_prod k (p\<lparr>p_pc := P_Unlock\<rparr>) (s\<lparr>avail := avail s + 1\<rparr>)"
      using t P_Incr by (auto simp: producer_def producer_poll_def produce_def p_def)
    then show ?thesis using t' by simp
  next
    case P_Unlock
    from t show ?thesis
    proof
      assume "producer k s = Some t"
      then have "t = put_prod k (p\<lparr>p_pc := P_Signal\<rparr>) (s\<lparr>mtx := None\<rparr>)" using P_Unlock by (simp add: producer_def p_def)
      then show ?thesis using P_Unlock p av by (auto simp: defs intro!: put_m mx(3))
    next
      assume "producer_poll k s = Some t \<and> cons s \<noteq> C_Wait"
      then have "t = put_prod k (p\<lparr>p_j := p_j p + 1, p_pc := P_Test\<rparr>) (s\<lparr>mtx := None\<rparr>)" "cons s \<noteq> C_Wait"
        using P_Unlock by (auto simp: producer_poll_def p_def Let_def)
      then show ?thesis using P_Unlock p av by (auto simp: defs intro!: put_m mx(3))
    qed
  next
    case P_Signal
    then have "t = put_prod k (p\<lparr>p_j := p_j p + 1, p_pc := P_Test\<rparr>) (if cons s = C_Wait then s\<lparr>cons := C_Relock\<rparr> else s)"
      using t by (auto simp: producer_def producer_poll_def p_def Let_def)
    moreover have "mutex_ok (mtx s) C_Relock ((prods s)[k := p\<lparr>p_j := p_j p + 1, p_pc := P_Test\<rparr>])" if "cons s = C_Wait"
      using mx(1) [of "p\<lparr>p_j := p_j p + 1, p_pc := P_Test\<rparr>"] that P_Signal by (simp add: mutex_ok_relock inside_def)
    ultimately show ?thesis
      using P_Signal p av by (cases "cons s = C_Wait") (auto simp: defs intro!: put_c put0 mx(1))
  next
    case P_Return
    then show ?thesis using t by (simp add: producer_def producer_poll_def p_def)
  qed
qed

text \<open>Steps of the main threads.\<close>

lemma mutex_ok_main:
  assumes "mutex_ok m c ps"
  shows "m = None \<Longrightarrow> c' \<in> {C_Test, C_Consume, C_Unlock} \<Longrightarrow> mutex_ok (Some 0) c' ps"
    and "m = Some 0 \<Longrightarrow> c' \<notin> {C_Test, C_Consume, C_Unlock} \<Longrightarrow> mutex_ok None c' ps"
    and "(c \<in> {C_Test, C_Consume, C_Unlock}) = (c' \<in> {C_Test, C_Consume, C_Unlock}) \<Longrightarrow> mutex_ok m c' ps"
  using assms unfolding mutex_ok_def by (auto 0 3)

lemma create_next_ok:
  assumes ok: "shop_ok n s" and e: "ended s = None" and c: "cons s = C_Create"
  shows "shop_ok n (create_next s)"
proof (cases "argv s")
  case Nil
  then show ?thesis using ok e c mutex_ok_main(3) [of "mtx s" "cons s" "prods s" C_Lock]
    by (auto simp: create_next_def shop_ok_def consumer_ok_def wake_ok_def)
next
  case (Cons a as)
  have "0 \<le> atoi_int a" "0 \<le> required as" "0 \<le> totRequired s" "totRequired s + atoi_int a + required as = n" "n < 2 ^ 31"
    using ok Cons counters(1) [OF ok] by (auto simp: shop_ok_def required_def consumer_ok_def intro!: sum_list_nonneg)
  moreover from this have "fits_int (totRequired s + atoi_int a)" by (simp add: fits_int_def)
  moreover have "mutex_ok (mtx s) (cons s) (prods s @ [\<lparr>p_pc = P_Test, p_j = 0, p_cnt = x\<rparr>])" for x
    using ok by (auto simp: shop_ok_def mutex_ok_def nth_append inside_def)
  ultimately show ?thesis
    using ok Cons e c by (auto simp: create_next_def shop_ok_def required_def consumer_ok_def wake_ok_def prod_ok_def made_def)
qed

lemma consume_ok:
  assumes ok: "shop_ok n s" and e: "ended s = None" and c: "cons s = C_Consume"
  shows "shop_ok n (consume s)"
proof (cases "0 < avail s")
  case True
  have "0 \<le> numConsumed s" "numConsumed s + 1 \<le> totRequired s" "totRequired s \<le> n" "n < 2 ^ 31"
    using True ok counters [OF ok] by (auto simp: shop_ok_def consumer_ok_def)
  then have "fits_int (numConsumed s + 1)" by (simp add: fits_int_def)
  then show ?thesis
    using True ok e c range_snoc [of "numConsumed s"] by (auto simp: consume_def shop_ok_def consumer_ok_def wake_ok_def)
next
  case False
  then show ?thesis using ok e c mutex_ok_main(3) [of "mtx s" "cons s" "prods s" C_Unlock]
    by (auto simp: consume_def shop_ok_def consumer_ok_def wake_ok_def)
qed

lemma shop_ok_main:
  assumes "shop_ok n s" "cons s \<noteq> C_Create" "c \<noteq> C_Create" "mutex_ok m c (prods s)" "ended s = None"
    "c \<in> {C_Lock, C_Test, C_Wait, C_Relock} \<longrightarrow> \<not> all_done s" "c = C_Wait \<longrightarrow> avail s = 0"
  shows "shop_ok n (s\<lparr>mtx := m, cons := c\<rparr>)"
proof -
  have "consumer_ok s" using assms(1) by (simp add: shop_ok_def)
  then have "consumer_ok (s\<lparr>mtx := m, cons := c\<rparr>)" using assms(2,3,5,6) by (simp add: consumer_ok_def)
  moreover have "wake_ok (s\<lparr>mtx := m, cons := c\<rparr>)" using assms(7) by (auto simp: wake_ok_def)
  ultimately show ?thesis using assms(1,4) by (simp add: shop_ok_def)
qed

lemma consumer_step_ok:
  assumes ok: "shop_ok n s" and e: "ended s = None" and t: "consumer s = Some t \<or> consumer_poll s = Some t"
  shows "shop_ok n t"
proof -
  have m: "mutex_ok (mtx s) (cons s) (prods s)" and d: "cons s \<in> {C_Lock, C_Test, C_Wait, C_Relock} \<longrightarrow> \<not> all_done s"
    using ok by (auto simp: shop_ok_def consumer_ok_def)
  note go = shop_ok_main [OF ok _ _ _ e] and mx = mutex_ok_main [OF m]
  have keep: "s\<lparr>mtx := mtx s, cons := c\<rparr> = s\<lparr>cons := c\<rparr>" for c by simp
  note go0 = go [where m = "mtx s", unfolded keep]
  have held: "cons s \<in> {C_Test, C_Unlock} \<Longrightarrow> mtx s = Some 0" using m by (auto simp: mutex_ok_def)
  show ?thesis
  proof (cases "cons s")
    case C_Create
    then show ?thesis using t create_next_ok [OF ok e] by (auto simp: consumer_def consumer_poll_def)
  next
    case C_Lock
    then show ?thesis using t d by (auto simp: consumer_def consumer_poll_def take_mutex_def intro!: go mx(1) split: if_splits)
  next
    case C_Test
    then show ?thesis using t d held by (auto simp: consumer_def consumer_poll_def intro!: go go0 mx(2,3) split: if_splits)
  next
    case C_Wait
    then show ?thesis using t by (simp add: consumer_def consumer_poll_def)
  next
    case C_Relock
    then show ?thesis using t d by (auto simp: consumer_def consumer_poll_def take_mutex_def intro!: go mx(1) split: if_splits)
  next
    case C_Consume
    then show ?thesis using t consume_ok [OF ok e] by (auto simp: consumer_def consumer_poll_def)
  next
    case C_Unlock
    then show ?thesis using t held by (auto simp: consumer_def consumer_poll_def intro!: go mx(2))
  next
    case C_Check
    then have "t = (if all_done s then s\<lparr>ended := Some (Exit 0)\<rparr> else s\<lparr>cons := C_Lock\<rparr>)"
      using t by (auto simp: consumer_def consumer_poll_def)
    moreover have "shop_ok n (s\<lparr>ended := Some (Exit 0)\<rparr>)" if "all_done s"
      using that ok C_Check by (auto simp: shop_ok_def consumer_ok_def wake_ok_def)
    moreover have "shop_ok n (s\<lparr>cons := C_Lock\<rparr>)" if "\<not> all_done s" using that C_Check by (auto intro!: go0 mx(3))
    ultimately show ?thesis by auto
  qed
qed

lemma fail_ok: "shop_ok n s \<Longrightarrow> shop_ok n (s\<lparr>ended := Some (Exit 1)\<rparr>)"
  unfolding shop_ok_def consumer_ok_def wake_ok_def by simp

lemma spurious_ok: "shop_ok n s \<Longrightarrow> ended s = None \<Longrightarrow> cons s = C_Wait \<Longrightarrow> shop_ok n (s\<lparr>cons := C_Relock\<rparr>)"
  by (auto simp: shop_ok_def consumer_ok_def wake_ok_def mutex_ok_relock)

lemma condvar_ok:
  assumes "shop_ok n s" "prod_condvar e s = Some t"
  shows "shop_ok n t"
proof (cases e)
  case (Run k)
  then show ?thesis
    using assms consumer_step_ok [OF assms(1)] producer_ok [OF assms(1), of "k - 1" t] by (auto simp: prod_condvar_def split: if_splits)
next
  case Spurious
  then show ?thesis using assms spurious_ok by (auto simp: prod_condvar_def split: if_splits)
next
  case (Fail k)
  then show ?thesis using assms fail_ok by (auto simp: prod_condvar_def split: if_splits)
qed

section \<open>Termination and absence of deadlock\<close>

definition prod_fuel :: "prod \<Rightarrow> nat" where
  "prod_fuel p = 10 * nat (p_cnt p - p_j p) +
     (case p_pc p of P_Test \<Rightarrow> 11 | P_Lock \<Rightarrow> 10 | P_Incr \<Rightarrow> 9 | P_Unlock \<Rightarrow> 8 | P_Signal \<Rightarrow> 7 | P_Return \<Rightarrow> 0)"

definition main_rank :: "cons_pc \<Rightarrow> int \<Rightarrow> nat" where
  "main_rank c av = (case c of C_Create \<Rightarrow> 3 | C_Lock \<Rightarrow> 2 | C_Test \<Rightarrow> 1 | C_Wait \<Rightarrow> 0 | C_Relock \<Rightarrow> 2
     | C_Consume \<Rightarrow> if 0 < av then 0 else 5 | C_Unlock \<Rightarrow> 4 | C_Check \<Rightarrow> 3)"

definition arg_fuel :: "string \<Rightarrow> nat" where
  "arg_fuel a = 10 * nat (atoi_int a) + 12"

definition shop_fuel :: "int \<Rightarrow> shop \<Rightarrow> nat" where
  "shop_fuel n s =
     (if ended s \<noteq> None then 0
      else 1 + sum_list (map prod_fuel (prods s)) + sum_list (map arg_fuel (argv s)) + 10 * nat (n - numConsumed s) + main_rank (cons s) (avail s))"

lemma nat_step: "(a :: int) < b \<Longrightarrow> nat (b - a) = Suc (nat (b - (a + 1)))"
  by linarith

lemma producer_paid:
  assumes ok: "shop_ok n s" and k: "k < length (prods s)" and e: "ended s = None" and t: "producer k s = Some t"
  shows "shop_fuel n t < shop_fuel n s"
proof -
  define p where "p = prods s ! k"
  have p: "prod_ok p" using ok nth_mem [OF k] unfolding shop_ok_def p_def by blast
  have m: "mutex_ok (mtx s) (cons s) (prods s)" using ok by (simp add: shop_ok_def)
  have stop: "shop_fuel n (s\<lparr>ended := Some r\<rparr>) < shop_fuel n s" for r using e by (simp add: shop_fuel_def)
  have less: "shop_fuel n (put_prod k q u) < shop_fuel n s"
    if "prods u = prods s" "argv u = argv s" "numConsumed u = numConsumed s"
      "prod_fuel q + main_rank (cons u) (avail u) < prod_fuel p + main_rank (cons s) (avail s)" for q u
    using that e sum_list_map_update_nat [OF k, of prod_fuel q, folded p_def] by (simp add: shop_fuel_def put_prod_def)
  show ?thesis
  proof (cases "p_pc p")
    case P_Incr
    then have "mtx s = Some (Suc k)" using m k by (auto simp: mutex_ok_def inside_def p_def)
    then have "cons s \<noteq> C_Consume" using m by (auto simp: mutex_ok_def)
    then have "main_rank (cons s) (avail s + 1) = main_rank (cons s) (avail s)" by (simp add: main_rank_def split: cons_pc.split)
    then show ?thesis using P_Incr t stop by (auto simp: producer_def produce_def p_def [symmetric] prod_fuel_def intro!: less)
  next
    case P_Signal
    then have t': "t = put_prod k (p\<lparr>p_j := p_j p + 1, p_pc := P_Test\<rparr>) (if cons s = C_Wait then s\<lparr>cons := C_Relock\<rparr> else s)"
      using t by (simp add: producer_def p_def Let_def)
    have "nat (p_cnt p - p_j p) = Suc (nat (p_cnt p - (p_j p + 1)))" using P_Signal p nat_step by (simp add: prod_ok_def)
    then show ?thesis unfolding t' using P_Signal by (intro less) (auto simp: prod_fuel_def main_rank_def)
  next
    case P_Test
    then show ?thesis using t p by (auto simp: producer_def Let_def p_def [symmetric] prod_fuel_def prod_ok_def intro!: less)
  next
    case P_Lock
    then show ?thesis using t by (auto simp: producer_def take_mutex_def Let_def p_def [symmetric] prod_fuel_def intro!: less split: if_splits)
  next
    case P_Unlock
    then show ?thesis using t by (auto simp: producer_def Let_def p_def [symmetric] prod_fuel_def intro!: less)
  next
    case P_Return
    then show ?thesis using t by (simp add: producer_def p_def)
  qed
qed

lemma consumer_paid:
  assumes ok: "shop_ok n s" and e: "ended s = None" and t: "consumer s = Some t"
  shows "shop_fuel n t < shop_fuel n s"
proof -
  have stop: "shop_fuel n (s\<lparr>ended := Some r\<rparr>) < shop_fuel n s" for r using e by (simp add: shop_fuel_def)
  have less: "shop_fuel n u < shop_fuel n s"
    if "prods u = prods s" "argv u = argv s" "numConsumed u = numConsumed s" "ended u = None"
      "main_rank (cons u) (avail u) < main_rank (cons s) (avail s)" for u
    using that e by (simp add: shop_fuel_def)
  have eat: "0 < avail s \<Longrightarrow> nat (n - numConsumed s) = Suc (nat (n - (numConsumed s + 1)))"
    using counters [OF ok] by (intro nat_step) linarith
  have av: "0 \<le> avail s" using ok by (simp add: shop_ok_def consumer_ok_def)
  show ?thesis
  proof (cases "cons s")
    case C_Create
    then show ?thesis using t e stop
      by (cases "argv s"; cases "fits_int (totRequired s + atoi_int (hd (argv s)))")
        (auto simp: consumer_def create_next_def shop_fuel_def main_rank_def arg_fuel_def prod_fuel_def)
  next
    case C_Consume
    show ?thesis
    proof (cases "0 < avail s")
      case True
      then show ?thesis using C_Consume t e stop eat
        by (cases "fits_int (numConsumed s + 1)") (auto simp: consumer_def consume_def shop_fuel_def main_rank_def)
    next
      case False
      then show ?thesis using C_Consume t e by (auto simp: consumer_def consume_def main_rank_def intro!: less)
    qed
  next
    case C_Check
    then show ?thesis using t e stop [of "Exit 0"] by (cases "all_done s") (auto simp: consumer_def main_rank_def intro: less)
  qed (use t e av in \<open>auto simp: consumer_def take_mutex_def main_rank_def intro!: less split: if_splits\<close>)
qed

lemma condvar_paid:
  assumes "shop_ok n s" "prod_condvar e s = Some t"
  shows "shop_fuel n t < shop_fuel n s + pay e"
proof (cases e)
  case (Run k)
  then show ?thesis
    using assms consumer_paid [OF assms(1)] producer_paid [OF assms(1), of "k - 1" t]
    by (auto simp: prod_condvar_def pay_def split: if_splits)
next
  case Spurious
  then show ?thesis using assms(2) by (auto simp: prod_condvar_def pay_def shop_fuel_def main_rank_def split: if_splits)
next
  case (Fail k)
  then show ?thesis using assms(2) by (auto simp: prod_condvar_def pay_def shop_fuel_def split: if_splits)
qed

lemma producer_enabled:
  assumes "k < length (prods s)" "ended s = None" "p_pc (prods s ! k) \<noteq> P_Return" "p_pc (prods s ! k) = P_Lock \<Longrightarrow> mtx s = None"
  shows "\<exists>t. prod_condvar (Run (Suc k)) s = Some t"
  using assms by (cases "p_pc (prods s ! k)") (auto simp: prod_condvar_def producer_def take_mutex_def Let_def)

lemma condvar_progress:
  assumes ok: "shop_ok n s" and n: "0 < n" and e: "ended s = None"
  shows "\<exists>k t. prod_condvar (Run k) s = Some t"
proof -
  have m: "mutex_ok (mtx s) (cons s) (prods s)" and c: "consumer_ok s" and w: "wake_ok s" using ok by (auto simp: shop_ok_def)
  have main: "\<exists>k t. prod_condvar (Run k) s = Some t" if "consumer s \<noteq> None"
    using that e by (intro exI [of _ 0]) (auto simp: prod_condvar_def)
  show ?thesis
  proof (cases "mtx s")
    case (Some j)
    show ?thesis
    proof (cases j)
      case 0
      then have "cons s \<in> {C_Test, C_Consume, C_Unlock}" using Some m by (simp add: mutex_ok_def)
      then show ?thesis by (intro main) (auto simp: consumer_def)
    next
      case (Suc k)
      then have "k < length (prods s)" "inside (prods s ! k)" using Some m by (auto simp: mutex_ok_def)
      then show ?thesis using producer_enabled [of k s] e by (auto simp: inside_def)
    qed
  next
    case None
    show ?thesis
    proof (cases "cons s = C_Wait")
      case False
      then show ?thesis using None by (intro main) (cases "cons s", auto simp: consumer_def take_mutex_def)
    next
      case True
      have "\<exists>k<length (prods s). p_pc (prods s ! k) \<noteq> P_Return"
      proof (cases "0 < avail s")
        case True
        then show ?thesis using w \<open>cons s = C_Wait\<close> by (auto simp: wake_ok_def signalling_def)
      next
        case False
        have "argv s = []" "\<not> all_done s" using c True by (auto simp: consumer_ok_def)
        then have "avail s + numConsumed s < totRequired s"
          using False c ok n by (auto simp: consumer_ok_def shop_ok_def required_def)
        then have "sum_list (map made (prods s)) < sum_list (map p_cnt (prods s))" using ok by (simp add: shop_ok_def)
        from sum_list_less_nth [OF this] obtain k where k: "k < length (prods s)" "made (prods s ! k) < p_cnt (prods s ! k)" by blast
        then have "p_pc (prods s ! k) \<noteq> P_Return" using ok nth_mem [OF k(1)] by (auto simp: shop_ok_def prod_ok_def made_def)
        then show ?thesis using k(1) by blast
      qed
      then show ?thesis using producer_enabled e None by blast
    qed
  qed
qed

interpretation condvar: progressing prod_condvar "\<lambda>s. \<exists>args. s = prod_start args \<and> (\<forall>a\<in>set args. 0 \<le> atoi_int a) \<and> required args = n \<and> 0 < n \<and> n < 2 ^ 31"
  "\<lambda>s. 0 < n \<and> shop_ok n s" "shop_fuel n" pay "\<lambda>s. ended s \<noteq> None" for n
proof
  show "\<exists>e t. pay e = 0 \<and> prod_condvar e s = Some t" if "0 < n \<and> shop_ok n s" "\<not> ended s \<noteq> None" for s
    using condvar_progress [of n s] that by (auto simp: pay_def)
qed (use start_ok condvar_ok condvar_paid in auto)

lemma main_frame:
  assumes "consumer s = Some t \<or> consumer_poll s = Some t" "ended s = None"
  shows "ended t \<noteq> Some (Exit 1)"
  using assms
  by (cases "cons s") (auto simp: consumer_def consumer_poll_def create_next_def consume_def take_mutex_def split: if_splits list.splits)

lemma producer_frame:
  assumes "producer k s = Some t \<or> producer_poll k s = Some t" "ended s = None"
  shows "ended t \<noteq> Some (Exit 1)"
  using assms
  by (cases "p_pc (prods s ! k)") (auto simp: producer_def producer_poll_def produce_def put_prod_def take_mutex_def Let_def split: if_splits)

lemma poll_frame:
  assumes "cons s \<notin> {C_Test, C_Wait, C_Relock}"
  shows "consumer_poll s = Some t \<Longrightarrow> cons t \<notin> {C_Test, C_Wait, C_Relock}"
    and "producer_poll k s = Some t \<Longrightarrow> cons t \<notin> {C_Test, C_Wait, C_Relock}"
proof -
  show "cons t \<notin> {C_Test, C_Wait, C_Relock}" if "consumer_poll s = Some t"
    using that assms by (cases "cons s") (auto simp: consumer_poll_def create_next_def consume_def take_mutex_def split: if_splits list.splits)
  show "cons t \<notin> {C_Test, C_Wait, C_Relock}" if "producer_poll k s = Some t"
    using that assms
    by (cases "p_pc (prods s ! k)") (auto simp: producer_poll_def produce_def put_prod_def take_mutex_def Let_def split: if_splits)
qed

lemma fail_needed:
  assumes "run prod_condvar es (prod_start args) = Some t" "ended t = Some (Exit 1)"
  shows "\<exists>k. Fail k \<in> set es"
  using assms
proof (induction es arbitrary: t rule: rev_induct)
  case Nil
  then show ?case by (auto simp: prod_start_def)
next
  case (snoc e es)
  then obtain u where u: "run prod_condvar es (prod_start args) = Some u" "prod_condvar e u = Some t"
    by (auto simp: run_append split: option.splits)
  have "\<exists>k. e = Fail k" using u(2) snoc.prems(2) main_frame [of u t] producer_frame [of _ u t] by (cases e) (auto simp: prod_condvar_def split: if_splits)
  then show ?case by auto
qed

text \<open>What holds when \<open>main()\<close> leaves its loop.\<close>

lemma ended_ok:
  assumes "shop_ok n s" "ended s = Some (Exit 0)"
  shows "out s = [1..n] \<and> 0 < n \<and> (\<forall>p\<in>set (prods s). made p = p_cnt p)"
proof -
  have c: "0 < numConsumed s" "totRequired s \<le> numConsumed s" "argv s = []" "out s = [1..numConsumed s]" "0 \<le> avail s"
    using assms by (auto simp: shop_ok_def consumer_ok_def)
  then have tot: "totRequired s = n" using assms(1) by (simp add: shop_ok_def required_def)
  have eq: "numConsumed s = n" "avail s = 0" using c counters(1) [OF assms(1)] tot by auto
  have "made p = p_cnt p" if p: "p \<in> set (prods s)" for p
  proof -
    obtain k where k: "k < length (prods s)" "p = prods s ! k" using p by (auto simp: in_set_conv_nth)
    have le: "made q \<le> p_cnt q" if "q \<in> set (prods s)" for q using assms(1) that by (auto simp: shop_ok_def prod_ok_def made_def)
    have "sum_list (map (\<lambda>q. p_cnt q - made q) (prods s)) = 0"
      using assms(1) eq tot by (simp add: shop_ok_def sum_list_subtractf)
    moreover have "\<And>x. x \<in> set (map (\<lambda>q. p_cnt q - made q) (prods s)) \<Longrightarrow> 0 \<le> x" using le by auto
    ultimately show ?thesis using sum_list_nonneg_eq_0_iff [of "map (\<lambda>q. p_cnt q - made q) (prods s)"] p by auto
  qed
  then show ?thesis using c eq by auto
qed

section \<open>Polling\<close>

definition poll_ok :: "int \<Rightarrow> shop \<Rightarrow> bool" where
  "poll_ok n s \<longleftrightarrow> shop_ok n s \<and> cons s \<notin> {C_Test, C_Wait, C_Relock}"

lemma poll_step_ok:
  assumes "poll_ok n s" "prod_no_condvar e s = Some t"
  shows "poll_ok n t"
proof -
  have ok: "shop_ok n s" and c: "cons s \<notin> {C_Test, C_Wait, C_Relock}" using assms(1) by (auto simp: poll_ok_def)
  show ?thesis
  proof (cases e)
    case (Run k)
    then consider "consumer_poll s = Some t" "ended s = None" | "producer_poll (k - 1) s = Some t" "ended s = None" "k - 1 < length (prods s)"
      using assms(2) by (auto simp: prod_no_condvar_def split: if_splits)
    then show ?thesis
      using consumer_step_ok [OF ok] producer_ok [OF ok] poll_frame [OF c] c by cases (auto simp: poll_ok_def)
  next
    case Spurious
    then show ?thesis using assms(2) c by (auto simp: prod_no_condvar_def split: if_splits)
  next
    case (Fail k)
    then show ?thesis using assms(2) c fail_ok [OF ok] by (auto simp: prod_no_condvar_def poll_ok_def split: if_splits)
  qed
qed

interpretation polling: interleaved prod_no_condvar "\<lambda>s. \<exists>args. s = prod_start args \<and> (\<forall>a\<in>set args. 0 \<le> atoi_int a) \<and> required args = n \<and> n < 2 ^ 31"
  "poll_ok n" for n
proof
  show "poll_ok n s"
    if "\<exists>args. s = prod_start args \<and> (\<forall>a\<in>set args. 0 \<le> atoi_int a) \<and> required args = n \<and> n < 2 ^ 31" for s
    using that start_ok by (auto simp: poll_ok_def) (auto simp: prod_start_def)
qed (rule poll_step_ok)

text \<open>The program that polls consumes every unit, too, when it ends.\<close>

lemma polling_result:
  assumes "\<forall>a\<in>set args. 0 \<le> atoi_int a" "required args < 2 ^ 31"
    "run prod_no_condvar es (prod_start args) = Some t" "ended t = Some (Exit 0)"
  shows "out t = [1..required args]"
  using polling.inv_reached [of "prod_start args" "required args" es t] assms ended_ok [of "required args" t] by (auto simp: poll_ok_def)

section \<open>Properties\<close>

text \<open>
  C15: the consumer that waits on the condition variable. For numbers of units that are not negative and
  whose sum is positive and fits an \<open>int\<close>, in every schedule: the number of steps is bounded, apart from three
  for each spurious wake-up; as long as the process has not ended some thread can go on, so
  that no wake-up is lost; and when it ends without a failing library call, every producer has
  produced all its units and the consumer has printed each number from 1 to their sum.
\<close>

theorem condvar_completes:
  assumes "\<forall>a\<in>set args. 0 \<le> atoi_int a" "0 < required args" "required args < 2 ^ 31"
    "run prod_condvar es (prod_start args) = Some t"
  shows "length es \<le> shop_fuel (required args) (prod_start args) + 3 * count_list es Spurious \<and>
    (case ended t of
       None \<Rightarrow> \<exists>k u. prod_condvar (Run k) t = Some u
     | Some r \<Rightarrow> r = Exit 1 \<and> (\<exists>k. Fail k \<in> set es) \<or>
         r = Exit 0 \<and> out t = [1..required args] \<and> (\<forall>p\<in>set (prods t). made p = p_cnt p))"
proof -
  have ok0: "shop_ok (required args) (prod_start args)" using start_ok assms by blast
  then have ok: "shop_ok (required args) t" using condvar.inv_run [of "required args" "prod_start args" es t] assms by simp
  have r: "r = Exit 1 \<or> r = Exit 0" if "ended t = Some r" for r using that ok by (auto simp: shop_ok_def consumer_ok_def)
  have "length es \<le> shop_fuel (required args) (prod_start args) + 3 * count_list es Spurious"
    using condvar.run_bound [of "required args" "prod_start args" es t] ok0 assms by (simp add: pay_total)
  then show ?thesis
    using condvar_progress [OF ok assms(2)] ended_ok [OF ok] fail_needed [OF assms(4)] r by (auto split: option.split)
qed

theorem condvar_completes_witness:
  "\<exists>t. run prod_condvar (replicate 5 (Run 0) @ replicate 5 (Run 1) @ [Run 0]) (prod_start [''2'', ''1'']) = Some t \<and>
     ended t = None \<and> (\<exists>k u. prod_condvar (Run k) t = Some u)"
proof -
  let ?es = "replicate 5 (Run 0) @ replicate 5 (Run 1) @ [Run 0]"
  have a: "\<forall>a\<in>set [''2'', ''1'']. 0 \<le> atoi_int a" "0 < required [''2'', ''1'']" "required [''2'', ''1''] < 2 ^ 31" by code_simp+
  have "map_option ended (run prod_condvar ?es (prod_start [''2'', ''1''])) = Some None" by code_simp
  then obtain t where t: "run prod_condvar ?es (prod_start [''2'', ''1'']) = Some t" "ended t = None" by auto
  then show ?thesis using condvar_completes [OF a t(1)] by auto
qed

text \<open>
  Without anything to produce the program never ends by itself: the consumer waits for ever,
  because the end is only noticed when a unit has been consumed.
\<close>

lemma condvar_no_units:
  assumes "\<forall>a\<in>set args. atoi_int a = 0" "run prod_condvar es (prod_start args) = Some t" "\<forall>k. Fail k \<notin> set es"
  shows "ended t = None \<and> out t = []"
proof -
  have n: "required args = 0" using assms(1) by (induction args) (auto simp: required_def)
  have "shop_ok 0 (prod_start args)" using start_ok [of args] assms(1) n by simp
  moreover have "shop_ok n u" if "shop_ok n s" "run prod_condvar fs s = Some u" for fs n s u
    using that by (induction fs arbitrary: s) (auto split: option.splits intro: condvar_ok)
  ultimately have ok: "shop_ok 0 t" using assms(2) by blast
  have "ended t \<noteq> Some r" for r
    using ok ended_ok [OF ok] fail_needed [OF assms(2)] assms(3) by (auto simp: shop_ok_def consumer_ok_def)
  moreover have "numConsumed t = 0" using counters [OF ok] ok by (auto simp: shop_ok_def consumer_ok_def)
  ultimately show ?thesis using ok by (auto simp: shop_ok_def consumer_ok_def)
qed

end
