(* ===== verification/Thread_Join.thy ===== *)
theory Thread_Join
  imports Interleaving
begin

text \<open>
  A main thread that joins its threads in the order in which they end (\<open>threads/thread_multijoin.c\<close>). Each
  thread marks itself as terminated under the mutex and signals the condition variable; the
  main thread waits for it and then joins every thread that is marked, with the mutex held.

  The main thread is thread 0, the thread with index \<open>k\<close> of the array is thread \<open>k + 1\<close>. The number of threads is the
  length of the array. \<open>getInt()\<close> and \<open>pthread_create()\<close> fail with the same event.
\<close>

section \<open>State\<close>

datatype tstate = TS_ALIVE | TS_TERMINATED | TS_JOINED
datatype join_pc = J_Work | J_Lock | J_Mark | J_Unlock | J_Signal | J_Return
datatype main_join_pc = A_Create | A_Test | A_Lock | A_Check | A_Wait | A_Relock | A_For nat | A_Join nat | A_Unlock

record jthread =
  j_pc :: join_pc
  j_state :: tstate

record joiner =
  threadMutex :: "nat option"
  argCount :: nat
  totThreads :: nat
  numLive :: int
  numUnjoined :: int
  thr :: "jthread list"
  joinMain :: main_join_pc
  reaped :: "(nat \<times> int) list"
  jEnded :: "stop option"

definition join_start :: "nat \<Rightarrow> joiner" where
  "join_start n = \<lparr>threadMutex = None, argCount = n, totThreads = 0, numLive = 0, numUnjoined = 0, thr = [], joinMain = A_Create,
     reaped = [], jEnded = None\<rparr>"

text \<open>The check of the arguments, one of which is there for each thread, and the array for the threads.\<close>

definition multijoin_begin :: "bool \<Rightarrow> string list \<Rightarrow> stop + joiner" where
  "multijoin_begin calloc_ok args =
     (if args = [] \<or> hd args = ''--help'' then Inl (Exit 1)
      else if \<not> calloc_ok then Inl (Exit 1)
      else Inr (join_start (length args)))"

section \<open>The threads\<close>

definition put_thr :: "nat \<Rightarrow> jthread \<Rightarrow> joiner \<Rightarrow> joiner" where
  "put_thr k p s = s\<lparr>thr := (thr s)[k := p]\<rparr>"

definition grab :: "nat \<Rightarrow> joiner \<Rightarrow> joiner option" where
  "grab t s = (if threadMutex s = None then Some (s\<lparr>threadMutex := Some t\<rparr>) else None)"

definition join_thread :: "nat \<Rightarrow> joiner \<Rightarrow> joiner option" where
  "join_thread k s =
     (let p = thr s ! k in
      case j_pc p of
        J_Work \<Rightarrow> Some (put_thr k (p\<lparr>j_pc := J_Lock\<rparr>) s)
      | J_Lock \<Rightarrow> map_option (put_thr k (p\<lparr>j_pc := J_Mark\<rparr>)) (grab (k + 1) s)
      | J_Mark \<Rightarrow> Some (put_thr k (p\<lparr>j_state := TS_TERMINATED, j_pc := J_Unlock\<rparr>) (s\<lparr>numUnjoined := numUnjoined s + 1\<rparr>))
      | J_Unlock \<Rightarrow> Some (put_thr k (p\<lparr>j_pc := J_Signal\<rparr>) (s\<lparr>threadMutex := None\<rparr>))
      | J_Signal \<Rightarrow> Some (put_thr k (p\<lparr>j_pc := J_Return\<rparr>) (if joinMain s = A_Wait then s\<lparr>joinMain := A_Relock\<rparr> else s))
      | J_Return \<Rightarrow> None)"

section \<open>The main thread\<close>

definition reap :: "nat \<Rightarrow> joiner \<Rightarrow> joiner" where
  "reap idx s =
     put_thr idx ((thr s ! idx)\<lparr>j_state := TS_JOINED\<rparr>)
       (s\<lparr>numLive := numLive s - 1, numUnjoined := numUnjoined s - 1, reaped := reaped s @ [(idx, numLive s - 1)], joinMain := A_For (idx + 1)\<rparr>)"

definition join_main :: "joiner \<Rightarrow> joiner option" where
  "join_main s =
     (case joinMain s of
        A_Create \<Rightarrow>
          Some (if length (thr s) < argCount s then s\<lparr>thr := thr s @ [\<lparr>j_pc = J_Work, j_state = TS_ALIVE\<rparr>]\<rparr>
                else s\<lparr>totThreads := argCount s, numLive := int (argCount s), joinMain := A_Test\<rparr>)
      | A_Test \<Rightarrow> Some (if numLive s > 0 then s\<lparr>joinMain := A_Lock\<rparr> else s\<lparr>jEnded := Some (Exit 0)\<rparr>)
      | A_Lock \<Rightarrow> map_option (\<lambda>s. s\<lparr>joinMain := A_Check\<rparr>) (grab 0 s)
      | A_Check \<Rightarrow> Some (if numUnjoined s = 0 then s\<lparr>threadMutex := None, joinMain := A_Wait\<rparr> else s\<lparr>joinMain := A_For 0\<rparr>)
      | A_Wait \<Rightarrow> None
      | A_Relock \<Rightarrow> map_option (\<lambda>s. s\<lparr>joinMain := A_Check\<rparr>) (grab 0 s)
      | A_For idx \<Rightarrow>
          Some (s\<lparr>joinMain := if idx < totThreads s then (if j_state (thr s ! idx) = TS_TERMINATED then A_Join idx else A_For (idx + 1)) else A_Unlock\<rparr>)
      | A_Join idx \<Rightarrow> if j_pc (thr s ! idx) = J_Return then Some (reap idx s) else None
      | A_Unlock \<Rightarrow> Some (s\<lparr>threadMutex := None, joinMain := A_Test\<rparr>))"

definition join_may_fail :: "nat \<Rightarrow> joiner \<Rightarrow> bool" where
  "join_may_fail k s =
     (if k = 0 then (case joinMain s of A_Create \<Rightarrow> length (thr s) < argCount s | A_Test \<Rightarrow> False | A_Check \<Rightarrow> numUnjoined s = 0 | A_For _ \<Rightarrow> False | _ \<Rightarrow> True)
      else j_pc (thr s ! (k - 1)) \<in> {J_Lock, J_Unlock, J_Signal})"

fun multijoin :: "sched \<Rightarrow> joiner \<Rightarrow> joiner option" where
  "multijoin (Run k) s = (if jEnded s \<noteq> None \<or> k > length (thr s) then None else if k = 0 then join_main s else join_thread (k - 1) s)"
| "multijoin Spurious s = (if jEnded s \<noteq> None \<or> joinMain s \<noteq> A_Wait then None else Some (s\<lparr>joinMain := A_Relock\<rparr>))"
| "multijoin (Fail k) s = (if jEnded s \<noteq> None \<or> k > length (thr s) \<or> \<not> join_may_fail k s then None else Some (s\<lparr>jEnded := Some (Exit 1)\<rparr>))"

section \<open>Invariant\<close>

definition terminated :: "jthread \<Rightarrow> int" where
  "terminated p = (if j_state p = TS_TERMINATED then 1 else 0)"

definition unjoined :: "jthread \<Rightarrow> int" where
  "unjoined p = (if j_state p = TS_JOINED then 0 else 1)"

definition in_mutex :: "jthread \<Rightarrow> bool" where
  "in_mutex p \<longleftrightarrow> j_pc p \<in> {J_Mark, J_Unlock}"

definition will_signal :: "jthread \<Rightarrow> bool" where
  "will_signal p \<longleftrightarrow> j_pc p \<in> {J_Unlock, J_Signal}"

definition jthread_ok :: "jthread \<Rightarrow> bool" where
  "jthread_ok p \<longleftrightarrow> (j_state p = TS_ALIVE \<longleftrightarrow> j_pc p \<in> {J_Work, J_Lock, J_Mark}) \<and> (j_state p = TS_JOINED \<longrightarrow> j_pc p = J_Return)"

fun main_holds :: "main_join_pc \<Rightarrow> bool" where
  "main_holds A_Check = True" | "main_holds (A_For i) = True" | "main_holds (A_Join i) = True" | "main_holds A_Unlock = True"
| "main_holds _ = False"

definition join_mutex_ok :: "nat option \<Rightarrow> main_join_pc \<Rightarrow> jthread list \<Rightarrow> bool" where
  "join_mutex_ok m c ps \<longleftrightarrow> (m = Some 0 \<longleftrightarrow> main_holds c) \<and> (\<forall>k. m = Some (Suc k) \<longleftrightarrow> k < length ps \<and> in_mutex (ps ! k))"

text \<open>How far the loop over the array has come: before that place nothing is left to join.\<close>

definition scanned :: "main_join_pc \<Rightarrow> jthread list \<Rightarrow> bool" where
  "scanned c ps \<longleftrightarrow>
     (case c of
        A_For i \<Rightarrow> i \<le> length ps \<and> (\<forall>j<i. j_state (ps ! j) \<noteq> TS_TERMINATED)
      | A_Join i \<Rightarrow> i < length ps \<and> (\<forall>j<i. j_state (ps ! j) \<noteq> TS_TERMINATED) \<and> j_state (ps ! i) = TS_TERMINATED
      | A_Unlock \<Rightarrow> \<forall>p\<in>set ps. j_state p \<noteq> TS_TERMINATED
      | _ \<Rightarrow> True)"

definition join_ok :: "joiner \<Rightarrow> bool" where
  "join_ok s \<longleftrightarrow> (\<forall>p\<in>set (thr s). jthread_ok p) \<and> sum_list (map terminated (thr s)) = numUnjoined s \<and>
     (if joinMain s = A_Create then length (thr s) \<le> argCount s \<and> (\<forall>p\<in>set (thr s). j_state p \<noteq> TS_JOINED)
      else length (thr s) = argCount s \<and> totThreads s = argCount s \<and> sum_list (map unjoined (thr s)) = numLive s) \<and>
     join_mutex_ok (threadMutex s) (joinMain s) (thr s) \<and> scanned (joinMain s) (thr s) \<and>
     (joinMain s \<in> {A_Lock, A_Check, A_Wait, A_Relock} \<longrightarrow> 0 < numLive s) \<and>
     (joinMain s = A_Wait \<and> 0 < numUnjoined s \<longrightarrow> (\<exists>k<length (thr s). will_signal (thr s ! k))) \<and>
     (\<forall>r. jEnded s = Some r \<longrightarrow> r = Exit 1 \<or> r = Exit 0 \<and> joinMain s = A_Test \<and> numLive s \<le> 0)"

lemma join_start_ok: "join_ok (join_start n)"
  by (simp add: join_ok_def join_start_def join_mutex_ok_def scanned_def)

lemma count_nonneg: "0 \<le> sum_list (map terminated ps)" "0 \<le> sum_list (map unjoined ps)"
  by (auto intro!: sum_list_nonneg simp: terminated_def unjoined_def)

lemma scanned_idle: "\<not> main_holds c \<Longrightarrow> scanned c ps"
  by (cases c) (simp_all add: scanned_def)

lemma scanned_same:
  assumes "scanned c ps" "k < length ps" "j_state p = j_state (ps ! k)"
  shows "scanned c (ps[k := p])"
proof -
  have "j_state (ps[k := p] ! j) = j_state (ps ! j)" for j using assms(2,3) by (auto simp: nth_list_update)
  moreover have "(\<forall>q\<in>set (ps[k := p]). j_state q \<noteq> TS_TERMINATED) = (\<forall>q\<in>set ps. j_state q \<noteq> TS_TERMINATED)"
    using calculation by (simp add: all_set_conv_all_nth)
  ultimately show ?thesis using assms(1) unfolding scanned_def by (cases c) simp_all
qed

text \<open>A step of a thread, from the changes it makes.\<close>

lemma join_ok_put:
  assumes ok: "join_ok s" and k: "k < length (thr s)" and e: "jEnded s = None"
    and p: "jthread_ok p" "unjoined p = unjoined (thr s ! k)" "j_state p = TS_JOINED \<longrightarrow> j_state (thr s ! k) = TS_JOINED"
    and u: "u = numUnjoined s + terminated p - terminated (thr s ! k)"
    and m: "join_mutex_ok m c ((thr s)[k := p])"
    and c: "c = joinMain s \<or> joinMain s = A_Wait \<and> c = A_Relock"
    and sc: "j_state p = j_state (thr s ! k) \<or> \<not> main_holds (joinMain s)"
    and w: "c = A_Wait \<and> 0 < u \<longrightarrow> will_signal p \<or> 0 < numUnjoined s \<and> \<not> will_signal (thr s ! k)"
  shows "join_ok (put_thr k p (s\<lparr>threadMutex := m, numUnjoined := u, joinMain := c\<rparr>))"
proof -
  have "\<forall>q\<in>set ((thr s)[k := p]). jthread_ok q"
    using ok p(1) set_update_subset_insert [of "thr s" k p] by (auto simp: join_ok_def)
  moreover have "sum_list (map terminated ((thr s)[k := p])) = u"
    using sum_list_map_update [OF k, of terminated p] ok u by (simp add: join_ok_def)
  moreover have "sum_list (map unjoined ((thr s)[k := p])) = sum_list (map unjoined (thr s))"
    using sum_list_map_update [OF k, of unjoined p] p(2) by simp
  moreover have "\<forall>q\<in>set ((thr s)[k := p]). j_state q \<noteq> TS_JOINED" if "\<forall>q\<in>set (thr s). j_state q \<noteq> TS_JOINED"
    using that p(3) nth_mem [OF k] set_update_subset_insert [of "thr s" k p] by fastforce
  moreover have "scanned c ((thr s)[k := p])"
    using sc
  proof
    assume "j_state p = j_state (thr s ! k)"
    moreover have "scanned c (thr s)" using ok c scanned_idle [of A_Relock] by (auto simp: join_ok_def)
    ultimately show ?thesis using scanned_same [OF _ k] by blast
  next
    assume "\<not> main_holds (joinMain s)"
    then show ?thesis using c by (intro scanned_idle) auto
  qed
  moreover have "\<exists>j<length (thr s). will_signal ((thr s)[k := p] ! j)" if wait: "c = A_Wait" "0 < u"
  proof (cases "will_signal p")
    case True
    then show ?thesis using k by (intro exI [of _ k]) simp
  next
    case False
    then have av: "0 < numUnjoined s" "\<not> will_signal (thr s ! k)" using w wait by auto
    moreover have "joinMain s = A_Wait" using c wait by auto
    ultimately obtain j where j: "j < length (thr s)" "will_signal (thr s ! j)" using ok by (auto simp: join_ok_def)
    then show ?thesis using av(2) k by (intro exI [of _ j]) (auto simp: nth_list_update)
  qed
  moreover have "c = A_Create \<longleftrightarrow> joinMain s = A_Create" "c \<in> {A_Lock, A_Check, A_Wait, A_Relock} \<longrightarrow> 0 < numLive s"
    using c ok by (auto simp: join_ok_def)
  ultimately show ?thesis using ok m e by (simp add: join_ok_def put_thr_def)
qed

lemma join_mutexI:
  assumes "join_mutex_ok m c ps" "k < length ps"
  shows "in_mutex (ps ! k) = in_mutex p \<Longrightarrow> join_mutex_ok m c (ps[k := p])"
    and "m = None \<Longrightarrow> in_mutex p \<Longrightarrow> join_mutex_ok (Some (Suc k)) c (ps[k := p])"
    and "in_mutex (ps ! k) \<Longrightarrow> \<not> in_mutex p \<Longrightarrow> join_mutex_ok None c (ps[k := p])"
proof -
  have nth: "ps[k := p] ! j = (if j = k then p else ps ! j)" for j using assms(2) by (auto simp: nth_list_update)
  have owner: "in_mutex (ps ! j) \<Longrightarrow> j < length ps \<Longrightarrow> m = Some (Suc j)" for j using assms(1) by (auto simp: join_mutex_ok_def)
  show "join_mutex_ok m c (ps[k := p])" if "in_mutex (ps ! k) = in_mutex p"
    using assms that unfolding join_mutex_ok_def by (auto simp: nth)
  show "join_mutex_ok (Some (Suc k)) c (ps[k := p])" if "m = None" "in_mutex p"
    using assms that unfolding join_mutex_ok_def by (auto simp: nth split: if_splits)
  show "join_mutex_ok None c (ps[k := p])" if "in_mutex (ps ! k)" "\<not> in_mutex p"
    using assms that owner [of k] owner unfolding join_mutex_ok_def by (auto simp: nth split: if_splits)
qed

lemma join_thread_ok:
  assumes ok: "join_ok s" and k: "k < length (thr s)" and e: "jEnded s = None" and t: "join_thread k s = Some t"
  shows "join_ok t"
proof -
  define p where "p = thr s ! k"
  have p: "jthread_ok p" using ok nth_mem [OF k] unfolding join_ok_def p_def by blast
  have m: "join_mutex_ok (threadMutex s) (joinMain s) (thr s)" using ok by (simp add: join_ok_def)
  note put = join_ok_put [OF ok k e, folded p_def] and mx = join_mutexI [OF m k, folded p_def]
  have upd: "s\<lparr>threadMutex := threadMutex s, numUnjoined := numUnjoined s, joinMain := joinMain s\<rparr> = s"
    "s\<lparr>threadMutex := x, numUnjoined := numUnjoined s, joinMain := joinMain s\<rparr> = s\<lparr>threadMutex := x\<rparr>"
    "s\<lparr>threadMutex := threadMutex s, numUnjoined := y, joinMain := joinMain s\<rparr> = s\<lparr>numUnjoined := y\<rparr>"
    "s\<lparr>threadMutex := threadMutex s, numUnjoined := numUnjoined s, joinMain := z\<rparr> = s\<lparr>joinMain := z\<rparr>" for x y z
    by simp_all
  note put0 = put [where m = "threadMutex s" and u = "numUnjoined s" and c = "joinMain s", unfolded upd(1)]
    and put_m = put [where u = "numUnjoined s" and c = "joinMain s", unfolded upd(2)]
    and put_u = put [where m = "threadMutex s" and c = "joinMain s", unfolded upd(3)]
    and put_c = put [where m = "threadMutex s" and u = "numUnjoined s", unfolded upd(4)]
  note defs = jthread_ok_def unjoined_def terminated_def in_mutex_def will_signal_def
  show ?thesis
  proof (cases "j_pc p")
    case J_Work
    then show ?thesis using t p by (auto simp: join_thread_def Let_def p_def [symmetric] defs intro!: put0 mx(1))
  next
    case J_Lock
    then show ?thesis
      using t p by (auto simp: join_thread_def grab_def Let_def p_def [symmetric] defs intro!: put_m mx(2) split: if_splits)
  next
    case J_Mark
    then have "threadMutex s = Some (Suc k)" using m k by (auto simp: join_mutex_ok_def in_mutex_def p_def)
    then have "\<not> main_holds (joinMain s)" using m by (auto simp: join_mutex_ok_def)
    then show ?thesis using J_Mark t p by (auto simp: join_thread_def Let_def p_def [symmetric] defs intro!: put_u mx(1))
  next
    case J_Unlock
    then show ?thesis using t p by (auto simp: join_thread_def Let_def p_def [symmetric] defs intro!: put_m mx(3))
  next
    case J_Signal
    then have t': "t = put_thr k (p\<lparr>j_pc := J_Return\<rparr>) (if joinMain s = A_Wait then s\<lparr>joinMain := A_Relock\<rparr> else s)"
      using t by (simp add: join_thread_def Let_def p_def)
    have "join_mutex_ok (threadMutex s) (joinMain s) ((thr s)[k := p\<lparr>j_pc := J_Return\<rparr>])" using J_Signal by (intro mx(1)) (simp add: in_mutex_def)
    moreover from this have "join_mutex_ok (threadMutex s) A_Relock ((thr s)[k := p\<lparr>j_pc := J_Return\<rparr>])" if "joinMain s = A_Wait"
      using that by (simp add: join_mutex_ok_def)
    ultimately show ?thesis unfolding t' using J_Signal p by (cases "joinMain s = A_Wait") (auto simp: defs intro!: put_c put0)
  next
    case J_Return
    then show ?thesis using t by (simp add: join_thread_def p_def)
  qed
qed

text \<open>Steps of the main thread.\<close>

lemma join_mutex_main:
  assumes "join_mutex_ok m c ps"
  shows "m = None \<Longrightarrow> main_holds c' \<Longrightarrow> join_mutex_ok (Some 0) c' ps"
    and "m = Some 0 \<Longrightarrow> \<not> main_holds c' \<Longrightarrow> join_mutex_ok None c' ps"
    and "main_holds c = main_holds c' \<Longrightarrow> join_mutex_ok m c' ps"
  using assms unfolding join_mutex_ok_def by (auto 0 3)

lemma join_ok_main:
  assumes "join_ok s" "joinMain s \<noteq> A_Create" "c \<noteq> A_Create" "join_mutex_ok m c (thr s)" "jEnded s = None" "scanned c (thr s)"
    "c \<in> {A_Lock, A_Check, A_Wait, A_Relock} \<longrightarrow> 0 < numLive s" "c = A_Wait \<longrightarrow> numUnjoined s = 0"
  shows "join_ok (s\<lparr>threadMutex := m, joinMain := c\<rparr>)"
proof -
  have "\<not> (c = A_Wait \<and> 0 < numUnjoined s)" using assms(8) by auto
  then show ?thesis using assms(1-7) unfolding join_ok_def by (cases "c = A_Wait") simp_all
qed

lemma terminated_counts:
  assumes "join_ok s" "k < length (thr s)" "j_state (thr s ! k) = TS_TERMINATED"
  shows "0 < numUnjoined s"
proof -
  have "terminated (thr s ! k) \<in> set (map terminated (thr s))" using nth_mem [OF assms(2)] by simp
  then have "terminated (thr s ! k) \<le> sum_list (map terminated (thr s))"
    by (rule member_le_sum_list) (auto simp: terminated_def)
  then show ?thesis using assms by (simp add: join_ok_def terminated_def)
qed

lemma none_terminated:
  assumes "join_ok s" "\<forall>p\<in>set (thr s). j_state p \<noteq> TS_TERMINATED"
  shows "numUnjoined s = 0"
proof -
  have "map terminated (thr s) = map (\<lambda>_. 0) (thr s)" using assms(2) by (simp add: terminated_def)
  then have "sum_list (map terminated (thr s)) = 0" by (simp only: sum_list_0)
  then show ?thesis using assms(1) by (simp add: join_ok_def)
qed

lemma create_join_ok:
  assumes ok: "join_ok s" and e: "jEnded s = None" and c: "joinMain s = A_Create" and t: "join_main s = Some t"
  shows "join_ok t"
proof (cases "length (thr s) < argCount s")
  case True
  have "join_mutex_ok (threadMutex s) A_Create (thr s @ [\<lparr>j_pc = J_Work, j_state = TS_ALIVE\<rparr>])"
    using ok c by (auto simp: join_ok_def join_mutex_ok_def nth_append in_mutex_def)
  then show ?thesis using True ok e c t by (auto simp: join_main_def join_ok_def jthread_ok_def terminated_def scanned_def)
next
  case False
  have "map unjoined (thr s) = map (\<lambda>_. 1) (thr s)" using ok c by (auto simp: join_ok_def unjoined_def)
  then have "sum_list (map unjoined (thr s)) = int (length (thr s))" by (simp only: sum_list_triv mult_1_right of_nat_id)
  moreover have "join_mutex_ok (threadMutex s) A_Test (thr s)" using ok c join_mutex_main(3) [of _ A_Create] by (simp add: join_ok_def)
  ultimately show ?thesis using False ok e c t by (auto simp: join_main_def join_ok_def scanned_def)
qed

lemma reap_ok:
  assumes ok: "join_ok s" and e: "jEnded s = None" and c: "joinMain s = A_Join i" and r: "j_pc (thr s ! i) = J_Return"
  shows "join_ok (reap i s)"
proof -
  have i: "i < length (thr s)" "\<forall>j<i. j_state (thr s ! j) \<noteq> TS_TERMINATED" "j_state (thr s ! i) = TS_TERMINATED"
    using ok c by (auto simp: join_ok_def scanned_def)
  define p where "p = (thr s ! i)\<lparr>j_state := TS_JOINED\<rparr>"
  have nth: "(thr s)[i := p] ! j = (if j = i then p else thr s ! j)" for j using i(1) by (auto simp: nth_list_update)
  have "jthread_ok p" "\<forall>q\<in>set (thr s). jthread_ok q" using ok r by (simp_all add: join_ok_def p_def jthread_ok_def)
  then have "\<forall>q\<in>set ((thr s)[i := p]). jthread_ok q" using set_update_subset_insert [of "thr s" i p] by blast
  moreover have "sum_list (map terminated ((thr s)[i := p])) = numUnjoined s - 1"
    using sum_list_map_update [OF i(1), of terminated p] ok i(3) by (simp add: join_ok_def p_def terminated_def)
  moreover have "sum_list (map unjoined ((thr s)[i := p])) = numLive s - 1"
    using sum_list_map_update [OF i(1), of unjoined p] ok i(3) c by (simp add: join_ok_def p_def unjoined_def)
  moreover have "join_mutex_ok (threadMutex s) (A_Join i) ((thr s)[i := p])"
    using ok c i(1) by (intro join_mutexI(1)) (auto simp: join_ok_def p_def in_mutex_def)
  then have "join_mutex_ok (threadMutex s) (A_For (Suc i)) ((thr s)[i := p])" using join_mutex_main(3) by fastforce
  moreover have "scanned (A_For (Suc i)) ((thr s)[i := p])" using i by (auto simp: scanned_def nth p_def less_Suc_eq)
  moreover have "length (thr s) = argCount s" "totThreads s = argCount s" using ok c by (simp_all add: join_ok_def)
  ultimately have "join_ok (put_thr i p (s\<lparr>numLive := numLive s - 1, numUnjoined := numUnjoined s - 1, reaped := r, joinMain := A_For (i + 1)\<rparr>))" for r
    unfolding join_ok_def put_thr_def by (simp add: e)
  then show ?thesis by (simp only: reap_def p_def [symmetric])
qed

lemma join_main_ok:
  assumes ok: "join_ok s" and e: "jEnded s = None" and t: "join_main s = Some t"
  shows "join_ok t"
proof -
  have m: "join_mutex_ok (threadMutex s) (joinMain s) (thr s)" and sc: "scanned (joinMain s) (thr s)"
    and live: "joinMain s \<in> {A_Lock, A_Check, A_Wait, A_Relock} \<longrightarrow> 0 < numLive s" using ok by (simp_all add: join_ok_def)
  note go = join_ok_main [OF ok _ _ _ e] and mx = join_mutex_main [OF m]
  have keep: "s\<lparr>threadMutex := threadMutex s, joinMain := c\<rparr> = s\<lparr>joinMain := c\<rparr>" for c by simp
  note go0 = go [where m = "threadMutex s", unfolded keep]
  have held: "main_holds (joinMain s) \<Longrightarrow> threadMutex s = Some 0" using m by (simp add: join_mutex_ok_def)
  show ?thesis
  proof (cases "joinMain s")
    case A_Create
    then show ?thesis using create_join_ok [OF ok e] t by blast
  next
    case A_Test
    then have t': "t = (if 0 < numLive s then s\<lparr>joinMain := A_Lock\<rparr> else s\<lparr>jEnded := Some (Exit 0)\<rparr>)" using t by (simp add: join_main_def)
    show ?thesis
    proof (cases "0 < numLive s")
      case True
      then show ?thesis using A_Test unfolding t' by (auto intro!: go0 mx(3) scanned_idle)
    next
      case False
      then show ?thesis using A_Test ok unfolding t' by (simp add: join_ok_def)
    qed
  next
    case A_Lock
    then show ?thesis using t live by (auto simp: join_main_def grab_def scanned_def intro!: go mx(1) split: if_splits)
  next
    case A_Check
    then show ?thesis using t live held by (auto simp: join_main_def scanned_def intro!: go go0 mx(2,3) split: if_splits)
  next
    case A_Wait
    then show ?thesis using t by (simp add: join_main_def)
  next
    case A_Relock
    then show ?thesis using t live by (auto simp: join_main_def grab_def scanned_def intro!: go mx(1) split: if_splits)
  next
    case (A_For i)
    have tot: "totThreads s = length (thr s)" using ok A_For by (simp add: join_ok_def)
    define c where "c = (if i < totThreads s then (if j_state (thr s ! i) = TS_TERMINATED then A_Join i else A_For (i + 1)) else A_Unlock)"
    have "t = s\<lparr>joinMain := c\<rparr>" using t A_For by (simp add: join_main_def c_def)
    moreover have "scanned c (thr s)" using sc A_For tot by (auto simp: scanned_def c_def less_Suc_eq all_set_conv_all_nth)
    moreover have "main_holds c" "c \<noteq> A_Create" "c \<notin> {A_Lock, A_Check, A_Wait, A_Relock}" by (simp_all add: c_def)
    ultimately show ?thesis using A_For by (auto intro!: go0 mx(3))
  next
    case (A_Join i)
    then show ?thesis using t reap_ok [OF ok e A_Join] by (auto simp: join_main_def split: if_splits)
  next
    case A_Unlock
    then show ?thesis using t held by (auto simp: join_main_def intro!: go mx(2) scanned_idle)
  qed
qed

lemma multijoin_ok:
  assumes "join_ok s" "multijoin e s = Some t"
  shows "join_ok t"
proof (cases e)
  case (Run k)
  then show ?thesis using assms join_main_ok [OF assms(1)] join_thread_ok [OF assms(1), of "k - 1" t] by (auto split: if_splits)
next
  case Spurious
  then have t: "jEnded s = None" "joinMain s = A_Wait" "t = s\<lparr>joinMain := A_Relock\<rparr>" using assms(2) by (auto split: if_splits)
  moreover have "join_mutex_ok (threadMutex s) A_Relock (thr s)" using assms(1) t(2) join_mutex_main(3) [of _ A_Wait] by (simp add: join_ok_def)
  ultimately show ?thesis using assms(1) by (simp add: join_ok_def scanned_def)
next
  case (Fail k)
  then have "t = s\<lparr>jEnded := Some (Exit 1)\<rparr>" using assms(2) by (auto split: if_splits)
  moreover have "joinMain s = A_Wait \<and> 0 < numUnjoined s \<longrightarrow> (\<exists>k<length (thr s). will_signal (thr s ! k))"
    using assms(1) unfolding join_ok_def by blast
  ultimately show ?thesis using assms(1) unfolding join_ok_def by (cases "joinMain s = A_Create") simp_all
qed

section \<open>What the main thread prints\<close>

text \<open>The threads that have been reaped are the joined ones, and the number of live threads is printed counting down.\<close>

definition joined :: "jthread list \<Rightarrow> nat set" where
  "joined ps = {k. k < length ps \<and> j_state (ps ! k) = TS_JOINED}"

definition reaped_ok :: "joiner \<Rightarrow> bool" where
  "reaped_ok s \<longleftrightarrow> distinct (map fst (reaped s)) \<and> set (map fst (reaped s)) = joined (thr s) \<and> map snd (reaped s) = (if joinMain s = A_Create then [] else rev [numLive s..int (argCount s) - 1])"

lemma reaped_same:
  assumes "reaped_ok s" "reaped t = reaped s" "argCount t = argCount s" "joinMain s \<noteq> A_Create \<Longrightarrow> joinMain t \<noteq> A_Create \<and> numLive t = numLive s"
    "joinMain s = A_Create \<Longrightarrow> joinMain t = A_Create \<or> numLive t = int (argCount s)"
    "joined (thr t) = joined (thr s)"
  shows "reaped_ok t"
  using assms unfolding reaped_ok_def by (cases "joinMain s = A_Create"; cases "joinMain t = A_Create") auto

lemma joined_put:
  assumes "k < length ps" "(j_state p = TS_JOINED) = (j_state (ps ! k) = TS_JOINED)"
  shows "joined (ps[k := p]) = joined ps"
  using assms by (auto simp: joined_def nth_list_update)

lemma reaped_thread:
  assumes "join_ok s" "reaped_ok s" "k < length (thr s)" "join_thread k s = Some t"
  shows "reaped_ok t"
proof -
  have p: "jthread_ok (thr s ! k)" using assms(1) nth_mem [OF assms(3)] by (auto simp: join_ok_def)
  have go: "reaped_ok (put_thr k q u)"
    if "thr u = thr s" "reaped u = reaped s" "argCount u = argCount s" "numLive u = numLive s" "(joinMain u = A_Create) = (joinMain s = A_Create)"
      "(j_state q = TS_JOINED) = (j_state (thr s ! k) = TS_JOINED)" for q u
    using that by (intro reaped_same [OF assms(2)]) (simp_all add: put_thr_def joined_put [OF assms(3)])
  show ?thesis
    using assms(4) p by (cases "j_pc (thr s ! k)") (auto simp: join_thread_def grab_def Let_def jthread_ok_def intro!: go split: if_splits)
qed

lemma reaped_main:
  assumes ok: "join_ok s" and r: "reaped_ok s" and t: "join_main s = Some t"
  shows "reaped_ok t"
proof (cases "\<exists>i. joinMain s = A_Join i")
  case True
  then obtain i where c: "joinMain s = A_Join i" by blast
  then have t': "t = reap i s" using t by (auto simp: join_main_def split: if_splits)
  have i: "i < length (thr s)" "j_state (thr s ! i) = TS_TERMINATED" using ok c by (auto simp: join_ok_def scanned_def)
  have "sum_list (map unjoined (thr s)) \<le> sum_list (map (\<lambda>_. 1) (thr s))" by (intro sum_list_mono) (simp add: unjoined_def)
  moreover have "sum_list (map (\<lambda>_. 1 :: int) (thr s)) = int (length (thr s))" by (simp only: sum_list_triv mult_1_right)
  ultimately have "numLive s \<le> int (argCount s)" using ok c by (simp add: join_ok_def)
  then have "[numLive s - 1..int (argCount s) - 1] = (numLive s - 1) # [numLive s..int (argCount s) - 1]"
    using upto_rec1 [of "numLive s - 1" "int (argCount s) - 1"] by simp
  moreover have "joined ((thr s)[i := (thr s ! i)\<lparr>j_state := TS_JOINED\<rparr>]) = insert i (joined (thr s))" "i \<notin> joined (thr s)"
    using i by (auto simp: joined_def nth_list_update)
  ultimately show ?thesis using r c unfolding t' reaped_ok_def reap_def put_thr_def by auto
next
  case False
  have app: "joined (ps @ [\<lparr>j_pc = J_Work, j_state = TS_ALIVE\<rparr>]) = joined ps" for ps by (auto simp: joined_def nth_append)
  from False show ?thesis
    using t by (cases "joinMain s") (auto simp: join_main_def grab_def app intro!: reaped_same [OF r] split: if_splits)
qed

lemma multijoin_reaped:
  assumes "join_ok s" "reaped_ok s" "multijoin e s = Some t"
  shows "reaped_ok t"
proof (cases e)
  case (Run k)
  then show ?thesis using assms reaped_main [OF assms(1,2)] reaped_thread [OF assms(1,2), of "k - 1" t] by (auto split: if_splits)
qed (use assms in \<open>auto intro!: reaped_same [OF assms(2)] split: if_splits\<close>)

section \<open>Termination and absence of deadlock\<close>

definition thread_rank :: "join_pc \<Rightarrow> nat" where
  "thread_rank c = (case c of J_Work \<Rightarrow> 9 | J_Lock \<Rightarrow> 8 | J_Mark \<Rightarrow> 7 | J_Unlock \<Rightarrow> 6 | J_Signal \<Rightarrow> 5 | J_Return \<Rightarrow> 0)"

text \<open>A thread that has not been joined pays for the rounds of the main loop that reap it.\<close>

definition thread_fuel :: "nat \<Rightarrow> jthread \<Rightarrow> nat" where
  "thread_fuel n p = thread_rank (j_pc p) + (if j_state p = TS_JOINED then 0 else 4 * n + 10)"

definition main_join_rank :: "nat \<Rightarrow> nat \<Rightarrow> int \<Rightarrow> main_join_pc \<Rightarrow> nat" where
  "main_join_rank n created u c =
     (case c of A_Create \<Rightarrow> (n - created) * (4 * n + 20) + 2 * n + 5 | A_Test \<Rightarrow> 2 * n + 4 | A_Lock \<Rightarrow> 2 * n + 3 | A_Check \<Rightarrow> 2 * n + 2
      | A_Wait \<Rightarrow> 2 * n + 1 | A_Relock \<Rightarrow> 2 * n + 3
      | A_For i \<Rightarrow> (if 0 < u then 0 else 2 * n + 6) + 2 * (n - i) | A_Join i \<Rightarrow> 2 * (n - i) - 1 | A_Unlock \<Rightarrow> 2 * n + 5)"

definition join_fuel :: "joiner \<Rightarrow> nat" where
  "join_fuel s =
     (if jEnded s \<noteq> None then 0
      else 1 + sum_list (map (thread_fuel (argCount s)) (thr s)) + main_join_rank (argCount s) (length (thr s)) (numUnjoined s) (joinMain s))"

lemma join_thread_paid:
  assumes ok: "join_ok s" and k: "k < length (thr s)" and e: "jEnded s = None" and t: "join_thread k s = Some t"
  shows "join_fuel t < join_fuel s"
proof -
  define p where "p = thr s ! k"
  define rank where "rank u = main_join_rank (argCount s) (length (thr s)) u" for u
  have p: "jthread_ok p" using ok nth_mem [OF k] unfolding join_ok_def p_def by blast
  have m: "join_mutex_ok (threadMutex s) (joinMain s) (thr s)" using ok by (simp add: join_ok_def)
  have less: "join_fuel (put_thr k q u) < join_fuel s"
    if "thr u = thr s" "argCount u = argCount s" "(j_state q = TS_JOINED) = (j_state p = TS_JOINED)"
      "thread_rank (j_pc q) + rank (numUnjoined u) (joinMain u) < thread_rank (j_pc p) + rank (numUnjoined s) (joinMain s)" for q u
    using that e sum_list_map_update_nat [OF k, of "thread_fuel (argCount s)" q, folded p_def]
    by (simp add: join_fuel_def put_thr_def thread_fuel_def rank_def)
  show ?thesis
  proof (cases "j_pc p")
    case J_Mark
    then have "threadMutex s = Some (Suc k)" using m k by (auto simp: join_mutex_ok_def in_mutex_def p_def)
    then have "\<not> main_holds (joinMain s)" using m by (auto simp: join_mutex_ok_def)
    then have "rank (numUnjoined s + 1) (joinMain s) = rank (numUnjoined s) (joinMain s)"
      by (cases "joinMain s") (simp_all add: rank_def main_join_rank_def)
    then show ?thesis using J_Mark t p
      by (auto simp: join_thread_def Let_def p_def [symmetric] thread_rank_def jthread_ok_def intro!: less)
  next
    case J_Signal
    then have t': "t = put_thr k (p\<lparr>j_pc := J_Return\<rparr>) (if joinMain s = A_Wait then s\<lparr>joinMain := A_Relock\<rparr> else s)"
      using t by (simp add: join_thread_def Let_def p_def)
    show ?thesis unfolding t' using J_Signal by (intro less) (simp_all add: thread_rank_def rank_def main_join_rank_def)
  next
    case J_Lock
    then show ?thesis
      using t by (auto simp: join_thread_def grab_def Let_def p_def [symmetric] thread_rank_def intro!: less split: if_splits)
  qed (use t in \<open>auto simp: join_thread_def Let_def p_def [symmetric] thread_rank_def intro!: less\<close>)
qed

lemma reap_paid:
  assumes "join_ok s" "jEnded s = None" "joinMain s = A_Join i"
  shows "join_fuel (reap i s) < join_fuel s"
proof -
  have i: "i < length (thr s)" "j_state (thr s ! i) = TS_TERMINATED" "length (thr s) = argCount s"
    using assms by (auto simp: join_ok_def scanned_def)
  define f where "f = thread_fuel (argCount s)"
  have "sum_list (map f ((thr s)[i := (thr s ! i)\<lparr>j_state := TS_JOINED\<rparr>])) + (4 * argCount s + 10) = sum_list (map f (thr s))"
    using sum_list_map_update_nat [OF i(1), of f "(thr s ! i)\<lparr>j_state := TS_JOINED\<rparr>"] i(2) by (simp add: f_def thread_fuel_def)
  moreover obtain d where "argCount s - i = Suc d" "argCount s - Suc i = d" "d < argCount s"
    using i(1,3) by (intro that [of "argCount s - Suc i"]) simp_all
  ultimately show ?thesis using assms(2,3) i(1,3) by (simp add: join_fuel_def reap_def put_thr_def main_join_rank_def f_def [symmetric])
qed

lemma join_main_paid:
  assumes ok: "join_ok s" and e: "jEnded s = None" and t: "join_main s = Some t"
  shows "join_fuel t < join_fuel s"
proof -
  have stop: "join_fuel (s\<lparr>jEnded := Some r\<rparr>) < join_fuel s" for r using e by (simp add: join_fuel_def)
  have less: "join_fuel u < join_fuel s"
    if "thr u = thr s" "argCount u = argCount s" "numUnjoined u = numUnjoined s" "jEnded u = None"
      "main_join_rank (argCount s) (length (thr s)) (numUnjoined s) (joinMain u) <
       main_join_rank (argCount s) (length (thr s)) (numUnjoined s) (joinMain s)" for u
    using that e by (simp add: join_fuel_def)
  have pos: "numUnjoined s \<noteq> 0 \<Longrightarrow> 0 < numUnjoined s" using count_nonneg(1) [of "thr s"] ok by (simp add: join_ok_def)
  show ?thesis
  proof (cases "joinMain s")
    case A_Create
    show ?thesis
    proof (cases "length (thr s) < argCount s")
      case True
      then obtain d where "argCount s - length (thr s) = Suc d" "argCount s - Suc (length (thr s)) = d" by (metis Suc_diff_Suc)
      then show ?thesis
        using True t A_Create e by (auto simp: join_main_def join_fuel_def main_join_rank_def thread_fuel_def thread_rank_def)
    next
      case False
      then show ?thesis using t A_Create e by (auto simp: join_main_def join_fuel_def main_join_rank_def)
    qed
  next
    case A_Test
    then show ?thesis using t e stop [of "Exit 0"] by (cases "0 < numLive s") (auto simp: join_main_def main_join_rank_def intro: less)
  next
    case (A_For i)
    have n: "length (thr s) = argCount s" "totThreads s = argCount s" and i: "i \<le> argCount s" "\<forall>j<i. j_state (thr s ! j) \<noteq> TS_TERMINATED"
      using ok A_For by (auto simp: join_ok_def scanned_def)
    consider "i < argCount s" "j_state (thr s ! i) = TS_TERMINATED" | "i < argCount s" "j_state (thr s ! i) \<noteq> TS_TERMINATED" | "i = argCount s"
      using i(1) by linarith
    then show ?thesis
    proof cases
      case 1
      then have "0 < numUnjoined s" using terminated_counts [OF ok] n(1) by simp
      then show ?thesis using 1 A_For t e n by (auto simp: join_main_def main_join_rank_def intro!: less)
    next
      case 2
      then show ?thesis using A_For t e n by (auto simp: join_main_def main_join_rank_def intro!: less)
    next
      case 3
      then have "numUnjoined s = 0" using none_terminated [OF ok] i(2) n(1) by (simp add: all_set_conv_all_nth)
      then show ?thesis using 3 A_For t e n by (auto simp: join_main_def main_join_rank_def intro!: less)
    qed
  next
    case (A_Join i)
    then show ?thesis using t reap_paid [OF ok e A_Join] by (auto simp: join_main_def split: if_splits)
  qed (use t e pos in \<open>auto simp: join_main_def grab_def main_join_rank_def intro!: less split: if_splits\<close>)
qed

lemma multijoin_paid:
  assumes "join_ok s" "multijoin e s = Some t"
  shows "join_fuel t < join_fuel s + pay e"
proof (cases e)
  case (Run k)
  then show ?thesis
    using assms join_main_paid [OF assms(1)] join_thread_paid [OF assms(1), of "k - 1" t] by (auto simp: pay_def split: if_splits)
next
  case Spurious
  then show ?thesis using assms(2) by (auto simp: pay_def join_fuel_def main_join_rank_def split: if_splits)
next
  case (Fail k)
  then show ?thesis using assms(2) by (auto simp: pay_def join_fuel_def split: if_splits)
qed

lemma multijoin_thread_enabled:
  assumes "k < length (thr s)" "jEnded s = None" "j_pc (thr s ! k) \<noteq> J_Return" "j_pc (thr s ! k) = J_Lock \<Longrightarrow> threadMutex s = None"
  shows "\<exists>t. multijoin (Run (Suc k)) s = Some t"
  using assms by (cases "j_pc (thr s ! k)") (auto simp: join_thread_def grab_def Let_def)

lemma main_enabled: "jEnded s = None \<Longrightarrow> join_main s \<noteq> None \<Longrightarrow> \<exists>k t. multijoin (Run k) s = Some t"
  by (intro exI [of _ 0]) auto

declare multijoin.simps [simp del]

lemma wait_progress:
  assumes ok: "join_ok s" and c: "joinMain s = A_Wait"
  shows "\<exists>k<length (thr s). j_pc (thr s ! k) \<noteq> J_Return"
proof (cases "0 < numUnjoined s")
  case True
  then show ?thesis using ok c by (auto simp: join_ok_def will_signal_def)
next
  case False
  then have "sum_list (map terminated (thr s)) < sum_list (map unjoined (thr s))" using ok c by (simp add: join_ok_def)
  from sum_list_less_nth [OF this] obtain k where k: "k < length (thr s)" "terminated (thr s ! k) < unjoined (thr s ! k)" by blast
  then have "j_state (thr s ! k) = TS_ALIVE" by (cases "j_state (thr s ! k)") (simp_all add: terminated_def unjoined_def)
  moreover have "jthread_ok (thr s ! k)" using ok nth_mem [OF k(1)] by (auto simp: join_ok_def)
  ultimately have "j_pc (thr s ! k) \<noteq> J_Return" by (auto simp: jthread_ok_def)
  then show ?thesis using k(1) by blast
qed

lemma multijoin_progress:
  assumes ok: "join_ok s" and e: "jEnded s = None"
  shows "\<exists>k t. multijoin (Run k) s = Some t"
proof -
  have m: "join_mutex_ok (threadMutex s) (joinMain s) (thr s)" using ok by (simp add: join_ok_def)
  have thread: "\<exists>k t. multijoin (Run k) s = Some t"
    if "k < length (thr s)" "j_pc (thr s ! k) \<noteq> J_Return" "j_pc (thr s ! k) = J_Lock \<Longrightarrow> threadMutex s = None" for k
    using multijoin_thread_enabled [OF that(1) e that(2,3)] by blast
  show ?thesis
  proof (cases "threadMutex s")
    case None
    then have "\<not> main_holds (joinMain s)" using m by (simp add: join_mutex_ok_def)
    then show ?thesis
      using None wait_progress [OF ok] thread main_enabled [OF e] by (cases "joinMain s = A_Wait"; cases "joinMain s") (auto simp: join_main_def grab_def)
  next
    case (Some j)
    show ?thesis
    proof (cases j)
      case (Suc k)
      then have "k < length (thr s)" "in_mutex (thr s ! k)" using Some m by (auto simp: join_mutex_ok_def)
      then show ?thesis by (intro thread [of k]) (auto simp: in_mutex_def)
    next
      case 0
      then have h: "main_holds (joinMain s)" using Some m by (simp add: join_mutex_ok_def)
      show ?thesis
      proof (cases "\<exists>i. joinMain s = A_Join i")
        case True
        then obtain i where i: "joinMain s = A_Join i" by blast
        then have t: "i < length (thr s)" "j_state (thr s ! i) = TS_TERMINATED" using ok by (auto simp: join_ok_def scanned_def)
        then have "jthread_ok (thr s ! i)" using ok nth_mem [OF t(1)] by (auto simp: join_ok_def)
        then have "j_pc (thr s ! i) \<noteq> J_Lock" using t(2) by (auto simp: jthread_ok_def)
        then show ?thesis using i t(1) thread [of i] main_enabled [OF e] by (cases "j_pc (thr s ! i) = J_Return") (auto simp: join_main_def)
      next
        case False
        then show ?thesis using h main_enabled [OF e] by (cases "joinMain s") (auto simp: join_main_def)
      qed
    qed
  qed
qed

lemma start_reaped: "reaped_ok (join_start n)"
  by (simp add: reaped_ok_def join_start_def joined_def)

interpretation joining: progressing multijoin "\<lambda>s. \<exists>n. s = join_start n" "\<lambda>s. join_ok s \<and> reaped_ok s" join_fuel pay "\<lambda>s. jEnded s \<noteq> None"
proof
  show "\<exists>e t. pay e = 0 \<and> multijoin e s = Some t" if "join_ok s \<and> reaped_ok s" "\<not> jEnded s \<noteq> None" for s
    using multijoin_progress [of s] that unfolding pay_def by (metis sched.distinct(1))
qed (use join_start_ok start_reaped multijoin_ok multijoin_reaped multijoin_paid in auto)

lemma join_frame:
  assumes "join_main s = Some t \<or> join_thread k s = Some t" "jEnded s = None"
  shows "jEnded t \<noteq> Some (Exit 1)" "argCount t = argCount s"
proof -
  have "jEnded t \<noteq> Some (Exit 1) \<and> argCount t = argCount s" if "join_main s = Some t"
    using that assms(2) by (cases "joinMain s") (auto simp: join_main_def grab_def reap_def put_thr_def split: if_splits)
  moreover have "jEnded t \<noteq> Some (Exit 1) \<and> argCount t = argCount s" if "join_thread k s = Some t"
    using that assms(2) by (cases "j_pc (thr s ! k)") (auto simp: join_thread_def grab_def put_thr_def Let_def split: if_splits)
  ultimately show "jEnded t \<noteq> Some (Exit 1)" "argCount t = argCount s" using assms(1) by auto
qed

lemma join_step_frame:
  assumes "multijoin e s = Some t"
  shows "argCount t = argCount s" "jEnded t = Some (Exit 1) \<Longrightarrow> \<exists>k. e = Fail k"
  using assms join_frame [of s t] by (cases e; auto simp: multijoin.simps split: if_splits)+

lemma join_run_frame:
  assumes "run multijoin es s = Some t" "jEnded s = None"
  shows "argCount t = argCount s \<and> (jEnded t = Some (Exit 1) \<longrightarrow> (\<exists>k. Fail k \<in> set es))"
  using assms
proof (induction es arbitrary: t rule: rev_induct)
  case (snoc e es)
  then obtain u where u: "run multijoin es s = Some u" "multijoin e u = Some t" by (auto simp: run_append split: option.splits)
  then show ?case using snoc.IH [OF u(1) snoc.prems(2)] join_step_frame [OF u(2)] by auto
qed simp

text \<open>What holds when \<open>main()\<close> leaves its loop.\<close>

lemma all_joined:
  assumes "join_ok s" "reaped_ok s" "jEnded s = Some (Exit 0)"
  shows "distinct (map fst (reaped s))" "set (map fst (reaped s)) = {..<argCount s}" "map snd (reaped s) = rev [0..int (argCount s) - 1]"
proof -
  have s: "joinMain s = A_Test" "numLive s \<le> 0" "length (thr s) = argCount s" "sum_list (map unjoined (thr s)) = numLive s"
    using assms(1,3) by (auto simp: join_ok_def)
  then have z: "numLive s = 0" using count_nonneg(2) [of "thr s"] by simp
  moreover have "0 \<le> x" if "x \<in> set (map unjoined (thr s))" for x using that by (auto simp: unjoined_def split: if_splits)
  ultimately have "\<forall>x\<in>set (map unjoined (thr s)). x = 0"
    using s(4) sum_list_nonneg_eq_0_iff [of "map unjoined (thr s)"] by simp
  then have "\<forall>p\<in>set (thr s). unjoined p = 0" by simp
  then have "\<forall>p\<in>set (thr s). j_state p = TS_JOINED" by (metis unjoined_def zero_neq_one)
  then have "joined (thr s) = {..<argCount s}" using s(3) by (auto simp: joined_def)
  then show "distinct (map fst (reaped s))" "set (map fst (reaped s)) = {..<argCount s}" using assms(2) by (simp_all add: reaped_ok_def)
  show "map snd (reaped s) = rev [0..int (argCount s) - 1]" using assms(2) s(1) z by (simp add: reaped_ok_def)
qed

section \<open>Properties\<close>

text \<open>
  C25: joining in the order of termination. In every schedule of the \<open>n\<close> threads for \<open>n\<close> arguments and the main thread the number of steps is
  bounded, apart from three for each spurious wake-up; as long as the process has not
  ended some thread can go on, so that \<open>pthread_join()\<close> under the mutex does not deadlock and no wake-up is lost; and
  when it ends without a failing library call every thread has been reaped exactly once, and
  the numbers of live threads that it prints count down from \<open>n - 1\<close> to 0.
\<close>

theorem multijoin_completes:
  assumes s: "multijoin_begin calloc_ok args = Inr s" and t: "run multijoin es s = Some t" and n: "n = length args"
  shows "length es \<le> join_fuel s + 3 * count_list es Spurious \<and>
    (case jEnded t of
       None \<Rightarrow> \<exists>k u. multijoin (Run k) t = Some u
     | Some r \<Rightarrow> r = Exit 1 \<and> (\<exists>k. Fail k \<in> set es) \<or>
         r = Exit 0 \<and> distinct (map fst (reaped t)) \<and> set (map fst (reaped t)) = {..<n} \<and> map snd (reaped t) = rev [0..int n - 1])"
proof -
  have s: "s = join_start n" using s n by (simp add: multijoin_begin_def split: if_splits)
  then have ok0: "join_ok s \<and> reaped_ok s" using join_start_ok start_reaped by blast
  then have ok: "join_ok t" "reaped_ok t" using joining.inv_run [OF _ t] by blast+
  have r: "r = Exit 1 \<or> r = Exit 0" if "jEnded t = Some r" for r using that ok(1) by (auto simp: join_ok_def)
  have f: "argCount t = n \<and> (jEnded t = Some (Exit 1) \<longrightarrow> (\<exists>k. Fail k \<in> set es))"
    using join_run_frame [OF t] s by (simp add: join_start_def)
  have "length es \<le> join_fuel s + 3 * count_list es Spurious" using joining.run_bound [OF ok0 t] by (simp add: pay_total)
  then show ?thesis using multijoin_progress [OF ok(1)] all_joined [OF ok] r f by (auto split: option.split)
qed

theorem multijoin_completes_witness:
  "\<exists>t. run multijoin (replicate 2 (Run 0) @ replicate 5 (Run 1) @ replicate 8 (Run 0)) (join_start 1) = Some t \<and>
     jEnded t = Some (Exit 0) \<and> set (map fst (reaped t)) = {..<1} \<and> map snd (reaped t) = [0]"
proof -
  let ?es = "replicate 2 (Run 0) @ replicate 5 (Run 1) @ replicate 8 (Run 0)"
  have "map_option jEnded (run multijoin ?es (join_start 1)) = Some (Some (Exit 0))" by code_simp
  then obtain t where t: "run multijoin ?es (join_start 1) = Some t" "jEnded t = Some (Exit 0)" by auto
  have b: "multijoin_begin True [''3''] = Inr (join_start 1)" by code_simp
  show ?thesis using multijoin_completes [OF b t(1) refl] t by auto
qed

end
