(* ===== verification/Acl_Update.thy ===== *)
theory Acl_Update
  imports Tlpi_Text "HOL-Library.Multiset"
begin

text \<open>
  Access control lists (\<open>acl/acl_update.c\<close>): the parser of the textual form, the options of the
  program and the update of the list of a file.

  The ACL library is the record \<open>libacl\<close>; its lists, entries and permission sets are opaque
  values, as in C. \<open>libacl_ok\<close> is what its manual pages say of the functions that the program
  calls, in terms of the entries of a list: when they succeed, given enough memory, and what they then do.
\<close>

section \<open>Parsing\<close>

definition MAX_ENTRIES :: nat where "MAX_ENTRIES = 10000"

datatype acl_tag = ACL_USER_OBJ | ACL_USER | ACL_GROUP_OBJ | ACL_GROUP | ACL_MASK | ACL_OTHER

definition ACL_READ :: "32 word" where "ACL_READ = 4"
definition ACL_WRITE :: "32 word" where "ACL_WRITE = 2"
definition ACL_EXECUTE :: "32 word" where "ACL_EXECUTE = 1"

text \<open>An entry; \<open>perms\<close> is \<open>None\<close> as long as it was not set.\<close>

record AccessControlEntry =
  tag :: acl_tag
  qual :: id_t
  perms :: "32 word option"

text \<open>The loop over the permission string: the bad character, or the bit mask.\<close>

fun parse_perms :: "string \<Rightarrow> 32 word \<Rightarrow> char + 32 word" where
  "parse_perms [] acc = Inr acc"
| "parse_perms (c # cs) acc =
     (if c = CHR ''r'' then parse_perms cs (or acc ACL_READ)
      else if c = CHR ''w'' then parse_perms cs (or acc ACL_WRITE)
      else if c = CHR ''x'' then parse_perms cs (or acc ACL_EXECUTE)
      else if c \<noteq> CHR ''-'' then Inl c
      else parse_perms cs acc)"

definition tag_of :: "string \<Rightarrow> bool \<Rightarrow> acl_tag option" where
  "tag_of t hasQual =
     (if strcmp t ''u'' = 0 \<or> strcmp t ''user'' = 0 then Some (if hasQual then ACL_USER else ACL_USER_OBJ)
      else if strcmp t ''g'' = 0 \<or> strcmp t ''group'' = 0 then Some (if hasQual then ACL_GROUP else ACL_GROUP_OBJ)
      else if strcmp t ''o'' = 0 \<or> strcmp t ''other'' = 0 then Some ACL_OTHER
      else if strcmp t ''m'' = 0 \<or> strcmp t ''mask'' = 0 then Some ACL_MASK
      else None)"

text \<open>The message on failure, or the entry.\<close>

definition parseEntrySpec :: "id_db \<Rightarrow> id_db \<Rightarrow> string \<Rightarrow> bool \<Rightarrow> msg + AccessControlEntry" where
  "parseEntrySpec pw gr entryStr permsReqd =
     (case cut_at CHR '':'' entryStr of
        (t, None) \<Rightarrow> Inl (''Missing initial colon in ACL entry: %s\<newline>'', [ArgS entryStr])
      | (t, Some r) \<Rightarrow>
          let hasQual = (char_at r 0 \<noteq> CHR 0x00 \<and> char_at r 0 \<noteq> CHR '':'');
              (q, r2) = cut_at CHR '':'' r;
              hasPerms = (case r2 of None \<Rightarrow> False | Some p \<Rightarrow> p \<noteq> [])
          in if hasPerms \<and> \<not> permsReqd then Inl (''Cannot specify permissions here\<newline>'', [])
             else if \<not> hasPerms \<and> permsReqd then Inl (''Must specify permissions\<newline>'', [])
             else (case tag_of t hasQual of
                 None \<Rightarrow> Inl (''Bad tag: %s\<newline>'', [ArgS t])
               | Some tg \<Rightarrow>
                   let ql = (if tg = ACL_USER then userIdFromName pw (Some q)
                             else if tg = ACL_GROUP then groupIdFromName gr (Some q) else 0)
                   in if tg = ACL_USER \<and> ql = -1 then Inl (''Bad user ID: %s\<newline>'', [ArgS q])
                      else if tg = ACL_GROUP \<and> ql = -1 then Inl (''Bad group ID: %s\<newline>'', [ArgS q])
                      else if hasPerms then
                        (case parse_perms (the r2) 0 of
                           Inl c \<Rightarrow> Inl (''Bad character in permissions string: %c\<newline>'', [ArgI (byte c)])
                         | Inr p \<Rightarrow> Inr \<lparr>tag = tg, qual = ql, perms = Some p\<rparr>)
                      else Inr \<lparr>tag = tg, qual = ql, perms = None\<rparr>))"

lemma cut_at_shorter: "cut_at c s = (e, Some r) \<Longrightarrow> length r < length s"
proof -
  assume "cut_at c s = (e, Some r)"
  then have r: "c \<in> set s" "r = tl (dropWhile (\<lambda>x. x \<noteq> c) s)" by (auto simp: cut_at_def split: if_splits)
  then have "0 < length s" by auto
  then show "length r < length s" using length_dropWhile_le [of "\<lambda>x. x \<noteq> c" s] unfolding r(2) length_tl by linarith
qed

text \<open>\<open>acc\<close> is the part of the array \<open>aclist\<close> that is filled.\<close>

function parse_entries :: "id_db \<Rightarrow> id_db \<Rightarrow> bool \<Rightarrow> string \<Rightarrow> AccessControlEntry list \<Rightarrow> msg + AccessControlEntry list" where
  "parse_entries pw gr permsReqd nextEntry acc =
     (if length acc \<ge> MAX_ENTRIES then Inl (''Too many entries in ACL\<newline>'', [])
      else case cut_at CHR '','' nextEntry of (e, rest) \<Rightarrow>
        (case parseEntrySpec pw gr e permsReqd of
           Inl m \<Rightarrow> Inl m
         | Inr ace \<Rightarrow>
             (case rest of None \<Rightarrow> Inr (acc @ [ace]) | Some r \<Rightarrow> parse_entries pw gr permsReqd r (acc @ [ace]))))"
  by pat_completeness auto
termination
  by (relation "measure (\<lambda>(pw, gr, b, s, acc). length s)") (auto dest: cut_at_shorter sym)

declare parse_entries.simps [simp del]

definition parseACL :: "id_db \<Rightarrow> id_db \<Rightarrow> string \<Rightarrow> bool \<Rightarrow> msg + AccessControlEntry list" where
  "parseACL pw gr aclStr permsReqd = parse_entries pw gr permsReqd aclStr []"

section \<open>The update of a file\<close>

text \<open>
  The library. \<open>acl_walk\<close> is what the calls of \<open>acl_get_entry()\<close> from the first entry on deliver, and whether
  they end with 0 (not with -1). The last argument of the file functions is the state of the file system.
\<close>

record ('a, 'e, 'p, 'w) libacl =
  acl_get_file :: "string \<Rightarrow> bool \<Rightarrow> 'w \<Rightarrow> 'a option"
  acl_walk :: "'a \<Rightarrow> 'e list \<times> bool"
  acl_get_tag_type :: "'a \<Rightarrow> 'e \<Rightarrow> acl_tag option"
  acl_get_qualifier :: "'a \<Rightarrow> 'e \<Rightarrow> id_t option"
  acl_delete_entry :: "'a \<Rightarrow> 'e \<Rightarrow> 'a option"
  acl_create_entry :: "'a \<Rightarrow> ('a \<times> 'e) option"
  acl_set_tag_type :: "'a \<Rightarrow> 'e \<Rightarrow> acl_tag \<Rightarrow> 'a option"
  acl_set_qualifier :: "'a \<Rightarrow> 'e \<Rightarrow> id_t \<Rightarrow> 'a option"
  acl_get_permset :: "'a \<Rightarrow> 'e \<Rightarrow> 'p option"
  acl_clear_perms :: "'p \<Rightarrow> 'p option"
  acl_add_perm :: "'p \<Rightarrow> 32 word \<Rightarrow> 'p option"
  acl_set_permset :: "'a \<Rightarrow> 'e \<Rightarrow> 'p \<Rightarrow> 'a option"
  acl_calc_mask :: "'a \<Rightarrow> 'a option"
  acl_valid :: "'a \<Rightarrow> bool"
  acl_set_file :: "string \<Rightarrow> bool \<Rightarrow> 'a \<Rightarrow> 'w \<Rightarrow> 'w option"
  acl_delete_def_file :: "string \<Rightarrow> 'w \<Rightarrow> 'w option"
  acl_free_ok :: bool

text \<open>A call that failed ends the process with \<open>errExit()\<close>; an entry without permissions must not be read.\<close>

datatype acl_error = Failed string | Unset

fun sbind :: "'x + 'b \<Rightarrow> ('b \<Rightarrow> 'x + 'c) \<Rightarrow> 'x + 'c" where
  "sbind (Inl x) f = Inl x"
| "sbind (Inr b) f = f b"

definition orFail :: "string \<Rightarrow> 'b option \<Rightarrow> acl_error + 'b" where
  "orFail msg r = (case r of None \<Rightarrow> Inl (Failed msg) | Some b \<Rightarrow> Inr b)"

fun findEntry :: "('a, 'e, 'p, 'w) libacl \<Rightarrow> 'a \<Rightarrow> acl_tag \<Rightarrow> id_t \<Rightarrow> 'e list \<Rightarrow> bool \<Rightarrow> acl_error + 'e option" where
  "findEntry L a tg q [] ended = (if ended then Inr None else Inl (Failed ''acl_get_entry''))"
| "findEntry L a tg q (e # es) ended =
     sbind (orFail ''acl_get_tag_type'' (acl_get_tag_type L a e)) (\<lambda>entryTag.
       if tg = entryTag then
         if tg = ACL_USER \<or> tg = ACL_GROUP then
           sbind (orFail ''acl_get_qualifier'' (acl_get_qualifier L a e)) (\<lambda>ql.
             if \<not> acl_free_ok L then Inl (Failed ''acl_free'')
             else if q = ql then Inr (Some e) else findEntry L a tg q es ended)
         else Inr (Some e)
       else findEntry L a tg q es ended)"

definition add_if :: "('a, 'e, 'p, 'w) libacl \<Rightarrow> 32 word \<Rightarrow> 32 word \<Rightarrow> 'p \<Rightarrow> acl_error + 'p" where
  "add_if L ps x permset = (if and ps x \<noteq> 0 then orFail ''acl_add_perm'' (acl_add_perm L permset x) else Inr permset)"

definition setPerms :: "('a, 'e, 'p, 'w) libacl \<Rightarrow> 'a \<Rightarrow> 'e \<Rightarrow> 32 word \<Rightarrow> acl_error + 'a" where
  "setPerms L a e ps =
     sbind (orFail ''acl_get_permset'' (acl_get_permset L a e)) (\<lambda>permset.
     sbind (orFail ''acl_clear_perms'' (acl_clear_perms L permset)) (\<lambda>permset.
     sbind (add_if L ps ACL_READ permset) (\<lambda>permset.
     sbind (add_if L ps ACL_WRITE permset) (\<lambda>permset.
     sbind (add_if L ps ACL_EXECUTE permset) (\<lambda>permset.
     orFail ''acl_set_permset'' (acl_set_permset L a e permset))))))"

text \<open>\<open>enum Operation\<close>.\<close>

datatype acl_operation = unspecifiedOp | modifyEntries | removeEntries | removeDefaultACL | checkValidACL

text \<open>A new entry with the tag and the qualifier of \<open>ace\<close>.\<close>

definition new_entry :: "('a, 'e, 'p, 'w) libacl \<Rightarrow> 'a \<Rightarrow> AccessControlEntry \<Rightarrow> acl_error + 'a \<times> 'e" where
  "new_entry L a ace =
     sbind (orFail ''acl_create_entry'' (acl_create_entry L a)) (\<lambda>(a, e).
     sbind (orFail ''acl_set_tag_type'' (acl_set_tag_type L a e (tag ace))) (\<lambda>a.
     if tag ace = ACL_USER \<or> tag ace = ACL_GROUP
     then sbind (orFail ''acl_set_qualifier'' (acl_set_qualifier L a e (qual ace))) (\<lambda>a. Inr (a, e))
     else Inr (a, e)))"

text \<open>The change of the list for one entry of the specification, and the recalculation of the mask after it.\<close>

definition change_entry :: "('a, 'e, 'p, 'w) libacl \<Rightarrow> acl_operation \<Rightarrow> AccessControlEntry \<Rightarrow> 'a \<Rightarrow> acl_error + 'a" where
  "change_entry L operation ace a =
     sbind (case acl_walk L a of (es, ended) \<Rightarrow> findEntry L a (tag ace) (qual ace) es ended) (\<lambda>entry.
     if operation = removeEntries then
       (case entry of None \<Rightarrow> Inr a | Some e \<Rightarrow> orFail ''acl_delete_entry'' (acl_delete_entry L a e))
     else
       sbind (case entry of Some e \<Rightarrow> Inr (a, e) | None \<Rightarrow> new_entry L a ace) (\<lambda>(a, e).
         case perms ace of None \<Rightarrow> Inl Unset | Some p \<Rightarrow> setPerms L a e p))"

definition apply_entry :: "('a, 'e, 'p, 'w) libacl \<Rightarrow> acl_operation \<Rightarrow> bool \<Rightarrow> AccessControlEntry \<Rightarrow> 'a \<Rightarrow> acl_error + 'a" where
  "apply_entry L operation recalcMask ace a =
     sbind (change_entry L operation ace a) (\<lambda>a.
       if recalcMask then orFail ''acl_calc_mask'' (acl_calc_mask L a) else Inr a)"

record 'w acl_proc =
  ap_files :: 'w
  ap_stderr :: "msg list"
  ap_stdout :: "string list"

definition acl_errExit :: "string \<Rightarrow> 'w acl_proc \<Rightarrow> ('b, 'w acl_proc) outcome" where
  "acl_errExit m s = Stop (Exit 1) (s\<lparr>ap_stderr := ap_stderr s @ [(m, [])]\<rparr>)"

fun update_loop :: "('a, 'e, 'p, 'w) libacl \<Rightarrow> string \<Rightarrow> bool \<Rightarrow> acl_operation \<Rightarrow> bool \<Rightarrow> AccessControlEntry list \<Rightarrow> 'a
    \<Rightarrow> 'w acl_proc \<Rightarrow> (unit, 'w acl_proc) outcome" where
  "update_loop L file useDefaultACL operation recalcMask [] a s =
     (if acl_free_ok L then Ret () s else acl_errExit ''acl_free'' s)"
| "update_loop L file useDefaultACL operation recalcMask (ace # aces) a s =
     (case apply_entry L operation recalcMask ace a of
        Inl (Failed m) \<Rightarrow> acl_errExit m s
      | Inl Unset \<Rightarrow> Stop (Undefined ''permissions not set'') s
      | Inr a \<Rightarrow>
          if \<not> acl_valid L a then acl_errExit ''acl_valid'' s
          else (case acl_set_file L file useDefaultACL a (ap_files s) of
              None \<Rightarrow> acl_errExit ''acl_set_file'' s
            | Some w \<Rightarrow> update_loop L file useDefaultACL operation recalcMask aces a (s\<lparr>ap_files := w\<rparr>)))"

definition updateACL :: "('a, 'e, 'p, 'w) libacl \<Rightarrow> string \<Rightarrow> bool \<Rightarrow> AccessControlEntry list \<Rightarrow> acl_operation \<Rightarrow> bool
    \<Rightarrow> 'w acl_proc \<Rightarrow> (unit, 'w acl_proc) outcome" where
  "updateACL L file useDefaultACL aclist operation recalcMask s =
     (case acl_get_file L file useDefaultACL (ap_files s) of
        None \<Rightarrow> acl_errExit ''acl_get_file'' s
      | Some a \<Rightarrow> update_loop L file useDefaultACL operation recalcMask aclist a s)"

section \<open>The program\<close>

definition acl_usage :: "string \<Rightarrow> string option \<Rightarrow> bool \<Rightarrow> 'w acl_proc \<Rightarrow> ('b, 'w acl_proc) outcome" where
  "acl_usage progName m shortUsage s =
     (let s = (case m of None \<Rightarrow> s | Some t \<Rightarrow> s\<lparr>ap_stderr := ap_stderr s @ [(''%s\<newline>'', [ArgS t])]\<rparr>) in
      Stop (Exit 1) (s\<lparr>ap_stderr := ap_stderr s @ (if shortUsage then [(''Type '%s --help' for usage information\<newline>'', [ArgS progName])]
        else [(''Usage: %s -m acl [-d] [-n] file...\<newline>'', [ArgS progName]), (''   or: %s -x acl [-d] [-n] file...\<newline>'', [ArgS progName]),
          (''   or: %s -k file...\<newline>\<newline>'', [ArgS progName]), (''   or: %s -V acl\<newline>\<newline>'', [ArgS progName]),
          (''      -m  Modify/create ACL entries\<newline>'', []), (''      -x  Remove ACL entries\<newline>'', []),
          (''      -k  Remove default ACL\<newline>\<newline>'', []), (''      -V  Check validity of 'acl'\<newline>\<newline>'', []),
          (''      'acl' consists of one or more comma-separated entries of the form:\<newline>'', []),
          (''      \<newline>            tag:[qualifier][:[perms]]\<newline>\<newline>'', []), (''            'perms' are specified only for -m\<newline>\<newline>'', []),
          (''      -d  Apply operation to default ACL\<newline>'', []), (''      -n  Don't recalculate mask entry\<newline>'', []),
          (''            NOTE: if you specify this option and have specified\<newline>'', []),
          (''            the -m option, then you may encounter errors if the\<newline>'', []),
          (''            file does not already have a mask entry.\<newline>'', [])])\<rparr>))"

record acl_opts =
  ao_operation :: acl_operation
  ao_recalcMask :: bool
  ao_useDefaultACL :: bool
  ao_optCnt :: nat
  ao_aclSpec :: string

text \<open>The options as \<open>getopt()\<close> delivers them.\<close>

fun acl_options :: "string \<Rightarrow> (char \<times> string) list \<Rightarrow> acl_opts \<Rightarrow> 'w acl_proc \<Rightarrow> (acl_opts, 'w acl_proc) outcome" where
  "acl_options prog [] o' s = Ret o' s"
| "acl_options prog ((c, optarg) # os) o' s =
     (if c = CHR ''m'' then acl_options prog os (o'\<lparr>ao_operation := modifyEntries, ao_aclSpec := optarg, ao_optCnt := ao_optCnt o' + 1\<rparr>) s
      else if c = CHR ''x'' then acl_options prog os (o'\<lparr>ao_operation := removeEntries, ao_aclSpec := optarg, ao_optCnt := ao_optCnt o' + 1\<rparr>) s
      else if c = CHR ''k'' then acl_options prog os (o'\<lparr>ao_operation := removeDefaultACL, ao_optCnt := ao_optCnt o' + 1\<rparr>) s
      else if c = CHR ''V'' then acl_options prog os (o'\<lparr>ao_operation := checkValidACL, ao_aclSpec := optarg, ao_optCnt := ao_optCnt o' + 1\<rparr>) s
      else if c = CHR ''d'' then acl_options prog os (o'\<lparr>ao_useDefaultACL := True\<rparr>) s
      else if c = CHR ''n'' then acl_options prog os (o'\<lparr>ao_recalcMask := False\<rparr>) s
      else acl_usage prog (Some ''Bad option\<newline>'') True s)"

fun acl_files :: "('a, 'e, 'p, 'w) libacl \<Rightarrow> acl_opts \<Rightarrow> AccessControlEntry list \<Rightarrow> string list \<Rightarrow> 'w acl_proc \<Rightarrow> (unit, 'w acl_proc) outcome" where
  "acl_files L o' aclist [] s = Ret () s"
| "acl_files L o' aclist (f # fs) s =
     bnd (if ao_operation o' = removeDefaultACL then
            (case acl_delete_def_file L f (ap_files s) of
               None \<Rightarrow> acl_errExit (''acl_delete_def_file: '' @ f) s
             | Some w \<Rightarrow> Ret () (s\<lparr>ap_files := w\<rparr>))
          else if ao_operation o' = modifyEntries \<or> ao_operation o' = removeEntries then
            updateACL L f (ao_useDefaultACL o') aclist (ao_operation o') (ao_recalcMask o') s
          else acl_errExit ''Bad logic!'' s)
       (\<lambda>_ s. acl_files L o' aclist fs s)"

definition acl_report :: "msg \<Rightarrow> 'w acl_proc \<Rightarrow> 'w acl_proc" where
  "acl_report m s = s\<lparr>ap_stderr := ap_stderr s @ [m]\<rparr>"

text \<open>\<open>main()\<close>: \<open>first\<close> is the first argument, \<open>os\<close> and \<open>files\<close> what \<open>getopt()\<close> makes of all of them.\<close>

definition acl_main :: "('a, 'e, 'p, 'w) libacl \<Rightarrow> id_db \<Rightarrow> id_db \<Rightarrow> string \<Rightarrow> string option \<Rightarrow> (char \<times> string) list \<Rightarrow> string list
    \<Rightarrow> 'w acl_proc \<Rightarrow> (unit, 'w acl_proc) outcome" where
  "acl_main L pw gr prog first os files s =
     (if first = None \<or> first = Some ''--help'' then acl_usage prog None False s
      else bnd (acl_options prog os \<lparr>ao_operation = unspecifiedOp, ao_recalcMask = True, ao_useDefaultACL = False, ao_optCnt = 0, ao_aclSpec = []\<rparr> s) (\<lambda>o' s.
        if ao_optCnt o' \<noteq> 1 then acl_usage prog (Some ''Specify exactly one of -m, -x, -k, or -V\<newline>'') True s
        else if ao_operation o' = checkValidACL \<and> ao_useDefaultACL o' then acl_usage prog (Some ''Can't specify -d with -V\<newline>'') True s
        else if ao_operation o' = checkValidACL then
          (case parseACL pw gr (ao_aclSpec o') True of
             Inl m \<Rightarrow> acl_errExit ''Bad ACL entry specification'' (acl_report m s)
           | Inr as \<Rightarrow> Stop (Exit 0) (s\<lparr>ap_stdout := ap_stdout s @ [''ACL is valid\<newline>'']\<rparr>))
        else
          bnd (if ao_operation o' = modifyEntries \<or> ao_operation o' = removeEntries then
                 (case parseACL pw gr (ao_aclSpec o') (ao_operation o' = modifyEntries) of
                    Inl m \<Rightarrow> acl_usage prog (Some ''Bad ACL specification\<newline>'') True (acl_report m s)
                  | Inr as \<Rightarrow> Ret as s)
               else Ret [] s) (\<lambda>aclist s.
          bnd (acl_files L o' aclist files s) (\<lambda>_ s. Stop (Exit 0) s))))"

section \<open>The textual form\<close>

definition perm_text :: "32 word \<Rightarrow> string" where
  "perm_text p = [if bit p 2 then CHR ''r'' else CHR ''-'', if bit p 1 then CHR ''w'' else CHR ''-'', if bit p 0 then CHR ''x'' else CHR ''-'']"

definition ace_text :: "AccessControlEntry \<Rightarrow> string" where
  "ace_text ace =
     (case tag ace of
        ACL_USER_OBJ \<Rightarrow> ''u:'' | ACL_USER \<Rightarrow> ''u:'' @ dec_of_int (uint (qual ace))
      | ACL_GROUP_OBJ \<Rightarrow> ''g:'' | ACL_GROUP \<Rightarrow> ''g:'' @ dec_of_int (uint (qual ace))
      | ACL_MASK \<Rightarrow> ''m:'' | ACL_OTHER \<Rightarrow> ''o:'') @
     (case perms ace of None \<Rightarrow> [] | Some p \<Rightarrow> CHR '':'' # perm_text p)"

fun acl_text :: "AccessControlEntry list \<Rightarrow> string" where
  "acl_text [] = []"
| "acl_text [a] = ace_text a"
| "acl_text (a # as) = ace_text a @ CHR '','' # acl_text as"

definition ace_ok :: "bool \<Rightarrow> AccessControlEntry \<Rightarrow> bool" where
  "ace_ok permsReqd ace \<longleftrightarrow> (case perms ace of None \<Rightarrow> \<not> permsReqd | Some p \<Rightarrow> permsReqd \<and> p < 8) \<and>
     (if tag ace \<in> {ACL_USER, ACL_GROUP} then qual ace \<noteq> -1 else qual ace = 0)"

lemma small_words: "p < 8 \<Longrightarrow> p \<in> {0, 1, 2, 3, 4, 5, 6, 7 :: 32 word}"
proof -
  assume "p < 8"
  then have "unat p < 8" by (simp add: word_less_nat_alt)
  then have "unat p \<in> {0, 1, 2, 3, 4, 5, 6, 7}" by auto
  then have "(of_nat (unat p) :: 32 word) \<in> of_nat ` {0, 1, 2, 3, 4, 5, 6, 7}" by (rule imageI)
  then show ?thesis by simp
qed

lemma parse_perm_text: "p < 8 \<Longrightarrow> parse_perms (perm_text p) 0 = Inr p"
proof -
  have "\<forall>p\<in>{0, 1, 2, 3, 4, 5, 6, 7}. parse_perms (perm_text p) 0 = Inr p" by code_simp
  then show "p < 8 \<Longrightarrow> parse_perms (perm_text p) 0 = Inr p" using small_words by blast
qed

lemma text_chars: "CHR '','' \<notin> set (dec_of_int i)" "CHR '','' \<notin> set (perm_text p)"
  using dec_int_chars [of "CHR '',''" i] by (auto simp: byte_def perm_text_def)

lemma ace_text_no_comma: "CHR '','' \<notin> set (ace_text ace)"
  using text_chars by (auto simp: ace_text_def split: acl_tag.split option.split)

lemma dec_head_char: "char_at (dec_of_int (uint (i :: id_t)) @ s) 0 \<noteq> CHR 0x00 \<and> char_at (dec_of_int (uint i) @ s) 0 \<noteq> CHR '':''"
proof -
  obtain c cs where c: "dec_of_int (uint i) = c # cs"
    using dec_head [of "nat (uint i)"] by (cases "dec_of_int (uint i)") (auto simp: dec_of_int_def)
  then have "c = CHR ''-'' \<or> 48 \<le> byte c \<and> byte c \<le> 57" using dec_int_chars [of c "uint i"] by simp
  then show ?thesis using c by (auto simp: char_at_def byte_def)
qed

lemma parse_ace_text:
  assumes "ace_ok b ace"
  shows "parseEntrySpec pw gr (ace_text ace) b = Inr ace"
proof -
  have cut: "cut_at CHR '':'' (CHR '':'' # x) = ([], Some x)" "cut_at CHR '':'' [] = ([], None)"
    "cut_at CHR '':'' (dec_of_int i) = (dec_of_int i, None)" "cut_at CHR '':'' (dec_of_int i @ CHR '':'' # x) = (dec_of_int i, Some x)" for x i
    using cut_at_append [of "CHR '':''" "[]" x] cut_at_append [OF no_separators(2), of i x] cut_at_none [OF no_separators(2), of i]
    by (simp_all add: cut_at_none)
  have cut1: "cut_at CHR '':'' (c # CHR '':'' # x) = ([c], Some x)" if "c \<noteq> CHR '':''" for c x
    using that cut_at_append [of "CHR '':''" "[c]" x] by simp
  have pt: "perm_text p \<noteq> []" for p by (simp add: perm_text_def)
  have head: "char_at (dec_of_int (uint i)) 0 \<noteq> CHR 0x00" "char_at (dec_of_int (uint i)) 0 \<noteq> CHR '':''" for i :: id_t
    using dec_head_char [of i "[]"] by simp_all
  have h0: "char_at [] 0 = CHR 0x00" "char_at (CHR '':'' # x) 0 = CHR '':''" for x by (simp_all add: char_at_def)
  note facts = parseEntrySpec_def ace_text_def ace_ok_def cut cut1 pt head h0 dec_head_char tag_of_def parse_perm_text users.number_back groups.number_back Let_def
  show ?thesis
    using assms by (cases ace; cases "tag ace"; cases "perms ace") (simp_all add: facts)
qed

lemma parse_acl_text:
  assumes "as \<noteq> []" "\<forall>a\<in>set as. ace_ok b a"
  shows "parse_entries pw gr b (acl_text as) acc =
    (if length acc + length as \<le> MAX_ENTRIES then Inr (acc @ as) else Inl (''Too many entries in ACL\<newline>'', []))"
  using assms
proof (induction as arbitrary: acc rule: acl_text.induct)
  case (2 a)
  then show ?case using parse_ace_text [of b a] cut_at_none [OF ace_text_no_comma] by (subst parse_entries.simps) simp
next
  case (3 a a' as)
  have "parse_entries pw gr b (acl_text (a' # as)) (acc @ [a]) =
      (if length (acc @ [a]) + length (a' # as) \<le> MAX_ENTRIES then Inr ((acc @ [a]) @ a' # as) else Inl (''Too many entries in ACL\<newline>'', []))"
    by (rule "3.IH") (use 3 in auto)
  moreover have "cut_at CHR '','' (acl_text (a # a' # as)) = (ace_text a, Some (acl_text (a' # as)))"
    using cut_at_append [OF ace_text_no_comma] by simp
  ultimately show ?case
    using 3(3) parse_ace_text [of b a] by (subst parse_entries.simps) auto
qed simp

section \<open>The contract of the library\<close>

type_synonym 'e acl_view = "('e \<times> acl_tag option \<times> id_t \<times> 32 word) list"

text \<open>
  The entries of a list in the order in which the calls of \<open>acl_get_entry()\<close> deliver them. A tag is \<open>None\<close> until it is
  set. What identifies an entry is the tag, and for users and groups the qualifier.
\<close>

definition acl_key :: "acl_tag \<Rightarrow> id_t \<Rightarrow> acl_tag \<times> id_t" where
  "acl_key t q = (t, if t = ACL_USER \<or> t = ACL_GROUP then q else 0)"

definition view_keys :: "'e acl_view \<Rightarrow> (acl_tag \<times> id_t) list" where
  "view_keys v = map (\<lambda>(e, t, q, p). acl_key (the t) q) v"

definition view_map :: "'e acl_view \<Rightarrow> acl_tag \<times> id_t \<rightharpoonup> 32 word" where
  "view_map v = map_of (map (\<lambda>(e, t, q, p). (acl_key (the t) q, p)) v)"

definition settled :: "'e acl_view \<Rightarrow> bool" where
  "settled v \<longleftrightarrow> list_all (\<lambda>(e, t, q, p). t \<noteq> None) v"

definition at_entry :: "'e \<Rightarrow> (acl_tag option \<times> id_t \<times> 32 word \<Rightarrow> acl_tag option \<times> id_t \<times> 32 word) \<Rightarrow> 'e acl_view \<Rightarrow> 'e acl_view" where
  "at_entry e f v = map (\<lambda>(x, y). (x, if x = e then f y else y)) v"

text \<open>Two lists that agree, apart from the mask when it is recalculated.\<close>

definition agree :: "bool \<Rightarrow> (acl_tag \<times> id_t \<rightharpoonup> 32 word) \<Rightarrow> (acl_tag \<times> id_t \<rightharpoonup> 32 word) \<Rightarrow> bool" where
  "agree recalc m m' \<longleftrightarrow> (\<forall>k. recalc \<and> fst k = ACL_MASK \<or> m k = m' k)"

text \<open>
  The manual pages of libacl, with enough memory. \<open>view\<close> gives the entries of a list, \<open>None\<close> if the value is not a
  list; \<open>bits\<close> gives the permissions in a set, \<open>None\<close> if the value is not a permission set. An entry is found as long as it
  is in the list; creating one gives a new entry without a tag. The functions that change an entry succeed on an entry of a
  list and leave the others as they are (in which order the entries stand afterwards is not said): \<open>acl_set_qualifier()\<close> if
  the tag is that of a user or a group, \<open>acl_add_perm()\<close> for the three permissions. \<open>acl_calc_mask()\<close> changes the
  mask entry only; what was set for a file is what is read.
\<close>

definition gives :: "('a \<Rightarrow> 'e acl_view option) \<Rightarrow> 'a option \<Rightarrow> 'e acl_view \<Rightarrow> bool" where
  "gives view r v \<longleftrightarrow> (\<exists>b w. r = Some b \<and> view b = Some w \<and> mset w = mset v)"

definition entries_ok :: "('a, 'e, 'p, 'w) libacl \<Rightarrow> ('a \<Rightarrow> 'e acl_view option) \<Rightarrow> bool" where
  "entries_ok L view \<longleftrightarrow> (\<forall>a v. view a = Some v \<longrightarrow>
     acl_walk L a = (map fst v, True) \<and> distinct (map fst v) \<and>
     (\<forall>e t q p. (e, Some t, q, p) \<in> set v \<longrightarrow> acl_get_tag_type L a e = Some t \<and>
        ((t = ACL_USER \<or> t = ACL_GROUP) \<longrightarrow> acl_get_qualifier L a e = Some q)))"

definition create_ok :: "('a, 'e, 'p, 'w) libacl \<Rightarrow> ('a \<Rightarrow> 'e acl_view option) \<Rightarrow> bool" where
  "create_ok L view \<longleftrightarrow> (\<forall>a v. view a = Some v \<longrightarrow> (\<exists>b e q p. acl_create_entry L a = Some (b, e) \<and>
     e \<notin> fst ` set v \<and> gives view (Some b) (v @ [(e, None, q, p)])))"

definition change_ok :: "('a, 'e, 'p, 'w) libacl \<Rightarrow> ('a \<Rightarrow> 'e acl_view option) \<Rightarrow> ('p \<Rightarrow> 32 word option) \<Rightarrow> bool" where
  "change_ok L view bits \<longleftrightarrow> (\<forall>a v e. view a = Some v \<and> e \<in> fst ` set v \<longrightarrow>
     gives view (acl_delete_entry L a e) (filter (\<lambda>x. fst x \<noteq> e) v) \<and>
     (\<forall>t. \<exists>q p. gives view (acl_set_tag_type L a e t) (at_entry e (\<lambda>_. (Some t, q, p)) v)) \<and>
     (\<forall>t q p q'. (e, Some t, q, p) \<in> set v \<and> (t = ACL_USER \<or> t = ACL_GROUP) \<longrightarrow>
        gives view (acl_set_qualifier L a e q') (at_entry e (\<lambda>(t, _, p). (t, q', p)) v)) \<and>
     (\<forall>ps x. bits ps = Some x \<longrightarrow> gives view (acl_set_permset L a e ps) (at_entry e (\<lambda>(t, q, _). (t, q, x)) v)) \<and>
     (\<exists>ps x. acl_get_permset L a e = Some ps \<and> bits ps = Some x))"

definition permset_ok :: "('a, 'e, 'p, 'w) libacl \<Rightarrow> ('p \<Rightarrow> 32 word option) \<Rightarrow> bool" where
  "permset_ok L bits \<longleftrightarrow> (\<forall>ps x. bits ps = Some x \<longrightarrow>
     (\<exists>ps'. acl_clear_perms L ps = Some ps' \<and> bits ps' = Some 0) \<and>
     (\<forall>y \<in> {ACL_READ, ACL_WRITE, ACL_EXECUTE}. \<exists>ps'. acl_add_perm L ps y = Some ps' \<and> bits ps' = Some (or x y)))"

definition mask_ok :: "('a, 'e, 'p, 'w) libacl \<Rightarrow> ('a \<Rightarrow> 'e acl_view option) \<Rightarrow> bool" where
  "mask_ok L view \<longleftrightarrow> (\<forall>a v. view a = Some v \<and> settled v \<and> distinct (view_keys v) \<longrightarrow>
     (\<exists>b w. acl_calc_mask L a = Some b \<and> view b = Some w \<and> settled w \<and> distinct (view_keys w) \<and>
        agree True (view_map w) (view_map v)))"

definition file_ok :: "('a, 'e, 'p, 'w) libacl \<Rightarrow> ('a \<Rightarrow> 'e acl_view option) \<Rightarrow> bool" where
  "file_ok L view \<longleftrightarrow> (\<forall>f d a v w w'. view a = Some v \<and> settled v \<and> distinct (view_keys v) \<and> acl_set_file L f d a w = Some w' \<longrightarrow>
     (\<exists>b u. acl_get_file L f d w' = Some b \<and> view b = Some u \<and> view_map u = view_map v))"

definition libacl_ok :: "('a, 'e, 'p, 'w) libacl \<Rightarrow> ('a \<Rightarrow> 'e acl_view option) \<Rightarrow> ('p \<Rightarrow> 32 word option) \<Rightarrow> bool" where
  "libacl_ok L view bits \<longleftrightarrow> entries_ok L view \<and> create_ok L view \<and> change_ok L view bits \<and> permset_ok L bits \<and> mask_ok L view \<and>
     file_ok L view \<and> acl_free_ok L"

text \<open>What one entry of a specification asks for.\<close>

definition acl_change :: "acl_operation \<Rightarrow> AccessControlEntry \<Rightarrow> (acl_tag \<times> id_t \<rightharpoonup> 32 word) \<Rightarrow> acl_tag \<times> id_t \<rightharpoonup> 32 word" where
  "acl_change operation ace m = m(acl_key (tag ace) (qual ace) := (if operation = removeEntries then None else perms ace))"

lemma libD:
  assumes "libacl_ok L view bits"
  shows "entries_ok L view" "create_ok L view" "change_ok L view bits" "permset_ok L bits" "mask_ok L view" "file_ok L view" "acl_free_ok L"
  using assms by (simp_all add: libacl_ok_def)

lemma changeD:
  assumes "libacl_ok L view bits" "view a = Some v" "e \<in> fst ` set v"
  shows "gives view (acl_delete_entry L a e) (filter (\<lambda>x. fst x \<noteq> e) v)"
    "\<exists>q p. gives view (acl_set_tag_type L a e t) (at_entry e (\<lambda>_. (Some t, q, p)) v)"
    "(e, Some t, q, p) \<in> set v \<Longrightarrow> t = ACL_USER \<or> t = ACL_GROUP \<Longrightarrow>
       gives view (acl_set_qualifier L a e q') (at_entry e (\<lambda>(t, _, p). (t, q', p)) v)"
    "bits ps = Some x \<Longrightarrow> gives view (acl_set_permset L a e ps) (at_entry e (\<lambda>(t, q, _). (t, q, x)) v)"
    "\<exists>ps x. acl_get_permset L a e = Some ps \<and> bits ps = Some x"
proof -
  note c = libD(3) [OF assms(1), unfolded change_ok_def, THEN spec, THEN spec, THEN spec, THEN mp, OF conjI, OF assms(2,3)]
  show "gives view (acl_delete_entry L a e) (filter (\<lambda>x. fst x \<noteq> e) v)" using c by (elim conjE)
  show "\<exists>ps x. acl_get_permset L a e = Some ps \<and> bits ps = Some x" using c by (elim conjE)
  have "\<forall>t. \<exists>q p. gives view (acl_set_tag_type L a e t) (at_entry e (\<lambda>_. (Some t, q, p)) v)"
    using c by (elim conjE)
  then show "\<exists>q p. gives view (acl_set_tag_type L a e t) (at_entry e (\<lambda>_. (Some t, q, p)) v)" by (rule spec)
  have "\<forall>t q p q'. (e, Some t, q, p) \<in> set v \<and> (t = ACL_USER \<or> t = ACL_GROUP) \<longrightarrow>
      gives view (acl_set_qualifier L a e q') (at_entry e (\<lambda>(t, _, p). (t, q', p)) v)"
    using c by (elim conjE)
  then show "(e, Some t, q, p) \<in> set v \<Longrightarrow> t = ACL_USER \<or> t = ACL_GROUP \<Longrightarrow>
      gives view (acl_set_qualifier L a e q') (at_entry e (\<lambda>(t, _, p). (t, q', p)) v)" by blast
  have "\<forall>ps x. bits ps = Some x \<longrightarrow> gives view (acl_set_permset L a e ps) (at_entry e (\<lambda>(t, q, _). (t, q, x)) v)"
    using c by (elim conjE)
  then show "bits ps = Some x \<Longrightarrow> gives view (acl_set_permset L a e ps) (at_entry e (\<lambda>(t, q, _). (t, q, x)) v)" by simp
qed

lemma permsetD:
  assumes "libacl_ok L view bits" "bits ps = Some x"
  shows "\<exists>ps'. acl_clear_perms L ps = Some ps' \<and> bits ps' = Some 0"
    "y \<in> {ACL_READ, ACL_WRITE, ACL_EXECUTE} \<Longrightarrow> \<exists>ps'. acl_add_perm L ps y = Some ps' \<and> bits ps' = Some (or x y)"
  using libD(4) [OF assms(1), unfolded permset_ok_def, THEN spec, THEN spec, THEN mp, OF assms(2)] by auto

definition find_key :: "acl_tag \<times> id_t \<Rightarrow> 'e acl_view \<Rightarrow> 'e option" where
  "find_key k v = map_option fst (List.find (\<lambda>(e, t, q, p). acl_key (the t) q = k) v)"

lemma findEntry_view:
  assumes L: "libacl_ok L view bits" and a: "view a = Some v0" and "set v \<subseteq> set v0" "settled v"
  shows "findEntry L a tg q (map fst v) True = Inr (find_key (acl_key tg q) v)"
  using assms(3,4)
proof (induction v)
  case (Cons x v)
  obtain e t ql p where x: "x = (e, Some t, ql, p)" using Cons.prems(2) by (cases x) (auto simp: settled_def)
  then have m: "(e, Some t, ql, p) \<in> set v0" using Cons.prems(1) by simp
  have g: "acl_get_tag_type L a e = Some t" "t = ACL_USER \<or> t = ACL_GROUP \<Longrightarrow> acl_get_qualifier L a e = Some ql"
    using libD(1) [OF L] a m unfolding entries_ok_def by blast+
  have "findEntry L a tg q (map fst v) True = Inr (find_key (acl_key tg q) v)"
    using Cons by (simp add: settled_def)
  then show ?case
    using g libD(7) [OF L] by (auto simp: x orFail_def find_key_def acl_key_def)
qed (simp add: find_key_def)

lemma setPerms_view:
  assumes L: "libacl_ok L view bits" and a: "view a = Some v" and e: "e \<in> fst ` set v" and p: "ps < 8"
  shows "\<exists>b. setPerms L a e ps = Inr b \<and> gives view (Some b) (at_entry e (\<lambda>(t, q, _). (t, q, ps)) v)"
proof -
  have add: "\<exists>s'. add_if L ps y s = Inr s' \<and> bits s' = Some (or x (if and ps y \<noteq> 0 then y else 0))"
    if s: "bits s = Some x" and y: "y \<in> {ACL_READ, ACL_WRITE, ACL_EXECUTE}" for x y s
  proof -
    obtain s' where "acl_add_perm L s y = Some s'" "bits s' = Some (or x y)"
      using permsetD(2) [OF L s y] by auto
    then show ?thesis using s by (simp add: add_if_def orFail_def)
  qed
  obtain s0 x where s0: "acl_get_permset L a e = Some s0" "bits s0 = Some x" using changeD(5) [OF L a e] by auto
  obtain s1 where s1: "acl_clear_perms L s0 = Some s1" "bits s1 = Some 0" using permsetD(1) [OF L s0(2)] by auto
  obtain s2 where s2: "add_if L ps ACL_READ s1 = Inr s2" "bits s2 = Some (or 0 (if and ps ACL_READ \<noteq> 0 then ACL_READ else 0))"
    using add [OF s1(2), of ACL_READ] by auto
  obtain s3 where s3: "add_if L ps ACL_WRITE s2 = Inr s3"
    "bits s3 = Some (or (or 0 (if and ps ACL_READ \<noteq> 0 then ACL_READ else 0)) (if and ps ACL_WRITE \<noteq> 0 then ACL_WRITE else 0))"
    using add [OF s2(2), of ACL_WRITE] by auto
  obtain s4 where s4: "add_if L ps ACL_EXECUTE s3 = Inr s4"
    "bits s4 = Some (or (or (or 0 (if and ps ACL_READ \<noteq> 0 then ACL_READ else 0)) (if and ps ACL_WRITE \<noteq> 0 then ACL_WRITE else 0))
       (if and ps ACL_EXECUTE \<noteq> 0 then ACL_EXECUTE else 0))"
    using add [OF s3(2), of ACL_EXECUTE] by auto
  have "bits s4 = Some ps"
    using small_words [OF p] unfolding s4(2) by (auto simp: ACL_READ_def ACL_WRITE_def ACL_EXECUTE_def)
  then have c: "gives view (acl_set_permset L a e s4) (at_entry e (\<lambda>(t, q, _). (t, q, ps)) v)"
    by (rule changeD(4) [OF L a e])
  then obtain c where "acl_set_permset L a e s4 = Some c" by (auto simp: gives_def)
  then show ?thesis using s0(1) s1(1) s2(1) s3(1) s4(1) c by (simp add: setPerms_def orFail_def)
qed

text \<open>Views: an entry is removed, changed, or added at the end.\<close>

lemma find_key_None: "find_key k v = None \<longleftrightarrow> k \<notin> set (view_keys v)"
  by (auto simp: find_key_def view_keys_def find_None_iff image_iff)

lemma view_map_None: "k \<notin> set (view_keys v) \<Longrightarrow> view_map v k = None"
  by (auto simp: view_keys_def view_map_def map_of_eq_None_iff image_iff)

lemma view_cons:
  "view_map ((e, t, q, p) # v) = (view_map v)(acl_key (the t) q \<mapsto> p)" "view_keys ((e, t, q, p) # v) = acl_key (the t) q # view_keys v"
  "find_key k ((e, t, q, p) # v) = (if acl_key (the t) q = k then Some e else find_key k v)"
  by (simp_all add: view_map_def view_keys_def find_key_def)

lemma find_key_Some: "find_key k v = Some e \<Longrightarrow> e \<in> fst ` set v"
proof (induction v)
  case (Cons x v)
  then show ?case by (cases x) (auto simp: view_cons split: if_splits)
qed (simp add: find_key_def)

lemma filter_absent: "e \<notin> fst ` set v \<Longrightarrow> filter (\<lambda>x. fst x \<noteq> e) v = v"
  by (rule filter_True) force

lemma at_entry_absent: "e \<notin> fst ` set v \<Longrightarrow> at_entry e f v = v"
  unfolding at_entry_def by (rule map_idI) force

lemma at_entry_cons: "at_entry e f ((x, y) # v) = (x, if x = e then f y else y) # at_entry e f v"
  by (simp add: at_entry_def)

lemma view_remove:
  assumes "distinct (map fst v)" "distinct (view_keys v)" "find_key k v = Some e"
  shows "view_map (filter (\<lambda>x. fst x \<noteq> e) v) = (view_map v)(k := None) \<and> distinct (view_keys (filter (\<lambda>x. fst x \<noteq> e) v))"
  using assms
proof (induction v)
  case (Cons x v)
  obtain e' t q p where x: "x = (e', t, q, p)" by (cases x) auto
  have d: "distinct (map fst v)" "distinct (view_keys v)" "e' \<notin> fst ` set v" "acl_key (the t) q \<notin> set (view_keys v)"
    using Cons.prems(1,2) by (auto simp: x view_cons)
  show ?case
  proof (cases "acl_key (the t) q = k")
    case True
    then have "e = e'" using Cons.prems(3) by (simp add: x view_cons)
    then show ?thesis using d True view_map_None [OF d(4)] filter_absent [OF d(3)] by (auto simp: x view_cons)
  next
    case False
    then have f: "find_key k v = Some e" using Cons.prems(3) by (simp add: x view_cons)
    then have "e \<noteq> e'" using find_key_Some d(3) by metis
    moreover have "set (view_keys (filter (\<lambda>x. fst x \<noteq> e) v)) \<subseteq> set (view_keys v)"
      unfolding view_keys_def set_map by (rule image_mono) auto
    ultimately show ?thesis using Cons.IH [OF d(1,2) f] d(4) False by (auto simp: x view_cons fun_upd_twist)
  qed
qed (simp add: find_key_def)

lemma view_change:
  assumes "distinct (map fst v)" "distinct (view_keys v)" "find_key k v = Some e"
  shows "view_map (at_entry e (\<lambda>(t, q, _). (t, q, p)) v) = (view_map v)(k \<mapsto> p) \<and> view_keys (at_entry e (\<lambda>(t, q, _). (t, q, p)) v) = view_keys v"
  using assms
proof (induction v)
  case (Cons x v)
  obtain e' t q p' where x: "x = (e', t, q, p')" by (cases x) auto
  have d: "distinct (map fst v)" "distinct (view_keys v)" "e' \<notin> fst ` set v" "acl_key (the t) q \<notin> set (view_keys v)"
    using Cons.prems(1,2) by (auto simp: x view_cons)
  show ?case
  proof (cases "acl_key (the t) q = k")
    case True
    then have "e = e'" using Cons.prems(3) by (simp add: x view_cons)
    then show ?thesis using d True at_entry_absent [OF d(3)] by (simp add: at_entry_cons x view_cons fun_eq_iff)
  next
    case False
    then have f: "find_key k v = Some e" using Cons.prems(3) by (simp add: x view_cons)
    then have "e \<noteq> e'" using find_key_Some d(3) by metis
    then show ?thesis using Cons.IH [OF d(1,2) f] False by (auto simp: at_entry_cons x view_cons fun_eq_iff)
  qed
qed (simp add: find_key_def)

lemma view_add:
  assumes "distinct (view_keys v)" "acl_key t q \<notin> set (view_keys v)"
  shows "view_map (v @ [(e, Some t, q, p)]) = (view_map v)(acl_key t q \<mapsto> p) \<and> distinct (view_keys (v @ [(e, Some t, q, p)]))"
proof -
  have "view_map v (acl_key t q) = None" by (rule view_map_None [OF assms(2)])
  then have "view_map (v @ [(e, Some t, q, p)]) = (view_map v)(acl_key t q \<mapsto> p)"
    by (intro ext) (auto simp: view_map_def map_add_def split: option.split)
  then show ?thesis using assms by (simp add: view_keys_def)
qed

lemma at_entry_last: "e \<notin> fst ` set v \<Longrightarrow> at_entry e f (v @ [(e, y)]) = v @ [(e, f y)]"
  using at_entry_absent [of e v f] by (simp add: at_entry_def)

text \<open>What is said of a list does not depend on the order of its entries.\<close>

lemma view_perm:
  assumes "mset w = mset v" "distinct (view_keys v)"
  shows "view_map w = view_map v" "distinct (view_keys w)"
proof -
  have "mset (view_keys w) = mset (view_keys v)" using assms(1) by (simp add: view_keys_def)
  then show d: "distinct (view_keys w)" using assms(2) mset_eq_imp_distinct_iff by blast
  let ?p = "\<lambda>(e, t, q, p). (acl_key (the t) q, p)"
  have k: "map fst (map ?p v) = view_keys v" for v :: "'a acl_view" by (simp add: view_keys_def case_prod_unfold comp_def)
  have "set (map ?p w) = set (map ?p v)" using mset_eq_setD [OF assms(1)] by simp
  then show "view_map w = view_map v"
    unfolding view_map_def using map_of_inject_set [of "map ?p w" "map ?p v"] assms(2) d unfolding k by blast
qed

lemma perm_facts:
  assumes "mset w = mset v"
  shows "set w = set v" "mset (at_entry e f w) = mset (at_entry e f v)" "settled w = settled v"
  using assms mset_eq_setD [OF assms] by (simp_all add: at_entry_def settled_def list_all_iff)

lemma givesE:
  assumes "gives view r v" "distinct (view_keys v)" "settled v"
  obtains b w where "r = Some b" "view b = Some w" "distinct (view_keys w)" "settled w" "view_map w = view_map v"
  using assms view_perm [of _ v] perm_facts(3) [of _ v] unfolding gives_def by blast

lemma new_entry_view:
  assumes L: "libacl_ok L view bits" and a: "view a = Some v"
  shows "\<exists>b e q p. new_entry L a ace = Inr (b, e) \<and> e \<notin> fst ` set v \<and> gives view (Some b) (v @ [(e, Some (tag ace), q, p)]) \<and>
    acl_key (tag ace) q = acl_key (tag ace) (qual ace)"
proof -
  obtain b e q p where c: "acl_create_entry L a = Some (b, e)" "e \<notin> fst ` set v" "gives view (Some b) (v @ [(e, None, q, p)])"
    using libD(2) [OF L] a unfolding create_ok_def by blast
  then obtain w where b: "acl_create_entry L a = Some (b, e)" "e \<notin> fst ` set v" "view b = Some w" "mset w = mset (v @ [(e, None, q, p)])"
    by (auto simp: gives_def)
  have "e \<in> fst ` set w" unfolding perm_facts(1) [OF b(4)] by simp
  then obtain q' p' where "gives view (acl_set_tag_type L b e (tag ace)) (at_entry e (\<lambda>_. (Some (tag ace), q', p')) w)"
    using changeD(2) [OF L b(3)] by blast
  then obtain c u where c: "acl_set_tag_type L b e (tag ace) = Some c" "view c = Some u"
    "mset u = mset (at_entry e (\<lambda>_. (Some (tag ace), q', p')) w)"
    by (auto simp: gives_def)
  have u: "mset u = mset (v @ [(e, Some (tag ace), q', p')])"
    unfolding c(3) perm_facts(2) [OF b(4)] at_entry_last [OF b(2)] by simp
  show ?thesis
  proof (cases "tag ace = ACL_USER \<or> tag ace = ACL_GROUP")
    case True
    have m: "(e, Some (tag ace), q', p') \<in> set u" unfolding perm_facts(1) [OF u] by simp
    then have "e \<in> fst ` set u" by force
    then have d: "gives view (acl_set_qualifier L c e (qual ace)) (at_entry e (\<lambda>(t, _, p). (t, qual ace, p)) u)"
      using changeD(3) [OF L c(2) _ m True] by blast
    then obtain d where d': "acl_set_qualifier L c e (qual ace) = Some d" by (auto simp: gives_def)
    have "mset (at_entry e (\<lambda>(t, _, p). (t, qual ace, p)) u) = mset (v @ [(e, Some (tag ace), qual ace, p')])"
      unfolding perm_facts(2) [OF u] at_entry_last [OF b(2)] by simp
    with d d' have "gives view (Some d) (v @ [(e, Some (tag ace), qual ace, p')])" by (simp add: gives_def)
    moreover have "new_entry L a ace = Inr (d, e)" using True b(1) c(1) d' by (simp add: new_entry_def orFail_def)
    ultimately show ?thesis using b(2) by blast
  next
    case False
    then have "new_entry L a ace = Inr (c, e)" "acl_key (tag ace) q' = acl_key (tag ace) (qual ace)"
      using b(1) c(1) by (auto simp: new_entry_def orFail_def acl_key_def)
    moreover have "gives view (Some c) (v @ [(e, Some (tag ace), q', p')])" using c(2) u by (simp add: gives_def)
    ultimately show ?thesis using b(2) by blast
  qed
qed

text \<open>One entry of a specification does what it asks for, apart from the mask when that is recalculated.\<close>

lemma agree_refl [simp]: "agree b m m"
  by (simp add: agree_def)

lemma change_entry_view:
  assumes L: "libacl_ok L view bits" and a: "view a = Some v" "settled v" and d: "distinct (view_keys v)"
    and op: "operation = removeEntries \<or> (\<exists>p. perms ace = Some p \<and> p < 8)"
  shows "\<exists>c w. change_entry L operation ace a = Inr c \<and> view c = Some w \<and> settled w \<and> distinct (view_keys w) \<and>
    view_map w = acl_change operation ace (view_map v)"
proof -
  let ?k = "acl_key (tag ace) (qual ace)"
  have dv: "distinct (map fst v)" and w: "acl_walk L a = (map fst v, True)" using libD(1) [OF L] a(1) by (auto simp: entries_ok_def)
  have "findEntry L a (tag ace) (qual ace) (map fst v) True = Inr (find_key ?k v)" by (rule findEntry_view [OF L a(1) subset_refl a(2)])
  then have ce: "change_entry L operation ace a =
      (if operation = removeEntries then
         (case find_key ?k v of None \<Rightarrow> Inr a | Some e \<Rightarrow> orFail ''acl_delete_entry'' (acl_delete_entry L a e))
       else sbind (case find_key ?k v of Some e \<Rightarrow> Inr (a, e) | None \<Rightarrow> new_entry L a ace) (\<lambda>(a, e).
         case perms ace of None \<Rightarrow> Inl Unset | Some p \<Rightarrow> setPerms L a e p))"
    by (simp add: change_entry_def w)
  show ?thesis
  proof (cases "find_key ?k v")
    case None
    then have k: "?k \<notin> set (view_keys v)" by (simp add: find_key_None)
    show ?thesis
    proof (cases "operation = removeEntries")
      case True
      then show ?thesis unfolding ce using None a d view_map_None [OF k] by (auto simp: acl_change_def)
    next
      case False
      then obtain p where p: "perms ace = Some p" "p < 8" using op by auto
      obtain b e q p' where b: "new_entry L a ace = Inr (b, e)" "e \<notin> fst ` set v" "acl_key (tag ace) q = ?k"
        and g: "gives view (Some b) (v @ [(e, Some (tag ace), q, p')])" using new_entry_view [OF L a(1)] by blast
      from g obtain u where u: "view b = Some u" "mset u = mset (v @ [(e, Some (tag ace), q, p')])" by (auto simp: gives_def)
      have "e \<in> fst ` set u" unfolding perm_facts(1) [OF u(2)] by simp
      then obtain c where c: "setPerms L b e p = Inr c" "gives view (Some c) (at_entry e (\<lambda>(t, q, _). (t, q, p)) u)"
        using setPerms_view [OF L u(1) _ p(2)] by blast
      have "mset (at_entry e (\<lambda>(t, q, _). (t, q, p)) u) = mset (v @ [(e, Some (tag ace), q, p)])"
        unfolding perm_facts(2) [OF u(2)] at_entry_last [OF b(2)] by simp
      with c(2) have g2: "gives view (Some c) (v @ [(e, Some (tag ace), q, p)])" by (simp add: gives_def)
      have v: "view_map (v @ [(e, Some (tag ace), q, p)]) = (view_map v)(?k \<mapsto> p)" "distinct (view_keys (v @ [(e, Some (tag ace), q, p)]))"
        using view_add [OF d, of "tag ace" q e p] b(3) k by auto
      have "settled (v @ [(e, Some (tag ace), q, p)])" using a(2) by (simp add: settled_def)
      from givesE [OF g2 v(2) this] show ?thesis
        unfolding ce using None False p(1) b(1) c(1) v(1) by (force simp: acl_change_def)
    qed
  next
    case (Some e)
    then have e: "e \<in> fst ` set v" by (rule find_key_Some)
    show ?thesis
    proof (cases "operation = removeEntries")
      case True
      have g: "gives view (acl_delete_entry L a e) (filter (\<lambda>x. fst x \<noteq> e) v)"
        by (rule changeD(1) [OF L a(1) e])
      have "settled (filter (\<lambda>x. fst x \<noteq> e) v)" using a(2) by (auto simp: settled_def list_all_iff)
      from givesE [OF g _ this] view_remove [OF dv d Some] show ?thesis
        unfolding ce using True Some by (force simp: orFail_def acl_change_def)
    next
      case False
      then obtain p where p: "perms ace = Some p" "p < 8" using op by auto
      obtain b where b: "setPerms L a e p = Inr b" "gives view (Some b) (at_entry e (\<lambda>(t, q, _). (t, q, p)) v)"
        using setPerms_view [OF L a(1) e p(2)] by blast
      have "settled (at_entry e (\<lambda>(t, q, _). (t, q, p)) v)" using a(2) by (auto simp: settled_def at_entry_def list_all_iff split: if_splits)
      from givesE [OF b(2) _ this] view_change [OF dv d Some, of p] d show ?thesis
        unfolding ce using False Some p(1) b(1) by (force simp: acl_change_def)
    qed
  qed
qed

lemma apply_entry_view:
  assumes L: "libacl_ok L view bits" and a: "view a = Some v" "settled v" and d: "distinct (view_keys v)"
    and op: "operation = removeEntries \<or> (\<exists>p. perms ace = Some p \<and> p < 8)"
  shows "\<exists>b w. apply_entry L operation recalc ace a = Inr b \<and> view b = Some w \<and> settled w \<and> distinct (view_keys w) \<and>
    agree recalc (view_map w) (acl_change operation ace (view_map v))"
proof -
  obtain c u where c: "change_entry L operation ace a = Inr c" "view c = Some u" "settled u" "distinct (view_keys u)"
    "view_map u = acl_change operation ace (view_map v)" using change_entry_view [OF assms] by blast
  obtain b w where b: "acl_calc_mask L c = Some b" "view b = Some w" "settled w" "distinct (view_keys w)" "agree True (view_map w) (view_map u)"
    using libD(5) [OF L] c(2-4) unfolding mask_ok_def by blast
  show ?thesis using b c by (cases recalc) (auto simp: apply_entry_def orFail_def)
qed

text \<open>
  The mask that is recalculated depends on the other entries only. Then a mask that was given
  in the specification is lost, unless the recalculation is switched off: the result is as if
  the entry had not been given.
\<close>

lemma explicit_mask_lost:
  assumes L: "libacl_ok L view bits" and a: "view a = Some v" "settled v" and d: "distinct (view_keys v)"
    and ace: "tag ace = ACL_MASK" "perms ace = Some p" "p < 8"
    and calc: "\<And>x x' u u' y y'. view x = Some u \<Longrightarrow> view x' = Some u' \<Longrightarrow> agree True (view_map u) (view_map u') \<Longrightarrow>
      acl_calc_mask L x = Some y \<Longrightarrow> acl_calc_mask L x' = Some y' \<Longrightarrow> map_option view_map (view y) = map_option view_map (view y')"
  shows "\<exists>b b'. apply_entry L modifyEntries True ace a = Inr b \<and> acl_calc_mask L a = Some b' \<and>
    map_option view_map (view b) = map_option view_map (view b')"
proof -
  obtain c u where c: "change_entry L modifyEntries ace a = Inr c" "view c = Some u" "settled u" "distinct (view_keys u)"
    "view_map u = acl_change modifyEntries ace (view_map v)"
    using change_entry_view [OF L a d, of modifyEntries ace] ace by auto
  have ag: "agree True (view_map u) (view_map v)" using ace(1) unfolding c(5) by (simp add: agree_def acl_change_def acl_key_def)
  obtain b b' where b: "acl_calc_mask L c = Some b" "acl_calc_mask L a = Some b'"
    using libD(5) [OF L] a d c(2-4) unfolding mask_ok_def by blast
  have "map_option view_map (view b) = map_option view_map (view b')" by (rule calc [OF c(2) a(1) ag b])
  moreover have "apply_entry L modifyEntries True ace a = Inr b" using c(1) b(1) by (simp add: apply_entry_def orFail_def)
  ultimately show ?thesis using b(2) by blast
qed

lemma agree_change: "agree b m m' \<Longrightarrow> agree b (acl_change operation ace m) (acl_change operation ace m')"
  by (auto simp: agree_def acl_change_def)

lemma agree_trans: "agree b m m' \<Longrightarrow> agree b m' m'' \<Longrightarrow> agree b m m''"
  unfolding agree_def by metis

lemma agree_fold: "agree b m m' \<Longrightarrow> agree b (fold (acl_change operation) aces m) (fold (acl_change operation) aces m')"
  by (induction aces arbitrary: m m') (auto intro: agree_change)

definition file_has :: "('a, 'e, 'p, 'w) libacl \<Rightarrow> ('a \<Rightarrow> 'e acl_view option) \<Rightarrow> string \<Rightarrow> bool \<Rightarrow> bool \<Rightarrow> (acl_tag \<times> id_t \<rightharpoonup> 32 word) \<Rightarrow> 'w \<Rightarrow> bool" where
  "file_has L view f d recalc m w \<longleftrightarrow> (\<exists>b u. acl_get_file L f d w = Some b \<and> view b = Some u \<and> agree recalc (view_map u) m)"

text \<open>The library does not take a list of these entries: it is not valid, or it cannot be set for the file.\<close>

definition refused :: "('a, 'e, 'p, 'w) libacl \<Rightarrow> ('a \<Rightarrow> 'e acl_view option) \<Rightarrow> string \<Rightarrow> bool \<Rightarrow> bool \<Rightarrow> (acl_tag \<times> id_t \<rightharpoonup> 32 word) \<Rightarrow> 'w \<Rightarrow> bool" where
  "refused L view f d recalc m w \<longleftrightarrow>
     (\<exists>b u. view b = Some u \<and> agree recalc (view_map u) m \<and> (\<not> acl_valid L b \<or> acl_set_file L f d b w = None))"

definition stopped_at :: "('a, 'e, 'p, 'w) libacl \<Rightarrow> ('a \<Rightarrow> 'e acl_view option) \<Rightarrow> string \<Rightarrow> bool \<Rightarrow> bool \<Rightarrow> acl_operation \<Rightarrow>
    AccessControlEntry list \<Rightarrow> (acl_tag \<times> id_t \<rightharpoonup> 32 word) \<Rightarrow> 'w \<Rightarrow> nat \<Rightarrow> bool" where
  "stopped_at L view f d recalc operation aces m w k \<longleftrightarrow> k < length aces \<and>
     file_has L view f d recalc (fold (acl_change operation) (take k aces) m) w \<and>
     refused L view f d recalc (fold (acl_change operation) (take (Suc k) aces) m) w"

lemma agree_steps:
  assumes "agree recalc m (acl_change operation ace m0)"
  shows "file_has L view f d recalc (fold (acl_change operation) xs m) w \<Longrightarrow>
      file_has L view f d recalc (fold (acl_change operation) (ace # xs) m0) w"
    and "stopped_at L view f d recalc operation xs m w k \<Longrightarrow> stopped_at L view f d recalc operation (ace # xs) m0 w (Suc k)"
proof -
  have step: "agree recalc u (fold (acl_change operation) xs m) \<Longrightarrow> agree recalc u (fold (acl_change operation) (ace # xs) m0)" for u xs
    using agree_fold [OF assms, of operation xs] by (auto intro: agree_trans)
  show "file_has L view f d recalc (fold (acl_change operation) xs m) w \<Longrightarrow>
      file_has L view f d recalc (fold (acl_change operation) (ace # xs) m0) w"
    using step by (auto simp: file_has_def)
  show "stopped_at L view f d recalc operation xs m w k \<Longrightarrow> stopped_at L view f d recalc operation (ace # xs) m0 w (Suc k)"
    using step [of _ "take k xs"] step [of _ "take (Suc k) xs"] by (auto simp: stopped_at_def file_has_def refused_def)
qed

lemma update_loop_view:
  assumes L: "libacl_ok L view bits"
    and "view a = Some v" "settled v" "distinct (view_keys v)" "file_has L view f d recalc (view_map v) (ap_files s)"
    "\<forall>ace\<in>set aces. operation = removeEntries \<or> (\<exists>p. perms ace = Some p \<and> p < 8)"
  shows "wp (update_loop L f d operation recalc aces a s)
    (\<lambda>_ t. file_has L view f d recalc (fold (acl_change operation) aces (view_map v)) (ap_files t))
    (\<lambda>r t. r = Exit 1 \<and> (\<exists>k. stopped_at L view f d recalc operation aces (view_map v) (ap_files t) k))"
  using assms(2-)
proof (induction aces arbitrary: a v s)
  case Nil
  then show ?case using libD(7) [OF L] by simp
next
  case (Cons ace aces)
  obtain b u where b: "apply_entry L operation recalc ace a = Inr b" "view b = Some u" "settled u" "distinct (view_keys u)"
    "agree recalc (view_map u) (acl_change operation ace (view_map v))"
    using apply_entry_view [OF L Cons.prems(1-3)] Cons.prems(5) by (metis list.set_intros(1))
  let ?Q = "\<lambda>_ t. file_has L view f d recalc (fold (acl_change operation) (ace # aces) (view_map v)) (ap_files t)"
  let ?E = "\<lambda>r t. r = Exit 1 \<and> (\<exists>k. stopped_at L view f d recalc operation (ace # aces) (view_map v) (ap_files t) k)"
  have go: "wp (update_loop L f d operation recalc aces b (s\<lparr>ap_files := w\<rparr>)) ?Q ?E"
    if w: "acl_set_file L f d b (ap_files s) = Some w" for w
  proof -
    obtain c x where "acl_get_file L f d w = Some c" "view c = Some x" "view_map x = view_map u"
      using libD(6) [OF L] w b(2-4) unfolding file_ok_def by blast
    then have "file_has L view f d recalc (view_map u) (ap_files (s\<lparr>ap_files := w\<rparr>))" by (simp add: file_has_def)
    from Cons.IH [OF b(2-4) this] Cons.prems(5)
    have "wp (update_loop L f d operation recalc aces b (s\<lparr>ap_files := w\<rparr>))
      (\<lambda>_ t. file_has L view f d recalc (fold (acl_change operation) aces (view_map u)) (ap_files t))
      (\<lambda>r t. r = Exit 1 \<and> (\<exists>k. stopped_at L view f d recalc operation aces (view_map u) (ap_files t) k))" by simp
    then show ?thesis
      by (rule wp_mono) (erule agree_steps(1) [OF b(5)], blast intro: agree_steps(2) [OF b(5)])
  qed
  have stop: "wp (acl_errExit m s) ?Q ?E" if "\<not> acl_valid L b \<or> acl_set_file L f d b (ap_files s) = None" for m
  proof -
    have "stopped_at L view f d recalc operation (ace # aces) (view_map v) (ap_files s) 0"
      using that b(2,5) Cons.prems(4) by (auto simp: stopped_at_def refused_def)
    then show ?thesis by (auto simp: acl_errExit_def)
  qed
  show ?case
    unfolding update_loop.simps b(1) sum.case using go stop
    by (cases "acl_valid L b"; cases "acl_set_file L f d b (ap_files s)") simp_all
qed

text \<open>What the parser delivers is what the update needs.\<close>

lemma parse_perms_small: "parse_perms cs acc = Inr p \<Longrightarrow> acc < 8 \<Longrightarrow> p < 8"
proof (induction cs acc rule: parse_perms.induct)
  case (2 c cs acc)
  have "\<forall>x\<in>{0, 1, 2, 3, 4, 5, 6, 7 :: 32 word}. or x ACL_READ < 8 \<and> or x ACL_WRITE < 8 \<and> or x ACL_EXECUTE < 8" by code_simp
  then have "or acc ACL_READ < 8 \<and> or acc ACL_WRITE < 8 \<and> or acc ACL_EXECUTE < 8" using small_words [OF 2(6)] by blast
  then show ?case using 2 by (auto split: if_splits)
qed simp

definition perms_ok :: "bool \<Rightarrow> AccessControlEntry \<Rightarrow> bool" where
  "perms_ok b ace \<longleftrightarrow> (if b then \<exists>p. perms ace = Some p \<and> p < 8 else perms ace = None)"

lemma parseEntrySpec_perms:
  assumes "parseEntrySpec pw gr e b = Inr ace"
  shows "perms_ok b ace"
  using assms parse_perms_small [of _ 0]
  by (auto simp: perms_ok_def parseEntrySpec_def Let_def split: prod.splits option.splits if_splits sum.splits)

lemma parse_entries_perms:
  assumes "parse_entries pw gr b s acc = Inr aces" "\<forall>ace\<in>set acc. perms_ok b ace"
  shows "(\<forall>ace\<in>set aces. perms_ok b ace) \<and> length acc < length aces \<and> length aces \<le> MAX_ENTRIES"
  using assms
proof (induction pw gr b s acc rule: parse_entries.induct)
  case (1 pw gr b s acc)
  obtain e rest where c: "cut_at CHR '','' s = (e, rest)" by fastforce
  have len: "length acc < MAX_ENTRIES" using 1(2) by (subst (asm) parse_entries.simps) (auto split: if_splits)
  then obtain ace where ace: "parseEntrySpec pw gr e b = Inr ace" using 1(2) c by (subst (asm) parse_entries.simps) (auto split: sum.splits)
  note ok = parseEntrySpec_perms [OF ace]
  show ?case
  proof (cases rest)
    case None
    then have "aces = acc @ [ace]" using 1(2) c ace len by (subst (asm) parse_entries.simps) simp
    then show ?thesis using 1(3) ok len by auto
  next
    case (Some r)
    then have r: "parse_entries pw gr b r (acc @ [ace]) = Inr aces" using 1(2) c ace len by (subst (asm) parse_entries.simps) simp
    have nm: "\<not> MAX_ENTRIES \<le> length acc" using len by simp
    have "\<forall>ace\<in>set (acc @ [ace]). perms_ok b ace" using 1(3) ok by simp
    from 1(1) [OF nm c [symmetric] ace Some r this] show ?thesis by simp
  qed
qed

section \<open>A library\<close>

text \<open>
  An implementation of the contract: a list is an array of cells, an entry its index in the array. Deleted
  entries leave a hole. Files are a map.
\<close>

type_synonym cell = "(acl_tag option \<times> id_t \<times> 32 word) option"

fun cells :: "nat \<Rightarrow> cell list \<Rightarrow> nat acl_view" where
  "cells n [] = []"
| "cells n (None # xs) = cells (Suc n) xs"
| "cells n (Some y # xs) = (n, y) # cells (Suc n) xs"

definition sample_lib :: "(cell list, nat, 32 word, string \<times> bool \<rightharpoonup> cell list) libacl" where
  "sample_lib = \<lparr>acl_get_file = \<lambda>f d w. w (f, d), acl_walk = \<lambda>a. (map fst (cells 0 a), True),
     acl_get_tag_type = \<lambda>a e. Option.bind (a ! e) fst, acl_get_qualifier = \<lambda>a e. map_option (fst \<circ> snd) (a ! e),
     acl_delete_entry = \<lambda>a e. Some (a[e := None]), acl_create_entry = \<lambda>a. Some (a @ [Some (None, 0, 0)], length a),
     acl_set_tag_type = \<lambda>a e t. Some (a[e := map_option (\<lambda>_. (Some t, 0, 0)) (a ! e)]),
     acl_set_qualifier = \<lambda>a e q. if Option.bind (a ! e) fst \<in> {Some ACL_USER, Some ACL_GROUP}
       then Some (a[e := map_option (\<lambda>(t, _, p). (t, q, p)) (a ! e)]) else None,
     acl_get_permset = \<lambda>a e. map_option (snd \<circ> snd) (a ! e), acl_clear_perms = \<lambda>_. Some 0,
     acl_add_perm = \<lambda>ps x. if x \<in> {ACL_READ, ACL_WRITE, ACL_EXECUTE} then Some (or ps x) else None,
     acl_set_permset = \<lambda>a e ps. Some (a[e := map_option (\<lambda>(t, q, _). (t, q, ps)) (a ! e)]),
     acl_calc_mask = Some, acl_valid = \<lambda>_. True, acl_set_file = \<lambda>f d a w. Some (w((f, d) \<mapsto> a)),
     acl_delete_def_file = \<lambda>f w. Some (w((f, True) := None)), acl_free_ok = True\<rparr>"

lemma cells_range: "x \<in> set (cells n xs) \<Longrightarrow> n \<le> fst x \<and> fst x < n + length xs \<and> xs ! (fst x - n) = Some (snd x)"
proof (induction n xs rule: cells.induct)
  case (2 n xs)
  then show ?case by (auto simp: nth_Cons' Suc_diff_le)
next
  case (3 n y xs)
  then show ?case by (auto simp: nth_Cons' Suc_diff_le)
qed simp

lemma cells_distinct: "distinct (map fst (cells n xs))"
  by (induction n xs rule: cells.induct) (auto dest: cells_range)

lemma cells_above: "m < n \<Longrightarrow> m \<notin> fst ` set (cells n xs)"
  using cells_range [of _ n xs] by fastforce

lemma cells_update: "i < length xs \<Longrightarrow> cells n (xs[i := map_option f (xs ! i)]) = at_entry (n + i) f (cells n xs)"
proof (induction n xs arbitrary: i rule: cells.induct)
  case (2 n xs)
  then show ?case by (cases i) (auto simp: at_entry_absent cells_above)
next
  case (3 n y xs)
  then show ?case by (cases i) (auto simp: at_entry_cons at_entry_absent cells_above)
qed simp

lemma cells_delete: "i < length xs \<Longrightarrow> cells n (xs[i := None]) = filter (\<lambda>x. fst x \<noteq> n + i) (cells n xs)"
proof (induction n xs arbitrary: i rule: cells.induct)
  case (2 n xs)
  then show ?case by (cases i) (auto simp: filter_absent cells_above)
next
  case (3 n y xs)
  then show ?case by (cases i) (auto simp: filter_absent cells_above)
qed simp

lemma cells_snoc: "cells n (xs @ [Some y]) = cells n xs @ [(n + length xs, y)]"
  by (induction n xs rule: cells.induct) simp_all

abbreviation sample_view :: "cell list \<Rightarrow> nat acl_view option" where
  "sample_view a \<equiv> Some (cells 0 a)"

lemma sample_gives: "gives sample_view (Some b) (cells 0 b)"
  by (simp add: gives_def)

lemma sample_change: "change_ok sample_lib sample_view Some"
  unfolding change_ok_def
proof (intro allI impI)
  fix a v i
  assume a: "sample_view a = Some v \<and> i \<in> fst ` set v"
  then obtain y where "(i, y) \<in> set (cells 0 a)" by auto
  then have y: "i < length a" "a ! i = Some y" using cells_range [of "(i, y)" 0 a] by simp_all
  have at: "cells 0 (a[i := map_option f (a ! i)]) = at_entry i f v" for f using cells_update [OF y(1), of 0 f] a by simp
  have tg: "(i, Some t, q, p) \<in> set v \<Longrightarrow> fst y = Some t" for t q p
    using cells_range [of "(i, Some t, q, p)" 0 a] a y(2) by simp
  have "gives sample_view (acl_delete_entry sample_lib a i) (filter (\<lambda>x. fst x \<noteq> i) v)"
    using cells_delete [OF y(1), of 0] sample_gives [of "a[i := None]"] a by (simp add: sample_lib_def)
  moreover have "\<exists>q p. gives sample_view (acl_set_tag_type sample_lib a i t) (at_entry i (\<lambda>_. (Some t, q, p)) v)" for t
    using sample_gives [of "a[i := map_option (\<lambda>_. (Some t, 0, 0)) (a ! i)]"] unfolding at by (auto simp: sample_lib_def)
  moreover have "gives sample_view (acl_set_qualifier sample_lib a i q') (at_entry i (\<lambda>(t, _, p). (t, q', p)) v)"
    if "(i, Some t, q, p) \<in> set v \<and> (t = ACL_USER \<or> t = ACL_GROUP)" for t q p q'
    using sample_gives [of "a[i := map_option (\<lambda>(t, _, p). (t, q', p)) (a ! i)]"] that tg y(2) unfolding at by (auto simp: sample_lib_def)
  moreover have "gives sample_view (acl_set_permset sample_lib a i ps) (at_entry i (\<lambda>(t, q, _). (t, q, ps)) v)" for ps
    using sample_gives [of "a[i := map_option (\<lambda>(t, q, _). (t, q, ps)) (a ! i)]"] unfolding at by (simp add: sample_lib_def)
  ultimately show "gives sample_view (acl_delete_entry sample_lib a i) (filter (\<lambda>x. fst x \<noteq> i) v) \<and>
     (\<forall>t. \<exists>q p. gives sample_view (acl_set_tag_type sample_lib a i t) (at_entry i (\<lambda>_. (Some t, q, p)) v)) \<and>
     (\<forall>t q p q'. (i, Some t, q, p) \<in> set v \<and> (t = ACL_USER \<or> t = ACL_GROUP) \<longrightarrow>
        gives sample_view (acl_set_qualifier sample_lib a i q') (at_entry i (\<lambda>(t, _, p). (t, q', p)) v)) \<and>
     (\<forall>ps x. Some ps = Some x \<longrightarrow> gives sample_view (acl_set_permset sample_lib a i ps) (at_entry i (\<lambda>(t, q, _). (t, q, x)) v)) \<and>
     (\<exists>ps x. acl_get_permset sample_lib a i = Some ps \<and> Some ps = Some x)"
    using y(2) by (simp add: sample_lib_def)
qed

lemma sample_lib_ok: "libacl_ok sample_lib sample_view Some"
proof -
  have e: "e < length a \<and> a ! e = Some y" if "(e, y) \<in> set (cells 0 a)" for e y a
    using cells_range [OF that] by simp
  then have "entries_ok sample_lib sample_view"
    unfolding entries_ok_def by (auto simp: sample_lib_def cells_distinct)
  moreover have "length a \<notin> fst ` set (cells 0 a)" for a using e [of "length a" _ a] by auto
  then have "create_ok sample_lib sample_view"
    unfolding create_ok_def by (auto simp: sample_lib_def cells_snoc gives_def)
  ultimately show ?thesis
    using sample_change by (auto simp: libacl_ok_def permset_ok_def mask_ok_def file_ok_def sample_lib_def)
qed

section \<open>Properties\<close>

text \<open>
  C26: the textual form of a list of at most 10000 entries is read back as the list: tags,
  qualifiers (written as numbers) and permissions, for each operation; the array is never filled beyond its end.
\<close>

theorem acl_roundtrip:
  assumes "aces \<noteq> []" "\<forall>a\<in>set aces. ace_ok permsReqd a"
  shows "parseACL pw gr (acl_text aces) permsReqd =
    (if length aces \<le> MAX_ENTRIES then Inr aces else Inl (''Too many entries in ACL\<newline>'', []))"
  using parse_acl_text [OF assms, of pw gr "[]"] by (simp add: parseACL_def)

theorem acl_roundtrip_witness:
  "parseACL \<lparr>by_id = \<lambda>_. None, by_name = \<lambda>_. None\<rparr> \<lparr>by_id = \<lambda>_. None, by_name = \<lambda>_. None\<rparr> ''u::rw-,u:1000:r--,m::r--'' True =
    Inr [\<lparr>tag = ACL_USER_OBJ, qual = 0, perms = Some 6\<rparr>, \<lparr>tag = ACL_USER, qual = 1000, perms = Some 4\<rparr>,
         \<lparr>tag = ACL_MASK, qual = 0, perms = Some 4\<rparr>]"
proof -
  let ?as = "[\<lparr>tag = ACL_USER_OBJ, qual = 0, perms = Some 6\<rparr>, \<lparr>tag = ACL_USER, qual = 1000, perms = Some 4\<rparr>, \<lparr>tag = ACL_MASK, qual = 0, perms = Some 4\<rparr>]"
  have t: "acl_text ?as = ''u::rw-,u:1000:r--,m::r--''" by code_simp
  have "\<forall>a\<in>set ?as. ace_ok True a" by code_simp
  then show ?thesis using acl_roundtrip [of ?as True] unfolding t by (simp add: MAX_ENTRIES_def)
qed

text \<open>
  C24: the update of a file refines the update of a map from tags and qualifiers to permissions. With
  a specification that was parsed, each entry of it is set or removed in the order given; entries that it does not name stay as
  they are, and of the mask nothing is said when it is recalculated. The program ends with an error only when the library
  refuses the list that the next entry of the specification makes, as not valid or for the file, and then the file has the
  list of the entries before.
\<close>

theorem updateACL_refines:
  assumes "libacl_ok L view bits" "parseACL pw gr spec (operation = modifyEntries) = Inr aces" "operation \<in> {modifyEntries, removeEntries}"
    "acl_get_file L f d (ap_files s) = Some a" "view a = Some v" "settled v" "distinct (view_keys v)"
  shows "wp (updateACL L f d aces operation recalc s)
    (\<lambda>_ t. file_has L view f d recalc (fold (acl_change operation) aces (view_map v)) (ap_files t))
    (\<lambda>r t. r = Exit 1 \<and> (\<exists>k. stopped_at L view f d recalc operation aces (view_map v) (ap_files t) k))"
proof -
  have "\<forall>ace\<in>set aces. operation = removeEntries \<or> (\<exists>p. perms ace = Some p \<and> p < 8)"
    using parse_entries_perms [of pw gr "operation = modifyEntries" spec "[]" aces] assms(2,3) by (auto simp: parseACL_def perms_ok_def)
  moreover have "file_has L view f d recalc (view_map v) (ap_files s)" using assms(4,5) by (simp add: file_has_def)
  ultimately show ?thesis
    using update_loop_view [OF assms(1,5-7)] assms(4) by (simp add: updateACL_def)
qed

definition sample_files :: "(string \<times> bool \<rightharpoonup> cell list) acl_proc" where
  "sample_files = \<lparr>ap_files = [(''f'', False) \<mapsto> [Some (Some ACL_USER_OBJ, 0, 6), Some (Some ACL_GROUP_OBJ, 0, 4), Some (Some ACL_OTHER, 0, 4)]],
     ap_stderr = [], ap_stdout = []\<rparr>"

theorem updateACL_refines_witness:
  "\<exists>t b. updateACL sample_lib ''f'' False [\<lparr>tag = ACL_OTHER, qual = 0, perms = Some 0\<rparr>] modifyEntries False sample_files = Ret () t \<and>
     acl_get_file sample_lib ''f'' False (ap_files t) = Some b \<and> view_map (cells 0 b) (ACL_OTHER, 0) = Some 0 \<and>
     view_map (cells 0 b) (ACL_USER_OBJ, 0) = Some 6"
proof -
  let ?as = "[\<lparr>tag = ACL_OTHER, qual = 0, perms = Some 0\<rparr>]" and ?db = "\<lparr>by_id = \<lambda>_. None, by_name = \<lambda>_. None\<rparr>"
  let ?a = "[Some (Some ACL_USER_OBJ, 0, 6), Some (Some ACL_GROUP_OBJ, 0, 4), Some (Some ACL_OTHER, 0, 4)]"
  have p: "parseACL ?db ?db ''o::-'' (modifyEntries = modifyEntries) = Inr ?as" by code_simp
  have g: "acl_get_file sample_lib ''f'' False (ap_files sample_files) = Some ?a" by (simp add: sample_lib_def sample_files_def)
  have d: "settled (cells 0 ?a)" "distinct (view_keys (cells 0 ?a))" by code_simp+
  have r: "(case updateACL sample_lib ''f'' False ?as modifyEntries False sample_files of Ret _ _ \<Rightarrow> True | Stop _ _ \<Rightarrow> False) = True" by code_simp
  then obtain t where t: "updateACL sample_lib ''f'' False ?as modifyEntries False sample_files = Ret () t" by (auto split: outcome.splits)
  have m: "view_map (cells 0 ?a) (ACL_USER_OBJ, 0) = Some 6" by code_simp
  have "file_has sample_lib sample_view ''f'' False False (fold (acl_change modifyEntries) ?as (view_map (cells 0 ?a))) (ap_files t)"
    using updateACL_refines [OF sample_lib_ok p _ g refl d, of False] t by simp
  then show ?thesis using t m by (auto simp: file_has_def agree_def acl_change_def acl_key_def)
qed

end
