(* ===== verification/Ns_Capable.thy ===== *)
theory Ns_Capable
  imports Tlpi_Text
begin

text \<open>
  \<open>namespaces/ns_capable.c\<close>: whether a process has capabilities in a namespace. The program walks from
  the user namespace of the target to its ancestors, through descriptors that it opens and
  closes on the way.

  The kernel and libcap are parameters, the record \<open>nsk\<close>: which namespace a file refers to, what the \<open>ioctl()\<close> operations
  give for it, the text of \<open>/proc/PID/status\<close>, the capabilities. The table of descriptors of the process is
  part of the state, since the numbers of closed descriptors are used again.
\<close>

section \<open>Descriptors\<close>

record ('n, 'c) nsk =
  ns_open :: "string \<Rightarrow> 'n option"
  ns_parent :: "'n \<Rightarrow> int + 'n"
  ns_userns :: "'n \<Rightarrow> 'n option"
  ns_kind :: "'n \<Rightarrow> int option"
  ns_uid :: "'n \<Rightarrow> 32 word option"
  ns_stat :: "'n \<Rightarrow> (nat \<times> nat) option"
  status_text :: "string \<Rightarrow> string option"
  cap_get_pid :: "int \<Rightarrow> 'c option"
  cap_to_text :: "'c \<Rightarrow> string option"

record 'n nsp =
  nsp_fds :: "'n option list"
  nsp_out :: "msg list"
  nsp_err :: "msg list"

definition EPERM :: int where "EPERM = 1"
definition EBADF :: int where "EBADF = 9"
definition CLONE_NEWUSER :: int where "CLONE_NEWUSER = 0x10000000"
definition PATH_MAX :: nat where "PATH_MAX = 4096"

definition fd_view :: "'n nsp \<Rightarrow> int \<Rightarrow> 'n option" where
  "fd_view s fd = (if 0 \<le> fd \<and> fd < int (length (nsp_fds s)) then nsp_fds s ! nat fd else None)"

fun lowest_free :: "'n option list \<Rightarrow> nat" where
  "lowest_free [] = 0"
| "lowest_free (None # t) = 0"
| "lowest_free (Some x # t) = Suc (lowest_free t)"

definition fd_new :: "'n \<Rightarrow> 'n nsp \<Rightarrow> int \<times> 'n nsp" where
  "fd_new n s =
     (let i = lowest_free (nsp_fds s)
      in (int i, s\<lparr>nsp_fds := if i < length (nsp_fds s) then (nsp_fds s)[i := Some n] else nsp_fds s @ [Some n]\<rparr>))"

definition fd_close :: "int \<Rightarrow> 'n nsp \<Rightarrow> int \<times> 'n nsp" where
  "fd_close fd s = (if fd_view s fd = None then (-1, s) else (0, s\<lparr>nsp_fds := (nsp_fds s)[nat fd := None]\<rparr>))"

definition ns_perror :: "string \<Rightarrow> 'n nsp \<Rightarrow> ('a, 'n nsp) outcome" where
  "ns_perror m s = Stop (Exit 1) (s\<lparr>nsp_err := nsp_err s @ [(m, [])]\<rparr>)"

definition ns_print :: "string \<Rightarrow> fmt_arg list \<Rightarrow> 'n nsp \<Rightarrow> 'n nsp" where
  "ns_print f as s = s\<lparr>nsp_out := nsp_out s @ [(f, as)]\<rparr>"

definition ns_file :: "('n, 'c) nsk \<Rightarrow> string \<Rightarrow> string \<Rightarrow> 'n nsp \<Rightarrow> (int, 'n nsp) outcome" where
  "ns_file K file m s = (case ns_open K file of None \<Rightarrow> ns_perror m s | Some n \<Rightarrow> case fd_new n s of (fd, s) \<Rightarrow> Ret fd s)"

section \<open>The functions of the program\<close>

definition display_process_capabilities :: "('n, 'c) nsk \<Rightarrow> int \<Rightarrow> 'n nsp \<Rightarrow> (unit, 'n nsp) outcome" where
  "display_process_capabilities K pid s =
     (case cap_get_pid K pid of
        None \<Rightarrow> ns_perror ''cap_get_proc'' s
      | Some caps \<Rightarrow>
          case cap_to_text K caps of
            None \<Rightarrow> ns_perror ''cap_to_text'' s
          | Some cap_string \<Rightarrow> Ret () (ns_print ''Capabilities: %s\<newline>'' [ArgS cap_string] s))"

text \<open>
  The conversions of \<open>sscanf(line, "Uid: %*d %d %*d %*d", &uid)\<close> up to the second number; a number that is not there
  leaves \<open>uid\<close> without a value, and one that does not fit an \<open>int\<close> is undefined.
\<close>

definition scan_d :: "string \<Rightarrow> (int \<times> string) option" where
  "scan_d s = (case strtol 10 s of (v, r, _) \<Rightarrow> if r = s then None else Some (v, r))"

definition scan_uid :: "string \<Rightarrow> int option" where
  "scan_uid line =
     (case scan_d (drop 4 line) of
        None \<Rightarrow> None
      | Some (_, r) \<Rightarrow>
          case scan_d r of None \<Rightarrow> None | Some (v, _) \<Rightarrow> if INT_MIN \<le> v \<and> v \<le> INT_MAX then Some v else None)"

function scan_status :: "string \<Rightarrow> string \<Rightarrow> 'n nsp \<Rightarrow> (32 word, 'n nsp) outcome" where
  "scan_status path content s =
     (if content = [] then Stop (Exit 1) (s\<lparr>nsp_err := nsp_err s @ [(''Failure scanning for 'Uid:' in %s\<newline>'', [ArgS path])]\<rparr>)
      else case fgets 1023 content of (line, rest) \<Rightarrow>
        if take 4 line = ''Uid:''
        then (case scan_uid line of None \<Rightarrow> Stop (Undefined ''uid of the status line'') s | Some uid \<Rightarrow> Ret (word_of_int uid) s)
        else scan_status path rest s)"
  by pat_completeness auto

lemma fgets_rest: "s \<noteq> [] \<Longrightarrow> fgets 1023 s = (l, r) \<Longrightarrow> length r < length s"
  using fgets_shorter [of s 1022] by (simp add: eval_nat_numeral)

termination scan_status
  by (relation "measure (\<lambda>(p, t, s). length t)") (auto dest: fgets_rest [OF _ sym])

declare scan_status.simps [simp del]

definition euid_of_process :: "('n, 'c) nsk \<Rightarrow> int \<Rightarrow> 'n nsp \<Rightarrow> (32 word, 'n nsp) outcome" where
  "euid_of_process K pid s =
     (let path = snprintf_buf PATH_MAX (''/proc/'' @ dec_of_int pid @ ''/status'') in
      case status_text K path of None \<Rightarrow> ns_perror ''fopen-/proc/PID/status'' s | Some content \<Rightarrow> scan_status path content s)"

definition ns_fstat :: "('n, 'c) nsk \<Rightarrow> int \<Rightarrow> string \<Rightarrow> 'n nsp \<Rightarrow> (nat \<times> nat, 'n nsp) outcome" where
  "ns_fstat K fd m s = (case Option.bind (fd_view s fd) (ns_stat K) of None \<Rightarrow> ns_perror m s | Some sb \<Rightarrow> Ret sb s)"

definition ns_equal :: "('n, 'c) nsk \<Rightarrow> int \<Rightarrow> int \<Rightarrow> 'n nsp \<Rightarrow> (bool, 'n nsp) outcome" where
  "ns_equal K nsfd1 nsfd2 s =
     bnd (ns_fstat K nsfd1 ''fstat-nsfd1'' s) (\<lambda>sb1 s.
     bnd (ns_fstat K nsfd2 ''fstat-nsfd2'' s) (\<lambda>sb2 s. Ret (fst sb1 = fst sb2 \<and> snd sb1 = snd sb2) s))"

definition ns_type :: "('n, 'c) nsk \<Rightarrow> int \<Rightarrow> 'n nsp \<Rightarrow> (int, 'n nsp) outcome" where
  "ns_type K ns_fd s = (case Option.bind (fd_view s ns_fd) (ns_kind K) of None \<Rightarrow> ns_perror ''ioctl-NS_GET_NSTYPE'' s | Some k \<Rightarrow> Ret k s)"

definition owning_userns_of :: "('n, 'c) nsk \<Rightarrow> int \<Rightarrow> 'n nsp \<Rightarrow> (int, 'n nsp) outcome" where
  "owning_userns_of K ns_fd s =
     (case Option.bind (fd_view s ns_fd) (ns_userns K) of
        None \<Rightarrow> ns_perror ''ioctl-NS_GET_USERNS'' s | Some n \<Rightarrow> case fd_new n s of (fd, s) \<Rightarrow> Ret fd s)"

definition uid_of_userns_owner :: "('n, 'c) nsk \<Rightarrow> int \<Rightarrow> 'n nsp \<Rightarrow> (32 word, 'n nsp) outcome" where
  "uid_of_userns_owner K userns_fd s =
     (case Option.bind (fd_view s userns_fd) (ns_uid K) of None \<Rightarrow> ns_perror ''ioctl-NS_GET_OWNER_UID'' s | Some u \<Rightarrow> Ret u s)"

definition ioctl_parent :: "('n, 'c) nsk \<Rightarrow> int \<Rightarrow> 'n nsp \<Rightarrow> (int + int) \<times> 'n nsp" where
  "ioctl_parent K fd s =
     (case fd_view s fd of
        None \<Rightarrow> (Inl EBADF, s)
      | Some n \<Rightarrow> case ns_parent K n of Inl e \<Rightarrow> (Inl e, s) | Inr p \<Rightarrow> case fd_new p s of (fd, s) \<Rightarrow> (Inr fd, s))"

text \<open>The loop of \<open>is_ancestor_userns()\<close>; \<open>None\<close> means that it does not end.\<close>

partial_function (option) ancestor_loop :: "('n, 'c) nsk \<Rightarrow> int \<Rightarrow> int \<Rightarrow> 'n nsp \<Rightarrow> (int, 'n nsp) outcome option" where
  "ancestor_loop K fd_x child s =
     (case ioctl_parent K child s of
        (Inl e, s) \<Rightarrow> Some (if e \<noteq> EPERM then ns_perror ''ioctl-NS_GET_PARENT'' s else Ret (-1) s)
      | (Inr parent, s) \<Rightarrow>
          case ns_equal K parent fd_x s of
            Stop r s \<Rightarrow> Some (Stop r s)
          | Ret eq s \<Rightarrow> if eq then Some (Ret child (snd (fd_close parent s))) else ancestor_loop K fd_x parent (snd (fd_close child s)))"

definition is_ancestor_userns :: "('n, 'c) nsk \<Rightarrow> int \<Rightarrow> int \<Rightarrow> 'n nsp \<Rightarrow> (int, 'n nsp) outcome option" where
  "is_ancestor_userns K fd_x fd_y s = ancestor_loop K fd_x fd_y s"

declare ancestor_loop.simps [code]

section \<open>\<open>main()\<close>\<close>

definition find_target :: "('n, 'c) nsk \<Rightarrow> string \<Rightarrow> 'n nsp \<Rightarrow> (int, 'n nsp) outcome" where
  "find_target K file s =
     bnd (ns_file K file ''open-ns-file'' s) (\<lambda>target_ns s.
     bnd (ns_type K target_ns s) (\<lambda>k s.
       if k = CLONE_NEWUSER then Ret target_ns s
       else bnd (owning_userns_of K target_ns s) (\<lambda>target_userns s. Ret target_userns (snd (fd_close target_ns s)))))"

definition report_member :: "('n, 'c) nsk \<Rightarrow> string \<Rightarrow> 'n nsp \<Rightarrow> (unit, 'n nsp) outcome" where
  "report_member K pid_str s =
     (let s = ns_print ''PID %s is in the target namespace.\<newline>'' [ArgS pid_str] s;
          s = ns_print ''Subject to LSM checks, it has the following capabilities:\<newline>'' [] s
      in display_process_capabilities K (atoi_int pid_str) s)"

definition report_stranger :: "string \<Rightarrow> 'n nsp \<Rightarrow> 'n nsp" where
  "report_stranger pid_str s =
     ns_print ''Therefore, it has no capabilities in the target namespace.\<newline>'' []
       (ns_print ''PID %s is not in an ancestor user namespace.\<newline>'' [ArgS pid_str] s)"

definition report_ancestor :: "('n, 'c) nsk \<Rightarrow> string \<Rightarrow> int \<Rightarrow> 'n nsp \<Rightarrow> (unit, 'n nsp) outcome" where
  "report_ancestor K pid_str desc_userns s =
     bnd (euid_of_process K (atoi_int pid_str) s) (\<lambda>euid s.
     bnd (uid_of_userns_owner K desc_userns s) (\<lambda>owner s.
       let is_owner_of_userns = (euid = owner);
           s = ns_print ''PID %s is in an ancestor user namespace'' [ArgS pid_str] s;
           s = ns_print (if is_owner_of_userns then '' and its effective UID matches\<newline>'' else '', but its effective UID does not match\<newline>'') [] s;
           s = ns_print ''the owner of the immediate child user namespace of that ancestor namespace.\<newline>'' [] s
       in if is_owner_of_userns
          then Ret () (ns_print ''Therefore, subject to LSM checks, it has all capabilities in the target\<newline>namespace!\<newline>'' [] s)
          else display_process_capabilities K (atoi_int pid_str)
                 (ns_print ''Therefore, subject to LSM checks, it has only the capabilities that are in its\<newline>sets, which are:\<newline>'' [] s)))"

definition close_or_die :: "int \<Rightarrow> string \<Rightarrow> 'n nsp \<Rightarrow> (unit, 'n nsp) outcome" where
  "close_or_die fd m s = (case fd_close fd s of (r, s) \<Rightarrow> if r = -1 then ns_perror m s else Ret () s)"

definition finish :: "int \<Rightarrow> int \<Rightarrow> 'n nsp \<Rightarrow> (unit, 'n nsp) outcome" where
  "finish target_userns pid_userns s =
     bnd (close_or_die target_userns ''close-target_userns'' s) (\<lambda>_ s.
     bnd (close_or_die pid_userns ''close-pid_userns'' s) (\<lambda>_ s. Stop (Exit 0) s))"

definition examine :: "('n, 'c) nsk \<Rightarrow> string \<Rightarrow> int \<Rightarrow> int \<Rightarrow> 'n nsp \<Rightarrow> (unit, 'n nsp) outcome option" where
  "examine K pid_str target_userns pid_userns s =
     (case is_ancestor_userns K pid_userns target_userns s of
        None \<Rightarrow> None
      | Some m \<Rightarrow> Some (bnd m (\<lambda>desc_userns s.
          if desc_userns = -1 then Ret () (report_stranger pid_str s)
          else bnd (report_ancestor K pid_str desc_userns s) (\<lambda>_ s.
            if desc_userns \<noteq> target_userns then close_or_die desc_userns ''close-desc_userns'' s else Ret () s))))"

definition ns_capable_main :: "('n, 'c) nsk \<Rightarrow> string \<Rightarrow> string list \<Rightarrow> 'n nsp \<Rightarrow> (unit, 'n nsp) outcome option" where
  "ns_capable_main K pname args s =
     (if length args \<noteq> 2 then
        Some (Stop (Exit 1) (s\<lparr>nsp_err := nsp_err s @ [(''Usage: %s PID ns-file\<newline>'', [ArgS pname]), (CHR 0x09 # [CHR 0x27] @ ''ns-file' is a /proc/PID/ns/xxxx file\<newline>'', [])]\<rparr>))
      else
        let pid_str = args ! 0 in
        case find_target K (args ! 1) s of
          Stop r s \<Rightarrow> Some (Stop r s)
        | Ret target_userns s \<Rightarrow>
            case ns_file K (snprintf_buf PATH_MAX (''/proc/'' @ pid_str @ ''/ns/user'')) ''open-PID'' s of
              Stop r s \<Rightarrow> Some (Stop r s)
            | Ret pid_userns s \<Rightarrow>
                case ns_equal K pid_userns target_userns s of
                  Stop r s \<Rightarrow> Some (Stop r s)
                | Ret eq s \<Rightarrow>
                    map_option (\<lambda>m. bnd m (\<lambda>_ s. finish target_userns pid_userns s))
                      (if eq then Some (report_member K pid_str s) else examine K pid_str target_userns pid_userns s))"

section \<open>The rule of the kernel\<close>

text \<open>
  When a process has capabilities in a user namespace (\<open>user_namespaces(7)\<close>): for a process in the namespace \<open>x\<close> with
  the effective user \<open>u\<close>. A member has the capabilities in its sets, the owner of a
  namespace whose parent is \<open>x\<close> has all of them, and a capability in a namespace is one in its children.
\<close>

datatype verdict = Sets | All_Caps | No_Caps

inductive cap_capable :: "('n, 'c) nsk \<Rightarrow> 'n \<Rightarrow> 32 word \<Rightarrow> 'n \<Rightarrow> verdict \<Rightarrow> bool" for K x u where
  member: "cap_capable K x u x Sets"
| owner: "t \<noteq> x \<Longrightarrow> ns_parent K t = Inr x \<Longrightarrow> ns_uid K t = Some u \<Longrightarrow> cap_capable K x u t All_Caps"
| up: "t \<noteq> x \<Longrightarrow> ns_parent K t = Inr p \<Longrightarrow> \<not> (p = x \<and> ns_uid K t = Some u) \<Longrightarrow> cap_capable K x u p v \<Longrightarrow> cap_capable K x u t v"
| top: "t \<noteq> x \<Longrightarrow> ns_parent K t = Inl e \<Longrightarrow> cap_capable K x u t No_Caps"

inductive_cases cap_capable_member: "cap_capable K x u x v"

lemma cap_capable_fun: "cap_capable K x u t v \<Longrightarrow> cap_capable K x u t w \<Longrightarrow> v = w"
proof (induction arbitrary: w rule: cap_capable.induct)
  case member
  then show ?case by (auto elim: cap_capable.cases)
next
  case (owner t)
  from owner(4) show ?case using owner(1-3) by (cases rule: cap_capable.cases) auto
next
  case (up t p v)
  from up(6) show ?case using up(1-3) up.IH by (cases rule: cap_capable.cases) auto
next
  case (top t e)
  from top(3) show ?case using top(1,2) by (cases rule: cap_capable.cases) auto
qed

text \<open>
  The walk of the program: from \<open>t\<close> it goes up \<open>d\<close> times and stops at \<open>c\<close>, whose parent is \<open>x\<close>, or which has
  no parent.
\<close>

inductive climbs :: "('n, 'c) nsk \<Rightarrow> 'n \<Rightarrow> 'n \<Rightarrow> nat \<Rightarrow> 'n \<Rightarrow> bool \<Rightarrow> bool" for K x where
  found: "ns_parent K c = Inr x \<Longrightarrow> climbs K x c 0 c True"
| lost: "ns_parent K c = Inl e \<Longrightarrow> climbs K x c 0 c False"
| higher: "ns_parent K c = Inr p \<Longrightarrow> p \<noteq> x \<Longrightarrow> climbs K x p d c' f \<Longrightarrow> climbs K x c (Suc d) c' f"

text \<open>
  What the program relies on of the kernel: the namespaces, all of them user namespaces, form a forest and are told apart by
  device and inode; the parent of one is refused only with \<open>EPERM\<close>. (For a namespace of another kind \<open>NS_GET_PARENT\<close> fails with
  \<open>EINVAL\<close>; the program asks for the owning user namespace of such a one first.)
\<close>

definition ns_ok :: "('n, 'c) nsk \<Rightarrow> ('n \<Rightarrow> nat) \<Rightarrow> bool" where
  "ns_ok K level \<longleftrightarrow> (\<forall>n p. ns_parent K n = Inr p \<longrightarrow> level p < level n) \<and> (\<forall>n e. ns_parent K n = Inl e \<longrightarrow> e = EPERM) \<and>
     (\<forall>n. ns_stat K n \<noteq> None) \<and> (\<forall>m n. ns_stat K m = ns_stat K n \<longrightarrow> m = n)"

lemma climbs_total:
  assumes "ns_ok K level"
  shows "\<exists>d c f. climbs K x t d c f"
proof (induction "level t" arbitrary: t rule: less_induct)
  case less
  show ?case
  proof (cases "ns_parent K t")
    case (Inl e)
    then show ?thesis by (blast intro: lost)
  next
    case (Inr p)
    then have "level p < level t" using assms by (auto simp: ns_ok_def)
    then show ?thesis using less [of p] Inr by (cases "p = x") (blast intro: found higher)+
  qed
qed

lemma climbs_capable:
  assumes "climbs K x t d c f" "t \<noteq> x"
  shows "f \<Longrightarrow> ns_uid K c = Some u \<Longrightarrow> cap_capable K x u t All_Caps"
    and "f \<Longrightarrow> ns_uid K c \<noteq> Some u \<Longrightarrow> cap_capable K x u t Sets"
    and "\<not> f \<Longrightarrow> cap_capable K x u t No_Caps"
  using assms by (induction rule: climbs.induct) (auto intro: cap_capable.intros)

section \<open>Facts on descriptors\<close>

lemma lowest_free_le: "lowest_free t \<le> length t"
  by (induction t rule: lowest_free.induct) auto

lemma lowest_free_spec: "j < lowest_free t \<Longrightarrow> t ! j \<noteq> None" "lowest_free t < length t \<Longrightarrow> t ! lowest_free t = None"
  by (induction t arbitrary: j rule: lowest_free.induct) (auto simp: nth_Cons split: nat.splits)

lemma fd_view_out [simp]: "fd_view (s\<lparr>nsp_out := o'\<rparr>) = fd_view s" "fd_view (s\<lparr>nsp_err := e'\<rparr>) = fd_view s"
  by (auto simp: fd_view_def)

lemma fd_new_free:
  assumes "fd_view s i = None" "0 \<le> i" "\<And>j. 0 \<le> j \<Longrightarrow> j < i \<Longrightarrow> fd_view s j \<noteq> None"
  shows "int (lowest_free (nsp_fds s)) = i"
proof (rule ccontr)
  let ?l = "lowest_free (nsp_fds s)"
  assume "int ?l \<noteq> i"
  then consider "int ?l < i" | "i < int ?l" by linarith
  then show False
  proof cases
    case 1
    then have "fd_view s (int ?l) \<noteq> None" using assms(3) by simp
    then show False using lowest_free_spec(2) [of "nsp_fds s"] by (auto simp: fd_view_def split: if_splits)
  next
    case 2
    then have "nat i < ?l" using assms(2) by linarith
    then have "nat i < length (nsp_fds s)" "nsp_fds s ! nat i \<noteq> None"
      using lowest_free_le [of "nsp_fds s"] lowest_free_spec(1) [of "nat i" "nsp_fds s"] by auto
    then show False using assms(1,2) by (simp add: fd_view_def nat_less_iff)
  qed
qed

lemma fd_new_lowest:
  assumes "fd_new n s = (fd, t)"
  shows "0 \<le> fd" "fd_view s fd = None" "\<And>j. 0 \<le> j \<Longrightarrow> j < fd \<Longrightarrow> fd_view s j \<noteq> None"
proof -
  have fd: "fd = int (lowest_free (nsp_fds s))" using assms by (auto simp: fd_new_def Let_def)
  show "0 \<le> fd" by (simp add: fd)
  show "fd_view s fd = None" using lowest_free_spec(2) [of "nsp_fds s"] by (auto simp: fd fd_view_def)
  show "fd_view s j \<noteq> None" if "0 \<le> j" "j < fd" for j
    using that lowest_free_spec(1) [of "nat j" "nsp_fds s"] lowest_free_le [of "nsp_fds s"] by (auto simp: fd fd_view_def)
qed

lemma fd_new_view:
  assumes "fd_new n s = (fd, t)"
  shows "fd_view t = (fd_view s)(fd \<mapsto> n)" "nsp_out t = nsp_out s" "nsp_err t = nsp_err s"
proof -
  have fd: "fd = int (lowest_free (nsp_fds s))" using assms by (auto simp: fd_new_def Let_def)
  show "fd_view t = (fd_view s)(fd \<mapsto> n)"
    using assms lowest_free_le [of "nsp_fds s"] unfolding fd
    by (intro ext) (auto simp: fd_new_def Let_def fd_view_def nth_append nth_list_update split: if_splits)
  show "nsp_out t = nsp_out s" "nsp_err t = nsp_err s" using assms by (auto simp: fd_new_def Let_def)
qed

lemma fd_close_view:
  "fd_view (snd (fd_close fd s)) = (fd_view s)(fd := None)" "nsp_out (snd (fd_close fd s)) = nsp_out s" "nsp_err (snd (fd_close fd s)) = nsp_err s"
  "fst (fd_close fd s) = (if fd_view s fd = None then -1 else 0)"
proof -
  show "fd_view (snd (fd_close fd s)) = (fd_view s)(fd := None)"
  proof (cases "fd_view s fd")
    case None
    then show ?thesis by (simp add: fd_close_def fun_upd_idem)
  next
    case (Some n)
    then have r: "0 \<le> fd" "fd < int (length (nsp_fds s))" by (auto simp: fd_view_def split: if_splits)
    have "nsp_fds (snd (fd_close fd s)) = (nsp_fds s)[nat fd := None]" using Some by (simp add: fd_close_def)
    then have "fd_view (snd (fd_close fd s)) j = ((fd_view s)(fd := None)) j" for j
      using r by (cases "j = fd") (simp_all add: fd_view_def nth_list_update nat_eq_iff)
    then show ?thesis by blast
  qed
qed (simp_all add: fd_close_def)

lemma ns_equal_view:
  assumes "ns_ok K level" "fd_view s a = Some m" "fd_view s b = Some n"
  shows "ns_equal K a b s = Ret (m = n) s"
proof -
  have "ns_stat K m \<noteq> None" "ns_stat K n \<noteq> None" "ns_stat K m = ns_stat K n \<Longrightarrow> m = n" using assms(1) unfolding ns_ok_def by blast+
  then obtain p q where st: "ns_stat K m = Some p" "ns_stat K n = Some q" and inj: "ns_stat K m = ns_stat K n \<Longrightarrow> m = n" by blast
  moreover have "p = q \<longleftrightarrow> m = n" using st inj by auto
  ultimately show ?thesis using assms(2,3) by (simp add: ns_equal_def ns_fstat_def prod_eq_iff [symmetric])
qed

section \<open>The walk\<close>

text \<open>The two descriptor numbers between which the walk alternates, in a table \<open>B\<close> in which all others below them are in use.\<close>

definition slots_ok :: "(int \<Rightarrow> 'n option) \<Rightarrow> 'n \<Rightarrow> int \<Rightarrow> int \<Rightarrow> int \<Rightarrow> bool" where
  "slots_ok B x fx lo hi \<longleftrightarrow> 0 \<le> lo \<and> lo < hi \<and> fx \<noteq> lo \<and> fx \<noteq> hi \<and> B fx = Some x \<and> (\<forall>j. 0 \<le> j \<and> j < hi \<and> j \<noteq> lo \<longrightarrow> B j \<noteq> None)"

lemma ioctl_parent_new:
  assumes "fd_view s c = Some n" "ns_parent K n = Inr p" "fd_view s i = None" "0 \<le> i" "\<And>j. 0 \<le> j \<Longrightarrow> j < i \<Longrightarrow> fd_view s j \<noteq> None"
  obtains t where "ioctl_parent K c s = (Inr i, t)" "fd_view t = (fd_view s)(i \<mapsto> p)" "nsp_out t = nsp_out s" "nsp_err t = nsp_err s"
proof -
  obtain fd t where t: "fd_new p s = (fd, t)" by fastforce
  have "fd = i" using fd_new_free [OF assms(3-5)] t by (simp add: fd_new_def Let_def)
  then show ?thesis using that [of t] assms(1,2) t fd_new_view [OF t] by (simp add: ioctl_parent_def)
qed

lemma ancestor_walk:
  assumes "climbs K x c d c' f" and K: "ns_ok K level" and B: "slots_ok B x fx lo hi"
    and "child = lo \<and> other = hi \<or> child = hi \<and> other = lo" "fd_view s = B(child \<mapsto> c, other := None)"
  shows "\<exists>t. ancestor_loop K fx child s = Some (Ret (if f then (if even d then child else other) else -1) t) \<and>
    fd_view t = (if even d then B(child \<mapsto> c', other := None) else B(other \<mapsto> c', child := None)) \<and>
    nsp_out t = nsp_out s \<and> nsp_err t = nsp_err s"
  using assms(1,4,5)
proof (induction arbitrary: child other s rule: climbs.induct)
  case (lost c e)
  have "e = EPERM" using K lost(1) unfolding ns_ok_def by blast
  moreover have "fd_view s child = Some c" using lost(2,3) B by (auto simp: slots_ok_def)
  ultimately have "ancestor_loop K fx child s = Some (Ret (-1) s)" using lost(1) by (simp add: ancestor_loop.simps ioctl_parent_def)
  then show ?case using lost(3) by (intro exI [of _ s] conjI) (simp_all only: if_False if_True dvd_0_right)
next
  case (found c)
  have v: "fd_view s child = Some c" "fd_view s other = None" "0 \<le> other" "\<And>j. 0 \<le> j \<Longrightarrow> j < other \<Longrightarrow> fd_view s j \<noteq> None" "child \<noteq> other"
    using found(2,3) B by (auto simp: slots_ok_def)
  obtain t where t: "ioctl_parent K child s = (Inr other, t)" "fd_view t = (fd_view s)(other \<mapsto> x)" "nsp_out t = nsp_out s" "nsp_err t = nsp_err s"
    using ioctl_parent_new [OF v(1) found(1) v(2-4)] by blast
  have "fd_view t other = Some x" "fd_view t fx = Some x" using t(2) found(2,3) B by (auto simp: slots_ok_def)
  then have eq: "ns_equal K other fx t = Ret True t" using ns_equal_view [OF K] by fastforce
  have "fd_view (snd (fd_close other t)) = B(child \<mapsto> c, other := None)" unfolding fd_close_view t(2) found(3) by simp
  moreover have "ancestor_loop K fx child s = Some (Ret child (snd (fd_close other t)))"
    using t(1) eq by (simp add: ancestor_loop.simps [of K fx child s])
  ultimately show ?case using t(3,4) by (intro exI [of _ "snd (fd_close other t)"] conjI) (simp_all only: if_True dvd_0_right fd_close_view)
next
  case (higher c p d c' f)
  have v: "fd_view s child = Some c" "fd_view s other = None" "0 \<le> other" "\<And>j. 0 \<le> j \<Longrightarrow> j < other \<Longrightarrow> fd_view s j \<noteq> None" "child \<noteq> other"
    using higher(5,6) B by (auto simp: slots_ok_def)
  obtain t where t: "ioctl_parent K child s = (Inr other, t)" "fd_view t = (fd_view s)(other \<mapsto> p)" "nsp_out t = nsp_out s" "nsp_err t = nsp_err s"
    using ioctl_parent_new [OF v(1) higher(1) v(2-4)] by blast
  have "fd_view t other = Some p" "fd_view t fx = Some x" using t(2) higher(5,6) B by (auto simp: slots_ok_def)
  then have eq: "ns_equal K other fx t = Ret False t" using ns_equal_view [OF K, of t other p fx x] higher(2) by simp
  have v': "fd_view (snd (fd_close child t)) = B(other \<mapsto> p, child := None)"
    unfolding fd_close_view t(2) higher(6) using v(5) by (simp add: fun_upd_twist)
  have "other = lo \<and> child = hi \<or> other = hi \<and> child = lo" using higher(5) by blast
  note ih = higher.IH [OF this v', unfolded fd_close_view t(3,4)]
  have step: "ancestor_loop K fx child s = ancestor_loop K fx other (snd (fd_close child t))"
    using t(1) eq by (simp add: ancestor_loop.simps [of K fx child s])
  show ?case using ih unfolding step by (cases "even d"; cases f) simp_all
qed

text \<open>The format of \<open>/proc/PID/status\<close>: a line \<open>Uid:\<close> with the real, effective and other identifiers, after other lines.\<close>

definition uid_line :: "nat \<Rightarrow> nat \<Rightarrow> string \<Rightarrow> string" where
  "uid_line r e ids = ''Uid:'' @ CHR 0x09 # dec_of_nat r @ CHR 0x09 # dec_of_nat e @ CHR 0x09 # ids"

definition status_ok :: "nat \<Rightarrow> string \<Rightarrow> bool" where
  "status_ok e content \<longleftrightarrow> (\<exists>ls r ids post. content = concat (map (\<lambda>l. l @ [CHR 0x0A]) ls) @ uid_line r e ids @ CHR 0x0A # post \<and>
     (\<forall>l\<in>insert (uid_line r e ids) (set ls). CHR 0x0A \<notin> set l \<and> length l < 1023) \<and> (\<forall>l\<in>set ls. take 4 (l @ [CHR 0x0A]) \<noteq> ''Uid:'') \<and>
     int r \<le> INT_MAX \<and> int e \<le> INT_MAX)"

lemma fgets_line: "CHR 0x0A \<notin> set l \<Longrightarrow> length l < m \<Longrightarrow> fgets m (l @ CHR 0x0A # r) = (l @ [CHR 0x0A], r)"
proof (induction l arbitrary: m)
  case Nil
  then show ?case by (cases m) auto
next
  case (Cons c l)
  then show ?case by (cases m) auto
qed

lemma scan_field:
  assumes "int n \<le> INT_MAX"
  shows "scan_d (CHR 0x09 # dec_of_nat n @ CHR 0x09 # r) = Some (int n, CHR 0x09 # r)"
proof -
  obtain d cs where d: "d < 10" "dec_of_nat n = char_of (48 + d :: nat) # cs" using dec_head by blast
  let ?c = "char_of (48 + d :: nat)"
  have b: "byte ?c = 48 + int d" using d(1) by (simp add: byte_def)
  have "byte CHR ''-'' = 45" "byte CHR ''+'' = 43" "byte CHR 0x09 = 9" by (simp_all add: byte_def of_char_Char)
  then have c: "?c \<noteq> CHR ''-''" "?c \<noteq> CHR ''+''" using b by auto
  have "byte x < 48" if "isspace x" for x using that by (auto simp: isspace_def byte_def of_char_Char)
  then have blank: "\<not> isspace ?c" using b by fastforce
  have tab: "isspace CHR 0x09" "digit_of 10 CHR 0x09 = None" by code_simp+
  have "take_digits 10 0 (dec_of_nat n @ CHR 0x09 # r) = (int n, CHR 0x09 # r)"
    using take_digits_append [OF take_digits_dec [of n]] tab(2) by simp
  then have t: "take_digits 10 0 (?c # cs @ CHR 0x09 # r) = (int n, CHR 0x09 # r)" by (simp only: d(2) append_Cons)
  have "starts_digit 10 (?c # cs @ CHR 0x09 # r)" using digit_char [OF d(1)] by (simp add: starts_digit_def)
  moreover have "\<not> LONG_MAX < int n" "\<not> int n < LONG_MIN" using assms by (simp_all add: LONG_MAX_def INT_MAX_def LONG_MIN_def)
  ultimately have "strtol 10 (CHR 0x09 # dec_of_nat n @ CHR 0x09 # r) = (int n, CHR 0x09 # r, False)"
    using c blank tab(1) t unfolding strtol_def d(2) by (simp add: Let_def del: take_digits.simps)
  moreover have "dec_of_nat n @ CHR 0x09 # r \<noteq> r"
    by (metis append_Cons append_assoc append_self_conv2 list.distinct(1) self_append_conv2 append_eq_append_conv_if append_self_conv)
  ultimately show ?thesis by (simp add: scan_d_def)
qed

lemma scan_uid_line: "int r \<le> INT_MAX \<Longrightarrow> int e \<le> INT_MAX \<Longrightarrow> scan_uid (uid_line r e ids) = Some (int e)"
  using scan_field [of r "dec_of_nat e @ CHR 0x09 # ids"] scan_field [of e ids]
  by (simp add: scan_uid_def uid_line_def INT_MIN_def)

lemma scan_status_ok:
  assumes "status_ok e content"
  shows "scan_status path content s = Ret (of_nat e) s"
proof -
  obtain ls r ids post where c: "content = concat (map (\<lambda>l. l @ [CHR 0x0A]) ls) @ uid_line r e ids @ CHR 0x0A # post"
    and l: "\<forall>l\<in>insert (uid_line r e ids) (set ls). CHR 0x0A \<notin> set l \<and> length l < 1023" "\<forall>l\<in>set ls. take 4 (l @ [CHR 0x0A]) \<noteq> ''Uid:''"
    and b: "int r \<le> INT_MAX" "int e \<le> INT_MAX"
    using assms unfolding status_ok_def by blast
  show ?thesis unfolding c using l
  proof (induction ls)
    case Nil
    then have "fgets 1023 (uid_line r e ids @ CHR 0x0A # post) = (uid_line r e ids @ [CHR 0x0A], post)" by (intro fgets_line) auto
    moreover have "scan_uid (uid_line r e ids @ [CHR 0x0A]) = Some (int e)"
      using scan_uid_line [OF b, of "ids @ [CHR 0x0A]"] by (simp add: uid_line_def)
    moreover have "take 4 (uid_line r e ids @ [CHR 0x0A]) = ''Uid:''" by (simp add: uid_line_def)
    ultimately show ?case by (simp add: scan_status.simps)
  next
    case (Cons l ls)
    then have "fgets 1023 (l @ CHR 0x0A # concat (map (\<lambda>l. l @ [CHR 0x0A]) ls) @ uid_line r e ids @ CHR 0x0A # post) =
        (l @ [CHR 0x0A], concat (map (\<lambda>l. l @ [CHR 0x0A]) ls) @ uid_line r e ids @ CHR 0x0A # post)" by (intro fgets_line) auto
    then show ?case using Cons by (simp add: scan_status.simps [of path "l @ CHR 0x0A # x" for x])
  qed
qed

section \<open>\<open>main()\<close> as a whole\<close>

text \<open>The files and the process that the program is called for.\<close>

definition pid_file :: "string \<Rightarrow> string" where
  "pid_file pid_str = snprintf_buf PATH_MAX (''/proc/'' @ pid_str @ ''/ns/user'')"

definition target_of :: "('n, 'c) nsk \<Rightarrow> string \<Rightarrow> 'n \<Rightarrow> bool" where
  "target_of K file t \<longleftrightarrow> (\<exists>n k. ns_open K file = Some n \<and> ns_kind K n = Some k \<and> (if k = CLONE_NEWUSER then t = n else ns_userns K n = Some t))"

definition process_ok :: "('n, 'c) nsk \<Rightarrow> string \<Rightarrow> 'n \<Rightarrow> 32 word \<Rightarrow> string \<Rightarrow> bool" where
  "process_ok K pid_str x u caps \<longleftrightarrow> ns_open K (pid_file pid_str) = Some x \<and> (\<forall>n. ns_uid K n \<noteq> None) \<and>
     (\<exists>content. status_text K (snprintf_buf PATH_MAX (''/proc/'' @ dec_of_int (atoi_int pid_str) @ ''/status'')) = Some content \<and>
        (\<exists>e. status_ok e content \<and> u = of_nat e)) \<and>
     (\<exists>c. cap_get_pid K (atoi_int pid_str) = Some c \<and> cap_to_text K c = Some caps)"

text \<open>At most one descriptor below \<open>fd\<close> is free.\<close>

definition one_gap :: "(int \<Rightarrow> 'n option) \<Rightarrow> int \<Rightarrow> bool" where
  "one_gap V fd \<longleftrightarrow> (\<forall>j k. 0 \<le> j \<and> j < fd \<and> V j = None \<and> 0 \<le> k \<and> k < fd \<and> V k = None \<longrightarrow> j = k)"

lemma find_target_view:
  assumes "target_of K file t"
  obtains fd s1 where "find_target K file s = Ret fd s1" "fd_view s1 = (fd_view s)(fd \<mapsto> t)" "nsp_out s1 = nsp_out s" "nsp_err s1 = nsp_err s"
    "0 \<le> fd" "fd_view s fd = None" "one_gap (fd_view s) fd"
proof -
  obtain n k where n: "ns_open K file = Some n" "ns_kind K n = Some k" "if k = CLONE_NEWUSER then t = n else ns_userns K n = Some t"
    using assms by (auto simp: target_of_def)
  obtain a s1 where a: "fd_new n s = (a, s1)" by fastforce
  note lo = fd_new_lowest [OF a] and v = fd_new_view [OF a]
  show ?thesis
  proof (cases "k = CLONE_NEWUSER")
    case True
    then have "find_target K file s = Ret a s1" using n a v(1) by (simp add: find_target_def ns_file_def ns_type_def)
    moreover have "one_gap (fd_view s) a" using lo(3) unfolding one_gap_def by blast
    ultimately show ?thesis using that [of a s1] lo(1,2) v True n(3) by simp
  next
    case False
    obtain b s2 where b: "fd_new t s1 = (b, s2)" by fastforce
    note lo2 = fd_new_lowest [OF b] and v2 = fd_new_view [OF b]
    have "find_target K file s = Ret b (snd (fd_close a s2))"
      using n a b v(1) False by (simp add: find_target_def ns_file_def ns_type_def owning_userns_of_def)
    moreover have ne: "a \<noteq> b" using lo2(2) v(1) by auto
    moreover have "fd_view (snd (fd_close a s2)) = (fd_view s)(b \<mapsto> t)"
      using ne v(1) v2(1) lo(2) by (auto simp: fd_close_view fun_upd_twist fun_upd_idem)
    moreover have "j = a" if "0 \<le> j" "j < b" "fd_view s j = None" for j using lo2(3) [of j] that v(1) by (auto split: if_splits)
    then have "one_gap (fd_view s) b" unfolding one_gap_def by blast
    moreover have "fd_view s b = None" using lo2(2) v(1) ne by simp
    ultimately show ?thesis using that [of b "snd (fd_close a s2)"] lo2(1) v v2 by (simp add: fd_close_view)
  qed
qed

lemma slots_found:
  assumes "fd_new x s1 = (p, s2)" "fd_view s1 lo = Some t" "0 \<le> lo"
    "one_gap (fd_view s1) lo"
  obtains hi where "slots_ok (fd_view s2) x p lo hi" "fd_view s2 lo = Some t" "fd_view s2 hi = None"
proof -
  note lo = fd_new_lowest [OF assms(1)] and v = fd_new_view(1) [OF assms(1)]
  define hi where "hi = int (lowest_free (nsp_fds s2))"
  have new: "fd_new t s2 = (hi, snd (fd_new t s2))" by (simp add: fd_new_def Let_def hi_def)
  note top = fd_new_lowest [OF new]
  have ne: "p \<noteq> lo" "p \<noteq> hi" "lo \<noteq> hi" and f: "fd_view s2 lo = Some t" "fd_view s1 hi = None"
    using lo(2) v assms(2) top(2) by (auto split: if_splits)
  have "lo < hi"
  proof (rule ccontr)
    assume "\<not> lo < hi"
    then have "hi < lo" using ne(3) by simp
    moreover have "p < hi" using lo(3) [of hi] f(2) top(1) ne(2) by force
    ultimately show False using assms(4) lo(1,2) top(1) f(2) ne(2) unfolding one_gap_def by force
  qed
  then have "slots_ok (fd_view s2) x p lo hi" using ne v assms(3) top by (auto simp: slots_ok_def)
  then show ?thesis using that f(1) top(2) by blast
qed

text \<open>The last line of output.\<close>

definition conclusion :: "verdict \<Rightarrow> string \<Rightarrow> msg" where
  "conclusion v caps =
     (case v of
        Sets \<Rightarrow> (''Capabilities: %s\<newline>'', [ArgS caps])
      | All_Caps \<Rightarrow> (''Therefore, subject to LSM checks, it has all capabilities in the target\<newline>namespace!\<newline>'', [])
      | No_Caps \<Rightarrow> (''Therefore, it has no capabilities in the target namespace.\<newline>'', []))"

lemma report_ancestor_view:
  assumes "process_ok K pid_str x u caps" "fd_view s fd = Some c"
  shows "\<exists>t. report_ancestor K pid_str fd s = Ret () t \<and> fd_view t = fd_view s \<and> nsp_err t = nsp_err s \<and>
    last (nsp_out t) = conclusion (if ns_uid K c = Some u then All_Caps else Sets) caps"
proof -
  obtain cp where "cap_get_pid K (atoi_int pid_str) = Some cp" "cap_to_text K cp = Some caps" using assms(1) by (auto simp: process_ok_def)
  moreover have "ns_uid K c \<noteq> None" using assms(1) by (simp add: process_ok_def)
  moreover have "euid_of_process K (atoi_int pid_str) s = Ret u s"
    using assms(1) scan_status_ok by (auto simp: process_ok_def euid_of_process_def)
  ultimately show ?thesis
    using assms(2)
    by (auto simp: report_ancestor_def uid_of_userns_owner_def display_process_capabilities_def ns_print_def conclusion_def Let_def)
qed

lemma finish_view:
  assumes "fd_view s a \<noteq> None" "fd_view s b \<noteq> None" "a \<noteq> b"
  shows "\<exists>t. finish a b s = Stop (Exit 0) t \<and> nsp_out t = nsp_out s"
proof -
  obtain r1 s1 where 1: "fd_close a s = (r1, s1)" by fastforce
  obtain r2 s2 where 2: "fd_close b s1 = (r2, s2)" by fastforce
  have "fd_view s1 b \<noteq> None" "r1 = 0" "nsp_out s1 = nsp_out s" using fd_close_view [of a s] 1 assms by auto
  moreover from this have "r2 = 0" "nsp_out s2 = nsp_out s1" using fd_close_view [of b s1] 2 by auto
  ultimately show ?thesis using 1 2 by (simp add: finish_def close_or_die_def)
qed

lemma finish_closed:
  assumes "fd_view s a = None"
  shows "\<exists>t. finish a b s = Stop (Exit 1) t \<and> nsp_out t = nsp_out s \<and> nsp_err t = nsp_err s @ [(''close-target_userns'', [])]"
  using assms by (simp add: finish_def close_or_die_def fd_close_def ns_perror_def)

text \<open>The verdict of a walk that ended.\<close>

definition walk_verdict :: "('n, 'c) nsk \<Rightarrow> 32 word \<Rightarrow> 'n \<Rightarrow> bool \<Rightarrow> verdict" where
  "walk_verdict K u c f = (if f then (if ns_uid K c = Some u then All_Caps else Sets) else No_Caps)"

lemma examine_view:
  assumes w: "climbs K x t d c f" and K: "ns_ok K level" and P: "process_ok K pid_str x u caps"
    and B: "slots_ok (fd_view s) x fx lo hi" "fd_view s lo = Some t" "fd_view s hi = None"
  shows "\<exists>s'. examine K pid_str lo fx s = Some (Ret () s') \<and> last (nsp_out s') = conclusion (walk_verdict K u c f) caps \<and>
    (fd_view s' lo = None \<longleftrightarrow> odd d) \<and> fd_view s' fx = Some x \<and> nsp_err s' = nsp_err s"
proof -
  define fd where "fd = (if even d then lo else hi)"
  have slot: "lo \<noteq> hi" "fx \<noteq> lo" "fx \<noteq> hi" "fd_view s fx = Some x" "0 \<le> lo" "0 \<le> hi" using B(1) by (auto simp: slots_ok_def)
  obtain s1 where s1: "is_ancestor_userns K fx lo s = Some (Ret (if f then fd else -1) s1)"
    "fd_view s1 = (if even d then (fd_view s)(lo \<mapsto> c, hi := None) else (fd_view s)(hi \<mapsto> c, lo := None))" "nsp_err s1 = nsp_err s"
    using ancestor_walk [OF w K B(1), of lo hi s] B(2,3) by (auto simp: is_ancestor_userns_def fd_def fun_upd_idem)
  then have v: "fd_view s1 fd = Some c" "fd_view s1 fx = Some x" "fd_view s1 lo = None \<longleftrightarrow> odd d" using slot by (auto simp: fd_def)
  show ?thesis
  proof (cases f)
    case False
    then show ?thesis using s1(1,3) v by (simp add: examine_def report_stranger_def ns_print_def conclusion_def walk_verdict_def)
  next
    case True
    obtain s2 where s2: "report_ancestor K pid_str fd s1 = Ret () s2" "fd_view s2 = fd_view s1" "nsp_err s2 = nsp_err s1"
      "last (nsp_out s2) = conclusion (walk_verdict K u c f) caps"
      using report_ancestor_view [OF P v(1)] True by (auto simp: walk_verdict_def)
    have fd: "fd \<noteq> -1" using slot by (simp add: fd_def)
    show ?thesis
    proof (cases "even d")
      case even: True
      then show ?thesis using s1(1,3) s2 v True fd by (simp add: examine_def fd_def)
    next
      case odd: False
      obtain r s3 where s3: "fd_close hi s2 = (r, s3)" by fastforce
      then have "r = 0" "fd_view s3 = (fd_view s2)(hi := None)" "nsp_err s3 = nsp_err s2" "nsp_out s3 = nsp_out s2"
        using fd_close_view [of hi s2] s2(2) v(1) odd by (auto simp: fd_def)
      then show ?thesis using s1(1,3) s2 s3 v True fd odd slot by (simp add: examine_def fd_def close_or_die_def)
    qed
  qed
qed

lemma report_member_view:
  assumes "process_ok K pid_str x u caps"
  shows "\<exists>t. report_member K pid_str s = Ret () t \<and> fd_view t = fd_view s \<and> last (nsp_out t) = conclusion Sets caps"
  using assms by (auto simp: process_ok_def report_member_def display_process_capabilities_def ns_print_def conclusion_def Let_def)

lemma main_start_view:
  assumes K: "ns_ok K level" and T: "target_of K file t" and P: "process_ok K pid_str x u caps"
  obtains lo hi fx s2 where
    "ns_capable_main K pname [pid_str, file] s =
       map_option (\<lambda>m. bnd m (\<lambda>_ s. finish lo fx s)) (if t = x then Some (report_member K pid_str s2) else examine K pid_str lo fx s2)"
    "slots_ok (fd_view s2) x fx lo hi" "fd_view s2 lo = Some t" "fd_view s2 hi = None" "nsp_err s2 = nsp_err s"
proof -
  obtain lo s1 where s1: "find_target K file s = Ret lo s1" "fd_view s1 = (fd_view s)(lo \<mapsto> t)" "nsp_err s1 = nsp_err s" "0 \<le> lo"
    and u: "one_gap (fd_view s) lo"
    by (rule find_target_view [OF T, of s])
  obtain fx s2 where s2: "fd_new x s1 = (fx, s2)" by fastforce
  have v1: "fd_view s1 lo = Some t" and u1: "one_gap (fd_view s1) lo"
    using s1(2) u by (simp_all add: one_gap_def)
  obtain hi where B: "slots_ok (fd_view s2) x fx lo hi" "fd_view s2 lo = Some t" "fd_view s2 hi = None"
    by (rule slots_found [OF s2 v1 s1(4) u1])
  have f: "ns_file K (pid_file pid_str) ''open-PID'' s1 = Ret fx s2" using P s2 by (simp add: process_ok_def ns_file_def)
  have "fd_view s2 fx = Some x" "fd_view s2 lo = Some t"
    using fd_new_view(1) [OF s2] fd_new_lowest(2) [OF s2] s1(2) by (auto split: if_splits)
  then have "ns_equal K fx lo s2 = Ret (t = x) s2" using ns_equal_view [OF K, of s2 fx x lo t] by (simp add: eq_commute)
  then show ?thesis using that [OF _ B] s1(1,3) f fd_new_view(3) [OF s2] by (simp add: ns_capable_main_def pid_file_def)
qed

lemma main_member:
  assumes "ns_ok K level" "target_of K file x" "process_ok K pid_str x u caps"
  shows "\<exists>s'. ns_capable_main K pname [pid_str, file] s = Some (Stop (Exit 0) s') \<and> last (nsp_out s') = conclusion Sets caps"
proof -
  obtain lo hi fx s2 where s2: "ns_capable_main K pname [pid_str, file] s =
       map_option (\<lambda>m. bnd m (\<lambda>_ s. finish lo fx s)) (if x = x then Some (report_member K pid_str s2) else examine K pid_str lo fx s2)"
    "slots_ok (fd_view s2) x fx lo hi" "fd_view s2 lo = Some x"
    by (rule main_start_view [OF assms, of pname s])
  obtain s3 where s3: "report_member K pid_str s2 = Ret () s3" "fd_view s3 = fd_view s2" "last (nsp_out s3) = conclusion Sets caps"
    using report_member_view [OF assms(3)] by blast
  have "fd_view s3 lo \<noteq> None" "fd_view s3 fx \<noteq> None" "lo \<noteq> fx"
    using s2(2,3) s3(2) by (auto simp: slots_ok_def)
  from finish_view [OF this] show ?thesis using s2(1) s3 by auto
qed

lemma main_walk:
  assumes K: "ns_ok K level" "target_of K file t" and P: "process_ok K pid_str x u caps" and w: "climbs K x t d c f" "t \<noteq> x"
  shows "\<exists>s'. ns_capable_main K pname [pid_str, file] s = Some (Stop (Exit (int (d mod 2))) s') \<and>
    last (nsp_out s') = conclusion (walk_verdict K u c f) caps \<and> (odd d \<longrightarrow> nsp_err s' = nsp_err s @ [(''close-target_userns'', [])])"
proof -
  obtain lo hi fx s2 where s2: "ns_capable_main K pname [pid_str, file] s =
       map_option (\<lambda>m. bnd m (\<lambda>_ s. finish lo fx s)) (if t = x then Some (report_member K pid_str s2) else examine K pid_str lo fx s2)"
    "slots_ok (fd_view s2) x fx lo hi" "fd_view s2 lo = Some t" "fd_view s2 hi = None" "nsp_err s2 = nsp_err s"
    by (rule main_start_view [OF K P, of pname s])
  from examine_view [OF w(1) K(1) P s2(2-4)] obtain s3 where "examine K pid_str lo fx s2 = Some (Ret () s3) \<and>
    last (nsp_out s3) = conclusion (walk_verdict K u c f) caps \<and> (fd_view s3 lo = None \<longleftrightarrow> odd d) \<and> fd_view s3 fx = Some x \<and> nsp_err s3 = nsp_err s2" ..
  then have s3: "examine K pid_str lo fx s2 = Some (Ret () s3)" "last (nsp_out s3) = conclusion (walk_verdict K u c f) caps"
    "fd_view s3 lo = None \<longleftrightarrow> odd d" "fd_view s3 fx = Some x" "nsp_err s3 = nsp_err s2" by simp_all
  have m: "ns_capable_main K pname [pid_str, file] s = Some (finish lo fx s3)" using s2(1) s3(1) w(2) by simp
  show ?thesis
  proof (cases "even d")
    case True
    have "lo \<noteq> fx" using s2(2) by (auto simp: slots_ok_def)
    then show ?thesis using finish_view [of s3 lo fx] s3 m True by auto
  next
    case False
    then show ?thesis using finish_closed [of s3 lo fx] s3 s2(5) m by (auto simp: odd_iff_mod_2_eq_one)
  qed
qed

section \<open>An example\<close>

text \<open>A chain of user namespaces; process 7 of user 1000 is in the first one and has made the one below it.\<close>

definition sample_status :: string where
  "sample_status = ''Name:'' @ CHR 0x09 # ''sh'' @ [CHR 0x0A] @ uid_line 1000 1000 (''1000'' @ CHR 0x09 # ''1000'') @ CHR 0x0A # ''Gid:''"

definition sample_ns :: "(nat, unit) nsk" where
  "sample_ns = \<lparr>ns_open = (\<lambda>f. if f = ''/proc/7/ns/user'' then Some 0 else if f = ''/proc/8/ns/user'' then Some 2 else None),
     ns_parent = (\<lambda>n. if n = 0 then Inl EPERM else Inr (n - 1)), ns_userns = (\<lambda>n. Some n), ns_kind = (\<lambda>n. Some CLONE_NEWUSER),
     ns_uid = (\<lambda>n. Some 1000), ns_stat = (\<lambda>n. Some (4, n)),
     status_text = (\<lambda>f. if f = ''/proc/7/status'' then Some sample_status else None), cap_get_pid = (\<lambda>_. Some ()), cap_to_text = (\<lambda>_. Some ''='')\<rparr>"

definition sample_nsp :: "nat nsp" where
  "sample_nsp = \<lparr>nsp_fds = [Some 90, Some 91, Some 92], nsp_out = [], nsp_err = []\<rparr>"

lemma sample_ns_ok: "ns_ok sample_ns (\<lambda>n. n)"
  by (auto simp: ns_ok_def sample_ns_def split: if_splits)

lemma sample_target: "target_of sample_ns ''/proc/8/ns/user'' 2"
  by (simp add: target_of_def sample_ns_def)

lemma sample_status_ok: "status_ok 1000 sample_status"
  unfolding status_ok_def
proof (intro exI conjI)
  show "sample_status = concat (map (\<lambda>l. l @ [CHR 0x0A]) [''Name:'' @ CHR 0x09 # ''sh'']) @ uid_line 1000 1000 (''1000'' @ CHR 0x09 # ''1000'') @ CHR 0x0A # ''Gid:''"
    by (simp add: sample_status_def)
  show "\<forall>l\<in>insert (uid_line 1000 1000 (''1000'' @ CHR 0x09 # ''1000'')) (set [''Name:'' @ CHR 0x09 # ''sh'']). CHR 0x0A \<notin> set l \<and> length l < 1023"
    by code_simp
qed (simp_all add: INT_MAX_def)

lemma sample_process: "process_ok sample_ns ''7'' 0 1000 ''=''"
proof -
  have "pid_file ''7'' = ''/proc/7/ns/user''" by code_simp
  moreover have "snprintf_buf PATH_MAX (''/proc/'' @ dec_of_int (atoi_int ''7'') @ ''/status'') = ''/proc/7/status''" by code_simp
  moreover have "\<exists>e. status_ok e sample_status \<and> (1000 :: 32 word) = of_nat e" using sample_status_ok by (intro exI [of _ 1000]) simp
  ultimately show ?thesis by (simp add: process_ok_def sample_ns_def)
qed

lemma sample_climbs: "climbs sample_ns 0 2 1 1 True"
  by (simp add: sample_ns_def climbs.higher [of _ _ 1] climbs.found)

section \<open>Properties\<close>

text \<open>
  C23: the verdict. For any tree of namespaces the program ends, and the last line that it prints is the one for what
  the rule of \<open>user_namespaces(7)\<close> gives the process in the target: its own sets, all capabilities or none.
\<close>

theorem ns_capable_verdict:
  assumes "ns_ok K level" "target_of K file t" "process_ok K pid_str x u caps"
  shows "\<exists>st s' v. ns_capable_main K pname [pid_str, file] s = Some (Stop (Exit st) s') \<and> cap_capable K x u t v \<and>
    last (nsp_out s') = conclusion v caps"
proof (cases "t = x")
  case True
  then have "target_of K file x" using assms(2) by simp
  from main_member [OF assms(1) this assms(3), of pname s] obtain s' where
    "ns_capable_main K pname [pid_str, file] s = Some (Stop (Exit 0) s')" "last (nsp_out s') = conclusion Sets caps" by blast
  moreover have "cap_capable K x u t Sets" unfolding True by (rule cap_capable.member)
  ultimately show ?thesis by blast
next
  case False
  obtain d c f where w: "climbs K x t d c f" using climbs_total [OF assms(1)] by blast
  have "cap_capable K x u t (walk_verdict K u c f)" using climbs_capable [OF w False] by (simp add: walk_verdict_def)
  then show ?thesis using main_walk [OF assms w False] by blast
qed

theorem ns_capable_verdict_witness:
  "\<exists>st s' v. ns_capable_main sample_ns ''ns_capable'' [''7'', ''/proc/8/ns/user''] sample_nsp = Some (Stop (Exit st) s') \<and>
     cap_capable sample_ns 0 1000 2 v \<and> last (nsp_out s') = conclusion v ''=''"
  by (rule ns_capable_verdict [OF sample_ns_ok sample_target sample_process])

text \<open>
  C38: the exit status is wrong for every second depth. The walk closes the descriptor of the target on its first
  step, and the kernel gives its number to a namespace that is opened later. After \<open>d\<close> steps the number is in use again if \<open>d\<close> is even;
  if \<open>d\<close> is odd the final \<open>close()\<close> fails, and the program ends with an error message and status 1
  although it has printed the right verdict.
\<close>

theorem ns_capable_status:
  assumes "ns_ok K level" "target_of K file t" "process_ok K pid_str x u caps" "climbs K x t d c f" "t \<noteq> x"
  shows "\<exists>s'. ns_capable_main K pname [pid_str, file] s = Some (Stop (Exit (int (d mod 2))) s') \<and>
    (odd d \<longrightarrow> nsp_err s' = nsp_err s @ [(''close-target_userns'', [])])"
  using main_walk [OF assms] by blast

theorem ns_capable_status_witness:
  "\<exists>s'. ns_capable_main sample_ns ''ns_capable'' [''7'', ''/proc/8/ns/user''] sample_nsp = Some (Stop (Exit 1) s') \<and>
     nsp_err s' = [(''close-target_userns'', [])]"
  using ns_capable_status [OF sample_ns_ok sample_target sample_process sample_climbs, of "''ns_capable''" sample_nsp]
  by (simp add: sample_nsp_def)

end
