(* ===== verification/Userns_Exec.thy ===== *)
theory Userns_Exec
  imports Interleaving Tlpi_Text
begin

text \<open>
  \<open>namespaces/userns_child_exec.c\<close> with \<open>namespaces/userns_functions.c\<close> and \<open>cap/cap_functions.c\<close>: a
  program that makes a child process in new namespaces, writes the maps of its user namespace, and lets it execute a
  command. The child waits for the maps at a pipe; before the command it performs the repeatable options.

  \<open>getopt()\<close> is the list of options that it delivers. The kernel and libcap are a parameter, the record \<open>usk\<close>; the type \<open>'w\<close>
  stands for the credentials of the child. The two processes are interleaved by the schedules of \<open>Interleaving\<close>:
  process 0 is the parent, process 1 the child.
\<close>

unbundle bit_operations_syntax

section \<open>Capabilities\<close>

datatype cap_flag = CAP_EFFECTIVE | CAP_PERMITTED | CAP_INHERITABLE
datatype cap_setting = CAP_CLEAR | CAP_SET

datatype prctl_call = PR_CAPBSET_DROP int | PR_CAP_AMBIENT_RAISE int | PR_CAP_AMBIENT_LOWER int | PR_SET_SECUREBITS "32 word"

record ('c, 'w) usk =
  us_get_proc :: "'w \<Rightarrow> 'c option"
  us_set_flag :: "'c \<Rightarrow> cap_flag \<Rightarrow> int \<Rightarrow> cap_setting \<Rightarrow> 'c option"
  us_set_proc :: "'c \<Rightarrow> 'w \<Rightarrow> 'w option"
  us_cap_free :: "'c \<Rightarrow> bool"
  us_from_text :: "string \<Rightarrow> 'c option"
  us_from_name :: "string \<Rightarrow> int option"
  us_to_text :: "'c \<Rightarrow> string option"
  us_last_cap :: nat
  us_prctl :: "prctl_call \<Rightarrow> 'w \<Rightarrow> 'w option"
  us_setresuid :: "32 word \<Rightarrow> 32 word \<Rightarrow> 32 word \<Rightarrow> 'w \<Rightarrow> 'w option"
  us_euid :: "'w \<Rightarrow> 32 word"
  us_egid :: "'w \<Rightarrow> 32 word"
  us_uid :: "32 word"
  us_gid :: "32 word"
  us_open :: "string \<Rightarrow> int option"
  us_write :: "string \<Rightarrow> string \<Rightarrow> int + nat"
  us_strerror :: "int \<Rightarrow> string"

definition modifyCapSetting :: "('c, 'w) usk \<Rightarrow> cap_flag \<Rightarrow> int \<Rightarrow> cap_setting \<Rightarrow> 'w \<Rightarrow> int \<times> 'w" where
  "modifyCapSetting K flag capability setting w =
     (case us_get_proc K w of
        None \<Rightarrow> (-1, w)
      | Some caps \<Rightarrow>
          case us_set_flag K caps flag capability setting of
            None \<Rightarrow> (-1, w)
          | Some caps \<Rightarrow> case us_set_proc K caps w of None \<Rightarrow> (-1, w) | Some w \<Rightarrow> (if us_cap_free K caps then 0 else -1, w))"

text \<open>The flags of \<open>linux/securebits.h\<close>, and the two forms of a set of them.\<close>

definition secbitInfoList :: "(32 word \<times> string \<times> char) list" where
  "secbitInfoList =
     [(64, ''NO_CAP_AMBIENT_RAISE'', CHR ''a''), (128, ''NO_CAP_AMBIENT_RAISE_LOCKED'', CHR ''A''), (16, ''KEEP_CAPS'', CHR ''k''),
      (32, ''KEEP_CAPS_LOCKED'', CHR ''K''), (1, ''NOROOT'', CHR ''r''), (2, ''NOROOT_LOCKED'', CHR ''R''),
      (4, ''NO_SETUID_FIXUP'', CHR ''s''), (8, ''NO_SETUID_FIXUP_LOCKED'', CHR ''S'')]"

fun secbit_names :: "32 word \<Rightarrow> (32 word \<times> string \<times> char) list \<Rightarrow> nat \<Rightarrow> string" where
  "secbit_names secbits [] printed = []"
| "secbit_names secbits ((flag, name, letter) # ps) printed =
     (if secbits AND flag \<noteq> 0 then (if printed > 0 then '', '' else []) @ name @ secbit_names secbits ps (printed + 1)
      else secbit_names secbits ps printed)"

definition printSecbits :: "32 word \<Rightarrow> bool \<Rightarrow> string" where
  "printSecbits secbits verbose =
     (if verbose then ''['' @ secbit_names secbits secbitInfoList 0 @ '']''
      else map (\<lambda>(flag, name, letter). if secbits AND flag \<noteq> 0 then letter else CHR ''-'') secbitInfoList)"

section \<open>The child's options\<close>

record 'w kid =
  kid_cred :: 'w
  kid_out :: "msg list"
  kid_err :: "msg list"

definition kid_exit :: "string \<Rightarrow> fmt_arg list \<Rightarrow> 'w kid \<Rightarrow> ('a, 'w kid) outcome" where
  "kid_exit m as s = Stop (Exit 1) (s\<lparr>kid_err := kid_err s @ [(m, as)]\<rparr>)"

definition try_cred :: "'w option \<Rightarrow> string \<Rightarrow> 'w kid \<Rightarrow> (unit, 'w kid) outcome" where
  "try_cred r m s = (case r of None \<Rightarrow> kid_exit m [] s | Some w \<Rightarrow> Ret () (s\<lparr>kid_cred := w\<rparr>))"

definition display_creds_and_caps :: "('c, 'w) usk \<Rightarrow> string \<Rightarrow> 'w kid \<Rightarrow> (unit, 'w kid) outcome" where
  "display_creds_and_caps K str s =
     (let w = kid_cred s;
          s = s\<lparr>kid_out := kid_out s @ [(''%seUID = %ld; eGID = %ld;  '', [ArgS str, ArgI (uint (us_euid K w)), ArgI (uint (us_egid K w))])]\<rparr>
      in case us_get_proc K w of
           None \<Rightarrow> kid_exit ''cap_get_proc'' [] s
         | Some caps \<Rightarrow>
             case us_to_text K caps of
               None \<Rightarrow> kid_exit ''cap_to_text'' [] s
             | Some t \<Rightarrow> Ret () (s\<lparr>kid_out := kid_out s @ [(''capabilities: %s\<newline>'', [ArgS t])]\<rparr>))"

fun raise_caps :: "('c, 'w) usk \<Rightarrow> bool \<Rightarrow> nat list \<Rightarrow> 'w \<Rightarrow> 'w" where
  "raise_caps K doAmbient [] w = w"
| "raise_caps K doAmbient (cap # cs) w =
     (let w = snd (modifyCapSetting K CAP_INHERITABLE (int cap) CAP_SET w);
          w = (if doAmbient then (case us_prctl K (PR_CAP_AMBIENT_RAISE (int cap)) w of None \<Rightarrow> w | Some w \<Rightarrow> w) else w)
      in raise_caps K doAmbient cs w)"

definition raiseInheritableAndAmbientCaps :: "('c, 'w) usk \<Rightarrow> bool \<Rightarrow> 'w kid \<Rightarrow> 'w kid" where
  "raiseInheritableAndAmbientCaps K doAmbient s = s\<lparr>kid_cred := raise_caps K doAmbient [0..<us_last_cap K + 1] (kid_cred s)\<rparr>"

fun modify_sets :: "('c, 'w) usk \<Rightarrow> char \<Rightarrow> string \<Rightarrow> int \<Rightarrow> string \<Rightarrow> 'w kid \<Rightarrow> (unit, 'w kid) outcome" where
  "modify_sets K op name cap [] s = Ret () s"
| "modify_sets K op name cap (p # ps) s =
     bnd (if p \<in> {CHR ''p'', CHR ''i'', CHR ''e''} then
            (let flag = (if p = CHR ''p'' then CAP_PERMITTED else if p = CHR ''e'' then CAP_EFFECTIVE else CAP_INHERITABLE);
                 capval = (if op = CHR ''+'' then CAP_SET else CAP_CLEAR)
             in case modifyCapSetting K flag cap capval (kid_cred s) of (r, w) \<Rightarrow>
                  if r = -1 then
                    kid_exit ''-X: modifyCapSetting() failed while %s '%s' in '%c'\<newline>''
                      [ArgS (if capval = CAP_SET then ''raising'' else ''lowering''), ArgS name, ArgI (byte p)] (s\<lparr>kid_cred := w\<rparr>)
                  else Ret () (s\<lparr>kid_cred := w\<rparr>))
          else if p = CHR ''b'' then
            (if op = CHR ''+'' then kid_exit (''Can'' @ [CHR 0x27] @ ''t add capabilities to the bounding set\<newline>'') [] s
             else try_cred (us_prctl K (PR_CAPBSET_DROP cap) (kid_cred s)) ''-X: PR_CAPBSET_DROP'' s)
          else if p = CHR ''a'' then
            try_cred (us_prctl K (if op = CHR ''+'' then PR_CAP_AMBIENT_RAISE cap else PR_CAP_AMBIENT_LOWER cap) (kid_cred s)) ''-X: PR_CAP_AMBIENT'' s
          else kid_exit ''Bad switch case ('-X'): %c\<newline>'' [ArgI (byte p)] s)
       (\<lambda>_ s. modify_sets K op name cap ps s)"

definition modify_individual_capability :: "('c, 'w) usk \<Rightarrow> string \<Rightarrow> 'w kid \<Rightarrow> (unit, 'w kid) outcome" where
  "modify_individual_capability K optval s =
     (let sets = takeWhile (\<lambda>c. c \<noteq> CHR ''+'' \<and> c \<noteq> CHR ''-'') optval;
          op = dropWhile (\<lambda>c. c \<noteq> CHR ''+'' \<and> c \<noteq> CHR ''-'') optval;
          bad_cap = (\<not> set sets \<subseteq> set ''peiba'')
      in if op = [] \<or> tl op = [] \<or> bad_cap then kid_exit ''Badly formed -X option\<newline>'' [] s
         else case us_from_name K (tl op) of
                None \<Rightarrow> kid_exit ''-X: bad capability name\<newline>'' [] s
              | Some cap \<Rightarrow> modify_sets K (hd op) (tl op) cap sets s)"

fun secbits_of :: "string \<Rightarrow> 32 word \<Rightarrow> char + 32 word" where
  "secbits_of [] secbits = Inr secbits"
| "secbits_of (p # ps) secbits =
     (if p = CHR ''a'' then secbits_of ps (secbits OR 64)
      else if p = CHR ''A'' then secbits_of ps (secbits OR 128)
      else if p = CHR ''k'' then secbits_of ps (secbits OR 16)
      else if p = CHR ''K'' then secbits_of ps (secbits OR 32)
      else if p = CHR ''r'' then secbits_of ps (secbits OR 1)
      else if p = CHR ''R'' then secbits_of ps (secbits OR 2)
      else if p = CHR ''s'' then secbits_of ps (secbits OR 4)
      else if p = CHR ''S'' then secbits_of ps (secbits OR 8)
      else if p = CHR ''0'' then secbits_of ps 0
      else Inl p)"

definition set_securebits :: "('c, 'w) usk \<Rightarrow> string \<Rightarrow> 'w kid \<Rightarrow> (unit, 'w kid) outcome" where
  "set_securebits K optval s =
     (case secbits_of optval 0 of
        Inl p \<Rightarrow> kid_exit ''Unexpected value for '-b' (securebits flag): %c\<newline>'' [ArgI (byte p)] s
      | Inr secbits \<Rightarrow> try_cred (us_prctl K (PR_SET_SECUREBITS secbits) (kid_cred s)) ''prctl-PR_SET_SECUREBITS'' s)"

definition uid_of :: "string \<Rightarrow> 32 word" where
  "uid_of v = word_of_int (atoi_int v)"

definition set_process_uids :: "('c, 'w) usk \<Rightarrow> string \<Rightarrow> 'w kid \<Rightarrow> (unit, 'w kid) outcome" where
  "set_process_uids K optval s =
     (let bad = kid_exit ''Expected three comma-separated UIDs: -S %s\<newline>'' [ArgS optval] s in
      case cut_at CHR '','' optval of
        (a, None) \<Rightarrow> bad
      | (a, Some r) \<Rightarrow>
          case cut_at CHR '','' r of
            (b, None) \<Rightarrow> bad
          | (b, Some c) \<Rightarrow> try_cred (us_setresuid K (uid_of a) (uid_of b) (uid_of c) (kid_cred s)) ''-S failed (setresuid)'' s)"

text \<open>Using the value of an option that has none is undefined: the pointer is null.\<close>

definition with_val :: "string option \<Rightarrow> (string \<Rightarrow> 'w kid \<Rightarrow> ('a, 'w kid) outcome) \<Rightarrow> 'w kid \<Rightarrow> ('a, 'w kid) outcome" where
  "with_val val f s = (case val of None \<Rightarrow> Stop (Undefined ''null option value'') s | Some v \<Rightarrow> f v s)"

definition set_caps :: "('c, 'w) usk \<Rightarrow> string \<Rightarrow> 'w kid \<Rightarrow> (unit, 'w kid) outcome" where
  "set_caps K val s =
     (case us_from_text K val of
        None \<Rightarrow> kid_exit ''-x: cap_from_text'' [] s
      | Some caps \<Rightarrow> try_cred (us_set_proc K caps (kid_cred s)) ''-x: cap_set_proc()'' s)"

definition perform_option :: "('c, 'w) usk \<Rightarrow> char \<Rightarrow> string option \<Rightarrow> nat \<Rightarrow> 'w kid \<Rightarrow> (unit, 'w kid) outcome" where
  "perform_option K opt val display_cnt s =
     (if opt = CHR ''a'' then Ret () (raiseInheritableAndAmbientCaps K True s)
      else if opt = CHR ''b'' then with_val val (set_securebits K) s
      else if opt = CHR ''d'' then display_creds_and_caps K (snprintf_buf 10 (''[-d '' @ dec_of_nat (display_cnt + 1) @ ''] '')) s
      else if opt = CHR ''h'' then Ret () (raiseInheritableAndAmbientCaps K False s)
      else if opt = CHR ''s'' then
        with_val val (\<lambda>v s. try_cred (us_setresuid K (uid_of v) (uid_of v) (uid_of v) (kid_cred s)) ''setresuid'' s) s
      else if opt = CHR ''S'' then with_val val (set_process_uids K) s
      else if opt = CHR ''w'' then with_val val (\<lambda>v s. Ret () s) s
      else if opt = CHR ''x'' then with_val val (set_caps K) s
      else if opt = CHR ''X'' then with_val val (modify_individual_capability K) s
      else Ret () (s\<lparr>kid_err := kid_err s @ [(''Unexpected option (-%c) in perform_repeatable_options()\<newline>'', [ArgI (byte opt)])]\<rparr>))"

fun perform_loop :: "('c, 'w) usk \<Rightarrow> (char \<times> string option) list \<Rightarrow> nat \<Rightarrow> 'w kid \<Rightarrow> (unit, 'w kid) outcome" where
  "perform_loop K [] display_cnt s = Ret () s"
| "perform_loop K ((opt, val) # os) display_cnt s =
     bnd (perform_option K opt val display_cnt s) (\<lambda>_ s. perform_loop K os (if opt = CHR ''d'' then display_cnt + 1 else display_cnt) s)"

section \<open>Options of the program\<close>

definition MAX_OPT :: nat where "MAX_OPT = 100"

definition NEWCGROUP :: "32 word" where "NEWCGROUP = 0x02000000"
definition NEWNS :: "32 word" where "NEWNS = 0x00020000"
definition NEWUTS :: "32 word" where "NEWUTS = 0x04000000"
definition NEWIPC :: "32 word" where "NEWIPC = 0x08000000"
definition NEWUSER :: "32 word" where "NEWUSER = 0x10000000"
definition NEWPID :: "32 word" where "NEWPID = 0x20000000"
definition NEWNET :: "32 word" where "NEWNET = 0x40000000"

record cmd_options =
  u_argv :: "string list"
  u_flags :: "32 word"
  create_root_mappings :: bool
  deny_setgroups :: bool
  u_verbose :: bool
  uid_map :: "string option"
  gid_map :: "string option"
  projid_map :: "string option"
  opt_list :: "(char \<times> string option) list"

definition usage_lines :: "string list" where
  "usage_lines =
     [''Usage: %s [options] cmd [arg...]\<newline>\<newline>'',
      ''Create a child process that executes a shell command in (typically) a new user\<newline>namespace, and possibly also other new namespaces.\<newline>\<newline>'',
      ''Options can be:\<newline>\<newline>'',
      ''    -C            New cgroup namespace\<newline>'',
      ''    -i            New IPC namespace\<newline>'',
      ''    -m            New mount namespace\<newline>'',
      ''    -n            New network namespace\<newline>'',
      ''    -p            New PID namespace\<newline>'',
      ''    -u            New UTS namespace\<newline>'',
      ''    -U            New user namespace\<newline>'',
      ''    -M uid_map    Specify UID map for user namespace\<newline>'',
      ''    -G gid_map    Specify GID map for user namespace\<newline>'',
      ''    -P projid_map Specify project ID map for user namespace\<newline>'',
      ''    -D            Do not write '' @ [CHR 0x22] @ ''deny'' @ [CHR 0x22] @ '' to /proc/PID/setgroups before\<newline>'',
      ''                  updating GID map\<newline>'',
      ''    -r            Create 'root' mappings: map user's UID and GID to 0 in user\<newline>'',
      ''                  namespace (equivalent to: -M '0 <uid> 1' -G '0 <gid> 1')\<newline>'',
      ''    -v            Display verbose messages\<newline>\<newline>'',
      ''    If -r, -M, -G, or -P is specified, -U is required.\<newline>\<newline>'',
      ''    It is not permitted to specify both -r and either -M or -G.\<newline>'',
      ''    \<newline>'',
      ''    Map strings for -M -G, and -P consist of records of the form:\<newline>'',
      ''    \<newline>'',
      ''        ID-inside-ns   ID-outside-ns   len\<newline>'',
      ''    \<newline>'',
      ''    A map string can contain multiple records, separated by commas;\<newline>'',
      ''    the commas are replaced by newlines before writing to map files.\<newline>'',
      ''\<newline>The following additional options (primarily useful when experimenting with\<newline>user namespaces) are repeatable: they can appear multiple times and are\<newline>performed in the child in the order that they are specified, just before\<newline>'cmd' is execed:\<newline>\<newline>'',
      ''    -I          Push all possible capabilities into inheritable set\<newline>'',
      ''    -A          Push all possible capabilities into inheritable and\<newline>'',
      ''                ambient sets\<newline>'',
      ''    -s <uid>    Set all process UIDs to <uid>\<newline>'',
      ''    -S r,e,s    Set real/effective/saved-set UIDs\<newline>'',
      ''    -b <bits>   Set securebits flags; 'bits' can be '0' to clear the flags\<newline>'',
      ''                or one or more of:\<newline>'',
      ''                    'a' - NO_CAP_AMBIENT_RAISE\<newline>'',
      ''                    'A' - NO_CAP_AMBIENT_RAISE_LOCKED\<newline>'',
      ''                    'k' - KEEP_CAPS\<newline>'',
      ''                    'K' - KEEP_CAPS_LOCKED\<newline>'',
      ''                    'r' - NOROOT\<newline>'',
      ''                    'R' - NOROOT_LOCKED\<newline>'',
      ''                    's' - NO_SETUID_FIXUP\<newline>'',
      ''                    'S' - NO_SETUID_FIXUP_LOCKED\<newline>'',
      ''    -d          Display process credentials and capabilities\<newline>'',
      ''    -w <nsecs>  Wait (sleep) for <nsecs> seconds\<newline>'',
      ''    -x <caps>   Set process capabilities; <caps> as per cap_from_text(3)\<newline>'',
      ''    -X [peiba]{+|-}<cap-name>\<newline>'',
      ''                Modify one or more process sets by adding or removing\<newline>'',
      ''                a capability.\<newline>'',
      ''                Each set is modified as an individual operation\<newline>'',
      ''                in the order specified before +/-.\<newline>'']"

definition userns_usage :: "string \<Rightarrow> msg list \<Rightarrow> ('a, msg list) outcome" where
  "userns_usage pname err = Stop (Exit 1) (err @ (hd usage_lines, [ArgS pname]) # map (\<lambda>l. (l, [])) (tl usage_lines))"

definition add_repeatable :: "char \<Rightarrow> string \<Rightarrow> cmd_options \<Rightarrow> msg list \<Rightarrow> (cmd_options, msg list) outcome" where
  "add_repeatable opt optarg opts err =
     (if length (opt_list opts) \<ge> MAX_OPT
      then Stop (Exit 1) (err @ [(''Too many repeatable options (maximum: %d)\<newline>'', [ArgI (int MAX_OPT)])])
      else Ret (opts\<lparr>opt_list := opt_list opts @ [(opt, if opt \<in> set ''sSxXwb'' then Some optarg else None)]\<rparr>) err)"

fun userns_options :: "string \<Rightarrow> (char \<times> string) list \<Rightarrow> cmd_options \<Rightarrow> msg list \<Rightarrow> (cmd_options, msg list) outcome" where
  "userns_options pname [] opts err = Ret opts err"
| "userns_options pname ((opt, optarg) # os) opts err =
     bnd (if opt = CHR ''C'' then Ret (opts\<lparr>u_flags := u_flags opts OR NEWCGROUP\<rparr>) err
          else if opt = CHR ''i'' then Ret (opts\<lparr>u_flags := u_flags opts OR NEWIPC\<rparr>) err
          else if opt = CHR ''m'' then Ret (opts\<lparr>u_flags := u_flags opts OR NEWNS\<rparr>) err
          else if opt = CHR ''n'' then Ret (opts\<lparr>u_flags := u_flags opts OR NEWNET\<rparr>) err
          else if opt = CHR ''p'' then Ret (opts\<lparr>u_flags := u_flags opts OR NEWPID\<rparr>) err
          else if opt = CHR ''u'' then Ret (opts\<lparr>u_flags := u_flags opts OR NEWUTS\<rparr>) err
          else if opt = CHR ''U'' then Ret (opts\<lparr>u_flags := u_flags opts OR NEWUSER\<rparr>) err
          else if opt = CHR ''M'' then Ret (opts\<lparr>uid_map := Some optarg\<rparr>) err
          else if opt = CHR ''G'' then Ret (opts\<lparr>gid_map := Some optarg\<rparr>) err
          else if opt = CHR ''P'' then Ret (opts\<lparr>projid_map := Some optarg\<rparr>) err
          else if opt = CHR ''r'' then Ret (opts\<lparr>create_root_mappings := True\<rparr>) err
          else if opt = CHR ''D'' then Ret (opts\<lparr>deny_setgroups := False\<rparr>) err
          else if opt = CHR ''v'' then Ret (opts\<lparr>u_verbose := True\<rparr>) err
          else if opt \<in> set ''IAbsdxXw'' then add_repeatable opt optarg opts err
          else userns_usage pname err)
       (\<lambda>opts err. userns_options pname os opts err)"

definition parse_command_options :: "string \<Rightarrow> (char \<times> string) list \<Rightarrow> string list \<Rightarrow> msg list \<Rightarrow> (cmd_options, msg list) outcome" where
  "parse_command_options pname os args err =
     bnd (userns_options pname os \<lparr>u_argv = [], u_flags = 0, create_root_mappings = False, deny_setgroups = True, u_verbose = False,
            uid_map = None, gid_map = None, projid_map = None, opt_list = []\<rparr> err) (\<lambda>opts err.
       if (uid_map opts \<noteq> None \<or> gid_map opts \<noteq> None \<or> projid_map opts \<noteq> None \<or> create_root_mappings opts) \<and> u_flags opts AND NEWUSER = 0 \<or>
          create_root_mappings opts \<and> (uid_map opts \<noteq> None \<or> gid_map opts \<noteq> None)
       then userns_usage pname err
       else if args = [] then userns_usage pname err
       else Ret (opts\<lparr>u_argv := args\<rparr>) err)"

section \<open>The maps\<close>

record par =
  par_files :: "(string \<times> string) list"
  par_out :: "msg list"
  par_err :: "msg list"

definition par_errExit :: "string \<Rightarrow> par \<Rightarrow> ('a, par) outcome" where
  "par_errExit m s = Stop (Exit 1) (s\<lparr>par_err := par_err s @ [(m, [])]\<rparr>)"

definition commas_to_newlines :: "string \<Rightarrow> string" where
  "commas_to_newlines = map (\<lambda>c. if c = CHR '','' then CHR 0x0A else c)"

definition file_error :: "('c, 'w) usk \<Rightarrow> string \<Rightarrow> string \<Rightarrow> int \<Rightarrow> par \<Rightarrow> int \<times> par" where
  "file_error K m file e s = (-1, s\<lparr>par_err := par_err s @ [(m, [ArgS file, ArgS (us_strerror K e)])]\<rparr>)"

text \<open>A partial \<open>write()\<close> is an error here; \<open>errno\<close> is then what an earlier call left, written as 0.\<close>

definition update_map :: "('c, 'w) usk \<Rightarrow> string \<Rightarrow> string \<Rightarrow> par \<Rightarrow> int \<times> par" where
  "update_map K mapping map_file s =
     (let mapping = commas_to_newlines mapping in
      case us_open K map_file of
        Some e \<Rightarrow> file_error K ''ERROR: open %s: %s\<newline>'' map_file e s
      | None \<Rightarrow>
          case us_write K map_file mapping of
            Inl e \<Rightarrow> file_error K ''ERROR: writing to %s: %s\<newline>'' map_file e s
          | Inr n \<Rightarrow>
              if n \<noteq> length mapping then file_error K ''ERROR: writing to %s: %s\<newline>'' map_file 0 s
              else (0, s\<lparr>par_files := par_files s @ [(map_file, mapping)]\<rparr>))"

definition ENOENT :: int where "ENOENT = 2"

definition proc_setgroups_write :: "('c, 'w) usk \<Rightarrow> int \<Rightarrow> string \<Rightarrow> par \<Rightarrow> int \<times> par" where
  "proc_setgroups_write K child_pid str s =
     (let setgroups_path = ''/proc/'' @ dec_of_int child_pid @ ''/setgroups'' in
      case us_open K setgroups_path of
        Some e \<Rightarrow> if e = ENOENT then (0, s) else file_error K ''ERROR: open %s: %s\<newline>'' setgroups_path e s
      | None \<Rightarrow>
          case us_write K setgroups_path str of
            Inl e \<Rightarrow> file_error K ''ERROR: writing to %s: %s\<newline>'' setgroups_path e s
          | Inr n \<Rightarrow> (0, s\<lparr>par_files := par_files s @ [(setgroups_path, take n str)]\<rparr>))"

definition or_die :: "int \<times> par \<Rightarrow> string \<Rightarrow> (unit, par) outcome" where
  "or_die r m = (if fst r = -1 then par_errExit m (snd r) else Ret () (snd r))"

definition root_map :: "32 word \<Rightarrow> string" where
  "root_map i = ''0 '' @ dec_of_int (uint i) @ '' 1''"

definition proc_file :: "int \<Rightarrow> string \<Rightarrow> string" where
  "proc_file pid name = ''/proc/'' @ dec_of_int pid @ ''/'' @ name"

definition update_uid_map :: "('c, 'w) usk \<Rightarrow> cmd_options \<Rightarrow> int \<Rightarrow> par \<Rightarrow> (unit, par) outcome" where
  "update_uid_map K opts pid s =
     (if uid_map opts \<noteq> None \<or> create_root_mappings opts
      then or_die (update_map K (if create_root_mappings opts then root_map (us_uid K) else the (uid_map opts)) (proc_file pid ''uid_map'') s) ''update_map: uid_map''
      else Ret () s)"

definition update_gid_map :: "('c, 'w) usk \<Rightarrow> cmd_options \<Rightarrow> int \<Rightarrow> par \<Rightarrow> (unit, par) outcome" where
  "update_gid_map K opts pid s =
     (if gid_map opts \<noteq> None \<or> create_root_mappings opts
      then bnd (if deny_setgroups opts then or_die (proc_setgroups_write K pid ''deny'' s) ''proc_setgroups_write'' else Ret () s) (\<lambda>_ s.
        or_die (update_map K (if create_root_mappings opts then root_map (us_gid K) else the (gid_map opts)) (proc_file pid ''gid_map'') s) ''update_map: gid_map'')
      else Ret () s)"

definition update_child_maps :: "('c, 'w) usk \<Rightarrow> cmd_options \<Rightarrow> int \<Rightarrow> par \<Rightarrow> (unit, par) outcome" where
  "update_child_maps K opts child_pid s =
     bnd (update_uid_map K opts child_pid s) (\<lambda>_ s.
     bnd (update_gid_map K opts child_pid s) (\<lambda>_ s.
       case projid_map opts of
         None \<Rightarrow> Ret () s
       | Some m \<Rightarrow> or_die (update_map K m (proc_file child_pid ''projid_map'') s) ''update_map: projid_map''))"

section \<open>Parent and child\<close>

datatype parent_pc = U_Update | U_Close | U_Wait | U_Exit
datatype child_pc = K_Close | K_Read | K_Perform | K_Exec | K_Command

text \<open>\<open>du_pw\<close> and \<open>du_kw\<close>: whether the parent and the child have the write end of the pipe open.\<close>

record 'w duo =
  du_opts :: cmd_options
  du_pid :: int
  du_par :: par
  du_kid :: "'w kid"
  du_ppc :: parent_pc
  du_kpc :: child_pc
  du_pw :: bool
  du_kw :: bool
  du_exec :: "string list option"
  du_pend :: "stop option"
  du_kend :: "stop option"

text \<open>\<open>main()\<close> up to the creation of the child, with the results of its system calls.\<close>

definition userns_begin ::
  "string \<Rightarrow> (char \<times> string) list \<Rightarrow> string list \<Rightarrow> bool \<Rightarrow> bool \<Rightarrow> bool \<Rightarrow> (32 word \<Rightarrow> int option) \<Rightarrow> 'w \<Rightarrow> msg list \<Rightarrow> ('w duo, msg list) outcome" where
  "userns_begin pname os args dumpable piped stack clone w err =
     bnd (parse_command_options pname os args err) (\<lambda>opts err.
       if \<not> dumpable then Stop (Exit 1) (err @ [(''prctl-PR_SET_DUMPABLE'', [])])
       else if \<not> piped then Stop (Exit 1) (err @ [(''pipe'', [])])
       else if \<not> stack then Stop (Exit 1) (err @ [(''mmap'', [])])
       else case clone (u_flags opts OR 17) of
              None \<Rightarrow> Stop (Exit 1) (err @ [(''clone'', [])])
            | Some child_pid \<Rightarrow>
                Ret \<lparr>du_opts = opts, du_pid = child_pid,
                     du_par = \<lparr>par_files = [],
                       par_out = (if u_verbose opts then [(''%s: PID of child created by clone() is %ld\<newline>'', [ArgS pname, ArgI child_pid])] else []),
                       par_err = err\<rparr>,
                     du_kid = \<lparr>kid_cred = w, kid_out = [], kid_err = err\<rparr>, du_ppc = U_Update, du_kpc = K_Close, du_pw = True, du_kw = True,
                     du_exec = None, du_pend = None, du_kend = None\<rparr> err)"

text \<open>The end of a process closes its descriptors.\<close>

definition parent_step :: "('c, 'w) usk \<Rightarrow> string \<Rightarrow> 'w duo \<Rightarrow> 'w duo option" where
  "parent_step K pname s =
     (case du_ppc s of
        U_Update \<Rightarrow>
          (case update_child_maps K (du_opts s) (du_pid s) (du_par s) of
             Ret _ p \<Rightarrow> Some (s\<lparr>du_par := p, du_ppc := U_Close\<rparr>)
           | Stop r p \<Rightarrow> Some (s\<lparr>du_par := p, du_pw := False, du_pend := Some r\<rparr>))
      | U_Close \<Rightarrow> Some (s\<lparr>du_pw := False, du_ppc := U_Wait\<rparr>)
      | U_Wait \<Rightarrow>
          if du_kend s = None then None
          else Some (s\<lparr>du_ppc := U_Exit,
                 du_par := (if u_verbose (du_opts s) then (du_par s)\<lparr>par_out := par_out (du_par s) @ [(''%s: terminating\<newline>'', [ArgS pname])]\<rparr> else du_par s)\<rparr>)
      | U_Exit \<Rightarrow> Some (s\<lparr>du_pend := Some (Exit 0)\<rparr>))"

definition say_exec :: "cmd_options \<Rightarrow> 'w kid \<Rightarrow> 'w kid" where
  "say_exec opts k = (if u_verbose opts then k\<lparr>kid_out := kid_out k @ [(''About to exec: %s\<newline>'', [ArgS (hd (u_argv opts))])]\<rparr> else k)"

definition childFunc :: "('c, 'w) usk \<Rightarrow> 'w duo \<Rightarrow> 'w duo option" where
  "childFunc K s =
     (case du_kpc s of
        K_Close \<Rightarrow> Some (s\<lparr>du_kw := False, du_kpc := K_Read\<rparr>)
      | K_Read \<Rightarrow> if du_pw s \<or> du_kw s then None else Some (s\<lparr>du_kpc := K_Perform\<rparr>)
      | K_Perform \<Rightarrow>
          (case perform_loop K (opt_list (du_opts s)) 0 (du_kid s) of
             Ret _ k \<Rightarrow> Some (s\<lparr>du_kid := say_exec (du_opts s) k, du_kpc := K_Exec\<rparr>)
           | Stop r k \<Rightarrow> Some (s\<lparr>du_kid := k, du_kend := Some r\<rparr>))
      | K_Exec \<Rightarrow> Some (s\<lparr>du_exec := Some (u_argv (du_opts s)), du_kpc := K_Command\<rparr>)
      | K_Command \<Rightarrow> Some (s\<lparr>du_kend := Some (Exit 0)\<rparr>))"

text \<open>The calls that may fail: \<open>waitpid()\<close>, the \<open>read()\<close> of the child, \<open>execvp()\<close>.\<close>

fun userns_step :: "('c, 'w) usk \<Rightarrow> string \<Rightarrow> sched \<Rightarrow> 'w duo \<Rightarrow> 'w duo option" where
  "userns_step K pname (Run k) s =
     (if k = 0 then (if du_pend s = None then parent_step K pname s else None)
      else if k = 1 then (if du_kend s = None then childFunc K s else None)
      else None)"
| "userns_step K pname Spurious s = None"
| "userns_step K pname (Fail k) s =
     (if k = 0 \<and> du_pend s = None \<and> du_ppc s = U_Wait
      then Some (s\<lparr>du_pend := Some (Exit 1), du_par := (du_par s)\<lparr>par_err := par_err (du_par s) @ [(''waitpid'', [])]\<rparr>\<rparr>)
      else if k = 1 \<and> du_kend s = None \<and> du_kpc s = K_Read
      then Some (s\<lparr>du_kend := Some (Exit 1), du_kid := (du_kid s)\<lparr>kid_err := kid_err (du_kid s) @ [(''Failure in child: read from pipe returned != 0\<newline>'', [])]\<rparr>\<rparr>)
      else if k = 1 \<and> du_kend s = None \<and> du_kpc s = K_Exec
      then Some (s\<lparr>du_kend := Some (Exit 1), du_kid := (du_kid s)\<lparr>kid_err := kid_err (du_kid s) @ [(''execvp'', [])]\<rparr>\<rparr>)
      else None)"

section \<open>The options are safe\<close>

text \<open>What holds of options that were accepted.\<close>

definition repeatable_ok :: "char \<times> string option \<Rightarrow> bool" where
  "repeatable_ok ov \<longleftrightarrow> fst ov \<in> set ''IAbsdxXw'' \<and> (fst ov \<in> set ''sxXwb'' \<longrightarrow> snd ov \<noteq> None)"

definition opts_ok :: "cmd_options \<Rightarrow> bool" where
  "opts_ok opts \<longleftrightarrow> length (opt_list opts) \<le> MAX_OPT \<and> (\<forall>ov\<in>set (opt_list opts). repeatable_ok ov) \<and> u_argv opts \<noteq> [] \<and>
     ((uid_map opts \<noteq> None \<or> gid_map opts \<noteq> None \<or> projid_map opts \<noteq> None \<or> create_root_mappings opts) \<longrightarrow> u_flags opts AND NEWUSER \<noteq> 0) \<and>
     (create_root_mappings opts \<longrightarrow> uid_map opts = None \<and> gid_map opts = None)"

definition listed_ok :: "cmd_options \<Rightarrow> bool" where
  "listed_ok opts \<longleftrightarrow> length (opt_list opts) \<le> MAX_OPT \<and> (\<forall>ov\<in>set (opt_list opts). repeatable_ok ov)"

lemma add_repeatable_ok:
  assumes "listed_ok opts" "opt \<in> set ''IAbsdxXw''"
  shows "wp (add_repeatable opt optarg opts err) (\<lambda>o' _. listed_ok o') (\<lambda>r _. r = Exit 1)"
proof -
  have "repeatable_ok (opt, if opt \<in> set ''sSxXwb'' then Some optarg else None)" using assms(2) by (auto simp: repeatable_ok_def)
  then show ?thesis using assms(1) by (auto simp: add_repeatable_def listed_ok_def)
qed

lemma userns_options_listed:
  "listed_ok opts \<Longrightarrow> wp (userns_options pname os opts err) (\<lambda>o' _. listed_ok o') (\<lambda>r _. r = Exit 1)"
proof (induction os arbitrary: opts err)
  case Nil
  then show ?case by simp
next
  case (Cons ov os)
  obtain opt optarg where ov: "ov = (opt, optarg)" by fastforce
  have rep: "wp (add_repeatable opt optarg opts err) (\<lambda>o' e. wp (userns_options pname os o' e) (\<lambda>o' _. listed_ok o') (\<lambda>r _. r = Exit 1)) (\<lambda>r _. r = Exit 1)"
    if "opt \<in> set ''IAbsdxXw''"
    using add_repeatable_ok [OF Cons.prems that] by (rule wp_mono) (use Cons.IH in auto)
  have go: "listed_ok o' \<Longrightarrow> wp (userns_options pname os o' err) (\<lambda>o' _. listed_ok o') (\<lambda>r _. r = Exit 1)" for o' using Cons.IH by blast
  have same: "listed_ok (opts\<lparr>u_flags := a\<rparr>)" "listed_ok (opts\<lparr>uid_map := b\<rparr>)" "listed_ok (opts\<lparr>gid_map := b\<rparr>)" "listed_ok (opts\<lparr>projid_map := b\<rparr>)"
    "listed_ok (opts\<lparr>create_root_mappings := c\<rparr>)" "listed_ok (opts\<lparr>deny_setgroups := c\<rparr>)" "listed_ok (opts\<lparr>u_verbose := c\<rparr>)" for a b c
    using Cons.prems by (simp_all add: listed_ok_def)
  show ?case unfolding ov userns_options.simps wp_bnd wp_if wp.simps using rep by (simp add: go same userns_usage_def)
qed

lemma parse_wp: "wp (parse_command_options pname os args err) (\<lambda>opts _. opts_ok opts) (\<lambda>r _. r = Exit 1)"
proof -
  let ?o = "\<lparr>u_argv = [], u_flags = 0, create_root_mappings = False, deny_setgroups = True, u_verbose = False, uid_map = None, gid_map = None, projid_map = None, opt_list = []\<rparr>"
  have "listed_ok ?o" by (simp add: listed_ok_def)
  from userns_options_listed [OF this, of pname os err] show ?thesis
    unfolding parse_command_options_def wp_bnd by (rule wp_mono) (auto simp: userns_usage_def opts_ok_def listed_ok_def)
qed

lemma exit1_wp:
  "wp (kid_exit m as s) (\<lambda>_ _. True) (\<lambda>r _. r = Exit 1)" "wp (try_cred r m s) (\<lambda>_ _. True) (\<lambda>r _. r = Exit 1)"
  by (simp_all add: kid_exit_def try_cred_def split: option.split)

lemma modify_sets_wp: "wp (modify_sets K op name cap ps s) (\<lambda>_ _. True) (\<lambda>r _. r = Exit 1)"
proof (induction ps arbitrary: s)
  case (Cons p ps)
  have tail: "wp m (\<lambda>_ s. wp (modify_sets K op name cap ps s) (\<lambda>_ _. True) (\<lambda>r _. r = Exit 1)) (\<lambda>r _. r = Exit 1)"
    if "wp m (\<lambda>_ _. True) (\<lambda>r _. r = Exit 1)" for m
    using that by (rule wp_mono) (use Cons.IH in auto)
  show ?case unfolding modify_sets.simps wp_bnd
    by (rule tail) (auto simp: Let_def exit1_wp split: prod.split)
qed simp

lemma perform_option_wp:
  assumes "repeatable_ok (opt, val)"
  shows "wp (perform_option K opt val n s) (\<lambda>_ _. True) (\<lambda>r _. r = Exit 1)"
proof -
  have d: "wp (display_creds_and_caps K str s) (\<lambda>_ _. True) (\<lambda>r _. r = Exit 1)" for str s
    by (simp add: display_creds_and_caps_def Let_def exit1_wp split: option.split)
  have b: "wp (set_securebits K v s) (\<lambda>_ _. True) (\<lambda>r _. r = Exit 1)" for v s
    by (simp add: set_securebits_def exit1_wp split: sum.split)
  have x: "wp (set_caps K v s) (\<lambda>_ _. True) (\<lambda>r _. r = Exit 1)" for v s by (simp add: set_caps_def exit1_wp split: option.split)
  have xx: "wp (modify_individual_capability K v s) (\<lambda>_ _. True) (\<lambda>r _. r = Exit 1)" for v s
    by (simp add: modify_individual_capability_def Let_def exit1_wp modify_sets_wp split: option.split)
  have v: "val = None \<Longrightarrow> opt \<notin> set ''sxXwb''" "opt \<noteq> CHR ''S''" using assms by (auto simp: repeatable_ok_def)
  show ?thesis unfolding perform_option_def wp_if using v by (cases val) (simp_all add: with_val_def d b x xx exit1_wp)
qed

lemma perform_loop_wp: "\<forall>ov\<in>set os. repeatable_ok ov \<Longrightarrow> wp (perform_loop K os n s) (\<lambda>_ _. True) (\<lambda>r _. r = Exit 1)"
proof (induction os arbitrary: n s)
  case (Cons ov os)
  obtain opt val where ov: "ov = (opt, val)" by fastforce
  then have "wp (perform_option K opt val n s) (\<lambda>_ _. True) (\<lambda>r _. r = Exit 1)" using Cons.prems by (intro perform_option_wp) simp
  then show ?case unfolding ov perform_loop.simps wp_bnd by (rule wp_mono) (use Cons in auto)
qed simp

section \<open>Options without effect\<close>

text \<open>Results up to messages on standard error.\<close>

fun erase_err :: "('a, 'w kid) outcome \<Rightarrow> ('a, 'w kid) outcome" where
  "erase_err (Ret a s) = Ret a (s\<lparr>kid_err := []\<rparr>)"
| "erase_err (Stop r s) = Stop r (s\<lparr>kid_err := []\<rparr>)"

lemma erase_same: "(s :: 'w kid)\<lparr>kid_err := []\<rparr> = t\<lparr>kid_err := []\<rparr> \<Longrightarrow> \<exists>e. t = s\<lparr>kid_err := e\<rparr>"
  by (cases s; cases t) auto

lemma erase_bnd:
  assumes m: "erase_err m = erase_err n" and g: "\<And>a s e. erase_err (g a (s\<lparr>kid_err := e\<rparr>)) = erase_err (g a s)"
  shows "erase_err (bnd m g) = erase_err (bnd n g)"
proof (cases m)
  case (Ret a u)
  then obtain v where v: "n = Ret a v" "u\<lparr>kid_err := []\<rparr> = v\<lparr>kid_err := []\<rparr>" using m by (cases n) auto
  then obtain e where "v = u\<lparr>kid_err := e\<rparr>" using erase_same by blast
  then show ?thesis using Ret v(1) g by simp
next
  case (Stop r u)
  then show ?thesis using m by (cases n) auto
qed

lemma erase_exit: "erase_err (kid_exit m as (s\<lparr>kid_err := e\<rparr>)) = erase_err (kid_exit m as s)"
  by (simp add: kid_exit_def)

lemma erase_try: "erase_err (try_cred r m (s\<lparr>kid_err := e\<rparr>)) = erase_err (try_cred r m s)"
  by (cases r) (simp_all add: try_cred_def erase_exit)

lemma erase_upd: "erase_err (kid_exit m as (s\<lparr>kid_err := e, kid_cred := w\<rparr>)) = erase_err (kid_exit m as (s\<lparr>kid_cred := w\<rparr>))"
  "erase_err (Ret a (s\<lparr>kid_err := e, kid_cred := w\<rparr>)) = erase_err (Ret a (s\<lparr>kid_cred := w\<rparr>))"
  by (simp_all add: kid_exit_def)

lemma erase_display: "erase_err (display_creds_and_caps K str (s\<lparr>kid_err := e\<rparr>)) = erase_err (display_creds_and_caps K str s)"
  by (simp add: display_creds_and_caps_def Let_def kid_exit_def split: option.split)

lemma erase_modify_sets: "erase_err (modify_sets K op name cap ps (s\<lparr>kid_err := e\<rparr>)) = erase_err (modify_sets K op name cap ps s)"
proof (induction ps arbitrary: s e)
  case (Cons p ps)
  show ?case unfolding modify_sets.simps
  proof (rule erase_bnd)
    show "erase_err (modify_sets K op name cap ps (u\<lparr>kid_err := d\<rparr>)) = erase_err (modify_sets K op name cap ps u)" for a :: unit and u d
      using Cons.IH .
  qed (simp add: Let_def erase_exit erase_try erase_upd split: prod.split)
qed simp

lemma erase_values:
  "erase_err (set_securebits K v (s\<lparr>kid_err := e\<rparr>)) = erase_err (set_securebits K v s)"
  "erase_err (set_caps K v (s\<lparr>kid_err := e\<rparr>)) = erase_err (set_caps K v s)"
  "erase_err (modify_individual_capability K v (s\<lparr>kid_err := e\<rparr>)) = erase_err (modify_individual_capability K v s)"
  "erase_err (set_process_uids K v (s\<lparr>kid_err := e\<rparr>)) = erase_err (set_process_uids K v s)"
proof -
  show "erase_err (set_securebits K v (s\<lparr>kid_err := e\<rparr>)) = erase_err (set_securebits K v s)"
    by (cases "secbits_of v 0") (simp_all add: set_securebits_def erase_exit erase_try)
  show "erase_err (set_caps K v (s\<lparr>kid_err := e\<rparr>)) = erase_err (set_caps K v s)"
    by (cases "us_from_text K v") (simp_all add: set_caps_def erase_exit erase_try)
  show "erase_err (modify_individual_capability K v (s\<lparr>kid_err := e\<rparr>)) = erase_err (modify_individual_capability K v s)"
    by (simp add: modify_individual_capability_def Let_def erase_exit erase_modify_sets split: option.split)
  show "erase_err (set_process_uids K v (s\<lparr>kid_err := e\<rparr>)) = erase_err (set_process_uids K v s)"
    by (simp add: set_process_uids_def Let_def erase_exit erase_try split: prod.split option.split)
qed

lemma erase_option: "erase_err (perform_option K opt val n (s\<lparr>kid_err := e\<rparr>)) = erase_err (perform_option K opt val n s)"
  unfolding perform_option_def
  by (cases val) (simp_all add: raiseInheritableAndAmbientCaps_def with_val_def erase_values erase_display erase_try)

lemma erase_loop: "erase_err (perform_loop K os n (s\<lparr>kid_err := e\<rparr>)) = erase_err (perform_loop K os n s)"
proof (induction os arbitrary: n s e)
  case (Cons ov os)
  obtain opt val where ov: "ov = (opt, val)" by fastforce
  show ?case unfolding ov perform_loop.simps by (rule erase_bnd [OF erase_option Cons.IH])
qed simp

definition raises :: "char \<times> string option \<Rightarrow> bool" where
  "raises ov \<longleftrightarrow> fst ov \<in> {CHR ''I'', CHR ''A''}"

lemma perform_skips: "erase_err (perform_loop K os n s) = erase_err (perform_loop K (filter (\<lambda>ov. \<not> raises ov) os) n s)"
proof (induction os arbitrary: n s)
  case (Cons ov os)
  obtain opt val where ov: "ov = (opt, val)" by fastforce
  show ?case
  proof (cases "raises ov")
    case True
    then have eq: "perform_loop K (ov # os) n s = perform_loop K os n (s\<lparr>kid_err := kid_err s @ [(''Unexpected option (-%c) in perform_repeatable_options()\<newline>'', [ArgI (byte opt)])]\<rparr>)"
      using ov by (auto simp: raises_def perform_option_def)
    have "erase_err (perform_loop K (ov # os) n s) = erase_err (perform_loop K os n s)" unfolding eq by (rule erase_loop)
    also have "\<dots> = erase_err (perform_loop K (filter (\<lambda>ov. \<not> raises ov) os) n s)" by (rule Cons.IH)
    finally show ?thesis using True by (simp del: perform_loop.simps)
  next
    case False
    then show ?thesis using Cons.IH by (cases "perform_option K opt val n s") (simp_all add: ov)
  qed
qed simp

lemma S_rejected: "CHR ''S'' \<in> fst ` set os \<Longrightarrow> userns_options pname os opts err \<noteq> Ret o' e'"
proof (induction os arbitrary: opts err)
  case (Cons ov os)
  obtain opt optarg where ov: "ov = (opt, optarg)" by fastforce
  show ?case
  proof (cases "opt = CHR ''S''")
    case True
    then show ?thesis by (simp add: ov userns_usage_def)
  next
    case False
    then have "CHR ''S'' \<in> fst ` set os" using Cons.prems ov by auto
    then show ?thesis using Cons.IH unfolding ov userns_options.simps bnd_Ret_iff by blast
  qed
qed simp

section \<open>Synchronisation\<close>

text \<open>What the parent is to write, in this order.\<close>

definition map_entry :: "int \<Rightarrow> string \<Rightarrow> bool \<Rightarrow> string \<Rightarrow> string option \<Rightarrow> (string \<times> string) list" where
  "map_entry pid name root m arg =
     (if root then [(proc_file pid name, m)] else case arg of None \<Rightarrow> [] | Some a \<Rightarrow> [(proc_file pid name, commas_to_newlines a)])"

definition deny_entry :: "('c, 'w) usk \<Rightarrow> cmd_options \<Rightarrow> int \<Rightarrow> (string \<times> string) list" where
  "deny_entry K opts pid =
     (if (gid_map opts \<noteq> None \<or> create_root_mappings opts) \<and> deny_setgroups opts \<and> us_open K (proc_file pid ''setgroups'') = None
      then (case us_write K (proc_file pid ''setgroups'') ''deny'' of Inl _ \<Rightarrow> [] | Inr n \<Rightarrow> [(proc_file pid ''setgroups'', take n ''deny'')]) else [])"

definition wanted_maps :: "('c, 'w) usk \<Rightarrow> cmd_options \<Rightarrow> int \<Rightarrow> (string \<times> string) list" where
  "wanted_maps K opts pid =
     map_entry pid ''uid_map'' (create_root_mappings opts) (root_map (us_uid K)) (uid_map opts) @ deny_entry K opts pid @
     map_entry pid ''gid_map'' (create_root_mappings opts) (root_map (us_gid K)) (gid_map opts) @
     map_entry pid ''projid_map'' False [] (projid_map opts)"

lemma dec_no_comma: "CHR '','' \<notin> set (dec_of_int i)"
  using dec_int_chars [of "CHR '',''" i] by (auto simp: byte_def)

lemma root_map_kept: "commas_to_newlines (root_map i) = root_map i"
proof -
  have "CHR '','' \<notin> set (root_map i)" using dec_no_comma by (simp add: root_map_def)
  then show ?thesis by (auto simp: commas_to_newlines_def intro: map_idI)
qed

lemma update_map_files:
  "or_die (update_map K m f s) e = Ret () t \<Longrightarrow> par_files t = par_files s @ [(f, commas_to_newlines m)]"
  "or_die (update_map K m f s) e = Stop r t \<Longrightarrow> r = Exit 1"
  by (auto simp: or_die_def update_map_def file_error_def par_errExit_def Let_def split: if_splits option.splits sum.splits)

lemma setgroups_files:
  assumes "or_die (proc_setgroups_write K pid ''deny'' s) e = Ret () t" "gid_map opts \<noteq> None \<or> create_root_mappings opts" "deny_setgroups opts"
  shows "par_files t = par_files s @ deny_entry K opts pid"
  using assms
  by (auto simp: or_die_def proc_setgroups_write_def file_error_def par_errExit_def deny_entry_def proc_file_def Let_def split: if_splits option.splits sum.splits)

lemma setgroups_exit: "or_die (proc_setgroups_write K pid d s) e = Stop r t \<Longrightarrow> r = Exit 1"
  by (auto simp: or_die_def par_errExit_def split: if_splits)

lemma uid_map_files:
  assumes "update_uid_map K opts pid s = Ret () t"
  shows "par_files t = par_files s @ map_entry pid ''uid_map'' (create_root_mappings opts) (root_map (us_uid K)) (uid_map opts)"
proof (cases "uid_map opts \<noteq> None \<or> create_root_mappings opts")
  case False
  then show ?thesis using assms by (simp add: update_uid_map_def map_entry_def)
next
  case True
  then have "or_die (update_map K (if create_root_mappings opts then root_map (us_uid K) else the (uid_map opts)) (proc_file pid ''uid_map'') s) ''update_map: uid_map'' = Ret () t"
    using assms by (simp add: update_uid_map_def)
  from update_map_files(1) [OF this] show ?thesis using True root_map_kept by (auto simp: map_entry_def)
qed

lemma gid_map_files:
  assumes "update_gid_map K opts pid s = Ret () t"
  shows "par_files t = par_files s @ deny_entry K opts pid @ map_entry pid ''gid_map'' (create_root_mappings opts) (root_map (us_gid K)) (gid_map opts)"
proof (cases "gid_map opts \<noteq> None \<or> create_root_mappings opts")
  case False
  then show ?thesis using assms by (auto simp: update_gid_map_def map_entry_def deny_entry_def)
next
  case True
  let ?m = "if create_root_mappings opts then root_map (us_gid K) else the (gid_map opts)"
  obtain u where u: "(if deny_setgroups opts then or_die (proc_setgroups_write K pid ''deny'' s) ''proc_setgroups_write'' else Ret () s) = Ret () u"
    and t: "or_die (update_map K ?m (proc_file pid ''gid_map'') u) ''update_map: gid_map'' = Ret () t"
    using assms True by (auto simp: update_gid_map_def bnd_Ret_iff)
  have "par_files u = par_files s @ deny_entry K opts pid"
    using u True setgroups_files [of K pid s _ u opts] by (auto simp: deny_entry_def split: if_splits)
  then show ?thesis using update_map_files(1) [OF t] True root_map_kept by (auto simp: map_entry_def)
qed

lemma update_child_maps_files:
  assumes "update_child_maps K opts pid s = Ret () t"
  shows "par_files t = par_files s @ wanted_maps K opts pid"
proof -
  obtain u v where u: "update_uid_map K opts pid s = Ret () u" and v: "update_gid_map K opts pid u = Ret () v"
    and t: "(case projid_map opts of None \<Rightarrow> Ret () v | Some m \<Rightarrow> or_die (update_map K m (proc_file pid ''projid_map'') v) ''update_map: projid_map'') = Ret () t"
    using assms by (auto simp: update_child_maps_def bnd_Ret_iff)
  have "par_files t = par_files v @ map_entry pid ''projid_map'' False [] (projid_map opts)"
    using t update_map_files(1) [of K _ "proc_file pid ''projid_map''" v _ t] by (cases "projid_map opts") (auto simp: map_entry_def)
  then show ?thesis using uid_map_files [OF u] gid_map_files [OF v] by (simp add: wanted_maps_def)
qed

lemma update_child_maps_exit: "update_child_maps K opts pid s = Stop r t \<Longrightarrow> r = Exit 1"
proof -
  have exit: "wp (or_die m e) (\<lambda>_ _. True) (\<lambda>r _. r = Exit 1)" for m e by (simp add: or_die_def par_errExit_def)
  have u: "wp (update_uid_map K opts pid s) (\<lambda>_ _. True) (\<lambda>r _. r = Exit 1)" for s by (simp add: update_uid_map_def exit)
  have g: "wp (update_gid_map K opts pid s) (\<lambda>_ _. True) (\<lambda>r _. r = Exit 1)" for s
    by (cases "deny_setgroups opts") (auto simp: update_gid_map_def intro: wp_mono [OF exit] exit)
  have p: "wp (case projid_map opts of None \<Rightarrow> Ret () s | Some m \<Rightarrow> or_die (update_map K m (proc_file pid ''projid_map'') s) ''update_map: projid_map'')
      (\<lambda>_ _. True) (\<lambda>r _. r = Exit 1)" for s
    by (simp add: exit split: option.split)
  have "wp (update_child_maps K opts pid s) (\<lambda>_ _. True) (\<lambda>r _. r = Exit 1)"
    unfolding update_child_maps_def wp_bnd by (rule wp_mono [OF u], rule wp_mono [OF g]) (simp_all add: p)
  then show "update_child_maps K opts pid s = Stop r t \<Longrightarrow> r = Exit 1" by simp
qed

text \<open>The invariant. The maps are there once the parent is past them; without them the pipe is only closed by the end of the parent.\<close>

definition duo_ok :: "('c, 'w) usk \<Rightarrow> cmd_options \<Rightarrow> int \<Rightarrow> 'w duo \<Rightarrow> bool" where
  "duo_ok K opts pid s \<longleftrightarrow> du_opts s = opts \<and> du_pid s = pid \<and> (du_kw s \<longleftrightarrow> du_kpc s = K_Close) \<and>
     (du_pw s \<longleftrightarrow> du_ppc s \<in> {U_Update, U_Close} \<and> du_pend s = None) \<and> (du_kpc s \<in> {K_Perform, K_Exec, K_Command} \<longrightarrow> \<not> du_pw s) \<and>
     (if du_ppc s = U_Update then (if du_pend s = None then par_files (du_par s) = [] else du_pend s = Some (Exit 1)) else par_files (du_par s) = wanted_maps K opts pid) \<and>
     (\<forall>a. du_exec s = Some a \<longrightarrow> a = u_argv opts \<and> du_kpc s = K_Command) \<and> (\<forall>r. du_pend s = Some r \<longrightarrow> r \<in> {Exit 0, Exit 1}) \<and>
     (du_ppc s = U_Exit \<longrightarrow> du_kend s \<noteq> None)"

lemma parse_args: "parse_command_options pname os args err = Ret opts err' \<Longrightarrow> u_argv opts = args"
  unfolding parse_command_options_def bnd_Ret_iff
  by (elim exE conjE) (simp add: userns_usage_def split: if_splits, metis cmd_options.select_convs(1) cmd_options.surjective cmd_options.update_convs(1))

lemma begin_ok: "userns_begin pname os args d q m clone w err = Ret s err' \<Longrightarrow> duo_ok K (du_opts s) (du_pid s) s"
  by (auto simp: userns_begin_def bnd_Ret_iff duo_ok_def split: if_splits option.splits)

lemma parent_ok:
  assumes ok: "duo_ok K opts pid s" and e: "du_pend s = None" and t: "parent_step K pname s = Some t"
  shows "duo_ok K opts pid t"
proof (cases "du_ppc s")
  case U_Update
  have f: "par_files (du_par s) = []" "du_opts s = opts" "du_pid s = pid" using ok U_Update e by (simp_all add: duo_ok_def)
  show ?thesis
  proof (cases "update_child_maps K opts pid (du_par s)")
    case (Ret a p)
    then have "par_files p = wanted_maps K opts pid" using update_child_maps_files [of K opts pid "du_par s" p] f(1) by simp
    moreover have "t = s\<lparr>du_par := p, du_ppc := U_Close\<rparr>" using Ret t U_Update f by (simp add: parent_step_def)
    ultimately show ?thesis using ok e U_Update unfolding duo_ok_def by - (elim conjE, simp)
  next
    case (Stop r p)
    then have "r = Exit 1" by (rule update_child_maps_exit)
    moreover have "t = s\<lparr>du_par := p, du_pw := False, du_pend := Some r\<rparr>" using Stop t U_Update f by (simp add: parent_step_def)
    ultimately show ?thesis using ok e U_Update unfolding duo_ok_def by - (elim conjE, simp)
  qed
next
  case U_Close
  then have "t = s\<lparr>du_pw := False, du_ppc := U_Wait\<rparr>" using t by (simp add: parent_step_def)
  then show ?thesis using ok e U_Close unfolding duo_ok_def by - (elim conjE, simp)
next
  case U_Wait
  define p where "p = (if u_verbose (du_opts s) then (du_par s)\<lparr>par_out := par_out (du_par s) @ [(''%s: terminating\<newline>'', [ArgS pname])]\<rparr> else du_par s)"
  have "t = s\<lparr>du_ppc := U_Exit, du_par := p\<rparr>" "du_kend s \<noteq> None" using t U_Wait by (auto simp: parent_step_def p_def split: if_splits)
  moreover have "par_files p = par_files (du_par s)" by (simp add: p_def)
  ultimately show ?thesis using ok e U_Wait unfolding duo_ok_def by - (elim conjE, simp)
next
  case U_Exit
  then have "t = s\<lparr>du_pend := Some (Exit 0)\<rparr>" using t by (simp add: parent_step_def)
  then show ?thesis using ok e U_Exit unfolding duo_ok_def by - (elim conjE, simp)
qed

lemma child_ok:
  assumes ok: "duo_ok K opts pid s" and e: "du_kend s = None" and t: "childFunc K s = Some t"
  shows "duo_ok K opts pid t"
proof (cases "du_kpc s")
  case K_Close
  then have "t = s\<lparr>du_kw := False, du_kpc := K_Read\<rparr>" using t by (simp add: childFunc_def)
  then show ?thesis using ok e K_Close unfolding duo_ok_def by - (elim conjE, simp)
next
  case K_Read
  then have "t = s\<lparr>du_kpc := K_Perform\<rparr>" "\<not> du_pw s" using t by (auto simp: childFunc_def split: if_splits)
  then show ?thesis using ok e K_Read unfolding duo_ok_def by - (elim conjE, simp)
next
  case K_Perform
  then consider k where "t = s\<lparr>du_kid := k, du_kpc := K_Exec\<rparr>" | k r where "t = s\<lparr>du_kid := k, du_kend := Some r\<rparr>"
    using t by (cases "perform_loop K (opt_list (du_opts s)) 0 (du_kid s)") (auto simp: childFunc_def)
  then show ?thesis using ok e K_Perform unfolding duo_ok_def by cases (elim conjE, simp)+
next
  case K_Exec
  then have "t = s\<lparr>du_exec := Some (u_argv (du_opts s)), du_kpc := K_Command\<rparr>" using t by (simp add: childFunc_def)
  then show ?thesis using ok e K_Exec unfolding duo_ok_def by - (elim conjE, simp)
next
  case K_Command
  then have "t = s\<lparr>du_kend := Some (Exit 0)\<rparr>" using t by (simp add: childFunc_def)
  then show ?thesis using ok e K_Command unfolding duo_ok_def by - (elim conjE, simp)
qed

lemma userns_step_ok:
  assumes "duo_ok K opts pid s" "userns_step K pname e s = Some t"
  shows "duo_ok K opts pid t"
proof (cases e)
  case (Run k)
  then show ?thesis using assms parent_ok child_ok by (auto split: if_splits)
next
  case (Fail k)
  then consider p where "t = s\<lparr>du_pend := Some (Exit 1), du_par := p\<rparr>" "par_files p = par_files (du_par s)" "du_ppc s = U_Wait"
    | c where "t = s\<lparr>du_kend := Some (Exit 1), du_kid := c\<rparr>"
    using assms(2) by (auto split: if_splits)
  then show ?thesis using assms(1) unfolding duo_ok_def by cases (elim conjE, simp)+
qed (use assms in simp)

definition duo_fuel :: "'w duo \<Rightarrow> nat" where
  "duo_fuel s = (if du_pend s \<noteq> None then 0 else case du_ppc s of U_Update \<Rightarrow> 4 | U_Close \<Rightarrow> 3 | U_Wait \<Rightarrow> 2 | U_Exit \<Rightarrow> 1) +
     (if du_kend s \<noteq> None then 0 else case du_kpc s of K_Close \<Rightarrow> 5 | K_Read \<Rightarrow> 4 | K_Perform \<Rightarrow> 3 | K_Exec \<Rightarrow> 2 | K_Command \<Rightarrow> 1)"

lemma userns_step_paid: "userns_step K pname e s = Some t \<Longrightarrow> duo_fuel t < duo_fuel s"
proof (cases e)
  case (Run k)
  assume t: "userns_step K pname e s = Some t"
  then consider "du_pend s = None" "parent_step K pname s = Some t" | "du_kend s = None" "childFunc K s = Some t"
    using Run by (auto split: if_splits)
  then show ?thesis
  proof cases
    case 1
    then show ?thesis by (cases "du_ppc s") (auto simp: parent_step_def duo_fuel_def split: if_splits outcome.splits)
  next
    case 2
    then show ?thesis by (cases "du_kpc s") (auto simp: childFunc_def duo_fuel_def split: if_splits outcome.splits)
  qed
next
  case (Fail k)
  assume "userns_step K pname e s = Some t"
  then show ?thesis using Fail by (auto simp: duo_fuel_def split: if_splits)
qed simp

lemma userns_progress:
  assumes "duo_ok K opts pid s" "\<not> (du_pend s \<noteq> None \<and> du_kend s \<noteq> None)"
  shows "\<exists>k t. userns_step K pname (Run k) s = Some t"
proof (cases "du_kend s = None \<and> (du_kpc s = K_Read \<longrightarrow> \<not> du_pw s)")
  case True
  moreover have "du_kpc s = K_Read \<Longrightarrow> \<not> du_kw s" using assms(1) by (simp add: duo_ok_def)
  ultimately have "\<exists>t. userns_step K pname (Run 1) s = Some t"
    by (cases "du_kpc s") (auto simp: childFunc_def split: outcome.split)
  then show ?thesis by blast
next
  case False
  then have p: "du_pend s = None" "du_ppc s = U_Wait \<Longrightarrow> du_kend s \<noteq> None" using assms by (auto simp: duo_ok_def)
  then have "\<exists>t. userns_step K pname (Run 0) s = Some t"
    by (cases "du_ppc s") (auto simp: parent_step_def split: outcome.split)
  then show ?thesis by blast
qed

interpretation userns: progressing "userns_step K pname"
  "\<lambda>s. \<exists>os args d q m clone w err err'. userns_begin pname os args d q m clone w err = Ret s err' \<and> du_opts s = opts \<and> du_pid s = pid"
  "duo_ok K opts pid" duo_fuel "\<lambda>_. 0" "\<lambda>s. du_pend s \<noteq> None \<and> du_kend s \<noteq> None" for K :: "('c, 'w) usk" and pname opts pid
proof
  show "\<exists>e t. 0 = (0 :: nat) \<and> userns_step K pname e s = Some t"
    if "duo_ok K opts pid s" "\<not> (du_pend s \<noteq> None \<and> du_kend s \<noteq> None)" for s :: "'w duo"
    using userns_progress [OF that] by blast
qed (use begin_ok userns_step_ok userns_step_paid in auto)

section \<open>Securebits\<close>

lemma secbit_letter:
  "secbits_of (filter (\<lambda>c. c \<noteq> CHR ''-'') ((if b then CHR ''a'' else CHR ''-'') # cs)) m = secbits_of (filter (\<lambda>c. c \<noteq> CHR ''-'') cs) (m OR (if b then 64 else 0))"
  "secbits_of (filter (\<lambda>c. c \<noteq> CHR ''-'') ((if b then CHR ''A'' else CHR ''-'') # cs)) m = secbits_of (filter (\<lambda>c. c \<noteq> CHR ''-'') cs) (m OR (if b then 128 else 0))"
  "secbits_of (filter (\<lambda>c. c \<noteq> CHR ''-'') ((if b then CHR ''k'' else CHR ''-'') # cs)) m = secbits_of (filter (\<lambda>c. c \<noteq> CHR ''-'') cs) (m OR (if b then 16 else 0))"
  "secbits_of (filter (\<lambda>c. c \<noteq> CHR ''-'') ((if b then CHR ''K'' else CHR ''-'') # cs)) m = secbits_of (filter (\<lambda>c. c \<noteq> CHR ''-'') cs) (m OR (if b then 32 else 0))"
  "secbits_of (filter (\<lambda>c. c \<noteq> CHR ''-'') ((if b then CHR ''r'' else CHR ''-'') # cs)) m = secbits_of (filter (\<lambda>c. c \<noteq> CHR ''-'') cs) (m OR (if b then 1 else 0))"
  "secbits_of (filter (\<lambda>c. c \<noteq> CHR ''-'') ((if b then CHR ''R'' else CHR ''-'') # cs)) m = secbits_of (filter (\<lambda>c. c \<noteq> CHR ''-'') cs) (m OR (if b then 2 else 0))"
  "secbits_of (filter (\<lambda>c. c \<noteq> CHR ''-'') ((if b then CHR ''s'' else CHR ''-'') # cs)) m = secbits_of (filter (\<lambda>c. c \<noteq> CHR ''-'') cs) (m OR (if b then 4 else 0))"
  "secbits_of (filter (\<lambda>c. c \<noteq> CHR ''-'') ((if b then CHR ''S'' else CHR ''-'') # cs)) m = secbits_of (filter (\<lambda>c. c \<noteq> CHR ''-'') cs) (m OR (if b then 8 else 0))"
  by simp_all

lemma one_bit: "2 ^ n = f \<Longrightarrow> (if w AND f \<noteq> 0 then f else 0) = w AND f" for w :: "32 word"
  by (rule bit_word_eqI) (auto simp: bit_simps and_exp_eq_0_iff_not_bit)

lemma secbit_flags:
  "(if w AND 1 \<noteq> 0 then 1 else 0) = w AND 1" "(if w AND 2 \<noteq> 0 then 2 else 0) = w AND 2" "(if w AND 4 \<noteq> 0 then 4 else 0) = w AND 4"
  "(if w AND 8 \<noteq> 0 then 8 else 0) = w AND 8" "(if w AND 16 \<noteq> 0 then 16 else 0) = w AND 16" "(if w AND 32 \<noteq> 0 then 32 else 0) = w AND 32"
  "(if w AND 64 \<noteq> 0 then 64 else 0) = w AND 64" "(if w AND 128 \<noteq> 0 then 128 else 0) = w AND 128" for w :: "32 word"
  using one_bit [of 0 1 w] one_bit [of 1 2 w] one_bit [of 2 4 w] one_bit [of 3 8 w] one_bit [of 4 16 w] one_bit [of 5 32 w] one_bit [of 6 64 w] one_bit [of 7 128 w]
  by simp_all

lemma low_byte:
  assumes "w < 256"
  shows "w AND 255 = (w :: 32 word)"
proof -
  have "(255 :: 32 word) = mask 8" by (simp add: mask_eq_exp_minus_1)
  then show ?thesis using assms mod_word_less [of w "2 ^ 8"] take_bit_eq_mod [of 8 w] by (simp add: take_bit_eq_mask)
qed

section \<open>An example\<close>

text \<open>A kernel that lets the maps be written, or not; credentials are the identifiers and the securebits.\<close>

definition sample_us :: "bool \<Rightarrow> (unit, 32 word \<times> 32 word) usk" where
  "sample_us writable = \<lparr>us_get_proc = (\<lambda>w. Some ()), us_set_flag = (\<lambda>c f i v. Some c), us_set_proc = (\<lambda>c w. Some w), us_cap_free = (\<lambda>c. True),
     us_from_text = (\<lambda>t. Some ()), us_from_name = (\<lambda>n. Some 0), us_to_text = (\<lambda>c. Some ''=''), us_last_cap = 40,
     us_prctl = (\<lambda>c w. case c of PR_SET_SECUREBITS b \<Rightarrow> Some (fst w, b) | _ \<Rightarrow> Some w), us_setresuid = (\<lambda>r e s w. Some (e, snd w)),
     us_euid = fst, us_egid = fst, us_uid = 1000, us_gid = 1000,
     us_open = (\<lambda>f. if writable then None else Some 1), us_write = (\<lambda>f t. Inr (length t)), us_strerror = (\<lambda>e. ''error'')\<rparr>"

definition sample_duo :: "(32 word \<times> 32 word) duo" where
  "sample_duo = (case userns_begin ''userns_child_exec'' [(CHR ''U'', []), (CHR ''r'', []), (CHR ''A'', []), (CHR ''b'', ''kS'')] [''bash''] True True True (\<lambda>_. Some 7) (1000, 0) [] of
     Ret s _ \<Rightarrow> s | Stop _ _ \<Rightarrow> undefined)"

lemma sample_begin:
  "userns_begin ''userns_child_exec'' [(CHR ''U'', []), (CHR ''r'', []), (CHR ''A'', []), (CHR ''b'', ''kS'')] [''bash''] True True True (\<lambda>_. Some 7) (1000, 0) [] = Ret sample_duo []"
  by (simp add: sample_duo_def userns_begin_def parse_command_options_def add_repeatable_def MAX_OPT_def NEWUSER_def)

section \<open>Properties\<close>

text \<open>
  C27: the parent and the child. In every schedule there are at most nine steps, and as long as a process is left one can go on: the child
  is never blocked for ever at the pipe. When the command is executed, it is the one of the command line, and all maps that the options ask for have been
  written in their order with newlines for commas, unless the parent has failed.
\<close>

theorem userns_synchronised:
  assumes "userns_begin pname os args d q m clone w err = Ret s err'" "run (userns_step K pname) es s = Some t"
  shows "length es \<le> 9 \<and> (du_pend t \<noteq> None \<and> du_kend t \<noteq> None \<or> (\<exists>k u. userns_step K pname (Run k) t = Some u)) \<and>
    (case du_exec t of
       None \<Rightarrow> True
     | Some a \<Rightarrow> a = u_argv (du_opts s) \<and> (par_files (du_par t) = wanted_maps K (du_opts s) (du_pid s) \<or> du_pend t = Some (Exit 1)))"
proof -
  have ok0: "duo_ok K (du_opts s) (du_pid s) s" using begin_ok [OF assms(1)] .
  then have ok: "duo_ok K (du_opts s) (du_pid s) t" using userns.inv_run [OF _ assms(2)] by blast
  have f: "duo_fuel s = 9" using assms(1) by (auto simp: userns_begin_def bnd_Ret_iff duo_fuel_def split: if_splits option.splits)
  have "length es \<le> 9" using userns.run_bound [OF ok0 assms(2)] f by simp
  moreover have "du_pend t \<noteq> None \<and> du_kend t \<noteq> None \<or> (\<exists>k u. userns_step K pname (Run k) t = Some u)"
    using userns_progress [OF ok] by blast
  moreover have "par_files (du_par t) = wanted_maps K (du_opts s) (du_pid s) \<or> du_pend t = Some (Exit 1)" if "du_kpc t = K_Command"
  proof -
    have "\<not> du_pw t" using ok that unfolding duo_ok_def by blast
    then show ?thesis using ok by (cases "du_ppc t = U_Update"; cases "du_pend t") (simp_all add: duo_ok_def)
  qed
  moreover have "a = u_argv (du_opts s) \<and> du_kpc t = K_Command" if "du_exec t = Some a" for a using ok that by (simp add: duo_ok_def)
  ultimately show ?thesis by (cases "du_exec t") auto
qed

theorem userns_synchronised_witness:
  "\<exists>t. run (userns_step (sample_us True) ''userns_child_exec'') [Run 1, Run 0, Run 0, Run 1, Run 1, Run 1] sample_duo = Some t \<and> du_exec t = Some [''bash''] \<and>
     (par_files (du_par t) = wanted_maps (sample_us True) (du_opts sample_duo) 7 \<or> du_pend t = Some (Exit 1))"
proof -
  let ?es = "[Run 1, Run 0, Run 0, Run 1, Run 1, Run 1]"
  have "map_option du_exec (run (userns_step (sample_us True) ''userns_child_exec'') ?es sample_duo) = Some (Some [''bash''])" by code_simp
  then obtain t where t: "run (userns_step (sample_us True) ''userns_child_exec'') ?es sample_duo = Some t" "du_exec t = Some [''bash'']" by auto
  have "du_pid sample_duo = 7" by code_simp
  then show ?thesis using userns_synchronised [OF sample_begin t(1)] t by auto
qed

text \<open>
  When the parent cannot write the maps, it ends, which closes the pipe; the child reads end of file, takes it for the sign that the maps
  are there, and executes the command without them.
\<close>

lemma userns_exec_unmapped:
  assumes "userns_begin pname os args d q m clone w err = Ret s err'" "update_child_maps K (du_opts s) (du_pid s) (du_par s) = Stop r p"
    "perform_loop K (opt_list (du_opts s)) 0 (du_kid s) = Ret () k"
  shows "\<exists>t. run (userns_step K pname) [Run 0, Run 1, Run 1, Run 1, Run 1] s = Some t \<and> du_pend t = Some (Exit 1) \<and> du_exec t = Some args"
proof -
  have s: "du_ppc s = U_Update" "du_kpc s = K_Close" "du_pend s = None" "du_kend s = None" "u_argv (du_opts s) = args"
    using assms(1) parse_args by (auto simp: userns_begin_def bnd_Ret_iff split: if_splits option.splits)
  have "r = Exit 1" using update_child_maps_exit [OF assms(2)] .
  then show ?thesis using s assms(2,3) by (simp add: parent_step_def childFunc_def)
qed

text \<open>
  C28: options that were accepted. There are at most 100 repeatable ones, maps come with a user namespace and not together
  with \<open>-r\<close>, and there is a command. Performing them never uses a value that is not there: it returns or ends the child with status 1.
\<close>

theorem userns_options_safe:
  assumes "parse_command_options pname os args err = Ret opts err'"
  shows "opts_ok opts \<and> wp (perform_loop K (opt_list opts) 0 s) (\<lambda>_ _. True) (\<lambda>r _. r = Exit 1)"
proof -
  have "opts_ok opts" using parse_wp [of pname os args err] assms by simp
  then show ?thesis using perform_loop_wp [of "opt_list opts" K 0 s] by (simp add: opts_ok_def)
qed

theorem userns_options_safe_witness:
  "\<exists>opts. parse_command_options ''p'' [(CHR ''U'', []), (CHR ''s'', ''0'')] [''bash''] [] = Ret opts [] \<and> opts_ok opts \<and>
     wp (perform_loop (sample_us True) (opt_list opts) 0 (du_kid sample_duo)) (\<lambda>_ _. True) (\<lambda>r _. r = Exit 1)"
proof -
  have "(case parse_command_options ''p'' [(CHR ''U'', []), (CHR ''s'', ''0'')] [''bash''] [] of Ret _ e \<Rightarrow> e = [] | Stop _ _ \<Rightarrow> False) = True" by code_simp
  then obtain opts where o: "parse_command_options ''p'' [(CHR ''U'', []), (CHR ''s'', ''0'')] [''bash''] [] = Ret opts []" by (auto split: outcome.splits)
  then show ?thesis using userns_options_safe [OF o, of "sample_us True" "du_kid sample_duo"] by blast
qed

text \<open>
  Three documented options do nothing. \<open>-S\<close> is never accepted, and the child performs its options as if \<open>-I\<close> and \<open>-A\<close>, which are to raise
  capabilities, were not there, apart from messages on standard error.
\<close>

lemma userns_options_dead:
  assumes "parse_command_options pname os args err = Ret opts err'"
  shows "CHR ''S'' \<notin> fst ` set os \<and>
    erase_err (perform_loop K (opt_list opts) 0 s) = erase_err (perform_loop K (filter (\<lambda>ov. \<not> raises ov) (opt_list opts)) 0 s)"
  using assms S_rejected perform_skips unfolding parse_command_options_def bnd_Ret_iff by blast

text \<open>
  Securebits as text. The letters that \<open>printSecbits()\<close> prints for a set of flags, without the dashes, are read back by the option \<open>-b\<close>
  as the same set.
\<close>

lemma secbits_roundtrip:
  assumes "w < 256"
  shows "secbits_of (filter (\<lambda>c. c \<noteq> CHR ''-'') (printSecbits w False)) 0 = Inr w"
proof -
  have "secbits_of (filter (\<lambda>c. c \<noteq> CHR ''-'') (printSecbits w False)) 0 =
      Inr (w AND 64 OR w AND 128 OR w AND 16 OR w AND 32 OR w AND 1 OR w AND 2 OR w AND 4 OR w AND 8)"
    unfolding printSecbits_def secbitInfoList_def
    by (simp only: if_False list.map prod.case secbit_letter secbit_flags filter.simps(1) secbits_of.simps(1) or.left_neutral or.assoc)
  also have "w AND 64 OR w AND 128 OR w AND 16 OR w AND 32 OR w AND 1 OR w AND 2 OR w AND 4 OR w AND 8 = w AND 255"
    by (simp flip: bit.conj_disj_distrib)
  finally show ?thesis using low_byte [OF assms] by simp
qed

end
