(* ===== verification/Rand_Dtree.thy ===== *)
theory Rand_Dtree
  imports Dtree_State Interleaving "HOL-Library.Sublist"
begin

text \<open>
  \<open>inotify/rand_dtree.c\<close>: a program that makes, removes and renames directories at random below a root, so that
  the monitor \<open>inotify_dtree.c\<close> has something to follow.

  The kernel, \<open>nftw()\<close> and \<open>random()\<close> are a parameter, the record \<open>rdk\<close>: every call may change the
  abstract file system \<open>'w\<close>, so that other processes may act between any two calls; \<open>random()\<close> is a sequence of
  numbers, since it always starts with \<open>srandom(0)\<close>. The state has the file-scope variables, the calls that the
  program has made on directories, and its messages. \<open>getopt()\<close> is the list of options that it delivers.
  The counters are \<open>int\<close>s: a count that does not fit is a signed overflow. A pathname for which \<open>strdup()\<close> found no
  memory is a null pointer in the list, which the program does not notice before it uses it.
  The inner loops are total functions; the main loop, which may go on for ever, is followed for a number of rounds.
\<close>

section \<open>State and system calls\<close>

definition DLIM :: nat where "DLIM = 60"
definition D_INCR :: nat where "D_INCR = 1000"
definition MARKER_STRING :: string where "MARKER_STRING = ''--''"

record 'w rdk =
  rd_nftw :: "string \<Rightarrow> 'w \<Rightarrow> (string \<times> u32) list \<times> bool \<times> 'w"
  rd_mkdir :: "string \<Rightarrow> 'w \<Rightarrow> bool \<times> 'w"
  rd_rmdir :: "string \<Rightarrow> 'w \<Rightarrow> bool \<times> 'w"
  rd_rename :: "string \<Rightarrow> string \<Rightarrow> 'w \<Rightarrow> bool \<times> 'w"
  rd_access :: "string option \<Rightarrow> 'w \<Rightarrow> bool \<times> 'w"
  rd_usleep :: "int \<Rightarrow> 'w \<Rightarrow> 'w"
  rd_fopen :: "string \<Rightarrow> 'w \<Rightarrow> bool \<times> 'w"
  rd_realloc :: "nat \<Rightarrow> bool"
  rd_strdup :: "string \<Rightarrow> 'w \<Rightarrow> bool \<times> 'w"
  rd_random :: "nat \<Rightarrow> nat"
  rd_pid :: nat

datatype dir_call = Mkdir string | Rmdir string | Rename string string

text \<open>
  The array \<open>dirList\<close> of \<open>dlSize\<close> pointers is a list of options: a cell that was not set yet, or that was set to NULL
  (at the end of a round, or by a \<open>strdup()\<close> that failed), is \<open>None\<close>. \<open>leaked\<close> counts the strings whose last pointer was overwritten.
\<close>

record 'w rdst =
  rd_fs :: 'w
  rd_calls :: "dir_call list"
  rd_draws :: nat
  dcnt :: nat
  dirList :: "string option list"
  dlSize :: nat
  logfp :: bool
  opcnt :: nat
  leaked :: nat
  rd_log :: "msg list"
  rd_err :: "msg list"

text \<open>\<open>strstr(s, t) != NULL\<close>, its position, and the position of the last \<open>c\<close> as \<open>strrchr()\<close> finds it.\<close>

fun strstr_at :: "string \<Rightarrow> string \<Rightarrow> nat option" where
  "strstr_at [] t = (if t = [] then Some 0 else None)"
| "strstr_at (c # cs) t = (if prefix t (c # cs) then Some 0 else map_option Suc (strstr_at cs t))"

fun strrchr_at :: "string \<Rightarrow> char \<Rightarrow> nat option" where
  "strrchr_at [] c = None"
| "strrchr_at (d # ds) c = (case strrchr_at ds c of Some i \<Rightarrow> Some (Suc i) | None \<Rightarrow> if d = c then Some 0 else None)"

text \<open>\<open>%04d\<close>.\<close>

definition dec4 :: "nat \<Rightarrow> string" where
  "dec4 n = replicate (4 - length (dec_of_nat n)) CHR ''0'' @ dec_of_nat n"

section \<open>The list of directories\<close>

definition rd_traverseTree :: "'w rdk \<Rightarrow> string \<Rightarrow> u32 \<Rightarrow> 'w rdst \<Rightarrow> (int, 'w rdst) outcome" where
  "rd_traverseTree K pathname mode s =
     (if \<not> S_ISDIR mode then Ret 0 s
      else bnd (if dcnt s \<ge> dlSize s
                then if \<not> fits_int (int (dlSize s + D_INCR)) then Stop overflow s
                     else let s = s\<lparr>dlSize := dlSize s + D_INCR\<rparr>
                     in if rd_realloc K (dlSize s * 8) then Ret () (s\<lparr>dirList := dirList s @ replicate D_INCR None\<rparr>)
                        else Stop (Exit 1) (s\<lparr>rd_err := rd_err s @ [(''realloc'', [])]\<rparr>)
                else Ret () s)
         (\<lambda>_ s. if dcnt s < length (dirList s)
            then let (ok, w) = rd_strdup K pathname (rd_fs s);
                     s = s\<lparr>rd_fs := w, leaked := leaked s + (if dirList s ! dcnt s = None then 0 else 1),
                          dirList := (dirList s)[dcnt s := if ok then Some pathname else None]\<rparr>
                 in if fits_int (int (dcnt s) + 1) then Ret 0 (s\<lparr>dcnt := dcnt s + 1\<rparr>) else Stop overflow s
            else Stop (Undefined ''dirList'') s))"

fun nftw_loop :: "'w rdk \<Rightarrow> (string \<times> u32) list \<Rightarrow> 'w rdst \<Rightarrow> (unit, 'w rdst) outcome" where
  "nftw_loop K [] s = Ret () s"
| "nftw_loop K ((p, mode) # ps) s = bnd (rd_traverseTree K p mode s) (\<lambda>r s. if r \<noteq> 0 then Ret () s else nftw_loop K ps s)"

definition getDirList :: "'w rdk \<Rightarrow> string \<Rightarrow> 'w rdst \<Rightarrow> (nat, 'w rdst) outcome" where
  "getDirList K pathname s =
     (let s = s\<lparr>dcnt := 0\<rparr>; (ps, ok, w) = rd_nftw K pathname (rd_fs s)
      in bnd (nftw_loop K ps (s\<lparr>rd_fs := w\<rparr>)) (\<lambda>_ s.
         Ret (dcnt s) (if ok then s else s\<lparr>rd_err := rd_err s @ [(''nftw: %s'', [ArgS pathname])]\<rparr>)))"

definition rd_logMessage :: "string \<Rightarrow> fmt_arg list \<Rightarrow> 'w rdst \<Rightarrow> 'w rdst" where
  "rd_logMessage fmt as s = (if logfp s then s\<lparr>rd_log := rd_log s @ [(fmt, as)]\<rparr> else s)"

text \<open>\<open>random() % n\<close>, and \<open>dirList[random() % dcnt]\<close>.\<close>

definition random_mod :: "'w rdk \<Rightarrow> nat \<Rightarrow> 'w rdst \<Rightarrow> (nat, 'w rdst) outcome" where
  "random_mod K n s =
     (let r = rd_random K (rd_draws s); s = s\<lparr>rd_draws := rd_draws s + 1\<rparr>
      in if n = 0 then Stop (Undefined ''random() % 0'') s else Ret (r mod n) s)"

definition pick_dir :: "'w rdk \<Rightarrow> 'w rdst \<Rightarrow> (string, 'w rdst) outcome" where
  "pick_dir K s = bnd (random_mod K (dcnt s) s) (\<lambda>i s.
     case (if i < length (dirList s) then dirList s ! i else None) of
       Some d \<Rightarrow> Ret d s
     | None \<Rightarrow> Stop (Undefined ''dirList'') s)"

section \<open>Creating directories\<close>

datatype rd_flow = Continue | Done

definition do_mkdir :: "'w rdk \<Rightarrow> string \<Rightarrow> 'w rdst \<Rightarrow> 'w rdst" where
  "do_mkdir K p s =
     (let (ok, w) = rd_mkdir K p (rd_fs s); s = s\<lparr>rd_fs := w, rd_calls := rd_calls s @ [Mkdir p]\<rparr>
      in if ok then rd_logMessage ''mkdir: %s\<newline>'' [ArgS p] s else s)"

definition create_path :: "'w rdk \<Rightarrow> string \<Rightarrow> nat \<Rightarrow> string" where
  "create_path K d n = d @ ''/'' @ dec_of_nat (rd_pid K mod 100) @ MARKER_STRING @ ''cr'' @ ''_'' @ dec_of_nat n"

definition sub_path :: "'w rdk \<Rightarrow> string \<Rightarrow> nat \<Rightarrow> nat \<Rightarrow> string" where
  "sub_path K base scnt n =
     base @ ''/'' @ dec_of_nat (rd_pid K mod 100) @ MARKER_STRING @ ''scr'' @ dec_of_nat scnt @ ''_'' @ dec_of_nat n"

function sub_loop :: "'w rdk \<Rightarrow> string \<Rightarrow> nat \<Rightarrow> 'w rdst \<Rightarrow> (rd_flow, 'w rdst) outcome" where
  "sub_loop K base scnt s =
     bnd (random_mod K 3 s) (\<lambda>r s.
       if r < 2
       then let full = sub_path K base scnt (opcnt s); spath = snprintf_buf PATH_MAX full
            in if length full > DLIM then Ret Done s
               else sub_loop K (take (PATH_MAX - 1) spath) (scnt + 1) (do_mkdir K spath s)
       else Ret Done s)"
  by pat_completeness auto

termination
  by (relation "measure (\<lambda>(K, base, scnt, s). DLIM + 1 - length base)")
    (auto simp: sub_path_def snprintf_buf_def DLIM_def min_def PATH_MAX_def)

definition rd_create :: "'w rdk \<Rightarrow> 'w rdst \<Rightarrow> (rd_flow, 'w rdst) outcome" where
  "rd_create K s =
     bnd (pick_dir K s) (\<lambda>d s.
       let base = snprintf_buf PATH_MAX (create_path K d (opcnt s)) in
       if length base > DLIM then Ret Continue s
       else let nslashes = length (filter (\<lambda>c. c = CHR ''/'') base) in
         bnd (if nslashes > 1 then bnd (random_mod K nslashes s) (\<lambda>r s. Ret (r > 0) s) else Ret False s) (\<lambda>deep s.
           if deep then Ret Continue s
           else sub_loop K base 1 (do_mkdir K base s)))"

section \<open>Removing and renaming\<close>

lemma strrchr_at_less: "strrchr_at s c = Some i \<Longrightarrow> i < length s"
  by (induction s arbitrary: i) (auto split: option.splits if_splits)

function rm_loop :: "'w rdk \<Rightarrow> string \<Rightarrow> 'w rdst \<Rightarrow> (rd_flow, 'w rdst) outcome" where
  "rm_loop K base s =
     (if strstr_at base MARKER_STRING = None then Ret Done s
      else let (ok, w) = rd_rmdir K base (rd_fs s); s = s\<lparr>rd_fs := w, rd_calls := rd_calls s @ [Rmdir base]\<rparr>
        in if \<not> ok then Ret Done s
           else let s = rd_logMessage ''rmdir: %s\<newline>'' [ArgS base] s
             in case strrchr_at base CHR ''/'' of
                  None \<Rightarrow> Ret Done s
                | Some i \<Rightarrow> rm_loop K (take i base) s)"
  by pat_completeness auto

termination
  by (relation "measure (\<lambda>(K, base, s). length base)") (auto dest: strrchr_at_less)

definition rd_delete :: "'w rdk \<Rightarrow> 'w rdst \<Rightarrow> (rd_flow, 'w rdst) outcome" where
  "rd_delete K s =
     (if dcnt s = 0 then Ret Continue s
      else bnd (pick_dir K s) (\<lambda>d s. rm_loop K (snprintf_buf PATH_MAX d) s))"

definition base_name :: "string \<Rightarrow> nat \<Rightarrow> string" where
  "base_name to_move i =
     (let tfile = snprintf_buf PATH_MAX (drop (i + 1) to_move)
      in case strstr_at tfile ''__ren'' of Some k \<Rightarrow> take k tfile | None \<Rightarrow> tfile)"

definition rd_rename_path :: "'w rdk \<Rightarrow> string \<Rightarrow> string \<Rightarrow> nat \<Rightarrow> string" where
  "rd_rename_path K d tfile n = d @ ''/'' @ tfile @ ''__ren'' @ dec4 n @ ''-'' @ dec_of_nat (rd_pid K)"

definition do_rename :: "'w rdk \<Rightarrow> string \<Rightarrow> string \<Rightarrow> 'w rdst \<Rightarrow> 'w rdst" where
  "do_rename K p q s =
     (let (ok, w) = rd_rename K p q (rd_fs s); s = s\<lparr>rd_fs := w, rd_calls := rd_calls s @ [Rename p q]\<rparr>
      in if ok then rd_logMessage ''rename: %s ==> %s\<newline>'' [ArgS p, ArgS q] s else s)"

definition rd_move :: "'w rdk \<Rightarrow> 'w rdst \<Rightarrow> (rd_flow, 'w rdst) outcome" where
  "rd_move K s =
     (if dcnt s < 3 then Ret Continue s
      else bnd (pick_dir K s) (\<lambda>to_move s.
        if strstr_at to_move MARKER_STRING = None then Ret Done s
        else case strrchr_at to_move CHR ''/'' of
            None \<Rightarrow> Stop (Undefined ''strrchr() + 1'') s
          | Some i \<Rightarrow> bnd (pick_dir K s) (\<lambda>d s.
              let full = rd_rename_path K d (base_name to_move i) (opcnt s);
                  target = snprintf_buf PATH_MAX full
              in if length full > DLIM then Ret Done s else Ret Done (do_rename K to_move target s))))"

section \<open>\<open>main()\<close>\<close>

record rd_opts =
  stopFile :: "string option"
  maxops :: int
  usecs :: int

definition rd_usageError :: "string \<Rightarrow> 'w rdst \<Rightarrow> ('a, 'w rdst) outcome" where
  "rd_usageError pname s = Stop (Exit 1) (s\<lparr>rd_err := rd_err s @
     [(''Usage: %s [options] dirpath {c|d|m}\<newline>\<newline>'', [ArgS pname]),
      (''Perform random operations in the directory tree 'dirpath'\<newline>'', []),
      (''    c == create directories\<newline>'', []),
      (''    d == delete directories\<newline>'', []),
      (''    m == rename directories\<newline>\<newline>'', []),
      (''Options:\<newline>'', []),
      (''    -l logfile     Record activity in log file\<newline>'', []),
      (''    -m maxops      Do at most 'maxops' operations (default is unlimited)\<newline>'', []),
      (''    -s usecs       Sleep 'usecs' microseconds between each operation\<newline>'', []),
      (''    -z stopfile    Immediately stop when the file 'stopfile' is created\<newline>'', [])]\<rparr>)"

fun rd_options :: "'w rdk \<Rightarrow> string \<Rightarrow> (char \<times> string) list \<Rightarrow> rd_opts \<Rightarrow> 'w rdst \<Rightarrow> (rd_opts, 'w rdst) outcome" where
  "rd_options K pname [] opts s = Ret opts s"
| "rd_options K pname ((opt, optarg) # os) opts s =
     (if opt = CHR ''s'' then rd_options K pname os (opts\<lparr>usecs := atoi optarg\<rparr>) s
      else if opt = CHR ''z'' then rd_options K pname os (opts\<lparr>stopFile := Some optarg\<rparr>) s
      else if opt = CHR ''m'' then rd_options K pname os (opts\<lparr>maxops := atoi optarg\<rparr>) s
      else if opt = CHR ''l''
        then let (ok, w) = rd_fopen K optarg (rd_fs s); s = s\<lparr>rd_fs := w, logfp := ok\<rparr>
             in if ok then rd_options K pname os opts s
                else Stop (Exit 1) (s\<lparr>rd_err := rd_err s @ [(''fopen'', [])]\<rparr>)
      else rd_usageError pname s)"

definition rd_switch :: "'w rdk \<Rightarrow> char \<Rightarrow> 'w rdst \<Rightarrow> (rd_flow, 'w rdst) outcome" where
  "rd_switch K c s =
     (if c = CHR ''c'' then rd_create K s
      else if c = CHR ''d'' then rd_delete K s
      else if c = CHR ''m'' then rd_move K s
      else Ret Done s)"

definition free_dirs :: "'w rdst \<Rightarrow> 'w rdst" where
  "free_dirs s = s\<lparr>dirList := replicate (dcnt s) None @ drop (dcnt s) (dirList s)\<rparr>"

definition end_round :: "'w rdk \<Rightarrow> rd_opts \<Rightarrow> 'w rdst \<Rightarrow> (bool, 'w rdst) outcome" where
  "end_round K opts s =
     (let s = free_dirs s in
      if \<not> fits_int (int (opcnt s) + 1) then Stop overflow s
      else let s = s\<lparr>opcnt := opcnt s + 1\<rparr>; s = s\<lparr>rd_fs := rd_usleep K (usecs opts) (rd_fs s)\<rparr>
      in if maxops opts > 0 \<and> int (opcnt s) \<ge> maxops opts then Ret True s
         else let (found, w) = rd_access K (stopFile opts) (rd_fs s) in Ret found (s\<lparr>rd_fs := w\<rparr>))"

text \<open>One round of the loop; the result says whether it is left.\<close>

definition rd_round :: "'w rdk \<Rightarrow> rd_opts \<Rightarrow> string \<Rightarrow> char \<Rightarrow> 'w rdst \<Rightarrow> (bool, 'w rdst) outcome" where
  "rd_round K opts root c s =
     bnd (getDirList K root s) (\<lambda>_ s.
     bnd (rd_switch K c s) (\<lambda>flow s.
       if flow = Continue then Ret False s else end_round K opts s))"

text \<open>\<open>Ret () s\<close>: after \<open>n\<close> rounds the program is still running, in state \<open>s\<close>.\<close>

fun rd_rounds :: "nat \<Rightarrow> 'w rdk \<Rightarrow> rd_opts \<Rightarrow> string \<Rightarrow> char \<Rightarrow> 'w rdst \<Rightarrow> (unit, 'w rdst) outcome" where
  "rd_rounds 0 K opts root c s = Ret () s"
| "rd_rounds (Suc n) K opts root c s = bnd (rd_round K opts root c s) (\<lambda>leave s.
     if leave then Stop (Exit 0) s else rd_rounds n K opts root c s)"

definition rd_begin :: "'w \<Rightarrow> 'w rdst" where
  "rd_begin w = \<lparr>rd_fs = w, rd_calls = [], rd_draws = 0, dcnt = 0, dirList = [], dlSize = 0, logfp = False, opcnt = 0,
     leaked = 0, rd_log = [], rd_err = []\<rparr>"

definition rd_main :: "nat \<Rightarrow> 'w rdk \<Rightarrow> string \<Rightarrow> (char \<times> string) list \<Rightarrow> string list \<Rightarrow> 'w \<Rightarrow> (unit, 'w rdst) outcome" where
  "rd_main n K pname os args w =
     bnd (rd_options K pname os \<lparr>stopFile = None, maxops = 0, usecs = 1\<rparr> (rd_begin w)) (\<lambda>opts s.
       case args of
         root # op # _ \<Rightarrow> rd_rounds n K opts root (char_at op 0) s
       | _ \<Rightarrow> rd_usageError pname s)"

declare sub_loop.simps [simp del] rm_loop.simps [simp del]

section \<open>Positions in strings\<close>

lemma strstr_at_None [cstr_simps]: "strstr_at s t = None \<longleftrightarrow> \<not> sublist t s"
  by (induction s) (auto simp: sublist_Cons_right)

lemma strrchr_at_None [cstr_simps]: "strrchr_at s c = None \<longleftrightarrow> c \<notin> set s"
  by (induction s) (auto split: option.splits)

lemma strrchr_at_last: "c \<notin> set q \<Longrightarrow> strrchr_at (p @ c # q) c = Some (length p)"
  by (induction p) (auto simp: strrchr_at_None split: option.splits)

lemma sublist_snoc: "sublist t (p @ [c]) \<Longrightarrow> t \<noteq> [] \<Longrightarrow> last t \<noteq> c \<Longrightarrow> sublist t p"
proof -
  assume t: "sublist t (p @ [c])" "t \<noteq> []" "last t \<noteq> c"
  from t(1) obtain xs ys where eq: "p @ [c] = xs @ t @ ys" by (auto simp: sublist_def)
  with t(2,3) have "ys \<noteq> []" by (metis append_Nil2 last_appendR last_snoc)
  then obtain zs z where "ys = zs @ [z]" by (cases ys rule: rev_cases) auto
  with eq show "sublist t p" by (auto simp: sublist_def)
qed

section \<open>What a run may do\<close>

text \<open>\<open>within\<close>: strictly below the root; \<open>in_tree\<close>: the root or something below it.\<close>

definition within :: "string \<Rightarrow> string \<Rightarrow> bool" where
  "within root p \<longleftrightarrow> strict_prefix (root @ ''/'') p"

definition in_tree :: "string \<Rightarrow> string \<Rightarrow> bool" where
  "in_tree root p \<longleftrightarrow> p = root \<or> prefix (root @ ''/'') p"

fun call_ok :: "string \<Rightarrow> dir_call \<Rightarrow> bool" where
  "call_ok root (Mkdir p) \<longleftrightarrow> within root p \<and> length p \<le> DLIM"
| "call_ok root (Rmdir p) \<longleftrightarrow> within root p \<and> sublist MARKER_STRING p"
| "call_ok root (Rename p q) \<longleftrightarrow> within root p \<and> sublist MARKER_STRING p \<and> within root q \<and> length q \<le> DLIM"

text \<open>What the manual page says of \<open>nftw()\<close>: it delivers the root and pathnames below it, none of them too long for the kernel.\<close>

definition nftw_ok :: "'w rdk \<Rightarrow> string \<Rightarrow> bool" where
  "nftw_ok K root \<longleftrightarrow> (\<forall>w. \<forall>(p, m) \<in> set (fst (rd_nftw K root w)). in_tree root p \<and> length p < PATH_MAX)"

text \<open>The number of directories in a list that \<open>nftw()\<close> delivers.\<close>

definition dirs_of :: "(string \<times> u32) list \<Rightarrow> nat" where
  "dirs_of ps = length (filter (\<lambda>(p, m). S_ISDIR m) ps)"

text \<open>There is memory for the copies of the pathnames, and there are not too many of them for the counters.\<close>

definition roomy :: "'w rdk \<Rightarrow> string \<Rightarrow> bool" where
  "roomy K root \<longleftrightarrow> (\<forall>p w. fst (rd_strdup K p w)) \<and> (\<forall>w. dirs_of (fst (rd_nftw K root w)) + D_INCR < 2 ^ 31)"

text \<open>The root exists, and stays a directory.\<close>

definition rooted :: "'w rdk \<Rightarrow> string \<Rightarrow> bool" where
  "rooted K root \<longleftrightarrow> (\<forall>w. \<exists>(p, m) \<in> set (fst (rd_nftw K root w)). S_ISDIR m)"

lemma within_append: "in_tree root d \<Longrightarrow> t \<noteq> [] \<Longrightarrow> within root (d @ CHR ''/'' # t)"
  by (auto simp: within_def in_tree_def strict_prefix_def prefix_def)

lemma within_below: "within root p \<Longrightarrow> in_tree root p"
  by (auto simp: within_def in_tree_def strict_prefix_def)

lemma marked_within:
  assumes "in_tree root d" "prefix p d" "sublist MARKER_STRING p" "\<not> sublist MARKER_STRING root"
  shows "within root p"
proof -
  have "\<not> prefix p root"
    using assms(3,4) by (meson prefix_imp_sublist sublist_order.order_trans)
  moreover have "\<not> prefix p (root @ ''/'')"
  proof
    assume "prefix p (root @ ''/'')"
    with \<open>\<not> prefix p root\<close> have "p = root @ ''/''" by (simp add: prefix_snoc)
    with assms(3) have "sublist MARKER_STRING root"
      using sublist_snoc [of MARKER_STRING root] by (simp add: MARKER_STRING_def)
    with assms(4) show False by simp
  qed
  ultimately show ?thesis
    using assms(1,2) prefix_same_cases [of p d "root @ ''/''"]
    by (auto simp: in_tree_def within_def strict_prefix_def)
qed

section \<open>Preconditions of the parts\<close>

text \<open>
  \<open>calm root n s\<close>: all calls so far are permitted, the array has its size, and \<open>n\<close> operations are counted.
  \<open>filled\<close>: the first \<open>dcnt\<close> cells hold pathnames at or below the root, or nothing if memory may run out; \<open>dirs_listed\<close>: so that there is something to choose
  from, if the root exists. \<open>stops\<close> is what holds when the program ends.
\<close>

definition calm :: "string \<Rightarrow> nat \<Rightarrow> 'w rdst \<Rightarrow> bool" where
  "calm root n s \<longleftrightarrow> list_all (call_ok root) (rd_calls s) \<and> length (dirList s) = dlSize s \<and> opcnt s = n"

definition filled :: "bool \<Rightarrow> string \<Rightarrow> 'w rdst \<Rightarrow> bool" where
  "filled R root s \<longleftrightarrow> dcnt s \<le> length (dirList s) \<and>
     (\<forall>i < dcnt s. case dirList s ! i of None \<Rightarrow> \<not> R | Some d \<Rightarrow> in_tree root d \<and> length d < PATH_MAX)"

definition dirs_listed :: "bool \<Rightarrow> string \<Rightarrow> nat \<Rightarrow> 'w rdst \<Rightarrow> bool" where
  "dirs_listed R root n s \<longleftrightarrow> calm root n s \<and> filled R root s \<and> (R \<longrightarrow> 0 < dcnt s)"

definition stops :: "bool \<Rightarrow> string \<Rightarrow> stop \<Rightarrow> 'w rdst \<Rightarrow> bool" where
  "stops R root r s \<longleftrightarrow> list_all (call_ok root) (rd_calls s) \<and> (R \<longrightarrow> r \<in> {Exit 0, Exit 1})"

lemma dirs_listed_update [frame_simps]:
  "dirs_listed R root n (rd_draws_update f s) = dirs_listed R root n s"
  "dirs_listed R root n (rd_fs_update g s) = dirs_listed R root n s"
  "dirs_listed R root n (rd_logMessage fmt as s) = dirs_listed R root n s"
  by (auto simp: dirs_listed_def calm_def filled_def rd_logMessage_def)

lemma dirs_listed_call [frame_simps]:
  "dirs_listed R root n s \<Longrightarrow> call_ok root c \<Longrightarrow> dirs_listed R root n (s\<lparr>rd_fs := w, rd_calls := rd_calls s @ [c]\<rparr>)"
  by (auto simp: dirs_listed_def calm_def filled_def)

lemma logMessage_opcnt [simp]: "opcnt (rd_logMessage fmt as s) = opcnt s"
  by (simp add: rd_logMessage_def)

lemma dirs_listed_do [frame_simps]:
  "dirs_listed R root n s \<Longrightarrow> call_ok root (Mkdir p) \<Longrightarrow> dirs_listed R root n (do_mkdir K p s)"
  "dirs_listed R root n s \<Longrightarrow> call_ok root (Rename p q) \<Longrightarrow> dirs_listed R root n (do_rename K p q s)"
  unfolding do_mkdir_def do_rename_def
  by (auto simp: dirs_listed_update(3) Let_def split: prod.splits simp del: call_ok.simps intro!: dirs_listed_call)

lemma dirs_listed_stops: "dirs_listed R root n s \<Longrightarrow> \<not> R \<Longrightarrow> stops R root r s"
  by (simp add: dirs_listed_def calm_def stops_def)

lemma random_mod_wp [wp_rules]:
  assumes "dirs_listed R root n s" "\<And>r s. dirs_listed R root n s \<Longrightarrow> r < m \<Longrightarrow> Q r s" "R \<Longrightarrow> 0 < m"
  shows "wp (random_mod K m s) Q (stops R root)"
  using assms(1,3) by (auto simp: random_mod_def Let_def frame_simps intro!: assms(2) dirs_listed_stops)

lemma pick_dir_wp [wp_rules]:
  assumes "dirs_listed R root n s" "\<And>d s. dirs_listed R root n s \<Longrightarrow> in_tree root d \<Longrightarrow> length d < PATH_MAX \<Longrightarrow> Q d s"
  shows "wp (pick_dir K s) Q (stops R root)"
proof (cases "dcnt s = 0")
  case True
  with assms(1) have "\<not> R" by (auto simp: dirs_listed_def)
  with True assms(1) show ?thesis
    by (auto simp: pick_dir_def random_mod_def Let_def frame_simps intro!: dirs_listed_stops)
next
  case False
  let ?i = "rd_random K (rd_draws s) mod dcnt s"
  have i: "?i < dcnt s" using False by simp
  then have l: "?i < length (dirList s)" "case dirList s ! ?i of None \<Rightarrow> \<not> R | Some d \<Rightarrow> in_tree root d \<and> length d < PATH_MAX"
    using assms(1) by (auto simp: dirs_listed_def filled_def)
  then show ?thesis
    using False assms(1)
    by (cases "dirList s ! ?i")
      (auto simp: pick_dir_def random_mod_def Let_def frame_simps intro!: assms(2) dirs_listed_stops)
qed

lemma sub_loop_wp [wp_rules]:
  assumes "dirs_listed R root n s" "within root base"
  shows "wp (sub_loop K base scnt s) (\<lambda>flow s. flow = Done \<and> dirs_listed R root n s) (stops R root)"
  using assms
proof (induction K base scnt s rule: sub_loop.induct)
  case (1 K base scnt s)
  have step: "wp (sub_loop K (take (PATH_MAX - Suc 0) (snprintf_buf PATH_MAX (sub_path K base scnt (opcnt t)))) (Suc scnt)
      (do_mkdir K (snprintf_buf PATH_MAX (sub_path K base scnt (opcnt t))) t)) (\<lambda>flow s. flow = Done \<and> dirs_listed R root n s) (stops R root)"
    if t: "dirs_listed R root n t" and len: "\<not> DLIM < length (sub_path K base scnt (opcnt t))" and r: "r < (2 :: nat)" for r t
  proof -
    let ?full = "sub_path K base scnt (opcnt t)"
    have full: "within root ?full" "take (PATH_MAX - 1) ?full = ?full"
      using within_append [OF within_below [OF 1(3)]] len by (auto simp: sub_path_def MARKER_STRING_def DLIM_def PATH_MAX_def)
    show ?thesis
      using "1.IH" [OF r refl refl len] t full len by (auto simp: snprintf_buf_def frame_simps)
  qed
  show ?case
    by (subst sub_loop.simps) (auto intro!: random_mod_wp [OF 1(2)] step simp: Let_def)
qed

lemma rd_create_wp [wp_rules]:
  assumes "dirs_listed R root n s"
  shows "wp (rd_create K s) (\<lambda>_. dirs_listed R root n) (stops R root)"
proof -
  have path: "within root (snprintf_buf PATH_MAX (create_path K d k))"
    if "in_tree root d" "length (snprintf_buf PATH_MAX (create_path K d k)) \<le> DLIM" for d k
    using within_append [OF that(1)] that(2)
    by (auto simp: create_path_def snprintf_buf_def DLIM_def PATH_MAX_def min_def split: if_splits)
  show ?thesis
    unfolding rd_create_def
    by (auto simp: Let_def not_less frame_simps path intro!: pick_dir_wp [OF assms] random_mod_wp
        wp_mono [OF sub_loop_wp])
qed

lemma rm_loop_wp [wp_rules]:
  assumes "dirs_listed R root n s" "in_tree root d" "prefix base d" "\<not> sublist MARKER_STRING root"
  shows "wp (rm_loop K base s) (\<lambda>flow s. flow = Done \<and> dirs_listed R root n s) (stops R root)"
  using assms(1,3)
proof (induction K base s rule: rm_loop.induct)
  case (1 K base s)
  obtain ok w where call: "rd_rmdir K base (rd_fs s) = (ok, w)" by fastforce
  let ?t = "s\<lparr>rd_fs := w, rd_calls := rd_calls s @ [Rmdir base]\<rparr>"
  show ?case
  proof (cases "sublist MARKER_STRING base")
    case True
    with 1(3) have t: "dirs_listed R root n ?t"
      using marked_within [OF assms(2) 1(3) True assms(4)] 1(2) by (intro dirs_listed_call) simp_all
    have "wp (rm_loop K (take i base) (rd_logMessage fmt as ?t)) (\<lambda>flow s. flow = Done \<and> dirs_listed R root n s) (stops R root)"
      if "ok" "strrchr_at base CHR ''/'' = Some i" "fmt = ''rmdir: %s\<newline>''" "as = [ArgS base]" for i fmt as
      using "1.IH" [OF _ call [symmetric] refl refl _ refl that(2)] that True t
        prefix_order.trans [OF take_is_prefix 1(3)]
      by (auto simp: cstr_simps frame_simps)
    with True t call show ?thesis
      by (subst rm_loop.simps) (auto simp: cstr_simps frame_simps Let_def split: option.splits)
  next
    case False
    with 1(2) show ?thesis by (subst rm_loop.simps) (simp add: cstr_simps)
  qed
qed

lemma rd_delete_wp [wp_rules]:
  assumes "dirs_listed R root n s" "\<not> sublist MARKER_STRING root"
  shows "wp (rd_delete K s) (\<lambda>flow s. (R \<longrightarrow> flow = Done) \<and> dirs_listed R root n s) (stops R root)"
proof -
  have "R \<Longrightarrow> dcnt s \<noteq> 0" using assms(1) by (auto simp: dirs_listed_def)
  then show ?thesis
    unfolding rd_delete_def
    by (auto simp: snprintf_buf_def assms(2) take_is_prefix intro!: assms(1) pick_dir_wp [OF assms(1)] wp_mono [OF rm_loop_wp])
qed

lemma rd_move_wp [wp_rules]:
  assumes "dirs_listed R root n s" "\<not> sublist MARKER_STRING root"
  shows "wp (rd_move K s) (\<lambda>_. dirs_listed R root n) (stops R root)"
proof -
  have source: "within root p" if "in_tree root p" "sublist MARKER_STRING p" for p
    using marked_within [OF that(1) prefix_order.refl that(2) assms(2)] .
  have slash: "CHR ''/'' \<in> set p" if "in_tree root p" "sublist MARKER_STRING p" for p
    using source [OF that] by (auto simp: cstr_simps within_def strict_prefix_def prefix_def)
  have target: "within root (rd_rename_path K d f k)" if "in_tree root d" for d f k
    using within_append [OF that] by (simp add: rd_rename_path_def)
  have short: "length q \<le> DLIM \<Longrightarrow> take (PATH_MAX - Suc 0) q = q" for q :: string
    by (simp add: DLIM_def PATH_MAX_def)
  show ?thesis
    unfolding rd_move_def
    by (auto simp: Let_def cstr_simps frame_simps not_less assms(1) snprintf_buf_def source slash target short
        intro!: pick_dir_wp [OF assms(1)] pick_dir_wp split: option.splits)
qed

section \<open>Preconditions of the list and of the rounds\<close>

lemma dirs_of_simps [simp]:
  "dirs_of [] = 0" "dirs_of ((p, m) # ps) = (if S_ISDIR m then 1 else 0) + dirs_of ps"
  by (simp_all add: dirs_of_def)

lemma dirs_of_pos: "0 < dirs_of ps \<longleftrightarrow> (\<exists>(p, m) \<in> set ps. S_ISDIR m)"
  by (induction ps) auto

lemma rd_traverseTree_wp:
  assumes "calm root n s" "filled R root s" "in_tree root p" "length p < PATH_MAX"
    and "R \<longrightarrow> (\<forall>p w. fst (rd_strdup K p w))" "B \<longrightarrow> dcnt s + (if S_ISDIR m then 1 else 0) + D_INCR < 2 ^ 31"
  shows "wp (rd_traverseTree K p m s)
    (\<lambda>r s'. r = 0 \<and> calm root n s' \<and> filled R root s' \<and> dcnt s' = dcnt s + (if S_ISDIR m then 1 else 0) \<and> rd_calls s' = rd_calls s)
    (\<lambda>r s'. (B \<longrightarrow> r = Exit 1 \<and> (\<exists>sz. \<not> rd_realloc K sz)) \<and> list_all (call_ok root) (rd_calls s'))"
  using assms
  by (auto simp: rd_traverseTree_def Let_def calm_def filled_def D_INCR_def fits_int_def nth_append nth_list_update less_Suc_eq
      split: prod.splits option.splits) (metis fst_conv)+

lemma nftw_loop_wp:
  assumes "calm root n s" "filled R root s" "\<forall>(p, m) \<in> set ps. in_tree root p \<and> length p < PATH_MAX"
    and "R \<longrightarrow> (\<forall>p w. fst (rd_strdup K p w))" "B \<longrightarrow> dcnt s + dirs_of ps + D_INCR < 2 ^ 31"
  shows "wp (nftw_loop K ps s)
    (\<lambda>_ s'. calm root n s' \<and> filled R root s' \<and> dcnt s' = dcnt s + dirs_of ps \<and> rd_calls s' = rd_calls s)
    (\<lambda>r s'. (B \<longrightarrow> r = Exit 1 \<and> (\<exists>sz. \<not> rd_realloc K sz)) \<and> list_all (call_ok root) (rd_calls s'))"
  using assms(1-3,5)
proof (induction ps arbitrary: s)
  case (Cons x ps)
  obtain p m where [simp]: "x = (p, m)" by (cases x)
  show ?case
    using Cons.prems assms(4)
    by (auto intro!: wp_mono [OF rd_traverseTree_wp [where R = R and B = B]] wp_mono [OF Cons.IH])
qed simp

lemma getDirList_wp:
  assumes "calm root n s" "nftw_ok K root" "R \<longrightarrow> rooted K root \<and> (\<forall>p w. fst (rd_strdup K p w))"
    and "B \<longrightarrow> (\<forall>w. dirs_of (fst (rd_nftw K root w)) + D_INCR < 2 ^ 31)"
  shows "wp (getDirList K root s)
    (\<lambda>_ s'. dirs_listed R root n s' \<and> rd_calls s' = rd_calls s \<and> (\<exists>w. dcnt s' = dirs_of (fst (rd_nftw K root w))))
    (\<lambda>r s'. (B \<longrightarrow> r = Exit 1 \<and> (\<exists>sz. \<not> rd_realloc K sz)) \<and> list_all (call_ok root) (rd_calls s'))"
proof -
  obtain ps ok w where call: "rd_nftw K root (rd_fs s) = (ps, ok, w)" by (metis prod_cases3)
  let ?t = "s\<lparr>dcnt := 0, rd_fs := w\<rparr>"
  have "\<forall>(p, m) \<in> set ps. in_tree root p \<and> length p < PATH_MAX"
    using assms(2) call unfolding nftw_ok_def by (drule_tac x = "rd_fs s" in spec) simp
  moreover have "calm root n ?t" "filled R root ?t"
    using assms(1) by (auto simp: calm_def filled_def)
  moreover have "B \<longrightarrow> dcnt ?t + dirs_of ps + D_INCR < 2 ^ 31"
    using assms(4) call by (metis add_0 fst_conv rdst.select_convs(4) rdst.surjective rdst.update_convs(4) rdst.update_convs(1))
  ultimately have loop: "wp (nftw_loop K ps ?t)
      (\<lambda>_ s'. calm root n s' \<and> filled R root s' \<and> dcnt s' = dirs_of ps \<and> rd_calls s' = rd_calls s)
      (\<lambda>r s'. (B \<longrightarrow> r = Exit 1 \<and> (\<exists>sz. \<not> rd_realloc K sz)) \<and> list_all (call_ok root) (rd_calls s'))"
    using nftw_loop_wp [of root n ?t R ps K B] assms(3) by simp
  have found: "R \<Longrightarrow> 0 < dirs_of ps"
    using assms(3) call unfolding rooted_def dirs_of_pos by (metis fst_conv)
  have list: "\<exists>w. dirs_of ps = dirs_of (fst (rd_nftw K root w))"
    by (rule exI [of _ "rd_fs s"]) (simp add: call)
  show ?thesis
    unfolding getDirList_def
    by (auto simp: call dirs_listed_def calm_def filled_def intro!: wp_mono [OF loop] list dest: found)
qed

text \<open>An operation that does not skip the end of the round, if the root exists: all but \<open>c\<close> and \<open>m\<close>.\<close>

lemma rd_switch_wp [wp_rules]:
  assumes "dirs_listed R root n s" "\<not> sublist MARKER_STRING root"
  shows "wp (rd_switch K c s) (\<lambda>flow s. (R \<longrightarrow> c \<notin> {CHR ''c'', CHR ''m''} \<longrightarrow> flow = Done) \<and> dirs_listed R root n s) (stops R root)"
  using assms unfolding rd_switch_def
  by (auto intro: wp_mono [OF rd_create_wp] wp_mono [OF rd_delete_wp] wp_mono [OF rd_move_wp])

lemma end_round_wp:
  assumes "dirs_listed R root n s" "R \<longrightarrow> Suc n < 2 ^ 31"
  shows "wp (end_round K opts s)
    (\<lambda>leave s. calm root (n + 1) s \<and> (0 < maxops opts \<and> maxops opts \<le> int (n + 1) \<longrightarrow> leave)) (stops R root)"
  using assms
  by (auto simp: end_round_def Let_def dirs_listed_def calm_def filled_def free_dirs_def fits_int_def stops_def split: prod.splits)

text \<open>
  \<open>R\<close> is what the guarantees of a run depend on: the root exists, memory and counters suffice, and less than \<open>2 ^ 31\<close>
  operations are done.
\<close>

lemma rd_round_wp:
  fixes K :: "'w rdk"
  assumes "calm root n s" "nftw_ok K root" "\<not> sublist MARKER_STRING root" and R: "R \<longrightarrow> rooted K root \<and> roomy K root \<and> Suc n < 2 ^ 31"
  shows "wp (rd_round K opts root c s)
    (\<lambda>leave s. \<exists>n'. calm root n' s \<and> n' \<le> n + 1 \<and> (R \<longrightarrow> c \<notin> {CHR ''c'', CHR ''m''} \<longrightarrow> n' = n + 1 \<and>
        (0 < maxops opts \<and> maxops opts \<le> int n' \<longrightarrow> leave)))
    (stops R root)" (is "wp _ ?Q _")
proof -
  have ends: "wp (end_round K opts t) ?Q (stops R root)" if "dirs_listed R root n t" for t
    by (rule wp_mono [OF end_round_wp [OF that]]) (use R in auto)
  have skips: "?Q False t" if "dirs_listed R root n t" "\<not> (R \<and> c \<notin> {CHR ''c'', CHR ''m''})" for t
    using that by (auto simp: dirs_listed_def intro!: exI [of _ n])
  have switch: "wp (rd_switch K c t) (\<lambda>flow s. wp (if flow = Continue then Ret False s else end_round K opts s) ?Q (stops R root))
      (stops R root)" if "dirs_listed R root n t" for t
  proof (rule wp_mono [OF rd_switch_wp [OF that assms(3)]])
    fix flow and s :: "'w rdst"
    assume "(R \<longrightarrow> c \<notin> {CHR ''c'', CHR ''m''} \<longrightarrow> flow = Done) \<and> dirs_listed R root n s"
    then show "wp (if flow = Continue then Ret False s else end_round K opts s) ?Q (stops R root)"
      using ends [of s] skips [of s] by (cases flow) auto
  qed
  have "R \<longrightarrow> rooted K root \<and> (\<forall>p w. fst (rd_strdup K p w))" "R \<longrightarrow> (\<forall>w. dirs_of (fst (rd_nftw K root w)) + D_INCR < 2 ^ 31)"
    using R by (simp_all add: roomy_def)
  from getDirList_wp [OF assms(1,2) this] show ?thesis
    unfolding rd_round_def wp_bnd by (rule wp_mono) (elim conjE, erule switch, simp add: stops_def)
qed

lemma rd_rounds_wp:
  assumes "calm root k s" "nftw_ok K root" "\<not> sublist MARKER_STRING root"
    and "R \<longrightarrow> rooted K root \<and> roomy K root" "R \<longrightarrow> k + n < 2 ^ 31"
  shows "wp (rd_rounds n K opts root c s)
    (\<lambda>_ s. \<exists>k'. calm root k' s \<and> (R \<longrightarrow> c \<notin> {CHR ''c'', CHR ''m''} \<longrightarrow> k' = k + n \<and>
        (0 < maxops opts \<and> 0 < n \<longrightarrow> int k' < maxops opts)))
    (stops R root)"
  using assms(1,5)
proof (induction n arbitrary: k s)
  case (Suc n)
  have "wp (rd_rounds n K opts root c t)
      (\<lambda>_ s. \<exists>k'. calm root k' s \<and> (R \<longrightarrow> c \<notin> {CHR ''c'', CHR ''m''} \<longrightarrow> k' = k + Suc n \<and>
        (0 < maxops opts \<longrightarrow> int k' < maxops opts)))
      (stops R root)"
    if "calm root j t" "j \<le> k + 1" "R \<longrightarrow> c \<notin> {CHR ''c'', CHR ''m''} \<longrightarrow> j = k + 1 \<and> (0 < maxops opts \<longrightarrow> int j < maxops opts)" for j t
  proof -
    have "R \<longrightarrow> j + n < 2 ^ 31" using that(2) Suc.prems(2) by auto
    then show ?thesis using that by (intro wp_mono [OF Suc.IH [OF that(1)]]) (cases n; fastforce)+
  qed
  moreover have "stops R root (Exit 0) t" if "calm root j t" for j t
    using that by (simp add: stops_def calm_def)
  moreover have "R \<longrightarrow> rooted K root \<and> roomy K root \<and> Suc k < 2 ^ 31" using assms(4) Suc.prems(2) by auto
  ultimately show ?case
    by (auto intro!: wp_mono [OF rd_round_wp [OF Suc.prems(1) assms(2,3), where R = R]])
qed (auto simp: stops_def)

lemma rd_options_wp:
  assumes "calm root n s"
  shows "wp (rd_options K pname os opts s) (\<lambda>_. calm root n) (stops R root)"
  using assms
proof (induction K pname os opts s rule: rd_options.induct)
  case (2 K pname opt optarg os opts s)
  then show ?case
    by (auto simp: rd_usageError_def Let_def stops_def calm_def split: prod.splits)
qed simp

lemma rd_begin_calm: "calm root 0 (rd_begin w)"
  by (simp add: rd_begin_def calm_def)

lemma rd_main_wp:
  assumes "nftw_ok K root" "\<not> sublist MARKER_STRING root" "R \<longrightarrow> rooted K root \<and> roomy K root" "R \<longrightarrow> n < 2 ^ 31"
  shows "wp (rd_main n K pname os (root # op # rest) w)
    (\<lambda>_ s. list_all (call_ok root) (rd_calls s)) (stops R root)"
  unfolding rd_main_def
  by (auto intro!: wp_mono [OF rd_options_wp [OF rd_begin_calm]] wp_mono [OF rd_rounds_wp [OF _ assms(1-3)]] simp: calm_def assms(4) [simplified])

text \<open>With \<open>-m\<close> the operations that never skip the end of a round end the program after so many rounds.\<close>

lemma rand_dtree_ends:
  assumes "nftw_ok K root" "\<not> sublist MARKER_STRING root" "rooted K root" "roomy K root" "n < 2 ^ 31"
    and "char_at op 0 \<notin> {CHR ''c'', CHR ''m''}" "0 < atoi ops" "atoi ops \<le> int n"
  shows "\<exists>s. rd_main n K pname [(CHR ''m'', ops)] [root, op] w \<in> {Stop (Exit 0) s, Stop (Exit 1) s}"
proof -
  have "wp (rd_main n K pname [(CHR ''m'', ops)] [root, op] w) (\<lambda>_ _. False) (stops True root)"
    unfolding rd_main_def
    using assms(3-8)
    by (auto intro!: wp_mono [OF rd_rounds_wp [OF rd_begin_calm assms(1,2), where R = True]])
  then show ?thesis
    by (cases "rd_main n K pname [(CHR ''m'', ops)] [root, op] w") (auto simp: stops_def)
qed

text \<open>A round of renaming when there are less than three directories does nothing and counts nothing.\<close>

lemma few_fit: "\<forall>w. dirs_of (fst (rd_nftw K root w)) < 3 \<Longrightarrow> dirs_of (fst (rd_nftw K root w)) + D_INCR < 2 ^ 31"
  by (rule less_trans [of _ "3 + D_INCR"]) (simp_all add: D_INCR_def)

lemma rd_move_skips:
  assumes "calm root k s" "nftw_ok K root" "\<forall>w. dirs_of (fst (rd_nftw K root w)) < 3" "\<forall>sz. rd_realloc K sz"
  shows "wp (rd_round K opts root CHR ''m'' s) (\<lambda>leave t. \<not> leave \<and> calm root k t \<and> rd_calls t = rd_calls s) (\<lambda>_ _. False)"
proof -
  have skip: "rd_switch K CHR ''m'' t = Ret Continue t" if "dcnt t < 3" for t
    using that by (simp add: rd_switch_def rd_move_def)
  show ?thesis
    unfolding rd_round_def wp_bnd using assms(3,4) few_fit [OF assms(3)]
    by (intro wp_mono [OF getDirList_wp [OF assms(1,2), where R = False and B = True]]) (auto simp: dirs_listed_def skip)
qed

lemma rd_rounds_skip:
  assumes "calm root k s" "nftw_ok K root" "\<forall>w. dirs_of (fst (rd_nftw K root w)) < 3" "\<forall>sz. rd_realloc K sz"
  shows "wp (rd_rounds n K opts root CHR ''m'' s) (\<lambda>_ t. calm root k t \<and> rd_calls t = rd_calls s) (\<lambda>_ _. False)"
  using assms(1)
proof (induction n arbitrary: s)
  case (Suc n)
  show ?case
    by (auto intro!: wp_mono [OF rd_move_skips [OF Suc.prems assms(2-4)]] wp_mono [OF Suc.IH])
qed simp

text \<open>Without a root the first random choice divides by zero.\<close>

lemma rd_create_no_root: "dcnt s = 0 \<Longrightarrow> \<exists>t. rd_switch K CHR ''c'' s = Stop (Undefined ''random() % 0'') t"
  by (simp add: rd_switch_def rd_create_def pick_dir_def random_mod_def Let_def)

lemma rand_dtree_no_root:
  assumes "nftw_ok K root" "\<forall>w. dirs_of (fst (rd_nftw K root w)) = 0" "\<forall>sz. rd_realloc K sz"
  shows "\<exists>s. rd_main (Suc n) K pname [] [root, ''c''] w = Stop (Undefined ''random() % 0'') s"
proof -
  have "wp (getDirList K root (rd_begin w)) (\<lambda>_ s. dcnt s = 0) (\<lambda>_ _. False)"
    using assms(2,3)
    by (auto simp: D_INCR_def intro!: wp_mono [OF getDirList_wp [OF rd_begin_calm assms(1), where R = False and B = True]])
  then obtain k s where "getDirList K root (rd_begin w) = Ret k s" "dcnt s = 0"
    by (cases "getDirList K root (rd_begin w)") auto
  with rd_create_no_root [of s K] show ?thesis
    by (auto simp: rd_main_def rd_round_def char_at_def)
qed

text \<open>The removal does not know the root: it goes up as long as the pathname has the marker.\<close>

lemma rm_loop_calls: "prefix (rd_calls s) (rd_calls (final_state (rm_loop K base s)))"
proof (induction K base s rule: rm_loop.induct)
  case (1 K base s)
  obtain ok w where call: "rd_rmdir K base (rd_fs s) = (ok, w)" by fastforce
  show ?case
    using "1.IH" [OF _ call [symmetric] refl refl _ refl]
    by (subst rm_loop.simps) (auto simp: call Let_def rd_logMessage_def prefix_def split: option.splits)
qed

lemma rm_loop_climbs:
  assumes "\<forall>p w. fst (rd_rmdir K p w)" "sublist MARKER_STRING p" "CHR ''/'' \<notin> set q"
  shows "Rmdir p \<in> set (rd_calls (final_state (rm_loop K (p @ ''/'' @ q) s)))"
proof -
  have once: "Rmdir p \<in> set (rd_calls (final_state (rm_loop K p t)))" for t
  proof -
    have ok: "fst (rd_rmdir K p (rd_fs t))" using assms(1) by blast
    show ?thesis
      using ok assms(2)
      by (subst rm_loop.simps)
        (auto simp: cstr_simps Let_def rd_logMessage_def split: option.splits prod.splits
          intro!: subsetD [OF set_mono_prefix [OF rm_loop_calls]])
  qed
  have full: "sublist MARKER_STRING (p @ CHR ''/'' # q)"
    using assms(2) by (simp add: sublist_appendI sublist_append)
  have "fst (rd_rmdir K (p @ CHR ''/'' # q) (rd_fs s))" using assms(1) by blast
  then show ?thesis
    using full once strrchr_at_last [OF assms(3), of p]
    by (subst rm_loop.simps) (auto simp: cstr_simps Let_def split: prod.splits)
qed

section \<open>An example\<close>

definition sample_rdk :: "string list rdk" where
  "sample_rdk = \<lparr>
     rd_nftw = \<lambda>root w. (map (\<lambda>p. (p, 0x4000)) (root # filter (\<lambda>p. within root p \<and> length p < 4096) (take 1000 w)), True, w),
     rd_mkdir = \<lambda>p w. (p \<notin> set w, if p \<in> set w then w else w @ [p]),
     rd_rmdir = \<lambda>p w. if list_ex (within p) w then (False, w) else (True, removeAll p w),
     rd_rename = \<lambda>p q w. (p \<in> set w, map (\<lambda>x. if x = p then q else x) w),
     rd_access = \<lambda>f w. (False, w), rd_usleep = \<lambda>u w. w, rd_fopen = \<lambda>f w. (True, w),
     rd_realloc = \<lambda>n. True, rd_strdup = \<lambda>p w. (True, w), rd_random = \<lambda>n. 7 * n + 1, rd_pid = 105\<rparr>"

definition sample_rtree :: "string list" where
  "sample_rtree = [''t/a'', ''t/5--cr_0'']"

lemma sample_rdk_ok: "length root < 4096 \<Longrightarrow> nftw_ok sample_rdk root" "rooted sample_rdk root" "roomy sample_rdk root"
proof -
  show "length root < 4096 \<Longrightarrow> nftw_ok sample_rdk root" "rooted sample_rdk root"
    by (auto simp: nftw_ok_def rooted_def sample_rdk_def in_tree_def within_def strict_prefix_def PATH_MAX_def S_ISDIR_def dest: in_set_takeD)
  have "dirs_of (fst (rd_nftw sample_rdk root w)) \<le> 1001" for w
    unfolding dirs_of_def by (rule le_trans [OF length_filter_le]) (simp add: sample_rdk_def le_trans [OF length_filter_le])
  then show "roomy sample_rdk root"
    by (simp add: roomy_def D_INCR_def le_less_trans [of _ 2001]) (simp add: sample_rdk_def)
qed

section \<open>Properties\<close>

text \<open>
  C29: the program leaves alone what it did not make. For a root without the marker \<open>--\<close> in its pathname, whatever the random
  numbers and the other processes do: every directory that it makes lies below the root and has a pathname of at most 60 bytes;
  every directory that it removes or renames lies below the root and has the marker in its pathname; a new name lies
  below the root too and has at most 60 bytes. When the root exists, \<open>strdup()\<close> never runs out of memory, and the counts of
  directories and of rounds fit an \<open>int\<close>, the program ends with status 0 or 1 only, and so never divides by
  zero, follows a null pointer, overflows a counter or reads outside its list of directories. (The result of \<open>strdup()\<close> is not
  tested: without memory the program uses the null pointer, which is undefined.)
\<close>

theorem rand_dtree_confined:
  assumes "nftw_ok K root" "\<not> sublist MARKER_STRING root"
  shows "list_all (call_ok root) (rd_calls (final_state (rd_main n K pname os (root # op # rest) w))) \<and>
    (rooted K root \<and> roomy K root \<and> n < 2 ^ 31 \<longrightarrow>
      (\<forall>r s. rd_main n K pname os (root # op # rest) w = Stop r s \<longrightarrow> r \<in> {Exit 0, Exit 1}))"
  using rd_main_wp [OF assms, of "rooted K root \<and> roomy K root \<and> n < 2 ^ 31" n pname os op rest w]
  by (cases "rd_main n K pname os (root # op # rest) w") (auto simp: stops_def)

theorem rand_dtree_confined_witness:
  "rd_calls (final_state (rd_main 3 sample_rdk ''rand_dtree'' [(CHR ''m'', ''3'')] [''t'', ''d''] sample_rtree)) = [Rmdir ''t/5--cr_0''] \<and>
   list_all (call_ok ''t'') (rd_calls (final_state (rd_main 3 sample_rdk ''rand_dtree'' [(CHR ''m'', ''3'')] [''t'', ''d''] sample_rtree))) \<and>
   (case rd_main 3 sample_rdk ''rand_dtree'' [(CHR ''m'', ''3'')] [''t'', ''d''] sample_rtree of Stop r s \<Rightarrow> r \<in> {Exit 0, Exit 1} | Ret _ _ \<Rightarrow> False)"
proof -
  let ?m = "rd_main 3 sample_rdk ''rand_dtree'' [(CHR ''m'', ''3'')] [''t'', ''d''] sample_rtree"
  have "case ?m of Stop r s \<Rightarrow> rd_calls s = [Rmdir ''t/5--cr_0''] | Ret _ _ \<Rightarrow> False" by code_simp
  then obtain r s where m: "?m = Stop r s" "rd_calls s = [Rmdir ''t/5--cr_0'']" by (auto split: outcome.splits)
  have "\<not> sublist MARKER_STRING ''t''" by (simp add: MARKER_STRING_def sublist_Cons_right)
  with sample_rdk_ok [of "''t''"] m show ?thesis
    using rand_dtree_confined [of sample_rdk "''t''" 3 "''rand_dtree''" "[(CHR ''m'', ''3'')]" "''d''" "[]" sample_rtree] by simp
qed

text \<open>
  C40: the limit \<open>-m\<close> and the stop file \<open>-z\<close> do not end a renaming run in a tree of less than three directories. Each round
  goes on with the next one before it counts the operation and looks for the file, so that the program runs for
  ever without any operation.
\<close>

theorem rand_dtree_spins:
  assumes "nftw_ok K root" "\<forall>w. dirs_of (fst (rd_nftw K root w)) < 3" "\<forall>sz. rd_realloc K sz"
  shows "\<exists>s. rd_main n K pname [(CHR ''m'', ops), (CHR ''z'', file)] [root, ''m''] w = Ret () s \<and> rd_calls s = [] \<and> opcnt s = 0"
proof -
  have "wp (rd_main n K pname [(CHR ''m'', ops), (CHR ''z'', file)] [root, ''m''] w)
      (\<lambda>_ s. rd_calls s = [] \<and> opcnt s = 0) (\<lambda>_ _. False)"
    unfolding rd_main_def
    by (auto simp: char_at_def calm_def intro!: wp_mono [OF rd_rounds_skip [OF rd_begin_calm assms]])
      (simp_all add: rd_begin_def)
  then show ?thesis
    by (cases "rd_main n K pname [(CHR ''m'', ops), (CHR ''z'', file)] [root, ''m''] w") auto
qed

theorem rand_dtree_spins_witness:
  "\<exists>s. rd_main 50 (sample_rdk\<lparr>rd_nftw := \<lambda>root w. ([(root, 0x4000)], True, w)\<rparr>) ''rand_dtree''
     [(CHR ''m'', ''1''), (CHR ''z'', ''stop'')] [''t'', ''m''] sample_rtree = Ret () s \<and> rd_calls s = [] \<and> opcnt s = 0"
  by (rule rand_dtree_spins) (auto simp: nftw_ok_def in_tree_def PATH_MAX_def sample_rdk_def dirs_of_def S_ISDIR_def)

end
