(* ===== verification/Simple_Init.thy ===== *)
theory Simple_Init
  imports Interleaving
begin

text \<open>
  \<open>namespaces/simple_init.c\<close>: the first process of a process namespace, a small shell that executes commands and reaps
  children, those that it forked and those that it inherits.

  The main program, its \<open>SIGCHLD\<close> handler and the children are interleaved. \<open>SIGCHLD\<close> is a flag, since the
  signal does not queue; its handler is entered at any time while the flag is set, runs with the signal blocked and stops the main program
  until it returns. The flag \<open>SA_NOCLDSTOP\<close> keeps children that stop from setting it. \<open>wordexp()\<close> and the calls that start
  the program are a parameter, the record \<open>init_os\<close>; later calls fail by events.
\<close>

section \<open>State\<close>

definition CMD_SIZE :: nat where "CMD_SIZE = 10000"
definition EINVAL :: int where "EINVAL = 22"

record init_os =
  ik_sigaction :: bool
  ik_setpgid :: bool
  ik_tcsetpgrp :: bool
  ik_slave :: "string \<Rightarrow> int option"
  ik_mount :: "string \<Rightarrow> bool"
  ik_wordexp :: "string \<Rightarrow> string list option"
  ik_pid :: nat

text \<open>
  A child before \<open>execvp()\<close> is at one of four places; \<open>kd_news\<close>: \<open>waitpid()\<close> has yet to report that it was stopped or
  continued.
\<close>

datatype kid_pc = K_Cmd string | K_Group "string list" | K_Term "string list" | K_Exec "string list" | K_Run | K_Dead int

record kid =
  kd_pc :: kid_pc
  kd_stopped :: bool
  kd_news :: bool

datatype init_pc = I_Read | I_Fork string | I_Call | I_Pause | I_Fore | I_Unmount

record initst =
  ipc :: init_pc
  inHandler :: bool
  sigchld :: bool
  kids :: "(nat \<times> kid) list"
  nextPid :: nat
  ipid :: nat
  foreground :: nat
  itext :: string
  verbose :: bool
  proc_path :: "string option"
  ireaped :: "nat list"
  iout :: "msg list"
  ierr :: "msg list"
  icrash :: bool
  iend :: "stop option"

definition init_print :: "string \<Rightarrow> fmt_arg list \<Rightarrow> initst \<Rightarrow> initst" where
  "init_print fmt as s = s\<lparr>iout := iout s @ [(fmt, as)]\<rparr>"

definition init_verbose :: "string \<Rightarrow> fmt_arg list \<Rightarrow> initst \<Rightarrow> initst" where
  "init_verbose fmt as s = (if verbose s then init_print fmt as s else s)"

definition init_perror :: "string \<Rightarrow> initst \<Rightarrow> initst" where
  "init_perror m s = s\<lparr>ierr := ierr s @ [(m, [])]\<rparr>"

definition init_errExit :: "string \<Rightarrow> initst \<Rightarrow> initst" where
  "init_errExit m s = (init_perror m s)\<lparr>iend := Some (Exit 1)\<rparr>"

section \<open>Start\<close>

definition init_usage :: "string \<Rightarrow> initst \<Rightarrow> ('a, initst) outcome" where
  "init_usage pname s = Stop (Exit 1) (s\<lparr>ierr := ierr s @
     [(''Usage: %s [-v] [-p proc-mount]\<newline>'', [ArgS pname]),
      (CHR 0x09 # ''-v              Provide verbose logging\<newline>'', []),
      (CHR 0x09 # ''-p proc-mount   Mount a procfs at specified path\<newline>'', [])]\<rparr>)"

fun init_options :: "string \<Rightarrow> (char \<times> string) list \<Rightarrow> initst \<Rightarrow> (unit, initst) outcome" where
  "init_options pname [] s = Ret () s"
| "init_options pname ((opt, optarg) # os) s =
     (if opt = CHR ''p'' then init_options pname os (s\<lparr>proc_path := Some optarg\<rparr>)
      else if opt = CHR ''v'' then init_options pname os (s\<lparr>verbose := True\<rparr>)
      else init_usage pname s)"

definition init_die :: "bool \<Rightarrow> string \<Rightarrow> initst \<Rightarrow> (unit, initst) outcome" where
  "init_die ok m s = (if ok then Ret () s else Stop (Exit 1) (init_perror m s))"

definition mount_proc :: "init_os \<Rightarrow> initst \<Rightarrow> (unit, initst) outcome" where
  "mount_proc K s =
     (case proc_path s of
        None \<Rightarrow> Ret () s
      | Some p \<Rightarrow>
          let s = init_verbose ''Making %s a private mount\<newline>'' [ArgS p] s;
              s = (case ik_slave K p of
                     None \<Rightarrow> s
                   | Some e \<Rightarrow> if e \<noteq> EINVAL then init_perror ''mount-make-slave-/'' s else s);
              s = init_verbose ''Mounting procfs at %s\<newline>'' [ArgS p] s
          in init_die (ik_mount K p) ''mount-procfs'' s)"

definition init_begin :: "init_os \<Rightarrow> string \<Rightarrow> initst" where
  "init_begin K input = \<lparr>ipc = I_Read, inHandler = False, sigchld = False, kids = [], nextPid = ik_pid K + 1, ipid = ik_pid K,
     foreground = 0, itext = input, verbose = False, proc_path = None, ireaped = [], iout = [], ierr = [], icrash = False, iend = None\<rparr>"

definition init_start :: "init_os \<Rightarrow> string \<Rightarrow> (char \<times> string) list \<Rightarrow> string \<Rightarrow> (unit, initst) outcome" where
  "init_start K pname os input =
     bnd (init_options pname os (init_begin K input)) (\<lambda>_ s.
     bnd (init_die (ik_sigaction K) ''sigaction'' s) (\<lambda>_ s.
     let s = init_verbose (CHR 0x09 # ''init: my PID is %ld\<newline>'') [ArgI (int (ipid s))] s in
     bnd (init_die (ik_setpgid K) ''setpgid'' s) (\<lambda>_ s.
     bnd (init_die (ik_tcsetpgrp K) ''tcsetpgrp-child'' s) (\<lambda>_ s.
     mount_proc K (s\<lparr>foreground := ipid s\<rparr>)))))"

section \<open>Main program and handler\<close>

definition read_command :: "initst \<Rightarrow> initst" where
  "read_command s =
     (let s = init_print ''init$ '' [] s in
      if itext s = []
      then (init_print ''\<newline>'' [] (init_verbose (CHR 0x09 # ''init: exiting'') [] s))\<lparr>ipc := I_Unmount\<rparr>
      else case fgets (CMD_SIZE - 1) (itext s) of (line, rest) \<Rightarrow>
        let cmd = takeWhile (\<lambda>c. c \<noteq> CHR 0x00) line; s = s\<lparr>itext := rest\<rparr> in
        if cmd = [] then s\<lparr>iend := Some (Undefined ''cmd[-1]'')\<rparr>
        else let cmd = (if last cmd = CHR 0x0A then butlast cmd else cmd) in
          if cmd = [] then s else s\<lparr>ipc := I_Fork cmd\<rparr>)"

definition main_step :: "initst \<Rightarrow> initst option" where
  "main_step s =
     (case ipc s of
        I_Read \<Rightarrow> Some (read_command s)
      | I_Fork cmd \<Rightarrow>
          Some (init_verbose (CHR 0x09 # ''init: created child %ld\<newline>'') [ArgI (int (nextPid s))]
            (s\<lparr>kids := kids s @ [(nextPid s, \<lparr>kd_pc = K_Cmd cmd, kd_stopped = False, kd_news = False\<rparr>)], nextPid := nextPid s + 1, ipc := I_Call\<rparr>))
      | I_Call \<Rightarrow> Some (s\<lparr>ipc := I_Pause\<rparr>)
      | I_Pause \<Rightarrow> None
      | I_Fore \<Rightarrow> Some (s\<lparr>foreground := ipid s, ipc := I_Read\<rparr>)
      | I_Unmount \<Rightarrow>
          Some ((case proc_path s of None \<Rightarrow> s | Some p \<Rightarrow> init_verbose ''Unmounting procfs at %s\<newline>'' [ArgS p] s)\<lparr>iend := Some (Exit 0)\<rparr>))"

text \<open>The calls of the main program that can fail, and what it does then.\<close>

definition main_fails :: "initst \<Rightarrow> initst option" where
  "main_fails s =
     (case ipc s of
        I_Fork cmd \<Rightarrow> Some ((init_perror ''fork'' s)\<lparr>ipc := I_Unmount\<rparr>)
      | I_Fore \<Rightarrow> Some (init_errExit ''tcsetpgrp-parent'' s)
      | I_Unmount \<Rightarrow> (case proc_path s of
            None \<Rightarrow> None
          | Some p \<Rightarrow> Some (init_errExit ''umount-procfs'' (init_verbose ''Unmounting procfs at %s\<newline>'' [ArgS p] s)))
      | _ \<Rightarrow> None)"

fun is_dead :: "kid_pc \<Rightarrow> bool" where
  "is_dead (K_Dead st) = True"
| "is_dead _ = False"

definition reportable :: "kid \<Rightarrow> bool" where
  "reportable k \<longleftrightarrow> is_dead (kd_pc k) \<or> kd_news k"

definition put_kid :: "nat \<Rightarrow> kid \<Rightarrow> (nat \<times> kid) list \<Rightarrow> (nat \<times> kid) list" where
  "put_kid pid k ks = map (\<lambda>(p, x). if p = pid then (p, k) else (p, x)) ks"

text \<open>
  One turn of the loop of \<open>child_handler()\<close>. \<open>waitpid()\<close> returns 0, or fails with \<open>ECHILD\<close>, when no child has anything to report; then the handler
  returns, and \<open>pause()\<close> with it.
\<close>

definition child_handler :: "initst \<Rightarrow> initst" where
  "child_handler s =
     (case find (\<lambda>(p, k). reportable k) (kids s) of
        None \<Rightarrow> s\<lparr>inHandler := False, ipc := (if ipc s = I_Pause then I_Fore else ipc s)\<rparr>
      | Some (pid, k) \<Rightarrow>
          init_verbose (CHR 0x09 # ''init: SIGCHLD handler: PID %ld terminated\<newline>'') [ArgI (int pid)]
            (if is_dead (kd_pc k)
             then s\<lparr>kids := filter (\<lambda>(p, x). p \<noteq> pid) (kids s), ireaped := ireaped s @ [pid]\<rparr>
             else s\<lparr>kids := put_kid pid (k\<lparr>kd_news := False\<rparr>) (kids s)\<rparr>))"

definition handler_fails :: "initst \<Rightarrow> initst" where
  "handler_fails s = init_verbose (CHR 0x09 # ''init: SIGCHLD handler: PID %ld terminated\<newline>'') [ArgI (-1)] (init_perror ''waitpid'' s)"

section \<open>Children\<close>

definition kid_dies :: "nat \<Rightarrow> int \<Rightarrow> initst \<Rightarrow> initst" where
  "kid_dies pid st s = s\<lparr>kids := put_kid pid \<lparr>kd_pc = K_Dead st, kd_stopped = False, kd_news = False\<rparr> (kids s), sigchld := True\<rparr>"

definition kid_goes :: "nat \<Rightarrow> kid_pc \<Rightarrow> kid \<Rightarrow> initst \<Rightarrow> initst" where
  "kid_goes pid pc k s = s\<lparr>kids := put_kid pid (k\<lparr>kd_pc := pc\<rparr>) (kids s)\<rparr>"

definition expand_failed :: "initst \<Rightarrow> initst" where
  "expand_failed s = s\<lparr>ierr := ierr s @ [(''Word expansion failed.\<newline>'' @ CHR 0x09 # ''Note that only simple commands plus arguments are supported\<newline>'' @
     CHR 0x09 # ''(no pipelines, I/O redirection, and so on)\<newline>'', [])]\<rparr>"

definition expand_words :: "init_os \<Rightarrow> string \<Rightarrow> initst \<Rightarrow> string list option \<times> initst" where
  "expand_words K cmd s = (case ik_wordexp K cmd of None \<Rightarrow> (None, expand_failed s) | Some ws \<Rightarrow> (Some ws, s))"

text \<open>The child's part of \<open>main()\<close>; without any word \<open>execvp()\<close> gets a null pointer.\<close>

definition child_step :: "init_os \<Rightarrow> nat \<Rightarrow> kid \<Rightarrow> initst \<Rightarrow> initst option" where
  "child_step K pid k s =
     (case kd_pc k of
        K_Cmd cmd \<Rightarrow> (case expand_words K cmd s of
            (None, s) \<Rightarrow> Some (kid_dies pid 1 s)
          | (Some ws, s) \<Rightarrow> Some (kid_goes pid (K_Group ws) k s))
      | K_Group ws \<Rightarrow> Some (kid_goes pid (K_Term ws) k s)
      | K_Term ws \<Rightarrow> Some (kid_goes pid (K_Exec ws) k (s\<lparr>foreground := pid\<rparr>))
      | K_Exec ws \<Rightarrow>
          if ws = [] then Some (kid_dies pid 11 (s\<lparr>icrash := True\<rparr>)) else Some (kid_goes pid K_Run k s)
      | _ \<Rightarrow> None)"

definition child_fails :: "init_os \<Rightarrow> nat \<Rightarrow> kid \<Rightarrow> initst \<Rightarrow> initst option" where
  "child_fails K pid k s =
     (case kd_pc k of
        K_Cmd cmd \<Rightarrow> if ik_wordexp K cmd = None then None else Some (kid_dies pid 1 (init_perror ''calloc'' s))
      | K_Group ws \<Rightarrow> Some (kid_dies pid 1 (init_perror ''setpgid'' s))
      | K_Term ws \<Rightarrow> Some (kid_dies pid 1 (init_perror ''tcsetpgrp-child'' s))
      | K_Exec ws \<Rightarrow> if ws = [] then None else Some (kid_dies pid 1 (init_perror ''execvp'' s))
      | _ \<Rightarrow> None)"

text \<open>
  The events: the main program (or its handler) goes on, a call of it fails, the signal is delivered; a child goes on, fails, ends (of itself or
  by a signal), is stopped, is continued; a process is inherited from a child that ended; a process changes the foreground group.
\<close>

datatype init_event = Main | MainFails | Deliver | Child nat | ChildFails nat | Exits nat int | Stops nat | Continues nat | Orphan | Grabs nat

definition with_kid :: "nat \<Rightarrow> (kid \<Rightarrow> initst option) \<Rightarrow> initst \<Rightarrow> initst option" where
  "with_kid pid f s = (case map_of (kids s) pid of None \<Rightarrow> None | Some k \<Rightarrow> if is_dead (kd_pc k) then None else f k)"

definition init_step :: "init_os \<Rightarrow> init_event \<Rightarrow> initst \<Rightarrow> initst option" where
  "init_step K e s =
     (if iend s \<noteq> None then None
      else case e of
        Main \<Rightarrow> if inHandler s then Some (child_handler s) else main_step s
      | MainFails \<Rightarrow> if inHandler s then Some (handler_fails s) else main_fails s
      | Deliver \<Rightarrow> if sigchld s \<and> \<not> inHandler s then Some (s\<lparr>sigchld := False, inHandler := True\<rparr>) else None
      | Child pid \<Rightarrow> with_kid pid (\<lambda>k. if kd_stopped k then None else child_step K pid k s) s
      | ChildFails pid \<Rightarrow> with_kid pid (\<lambda>k. if kd_stopped k then None else child_fails K pid k s) s
      | Exits pid st \<Rightarrow> with_kid pid (\<lambda>k. Some (kid_dies pid st s)) s
      | Stops pid \<Rightarrow> with_kid pid (\<lambda>k. if kd_stopped k then None
          else Some (s\<lparr>kids := put_kid pid (k\<lparr>kd_stopped := True, kd_news := True\<rparr>) (kids s)\<rparr>)) s
      | Continues pid \<Rightarrow> with_kid pid (\<lambda>k. if kd_stopped k
          then Some (s\<lparr>kids := put_kid pid (k\<lparr>kd_stopped := False, kd_news := True\<rparr>) (kids s)\<rparr>) else None) s
      | Orphan \<Rightarrow> Some (s\<lparr>kids := kids s @ [(nextPid s, \<lparr>kd_pc = K_Run, kd_stopped = False, kd_news = False\<rparr>)], nextPid := nextPid s + 1\<rparr>)
      | Grabs g \<Rightarrow> Some (s\<lparr>foreground := g\<rparr>))"

section \<open>Invariant\<close>

text \<open>
  Every process that became a child is still one or was reaped, exactly once; as long as there is a child that ended, the signal is
  pending or the handler is running.
\<close>

definition zombies :: "initst \<Rightarrow> nat list" where
  "zombies s = map fst (filter (\<lambda>(p, k). is_dead (kd_pc k)) (kids s))"

definition accounted :: "initst \<Rightarrow> bool" where
  "accounted s \<longleftrightarrow> distinct (map fst (kids s) @ ireaped s) \<and> set (map fst (kids s) @ ireaped s) = {ipid s <..< nextPid s}"

definition init_ok :: "initst \<Rightarrow> bool" where
  "init_ok s \<longleftrightarrow> accounted s \<and> ipid s < nextPid s \<and> (zombies s \<noteq> [] \<longrightarrow> sigchld s \<or> inHandler s)"

text \<open>The invariant looks at six fields only.\<close>

definition core :: "initst \<Rightarrow> (nat \<times> kid) list \<times> nat list \<times> nat \<times> nat \<times> bool \<times> bool" where
  "core s = (kids s, ireaped s, nextPid s, ipid s, sigchld s, inHandler s)"

lemma core_ok: "core s = core t \<Longrightarrow> init_ok s = init_ok t"
  by (simp add: core_def init_ok_def accounted_def zombies_def)

lemma same_core: "init_ok s \<Longrightarrow> core t = core s \<Longrightarrow> init_ok t"
  using core_ok by blast

lemma core_print [frame_simps]:
  "core (init_print fmt as s) = core s" "core (init_verbose fmt as s) = core s" "core (init_perror m s) = core s"
  "core (init_errExit m s) = core s" "core (expand_failed s) = core s" "core (handler_fails s) = core s" "core (read_command s) = core s"
  by (simp_all add: core_def init_print_def init_verbose_def init_perror_def init_errExit_def expand_failed_def handler_fails_def
      read_command_def Let_def split: prod.split)

lemma iend_print [frame_simps]:
  "iend (init_print fmt as s) = iend s" "iend (init_verbose fmt as s) = iend s" "iend (init_perror m s) = iend s"
  by (simp_all add: init_print_def init_verbose_def init_perror_def)

lemma core_update [frame_simps]:
  "core (s\<lparr>ipc := pc\<rparr>) = core s" "core (s\<lparr>iend := r\<rparr>) = core s" "core (s\<lparr>foreground := g\<rparr>) = core s" "core (s\<lparr>icrash := c\<rparr>) = core s"
  by (simp_all add: core_def)

lemma core_frame: "core s = core t \<Longrightarrow> kids s = kids t \<and> ireaped s = ireaped t \<and> nextPid s = nextPid t \<and> ipid s = ipid t
    \<and> sigchld s = sigchld t \<and> inHandler s = inHandler t"
  by (simp add: core_def)

lemma put_kid_fst [simp]: "map fst (put_kid pid k ks) = map fst ks"
  by (induction ks) (auto simp: put_kid_def)

lemma zombies_iff: "zombies s \<noteq> [] \<longleftrightarrow> (\<exists>(p, k) \<in> set (kids s). is_dead (kd_pc k))"
  by (auto simp: zombies_def filter_empty_conv)

lemma put_kid_set: "(p, x) \<in> set (put_kid pid k ks) \<longleftrightarrow> (p = pid \<and> x = k \<and> pid \<in> fst ` set ks) \<or> (p \<noteq> pid \<and> (p, x) \<in> set ks)"
  by (induction ks) (auto simp: put_kid_def split: if_splits)

lemma put_kid_ok:
  assumes "init_ok s" "\<not> is_dead (kd_pc k)"
  shows "init_ok (s\<lparr>kids := put_kid pid k (kids s)\<rparr>)"
  using assms by (auto simp: init_ok_def accounted_def zombies_iff put_kid_set)

lemma kid_dies_ok: "init_ok s \<Longrightarrow> init_ok (kid_dies pid st s)"
  by (simp add: kid_dies_def init_ok_def accounted_def)

lemma new_kid_ok:
  assumes "init_ok s" "\<not> is_dead (kd_pc k)"
  shows "init_ok (s\<lparr>kids := kids s @ [(nextPid s, k)], nextPid := nextPid s + 1\<rparr>)"
proof -
  have "nextPid s \<notin> set (map fst (kids s) @ ireaped s)" using assms(1) by (auto simp: init_ok_def accounted_def)
  moreover have "insert (nextPid s) {ipid s <..< nextPid s} = {ipid s <..< nextPid s + 1}" using assms(1) by (auto simp: init_ok_def)
  ultimately show ?thesis using assms by (auto simp: init_ok_def accounted_def zombies_def)
qed

text \<open>One turn of the handler: it returns with nothing left to report, or it takes one report.\<close>

lemma find_pair: "find (\<lambda>(p, k). P k) xs = Some (q, x) \<Longrightarrow> (q, x) \<in> set xs \<and> P x"
  by (induction xs) (auto split: if_splits)

lemma find_none: "find (\<lambda>(p, k). P k) xs = None \<Longrightarrow> (q, x) \<in> set xs \<Longrightarrow> \<not> P x"
  by (induction xs) (auto split: if_splits)

lemma handler_cases:
  obtains (returns) "core (child_handler s) = core (s\<lparr>inHandler := False\<rparr>)" "\<forall>(p, k) \<in> set (kids s). \<not> reportable k"
    | (reaps) p k where "(p, k) \<in> set (kids s)" "is_dead (kd_pc k)"
        "core (child_handler s) = core (s\<lparr>kids := filter (\<lambda>(q, x). q \<noteq> p) (kids s), ireaped := ireaped s @ [p]\<rparr>)"
    | (told) p k where "(p, k) \<in> set (kids s)" "\<not> is_dead (kd_pc k)" "kd_news k"
        "core (child_handler s) = core (s\<lparr>kids := put_kid p (k\<lparr>kd_news := False\<rparr>) (kids s)\<rparr>)"
proof (cases "find (\<lambda>(p, k). reportable k) (kids s)")
  case None
  then show ?thesis using returns find_none [OF None] by (auto simp: child_handler_def core_def)
next
  case (Some x)
  obtain p k where x: "x = (p, k)" by (cases x)
  have "(p, k) \<in> set (kids s)" "reportable k" using find_pair Some x by fastforce+
  with Some x show ?thesis
    using reaps [of p k] told [of p k] by (auto simp: child_handler_def frame_simps reportable_def split: if_splits)
qed

lemma filter_fst: "map fst (filter (\<lambda>(q, x). q \<noteq> p) ks) = filter (\<lambda>q. q \<noteq> p) (map fst ks)"
  by (induction ks) auto

lemma kid_reaped_ok:
  assumes "init_ok s" "(p, k) \<in> set (kids s)" "inHandler s"
  shows "init_ok (s\<lparr>kids := filter (\<lambda>(q, x). q \<noteq> p) (kids s), ireaped := ireaped s @ [p]\<rparr>)"
proof -
  have p: "p \<in> set (map fst (kids s))" using assms(2) by force
  show ?thesis
    using assms(1,3) p unfolding init_ok_def accounted_def by (simp add: filter_fst) auto
qed

lemma handler_ok:
  assumes "init_ok s" "inHandler s"
  shows "init_ok (child_handler s)"
proof (cases s rule: handler_cases)
  case returns
  then have "\<not> zombies s \<noteq> []" unfolding zombies_iff by (auto simp: reportable_def)
  then have "init_ok (s\<lparr>inHandler := False\<rparr>)" using assms(1) by (simp add: init_ok_def accounted_def zombies_def)
  with returns(1) show ?thesis using core_ok by blast
next
  case (reaps p k)
  with kid_reaped_ok [OF assms(1) reaps(1) assms(2)] show ?thesis using core_ok by blast
next
  case (told p k)
  have "init_ok (s\<lparr>kids := put_kid p (k\<lparr>kd_news := False\<rparr>) (kids s)\<rparr>)" by (rule put_kid_ok [OF assms(1)]) (use told in simp)
  with told(4) show ?thesis using core_ok by blast
qed

lemma main_step_ok:
  assumes "init_ok s" "main_step s = Some t"
  shows "init_ok t"
proof (cases "ipc s")
  case (I_Fork cmd)
  let ?k = "\<lparr>kd_pc = K_Cmd cmd, kd_stopped = False, kd_news = False\<rparr>"
  have "init_ok (s\<lparr>kids := kids s @ [(nextPid s, ?k)], nextPid := nextPid s + 1\<rparr>)" by (rule new_kid_ok [OF assms(1)]) simp
  moreover have "core t = core (s\<lparr>kids := kids s @ [(nextPid s, ?k)], nextPid := nextPid s + 1\<rparr>)"
    using assms(2) I_Fork by (auto simp: main_step_def frame_simps)
  ultimately show ?thesis using core_ok by blast
qed (use assms(2) in \<open>auto simp: main_step_def frame_simps split: option.splits intro: same_core [OF assms(1)]\<close>)

lemma main_fails_ok: "init_ok s \<Longrightarrow> main_fails s = Some t \<Longrightarrow> init_ok t"
  by (cases "ipc s") (auto simp: main_fails_def frame_simps split: option.splits intro: same_core)

lemma kid_goes_ok: "init_ok s \<Longrightarrow> \<not> is_dead pc \<Longrightarrow> init_ok (kid_goes pid pc k s)"
  unfolding kid_goes_def by (rule put_kid_ok) simp_all

lemma print_ok: "init_ok s \<Longrightarrow> init_ok (expand_failed s)" "init_ok s \<Longrightarrow> init_ok (init_perror m s)"
    "init_ok s \<Longrightarrow> init_ok (s\<lparr>icrash := c\<rparr>)" "init_ok s \<Longrightarrow> init_ok (s\<lparr>foreground := g\<rparr>)" "init_ok s \<Longrightarrow> init_ok (handler_fails s)"
  by (auto simp: frame_simps intro: same_core)

lemma child_step_ok: "init_ok s \<Longrightarrow> child_step K pid k s = Some t \<Longrightarrow> init_ok t"
  by (cases "kd_pc k") (auto simp: child_step_def expand_words_def split: option.splits if_splits intro!: kid_dies_ok kid_goes_ok print_ok)

lemma child_fails_ok: "init_ok s \<Longrightarrow> child_fails K pid k s = Some t \<Longrightarrow> init_ok t"
  by (cases "kd_pc k") (auto simp: child_fails_def split: if_splits intro!: kid_dies_ok print_ok)

lemma with_kidD: "with_kid pid f s = Some t \<Longrightarrow> \<exists>k. f k = Some t \<and> \<not> is_dead (kd_pc k)"
  by (auto simp: with_kid_def split: option.splits if_splits)

lemma init_step_ok:
  assumes "init_ok s" "init_step K e s = Some t"
  shows "init_ok t"
proof (cases e)
  case Orphan
  then have "t = s\<lparr>kids := kids s @ [(nextPid s, \<lparr>kd_pc = K_Run, kd_stopped = False, kd_news = False\<rparr>)], nextPid := nextPid s + 1\<rparr>"
    using assms(2) by (simp add: init_step_def split: if_splits)
  with new_kid_ok [OF assms(1), of "\<lparr>kd_pc = K_Run, kd_stopped = False, kd_news = False\<rparr>"] show ?thesis by simp
next
  case Deliver
  then have "t = s\<lparr>sigchld := False, inHandler := True\<rparr>" using assms(2) by (simp add: init_step_def split: if_splits)
  with assms(1) show ?thesis by (simp add: init_ok_def accounted_def)
next
  case (Stops pid)
  then obtain k where "t = s\<lparr>kids := put_kid pid (k\<lparr>kd_stopped := True, kd_news := True\<rparr>) (kids s)\<rparr>" "\<not> is_dead (kd_pc k)"
    using assms(2) by (auto simp: init_step_def split: if_splits dest!: with_kidD)
  with assms(1) show ?thesis by (auto intro!: put_kid_ok)
next
  case (Continues pid)
  then obtain k where "t = s\<lparr>kids := put_kid pid (k\<lparr>kd_stopped := False, kd_news := True\<rparr>) (kids s)\<rparr>" "\<not> is_dead (kd_pc k)"
    using assms(2) by (auto simp: init_step_def split: if_splits dest!: with_kidD)
  with assms(1) show ?thesis by (auto intro!: put_kid_ok)
qed (use assms in \<open>auto simp: init_step_def split: if_splits dest!: with_kidD
    intro: handler_ok main_step_ok main_fails_ok child_step_ok child_fails_ok kid_dies_ok print_ok\<close>)

lemma init_options_ok:
  "init_ok s \<Longrightarrow> init_options pname os s = Ret () t \<Longrightarrow> init_ok t \<and> ipid t = ipid s \<and> iend t = iend s"
proof (induction pname os s rule: init_options.induct)
  case (2 pname opt optarg os s)
  have "init_ok (s\<lparr>proc_path := Some optarg\<rparr>)" "init_ok (s\<lparr>verbose := True\<rparr>)"
    using 2(3) by (auto intro: same_core simp: core_def)
  with 2 show ?case by (auto simp: init_usage_def split: if_splits)
qed simp

lemma mount_proc_core: "mount_proc K s = Ret () t \<Longrightarrow> core t = core s \<and> iend t = iend s"
  by (auto simp: mount_proc_def init_die_def Let_def frame_simps split: option.splits if_splits)

lemma init_start_ok:
  assumes "init_start K pname os input = Ret () s"
  shows "init_ok s \<and> ipid s = ik_pid K \<and> iend s = None"
proof -
  have begins: "init_ok (init_begin K input)" by (auto simp: init_ok_def init_begin_def accounted_def zombies_def)
  obtain t where t: "init_options pname os (init_begin K input) = Ret () t" "core s = core t \<and> iend s = iend t"
    using assms mount_proc_core by (fastforce simp: init_start_def init_die_def bnd_Ret_iff Let_def frame_simps split: if_splits)
  then show ?thesis
    using init_options_ok [OF begins t(1)] same_core [of t s] by (auto simp: core_def init_begin_def)
qed

interpretation shell: interleaved "init_step K" "\<lambda>s. init_start K pname os input = Ret () s" init_ok for K pname os input
  by unfold_locales (use init_start_ok init_step_ok in blast)+

section \<open>The handler reaps\<close>

definition reports :: "initst \<Rightarrow> nat" where
  "reports s = length (filter (\<lambda>(p, k). reportable k) (kids s))"

lemma filter_less:
  assumes "x \<in> set xs" "P x" "\<not> Q x"
  shows "length (filter P (filter Q xs)) < length (filter P xs)"
proof -
  have "filter P (filter Q xs) = filter Q (filter P xs)" by (simp add: conj_commute)
  moreover have "length (filter Q (filter P xs)) < length (filter P xs)" using assms by (intro length_filter_less [of x]) auto
  ultimately show ?thesis by simp
qed

lemma put_kid_reports:
  assumes "\<not> reportable k'"
  shows "length (filter (\<lambda>(p, k). reportable k) (put_kid p k' ks)) \<le> length (filter (\<lambda>(p, k). reportable k) ks) \<and>
    ((p, k) \<in> set ks \<and> reportable k \<longrightarrow>
      length (filter (\<lambda>(p, k). reportable k) (put_kid p k' ks)) < length (filter (\<lambda>(p, k). reportable k) ks))"
  using assms by (induction ks) (auto simp: put_kid_def split: if_splits)

lemma handler_iend: "iend (child_handler s) = iend s"
  by (auto simp: child_handler_def frame_simps split: option.split)

text \<open>A turn that does not leave the handler has one report less, and what it takes off the list of children that ended is reaped.\<close>

lemma handler_turn:
  assumes "init_ok s" "inHandler s"
  shows "set (zombies s) \<subseteq> set (zombies (child_handler s)) \<union> set (ireaped (child_handler s)) \<and> set (ireaped s) \<subseteq> set (ireaped (child_handler s)) \<and>
    (inHandler (child_handler s) \<and> reports (child_handler s) < reports s \<or>
     \<not> inHandler (child_handler s) \<and> zombies (child_handler s) = [])"
proof (cases s rule: handler_cases)
  case returns
  then have "\<not> zombies s \<noteq> []" unfolding zombies_iff by (auto simp: reportable_def)
  with returns(1) show ?thesis by (simp add: core_def zombies_def)
next
  case (reaps p k)
  have "reports (child_handler s) < reports s"
    using filter_less [OF reaps(1), of "\<lambda>(p, k). reportable k" "\<lambda>(q, x). q \<noteq> p"] reaps by (simp add: core_def reports_def reportable_def)
  with reaps assms(2) show ?thesis by (auto simp: core_def zombies_def)
next
  case (told p k)
  have "reports (child_handler s) < reports s"
    using put_kid_reports [of "k\<lparr>kd_news := False\<rparr>" p "kids s" k] told by (simp add: core_def reports_def reportable_def)
  moreover have "distinct (map fst (kids s))" using assms(1) by (simp add: init_ok_def accounted_def)
  then have "x = k" if "(p, x) \<in> set (kids s)" for x using eq_key_imp_eq_value [OF _ that told(1)] by simp
  then have keep: "(q, x) \<in> set (put_kid p (k\<lparr>kd_news := False\<rparr>) (kids s))" if "(q, x) \<in> set (kids s)" "is_dead (kd_pc x)" for q x
    using told(2) that by (auto simp: put_kid_set)
  have "kids (child_handler s) = put_kid p (k\<lparr>kd_news := False\<rparr>) (kids s)" using told(4) by (simp add: core_def)
  then have "set (zombies s) \<subseteq> set (zombies (child_handler s))"
    unfolding zombies_def using keep by (auto intro!: image_eqI)
  ultimately show ?thesis using told(4) assms(2) by (auto simp: core_def)
qed

lemma drain:
  assumes "init_ok s" "inHandler s" "iend s = None"
  shows "\<exists>n u. n \<le> reports s + 1 \<and> run (init_step K) (replicate n Main) s = Some u \<and> zombies u = [] \<and>
    set (zombies s) \<union> set (ireaped s) \<subseteq> set (ireaped u)"
  using assms
proof (induction "reports s" arbitrary: s rule: less_induct)
  case less
  let ?t = "child_handler s"
  have step: "init_step K Main s = Some ?t" using less.prems(2,3) by (simp add: init_step_def)
  note turn = handler_turn [OF less.prems(1,2)]
  show ?case
  proof (cases "inHandler ?t")
    case True
    with turn have "reports ?t < reports s" by simp
    moreover obtain n u where "n \<le> reports ?t + 1" "run (init_step K) (replicate n Main) ?t = Some u" "zombies u = []"
        "set (zombies ?t) \<union> set (ireaped ?t) \<subseteq> set (ireaped u)"
      using less.hyps [OF calculation handler_ok [OF less.prems(1,2)] True] less.prems(3) handler_iend by auto
    ultimately show ?thesis using step turn by (intro exI [of _ "Suc n"] exI [of _ u]) auto
  next
    case False
    with step turn show ?thesis by (intro exI [of _ 1] exI [of _ ?t]) auto
  qed
qed

text \<open>A shell that sleeps without children, and without a signal on the way, sleeps until it inherits a process.\<close>

definition asleep :: "initst \<Rightarrow> bool" where
  "asleep s \<longleftrightarrow> ipc s = I_Pause \<and> kids s = [] \<and> \<not> sigchld s \<and> \<not> inHandler s \<and> iend s = None"

lemma asleep_step: "asleep s \<Longrightarrow> init_step K e s = Some t \<Longrightarrow> e \<noteq> Orphan \<Longrightarrow> asleep t"
  by (cases e) (auto simp: asleep_def init_step_def main_step_def main_fails_def with_kid_def split: if_splits)

lemma asleep_run: "asleep s \<Longrightarrow> run (init_step K) es s = Some t \<Longrightarrow> Orphan \<notin> set es \<Longrightarrow> asleep t"
  by (induction es arbitrary: s) (auto split: option.splits dest: asleep_step)

lemma read_command_line:
  assumes "fgets (CMD_SIZE - 1) (itext s) = (cmd @ [CHR 0x0A], rest)" "cstring cmd" "cmd \<noteq> []"
  shows "\<exists>t. read_command s = t\<lparr>ipc := I_Fork cmd\<rparr> \<and> core t = core s \<and> iend t = iend s"
proof -
  have "itext s \<noteq> []" using assms(1) by (cases "CMD_SIZE - 1") auto
  moreover have "takeWhile (\<lambda>c. c \<noteq> CHR 0x00) (cmd @ [CHR 0x0A]) = cmd @ [CHR 0x0A]"
    using assms(2) by (auto simp: cstring_def takeWhile_eq_all_conv)
  ultimately show ?thesis
    using assms by (intro exI [of _ "(init_print ''init$ '' [] s)\<lparr>itext := rest\<rparr>"]) (simp add: read_command_def Let_def init_print_def core_def)
qed

text \<open>The child ends before the shell is in \<open>pause()\<close>: the handler has come and gone by then.\<close>

lemma early_end:
  assumes "ipc s = I_Fork cmd" "kids s = []" "\<not> sigchld s" "\<not> inHandler s" "iend s = None"
  shows "\<exists>t. run (init_step K) [Main, Exits (nextPid s) st, Deliver, Main, Main, Main] s = Some t \<and> asleep t"
  using assms
  by (simp add: init_step_def main_step_def with_kid_def kid_dies_def put_kid_def child_handler_def reportable_def asleep_def
      init_verbose_def init_print_def)

section \<open>An example\<close>

definition sample_os :: init_os where
  "sample_os = \<lparr>ik_sigaction = True, ik_setpgid = True, ik_tcsetpgrp = True, ik_slave = \<lambda>p. Some EINVAL, ik_mount = \<lambda>p. True,
     ik_wordexp = \<lambda>cmd. Some [cmd], ik_pid = 1\<rparr>"

definition sample_shell :: initst where
  "sample_shell = (init_begin sample_os (''ps'' @ [CHR 0x0A]))\<lparr>foreground := 1\<rparr>"

lemma sample_shell_start: "init_start sample_os ''simple_init'' [] (''ps'' @ [CHR 0x0A]) = Ret () sample_shell"
  by (simp add: init_start_def sample_os_def sample_shell_def init_begin_def init_die_def mount_proc_def init_verbose_def)

section \<open>Properties\<close>

text \<open>
  C20: no zombies. In every schedule of the shell, its handler and its children, inherited ones included, each process that has become a
  child is still a child or was reaped, exactly once. Children that have ended are reaped even if their
  signals were merged or came while the handler ran: from any state in which the shell runs, at most two steps more than
  there are children, by the handler alone, lead to a state without ended children in which all those of before
  have been reaped.
\<close>

theorem simple_init_reaps:
  assumes "init_start K pname os input = Ret () s" "run (init_step K) es s = Some t"
  shows "distinct (map fst (kids t) @ ireaped t) \<and> set (map fst (kids t) @ ireaped t) = {ipid t <..< nextPid t} \<and>
    (iend t = None \<longrightarrow> (\<exists>fs u. set fs \<subseteq> {Deliver, Main} \<and> length fs \<le> length (kids t) + 2 \<and> run (init_step K) fs t = Some u \<and>
       zombies u = [] \<and> set (zombies t) \<subseteq> set (ireaped u)))"
proof -
  have ok: "init_ok t" using shell.inv_reached [OF assms] .
  have "\<exists>fs u. set fs \<subseteq> {Deliver, Main} \<and> length fs \<le> length (kids t) + 2 \<and> run (init_step K) fs t = Some u \<and>
       zombies u = [] \<and> set (zombies t) \<subseteq> set (ireaped u)" if run: "iend t = None"
  proof -
    have bound: "reports v \<le> length (kids v)" for v by (simp add: reports_def)
    consider "zombies t = []" | "inHandler t" | "sigchld t" "\<not> inHandler t" using ok by (auto simp: init_ok_def)
    then show ?thesis
    proof cases
      case 1
      then show ?thesis by (intro exI [of _ "[]"]) simp
    next
      case 2
      obtain n u where "n \<le> reports t + 1" "run (init_step K) (replicate n Main) t = Some u" "zombies u = []"
          "set (zombies t) \<union> set (ireaped t) \<subseteq> set (ireaped u)" using drain [OF ok 2 run] by blast
      then show ?thesis using bound [of t] by (intro exI [of _ "replicate n Main"] exI [of _ u]) auto
    next
      case 3
      let ?v = "t\<lparr>sigchld := False, inHandler := True\<rparr>"
      have step: "init_step K Deliver t = Some ?v" using 3 run by (simp add: init_step_def)
      have v: "inHandler ?v" "iend ?v = None" using run by simp_all
      obtain n u where "n \<le> reports ?v + 1" "run (init_step K) (replicate n Main) ?v = Some u" "zombies u = []"
          "set (zombies ?v) \<union> set (ireaped ?v) \<subseteq> set (ireaped u)"
        using drain [OF init_step_ok [OF ok step] v] by blast
      then show ?thesis using bound [of ?v] step by (intro exI [of _ "Deliver # replicate n Main"] exI [of _ u]) (auto simp: zombies_def)
    qed
  qed
  with ok show ?thesis by (auto simp only: init_ok_def accounted_def)
qed

theorem simple_init_reaps_witness:
  "\<exists>t. run (init_step sample_os) [Main, Main, Orphan, Exits 3 0, Exits 2 0] sample_shell = Some t \<and> zombies t = [2, 3] \<and>
     (\<exists>fs u. run (init_step sample_os) fs t = Some u \<and> zombies u = [] \<and> {2, 3} \<subseteq> set (ireaped u))"
proof -
  let ?es = "[Main, Main, Orphan, Exits 3 0, Exits 2 0]"
  have "map_option (\<lambda>t. (zombies t, iend t)) (run (init_step sample_os) ?es sample_shell) = Some ([2, 3], None)" by code_simp
  then obtain t where t: "run (init_step sample_os) ?es sample_shell = Some t" "zombies t = [2, 3]" "iend t = None" by auto
  with simple_init_reaps [OF sample_shell_start t(1)] show ?thesis by auto
qed

text \<open>
  C39: a lost wake-up. When the child ends between \<open>fork()\<close> and \<open>pause()\<close>, the handler reaps it before the shell waits. The shell
  then sleeps for ever, although its command has ended: no event but the inheritance of another process can wake it.
\<close>

theorem simple_init_lost_wakeup:
  assumes "ipc s = I_Read" "kids s = []" "\<not> sigchld s" "\<not> inHandler s" "iend s = None"
    and "fgets (CMD_SIZE - 1) (itext s) = (cmd @ [CHR 0x0A], rest)" "cstring cmd" "cmd \<noteq> []"
  shows "\<exists>t. run (init_step K) [Main, Main, Exits (nextPid s) st, Deliver, Main, Main, Main] s = Some t \<and> ipc t = I_Pause \<and> kids t = [] \<and>
    (\<forall>es u. run (init_step K) es t = Some u \<and> Orphan \<notin> set es \<longrightarrow> ipc u = I_Pause \<and> iend u = None)"
proof -
  obtain r where r: "read_command s = r\<lparr>ipc := I_Fork cmd\<rparr>" "core r = core s" "iend r = iend s"
    using read_command_line [OF assms(6-8)] by blast
  have first: "init_step K Main s = Some (r\<lparr>ipc := I_Fork cmd\<rparr>)" using assms r by (simp add: init_step_def main_step_def)
  have "nextPid r = nextPid s" "kids r = []" "\<not> sigchld r" "\<not> inHandler r" "iend r = None" using assms r by (simp_all add: core_def)
  then obtain t where t: "run (init_step K) [Main, Exits (nextPid s) st, Deliver, Main, Main, Main] (r\<lparr>ipc := I_Fork cmd\<rparr>) = Some t" "asleep t"
    using early_end [of "r\<lparr>ipc := I_Fork cmd\<rparr>" cmd K st] by auto
  have "run (init_step K) [Main, Main, Exits (nextPid s) st, Deliver, Main, Main, Main] s = Some t"
    using first t(1) by (simp only: run.simps option.simps)
  with t(2) asleep_run [OF t(2)] show ?thesis by (auto simp: asleep_def)
qed

theorem simple_init_lost_wakeup_witness:
  "\<exists>t u. run (init_step sample_os) [Main, Main, Exits 2 0, Deliver, Main, Main, Main] sample_shell = Some t \<and> kids t = [] \<and>
    run (init_step sample_os) [Grabs 7, Grabs 1] t = Some u \<and> ipc u = I_Pause \<and> iend u = None"
proof -
  have line: "fgets (CMD_SIZE - 1) (itext sample_shell) = (''ps'' @ [CHR 0x0A], [])" and pid: "nextPid sample_shell = 2" by code_simp+
  have "ipc sample_shell = I_Read" "kids sample_shell = []" "\<not> sigchld sample_shell" "\<not> inHandler sample_shell" "iend sample_shell = None"
    by (simp_all add: sample_shell_def init_begin_def)
  then obtain t where t: "run (init_step sample_os) [Main, Main, Exits 2 0, Deliver, Main, Main, Main] sample_shell = Some t" "kids t = []"
      and sleeps: "\<forall>es u. run (init_step sample_os) es t = Some u \<and> Orphan \<notin> set es \<longrightarrow> ipc u = I_Pause \<and> iend u = None"
    using simple_init_lost_wakeup [OF _ _ _ _ _ line, of sample_os 0] by (auto simp only: pid cstring_def simp_thms list.set char.inject)
  have "run (init_step sample_os) [] t = Some t" by simp
  with sleeps have "iend t = None" by fastforce
  then have "run (init_step sample_os) [Grabs 7, Grabs 1] t = Some (t\<lparr>foreground := 1\<rparr>)" by (simp add: init_step_def)
  with t sleeps show ?thesis by fastforce
qed

end
