(* ===== verification/Spec2Isabelle.thy ===== *)
theory Spec2Isabelle
  imports Dtree_Properties Ls_Traverse Stream_Io Tlpi_Lib Shm_Transfer Environ Inet_Sockets Tlpi_Text
    Seccomp_Notify Thread_Incr Producer_Consumer Thread_Join Acl_Update Ns_Capable Userns_Exec Rand_Dtree Simple_Init
begin

text \<open>
  \<^bold>\<open>The programs.\<close> The repository holds notes and programs of several courses. Its C code is the
  program collections of two books on Unix programming. The development models the programs
  among them that have logic of their own:

  \<^item> \<open>inotify_dtree.c\<close> (under \<open>The-Linux-Programming-Interface/tlpi-dist/inotify\<close>), a monitor that keeps
    a cache of all directories below some roots in step with the file system by inotify events;
  \<^item> the directory lister \<open>ls\<close> (under \<open>APUE/apue-code/05/make-examples\<close>): \<open>ls.c\<close>, \<open>cmp.c\<close>, \<open>print.c\<close>,
    \<open>util.c\<close>, \<open>stat_flags.c\<close>, \<open>ls.h\<close>;
  \<^item> of \<open>tlpi-dist\<close> also the library functions that its programs share: \<open>lib/get_num.c\<close>,
    \<open>lib/error_functions.c\<close>, \<open>sockets/read_line.c\<close>, \<open>sockets/read_line_buf.c\<close>, \<open>sockets/rdwrn.c\<close>,
    \<open>sockets/inet_sockets.c\<close>, \<open>svsem/binary_sems.c\<close>, \<open>svsem/event_flags.c\<close>, \<open>proc/setenv.c\<close>,
    \<open>files/file_perms.c\<close>, \<open>users_groups/ugid_functions.c\<close>, \<open>timers/itimerspec_from_str.c\<close>, and the two
    programs \<open>svshm/svshm_xfr_writer.c\<close> and \<open>svshm/svshm_xfr_reader.c\<close>;
  \<^item> the programs of \<open>tlpi-dist/seccomp\<close>: filters of system calls, and two supervisor processes that
    decide the calls of another process (\<open>seccomp_functions.c\<close>, \<open>seccomp_unotify_mkdir.c\<close>,
    \<open>seccomp_unotify_openat.c\<close>);
  \<^item> programs of \<open>tlpi-dist/threads\<close>: the increments of a shared variable (\<open>thread_incr.c\<close> and its variants with
    a mutex, a read-write lock and a spin lock), producers and a consumer (\<open>prod_condvar.c\<close>, \<open>prod_no_condvar.c\<close>),
    the joining of threads in the order of their end (\<open>thread_multijoin.c\<close>);
  \<^item> programs on permissions and user namespaces: \<open>acl/acl_update.c\<close> changes access control lists,
    \<open>namespaces/ns_capable.c\<close> tells whether a process may have capabilities in a namespace,
    \<open>namespaces/userns_child_exec.c\<close> (with \<open>userns_functions.c\<close> and \<open>cap/cap_functions.c\<close>) runs a command in new namespaces,
    \<open>namespaces/simple_init.c\<close> is the first process of a process namespace;
  \<^item> \<open>inotify/rand_dtree.c\<close>, which changes a directory tree at random, so that the monitor has something to follow.

  \<^bold>\<open>Style of the model.\<close> \<open>Prelude\<close> has the type \<open>outcome\<close> of C functions that may end the process
  or meet undefined behaviour (\<open>Ret a s\<close>, \<open>Stop r s\<close>), a weakest-precondition predicate \<open>wp\<close> for it,
  and the C string functions. State is passed explicitly as a record with one field for each
  variable of the source; fixed-width integers are words where their width matters (event masks,
  file modes, file flags, 64-bit totals) and integers otherwise. System calls and libraries whose
  code is not in the repository are parameters: the record \<open>kernel\<close> for the monitor, \<open>lslib\<close>,
  \<open>ls_env\<close> and \<open>ftsops\<close> for ls, \<open>netops\<close> for sockets, \<open>notif_kernel\<close> for the supervisors,
  \<open>libacl\<close> for the access control lists, \<open>nsk\<close>, \<open>usk\<close> and \<open>init_os\<close> for the namespaces, \<open>rdk\<close> for the random operations, lists of outcomes for \<open>read()\<close>, \<open>write()\<close> and
  \<open>semop()\<close>. What the code relies on of them are named hypotheses (\<open>kernel_ok\<close>, \<open>read_ok\<close>,
  \<open>static_fs\<close>, \<open>resources_ok\<close>, \<open>vis_ok\<close>, \<open>fts_finite\<close>, \<open>fts_fresh\<close>, \<open>fit\<close>, \<open>live\<close>, \<open>stable\<close>, \<open>libacl_ok\<close>,
  \<open>ns_ok\<close>, \<open>process_ok\<close>, \<open>nftw_ok\<close>, \<open>rooted\<close>, \<open>roomy\<close>); every witness instantiates them.

  \<^bold>\<open>The monitor.\<close> \<open>Dtree_State\<close> holds the global variables and logging; \<open>Watch_Cache\<close> the array of
  watches with \<open>findWatch()\<close>, \<open>addWatchToCache()\<close> and the consistency check, seen as a finite map
  through the locale \<open>watch_store\<close>; \<open>Root_Dirs\<close> the command-line directories; \<open>Dtree_Watch\<close> the tree
  walk, \<open>rewriteCachedPaths()\<close>, \<open>zapSubtree()\<close> and \<open>reinitialize()\<close>; \<open>Dtree_Events\<close> the handling of
  one event and the read loop with its look-ahead for the second half of a rename;
  \<open>Dtree_Command\<close> the commands and \<open>main()\<close>, whose turns are the relation \<open>main_runs\<close>;
  \<open>Dtree_Mirror\<close> says what the cache is for. \<open>Dtree_Properties\<close> has the properties: the rebuild
  mirrors the directory tree, a rename event does to the cache what the rename does to the tree,
  every event and every turn of \<open>main()\<close> preserves the invariant and stays inside its buffers, the
  read loop ends. Memory that was never set is part of the model: when the cache grows, the message
  about the new slots prints their paths, which is undefined whenever noisy messages are shown or a log
  file is open (\<open>logs_noisy\<close>); the safety properties name this case as an outcome, the functional
  ones of the rebuild exclude it. A failing \<open>realloc()\<close> loses the array before the process exits.
  \<open>Dtree_Sample\<close> is the example on which they are instantiated. The read loop may
  go on for ever when the kernel keeps delivering events, so it has fuel; when the kernel falls
  silent \<open>2 * length evs + 2\<close> rounds are enough, since each event is looked at no more than twice.

  \<^bold>\<open>The lister.\<close> \<open>Ls_Types\<close> has the structures and option variables, \<open>Ls_Options\<close> the option loop
  and the settings after it, \<open>Ls_Cmp\<close> the comparison functions and \<open>mastercmp()\<close>, each an instance
  of the locale \<open>qsort_order\<close>, \<open>Stat_Flags\<close> the conversion of file flags, \<open>Ls_Util\<close> and \<open>Ls_Print\<close>
  the output of names and the five formats, \<open>Ls_Display\<close> the function \<open>display()\<close> with its widths
  and totals, \<open>Ls_Traverse\<close> the walk and \<open>ls_main()\<close>. The properties: \<open>ls_main()\<close> ends with the
  right status and without undefined behaviour (except for \<open>ls -lo\<close>, which frees a static buffer; the
  block size must be at least 512, as \<open>getbsize()\<close> makes it, and dates not within six months of the ends
  of \<open>time_t\<close>; a zero block size, which the variable has before the options are read, is
  undefined in the model as in C);
  the print functions never read a width that was not set; a long listing is aligned; columns
  show each entry once and fit in the terminal; the order of a listing is determined; the flags
  read back as printed. The loop over \<open>fts_read()\<close> has fuel; any fuel above the number of entries
  that the traversal delivers (the measure of \<open>fts_finite\<close>) gives the result.

  \<^bold>\<open>The library functions.\<close> \<open>Stream_Io\<close>: the buffered and the unbuffered line reader return the same
  lines, \<open>writen()\<close> and \<open>readn()\<close> transfer all bytes across partial transfers. \<open>Tlpi_Lib\<close>: \<open>getInt()\<close>
  accepts exactly what its flags allow and reads back printed numbers; the error functions end the
  process as documented. \<open>Shm_Transfer\<close>: the semaphore functions and the two programs as step
  functions, with \<open>runs\<close> for all their interleavings: exclusive access, a correct copy, no deadlock; and their
  start-up, which makes the semaphores and the segment.
  \<open>Environ\<close>: \<open>setenv()\<close> and \<open>unsetenv()\<close> implement a map (locale \<open>env_store\<close>). \<open>Inet_Sockets\<close>: the
  functions that open sockets leave no descriptor behind, apart from a failing \<open>listen()\<close>.
  \<open>Tlpi_Text\<close>: texts of permissions, identifiers and timer settings determine the values (locale
  \<open>id_names\<close> for users and groups).

  \<^bold>\<open>The filters and supervisors.\<close> \<open>Bpf\<close> is the machine that the kernel runs filters on, with its checks on
  installation; a filter that passes them always returns. \<open>Seccomp_Filters\<close> has the filters of the
  programs as instruction lists and the functions that install, dump and load them:
  two halves of 32 bits are compared like one offset of 64 bits; a filter for three ABIs decides each
  call by its ABI and number; what is loaded from a file is what was written to it, after a partial
  write too, up to the 16 bits of the length. \<open>Seccomp_Notify\<close> has the supervisors: what they do stays within what the program promises
  even when the target changes its memory or ends between any two calls, and with options, filters and supervisor
  together a target sees the documented result of \<open>mkdir()\<close>.

  \<^bold>\<open>The threads.\<close> \<open>Interleaving\<close> has schedules as lists of events and the contracts of interleaved programs as
  locales: an invariant (\<open>interleaved\<close>), a measure (\<open>charged\<close>), absence of deadlock (\<open>progressing\<close>).
  \<open>Thread_Incr\<close> proves them once for every lock with the contract \<open>exclusive_lock\<close> and interprets it
  on the three locks; \<open>Producer_Consumer\<close> has the producers and the consumer; \<open>Thread_Join\<close> the main thread
  that reaps its threads as they end. No increment, no unit and no wake-up is lost, every thread is joined
  once, and every schedule is bounded (apart from spurious wake-ups).

  \<^bold>\<open>Permissions and namespaces.\<close> \<open>Acl_Update\<close>: the text of an entry is read back as printed, an update does to the
  list what it does to a map from tags to permissions, and the program ends only when the library refuses
  the list that the next entry makes; the contract \<open>libacl_ok\<close> asks for qualifiers on named users
  and groups only, and for the three permissions only.
  \<open>Ns_Capable\<close>: the walk from the target namespace to its ancestors is a partial function, which returns
  when the kernel's namespaces form a finite tree (\<open>ns_ok\<close>); the printed verdict is the kernel's rule \<open>cap_capable\<close>;
  the exit status is wrong
  when the walk has an odd number of steps, since a descriptor is closed twice. \<open>Userns_Exec\<close>: the option loop
  stays inside its buffers, three documented options cannot be given, parent and child are two step functions
  over a pipe, all their interleavings have at most nine steps, and a command is executed in an unmapped
  namespace when the parent ends before it has written the maps. \<open>Simple_Init\<close>: shell, signal handler and children as interleaved
  steps; no child is left unreaped or reaped twice, but a child that ends too early leaves the shell asleep.

  \<^bold>\<open>The random operations.\<close> \<open>Rand_Dtree\<close>: every operation stays below the root, and only directories with the marker
  are removed or renamed. The result of \<open>strdup()\<close> is not tested by the program; a failure leaves a null pointer
  in the list, whose use is undefined, as is the overflow of its counters; \<open>roomy\<close> excludes both. Its main loop may go on for ever, so it is followed for a number of rounds: with \<open>-m\<close>
  a removing run ends within so many rounds, a renaming run in a small tree never does. Its inner loops are total:
  names are at most 60 bytes long, and a removal goes up the pathname.

  \<^bold>\<open>How the parts interact.\<close> \<open>Ls_Traverse\<close> calls \<open>Ls_Display\<close>, which calls the print function that
  \<open>Ls_Options\<close> chose; these call \<open>Ls_Util\<close> and \<open>Stat_Flags\<close>; the walk uses the order of \<open>Ls_Cmp\<close>.
  The supervisor of \<open>Seccomp_Notify\<close> answers what the filters of \<open>Seccomp_Filters\<close> send to it.
  In the monitor \<open>main()\<close> calls commands and the event loop, both change the cache through the
  tree walk, and the walk through \<open>Watch_Cache\<close>. The transfer programs use the input model of
  \<open>Stream_Io\<close>.

  \<^bold>\<open>Not modelled.\<close> Signal handlers apart from that of \<open>simple_init.c\<close>, errors of stdio; overflow of counters of type \<open>int\<close>, apart from the threads, the transfer
  programs and the random operations, where it is modelled; the failure of \<open>strdup()\<close> in \<open>zapSubtree()\<close>; the release
  of the owner names at the end of \<open>display()\<close>; \<open>errno\<close> after a successful \<open>setenv()\<close>; \<open>SEM_UNDO\<close>; what an executed command does;
  the passing of the notification descriptor between the processes of \<open>seccomp\<close> and the main loop of their targets; the test program in \<open>setenv.c\<close>. The other programs of the two collections show
  one system call each, so that almost all of their behaviour is the kernel's; they are listed in the
  manifest as not modelled, as are notes, binary files and code in other languages.

  \<^bold>\<open>Plan.\<close> Left for later: the region locks of \<open>filelock\<close>, the servers of \<open>sockets\<close> and \<open>svmsg\<close>, the barrier
  demonstration of \<open>threads\<close>, the passing of descriptors in \<open>sockets/scm_functions.c\<close>.
\<close>

end
